(* ===== verification/Prelude.thy ===== *)
theory Prelude
  imports Main "HOL-Library.Word" "HOL-Library.Multiset" "HOL-Library.AList"
begin

text \<open>
  Shared vocabulary of the development: the machine types of the Go sources, the
  element swap of an array, the Go integer division, and the generic list and map lemmas the
  component theories use.

  Conventions. A Go \<^verbatim>\<open>int\<close> that is an index or a length is a \<open>nat\<close> (or an \<open>int\<close> where
  the code lets it become negative); a \<^verbatim>\<open>uint64\<close>, or an \<^verbatim>\<open>int\<close> or \<^verbatim>\<open>int64\<close> that is
  arithmetic data, is a \<open>64 word\<close>, so that additions wrap around as they do in Go. A Go map that
  is only looked up is a \<open>'k \<rightharpoonup> 'v\<close>; a Go map that is iterated is an association list
  whose order is arbitrary, since Go leaves the iteration order open. A method that returns
  \<^verbatim>\<open>(v, ok)\<close> returns an \<open>option\<close>.
  Methods of the sources run under their receiver's mutex; one method call is one atomic step.
\<close>

named_theorems heap_steps \<open>one-step facts of the sift loops\<close>
named_theorems map_laws \<open>lookup equations of the key-value structures\<close>
named_theorems inv_intros \<open>preservation of the component invariants\<close>

type_synonym u64 = "64 word"
type_synonym i64 = "64 word"
type_synonym bytes = "8 word list"

section \<open>Arrays\<close>

definition swap :: "'a list \<Rightarrow> nat \<Rightarrow> nat \<Rightarrow> 'a list" where
  "swap xs i j = xs[i := xs ! j, j := xs ! i]"

lemma length_swap [simp]: "length (swap xs i j) = length xs"
  by (simp add: swap_def)

lemma swap_eq_Nil [simp]: "swap xs i j = [] \<longleftrightarrow> xs = []"
  by (simp add: swap_def)

lemma nth_swap:
  "i < length xs \<Longrightarrow> j < length xs \<Longrightarrow> k < length xs \<Longrightarrow>
   swap xs i j ! k = (if k = i then xs ! j else if k = j then xs ! i else xs ! k)"
  by (auto simp: swap_def nth_list_update)

lemma mset_swap_eq [simp]: "i < length xs \<Longrightarrow> j < length xs \<Longrightarrow> mset (swap xs i j) = mset xs"
  by (simp add: swap_def Multiset.mset_swap)

lemma map_swap: "i < length xs \<Longrightarrow> j < length xs \<Longrightarrow> map f (swap xs i j) = swap (map f xs) i j"
  by (simp add: swap_def map_update)

lemma swap_same [simp]: "i < length xs \<Longrightarrow> swap xs i i = xs"
  by (simp add: swap_def)

section \<open>Integers\<close>

text \<open>Go's \<^verbatim>\<open>/\<close> truncates towards zero.\<close>

definition go_div :: "int \<Rightarrow> int \<Rightarrow> int" where
  "go_div a b = sgn a * sgn b * (\<bar>a\<bar> div \<bar>b\<bar>)"

lemma go_div_nonneg: "0 \<le> a \<Longrightarrow> 0 < b \<Longrightarrow> go_div a b = a div b"
  by (cases "a = 0") (auto simp: go_div_def)

section \<open>Lists\<close>

lemma sorted_iff_nth_le:
  "sorted xs \<longleftrightarrow> (\<forall>i j. i \<le> j \<longrightarrow> j < length xs \<longrightarrow> xs ! i \<le> xs ! j)"
  by (auto simp: sorted_iff_nth_mono)

lemma nth_mem_take: "i < k \<Longrightarrow> k \<le> length xs \<Longrightarrow> xs ! i \<in> set (take k xs)"
  by (metis length_take min.absorb2 nth_mem nth_take)

lemma in_set_take_conv:
  "x \<in> set (take k xs) \<longleftrightarrow> (\<exists>i < min k (length xs). x = xs ! i)"
  by (auto simp: in_set_conv_nth)

section \<open>Association lists\<close>

lemma set_alist_update: "set (AList.update k v al) \<subseteq> insert (k, v) (set al)"
  by (induction al) auto

lemma in_alist_update:
  "distinct (map fst al) \<Longrightarrow> (a, b) \<in> set (AList.update k v al) \<longleftrightarrow> (if a = k then b = v else (a, b) \<in> set al)"
  by (metis distinct_update map_of_eq_Some_iff option.inject update_Some_unfold)

lemma alist_update_notin: "k \<notin> fst ` set al \<Longrightarrow> AList.update k v al = al @ [(k, v)]"
  by (induction al) auto

lemma in_alist_delete: "(a, b) \<in> set (AList.delete k al) \<longleftrightarrow> a \<noteq> k \<and> (a, b) \<in> set al"
  by (auto simp: AList.delete_eq)

section \<open>Strings\<close>

text \<open>Letter case of ASCII characters, as \<^verbatim>\<open>strings.ToLower\<close>, \<^verbatim>\<open>strings.ToUpper\<close> and \<^verbatim>\<open>strings.EqualFold\<close> see it.\<close>

definition lower_char :: "char \<Rightarrow> char" where
  "lower_char c = (let n = (of_char c :: nat) in if 65 \<le> n \<and> n \<le> 90 then char_of (n + 32) else c)"

definition upper_char :: "char \<Rightarrow> char" where
  "upper_char c = (let n = (of_char c :: nat) in if 97 \<le> n \<and> n \<le> 122 then char_of (n - 32) else c)"

definition equalFold :: "string \<Rightarrow> string \<Rightarrow> bool" where
  "equalFold a b \<longleftrightarrow> map lower_char a = map lower_char b"

definition is_space :: "char \<Rightarrow> bool" where
  "is_space c \<longleftrightarrow> (of_char c :: nat) \<in> set [9, 10, 11, 12, 13, 32]"

definition trimSpace :: "string \<Rightarrow> string" where
  "trimSpace s = rev (dropWhile is_space (rev (dropWhile is_space s)))"

end
