(* ===== verification/Heap_Order.thy ===== *)
theory Heap_Order
  imports Prelude
begin

text \<open>
  The array-heap argument shared by \<^verbatim>\<open>pkg/algorithms/sort/heapsort\<close> (a max-heap) and
  \<^verbatim>\<open>pkg/datastructures/heap\<close> (a min-heap), stated once over a total preorder \<open>le\<close> in which
  the smaller element belongs nearer to the root.  A sift loop moves a \<^emph>\<open>hole\<close>: the array
  satisfies the heap property everywhere but around the hole, and one swap moves the hole one
  level down (sift down) or up (sift up).
\<close>

definition heap_child :: "nat \<Rightarrow> nat \<Rightarrow> bool" where
  "heap_child i c \<longleftrightarrow> c = 2 * i + 1 \<or> c = 2 * i + 2"

lemma heap_child_parent: "heap_child i c \<longleftrightarrow> 0 < c \<and> i = (c - 1) div 2"
  by (auto simp: heap_child_def)

lemma heap_child_gt: "heap_child i c \<Longrightarrow> i < c"
  by (auto simp: heap_child_def)

lemma heap_child_unique: "heap_child i c \<Longrightarrow> heap_child i' c \<Longrightarrow> i = i'"
  by (auto simp: heap_child_def)

locale heap_order =
  fixes le :: "'k \<Rightarrow> 'k \<Rightarrow> bool"
  assumes le_refl: "le x x"
    and le_trans: "le x y \<Longrightarrow> le y z \<Longrightarrow> le x z"
    and le_total: "le x y \<or> le y x"
begin

text \<open>\<open>heap_from s n lo\<close>: the heap property of the nodes from index \<open>lo\<close> on, in the
  prefix of length \<open>n\<close>.\<close>

definition heap_from :: "'k list \<Rightarrow> nat \<Rightarrow> nat \<Rightarrow> bool" where
  "heap_from s n lo \<longleftrightarrow> (\<forall>i c. lo \<le> i \<and> heap_child i c \<and> c < n \<longrightarrow> le (s ! i) (s ! c))"

definition down_hole :: "'k list \<Rightarrow> nat \<Rightarrow> nat \<Rightarrow> nat \<Rightarrow> bool" where
  "down_hole s n lo h \<longleftrightarrow>
     (\<forall>i c. lo \<le> i \<and> i \<noteq> h \<and> heap_child i c \<and> c < n \<longrightarrow> le (s ! i) (s ! c)) \<and>
     (\<forall>i c. lo \<le> i \<and> heap_child i h \<and> heap_child h c \<and> c < n \<longrightarrow> le (s ! i) (s ! c))"

definition up_hole :: "'k list \<Rightarrow> nat \<Rightarrow> nat \<Rightarrow> bool" where
  "up_hole s n h \<longleftrightarrow>
     (\<forall>i c. heap_child i c \<and> c < n \<and> c \<noteq> h \<longrightarrow> le (s ! i) (s ! c)) \<and>
     (\<forall>i c. heap_child i h \<and> heap_child h c \<and> c < n \<longrightarrow> le (s ! i) (s ! c))"

lemma le_cases: "\<not> le x y \<Longrightarrow> le y x"
  using le_total by blast

lemma heap_from_mono: "heap_from s n lo \<Longrightarrow> lo \<le> lo' \<Longrightarrow> heap_from s n lo'"
  by (auto simp: heap_from_def)

lemma heap_from_shrink: "heap_from s n lo \<Longrightarrow> m \<le> n \<Longrightarrow> heap_from s m lo"
  by (auto simp: heap_from_def)

lemma heap_from_cong:
  "(\<And>i. i < n \<Longrightarrow> s ! i = t ! i) \<Longrightarrow> heap_from s n lo \<longleftrightarrow> heap_from t n lo"
  by (auto simp: heap_from_def dest: heap_child_gt) (metis heap_child_gt less_trans)+

lemma heap_from_down_hole:
  assumes "heap_from s n (Suc h)"
  shows "down_hole s n h h"
  using assms unfolding heap_from_def down_hole_def
  by (metis Suc_leI heap_child_gt le_neq_implies_less not_le)

lemma down_hole_stop:
  assumes "down_hole s n lo h" and "\<And>c. heap_child h c \<Longrightarrow> c < n \<Longrightarrow> le (s ! h) (s ! c)"
  shows "heap_from s n lo"
  using assms by (auto simp: heap_from_def down_hole_def)

lemma down_hole_step:
  assumes hole: "down_hole s n lo h" and c: "heap_child h c" "c < n" and n: "n \<le> length s"
    and min: "\<And>d. heap_child h d \<Longrightarrow> d < n \<Longrightarrow> le (s ! c) (s ! d)"
    and down: "le (s ! c) (s ! h)"
  shows "down_hole (swap s h c) n lo c"
proof -
  have hc: "h < c" using c heap_child_gt by blast
  have nth: "swap s h c ! k = (if k = h then s ! c else if k = c then s ! h else s ! k)"
    if "k < n" for k
    using that hc c n by (simp add: nth_swap)
  have A: "le (swap s h c ! i) (swap s h c ! d)"
    if i: "lo \<le> i" "i \<noteq> c" "heap_child i d" "d < n" for i d
  proof -
    have id: "i < d" "i < n" using i heap_child_gt by force+
    consider (root) "i = h" | (above) "i \<noteq> h" "d = h" | (other) "i \<noteq> h" "d \<noteq> h" by blast
    then show ?thesis
    proof cases
      case root
      then show ?thesis using i id min[of d] down hc c nth[of i] nth[of d] by auto
    next
      case above
      then have "le (s ! i) (s ! c)"
        using hole i c unfolding down_hole_def by blast
      then show ?thesis using above i id nth[of i] nth[of d] by auto
    next
      case other
      have "d \<noteq> c" using other i c heap_child_unique by blast
      moreover have "le (s ! i) (s ! d)"
        using hole i other unfolding down_hole_def by blast
      ultimately show ?thesis using other i id nth[of i] nth[of d] by auto
    qed
  qed
  have B: "le (swap s h c ! i) (swap s h c ! d)"
    if i: "lo \<le> i" "heap_child i c" "heap_child c d" "d < n" for i d
  proof -
    have "i = h" using i c heap_child_unique by blast
    moreover have cd: "c < d" using i heap_child_gt by blast
    moreover have "le (s ! c) (s ! d)"
      using hole i hc cd \<open>i = h\<close> unfolding down_hole_def by auto
    ultimately show ?thesis using i c hc nth[of h] nth[of d] by auto
  qed
  show ?thesis unfolding down_hole_def using A B by blast
qed

lemma up_hole_stop:
  assumes "up_hole s n h" and "\<And>p. heap_child p h \<Longrightarrow> h < n \<Longrightarrow> le (s ! p) (s ! h)"
  shows "heap_from s n 0"
  using assms by (auto simp: heap_from_def up_hole_def)

lemma up_hole_step:
  assumes up_hole: "up_hole s n h" and p: "heap_child p h" and h: "h < n" and n: "n \<le> length s"
    and up: "le (s ! h) (s ! p)"
  shows "up_hole (swap s h p) n p"
proof -
  have ph: "p < h" using p heap_child_gt by blast
  have nth: "swap s h p ! k = (if k = h then s ! p else if k = p then s ! h else s ! k)"
    if "k < n" for k
    using that ph h n by (simp add: nth_swap)
  have A: "le (swap s h p ! i) (swap s h p ! c)"
    if i: "heap_child i c" "c < n" "c \<noteq> p" for i c
  proof -
    have ic: "i < c" "i < n" using i heap_child_gt by force+
    consider (hole) "c = h" | (sib) "c \<noteq> h" "i = p" | (below) "c \<noteq> h" "i = h"
      | (other) "c \<noteq> h" "i \<noteq> p" "i \<noteq> h" by blast
    then show ?thesis
    proof cases
      case hole
      then have "i = p" using i p heap_child_unique by blast
      then show ?thesis using hole up i ic ph nth[of i] nth[of c] by auto
    next
      case sib
      then have "le (s ! p) (s ! c)" using up_hole i unfolding up_hole_def by blast
      then have "le (s ! h) (s ! c)" using up le_trans by blast
      then show ?thesis using sib i ic ph nth[of i] nth[of c] by auto
    next
      case below
      then have "le (s ! p) (s ! c)" using up_hole i p unfolding up_hole_def by blast
      then show ?thesis using below i ic ph nth[of i] nth[of c] by auto
    next
      case other
      then have "le (s ! i) (s ! c)" using up_hole i unfolding up_hole_def by blast
      then show ?thesis using other i ic nth[of i] nth[of c] by auto
    qed
  qed
  have B: "le (swap s h p ! i) (swap s h p ! c)"
    if i: "heap_child i p" "heap_child p c" "c < n" for i c
  proof -
    have ip: "i < p" using i heap_child_gt by blast
    have pc: "p < c" using i heap_child_gt by blast
    have top: "le (s ! i) (s ! p)"
      using up_hole i h ph unfolding up_hole_def by auto
    show ?thesis
    proof (cases "c = h")
      case True
      then show ?thesis using top ip ph h nth[of i] nth[of c] by auto
    next
      case False
      then have "le (s ! p) (s ! c)" using up_hole i unfolding up_hole_def by blast
      then have "le (s ! i) (s ! c)" using top le_trans by blast
      then show ?thesis using False ip ph h i pc nth[of i] nth[of c] by auto
    qed
  qed
  show ?thesis unfolding up_hole_def using A B by blast
qed

lemma heap_root_least:
  assumes "heap_from s n 0" and "k < n"
  shows "le (s ! 0) (s ! k)"
  using assms(2)
proof (induction k rule: less_induct)
  case (less k)
  show ?case
  proof (cases "k = 0")
    case True
    then show ?thesis by (simp add: le_refl)
  next
    case False
    then have child: "heap_child ((k - 1) div 2) k" by (simp add: heap_child_parent)
    then have "le (s ! ((k - 1) div 2)) (s ! k)"
      using assms(1) less.prems by (auto simp: heap_from_def)
    moreover have "le (s ! 0) (s ! ((k - 1) div 2))"
      using less child heap_child_gt by (metis dual_order.strict_trans)
    ultimately show ?thesis using le_trans by blast
  qed
qed

end

end
