(* ===== verification/Sorting.thy ===== *)
theory Sorting
  imports Heap_Order
begin

text \<open>
  The comparison sorts of \<^verbatim>\<open>pkg/algorithms/sort\<close>: heapsort, mergesort and quicksort.
  A slice is a list; in-place sorts return the list the slice holds afterwards, and a recursive
  call on a sub-slice \<^verbatim>\<open>s[:p]\<close> rewrites that part of the list.  The locale \<open>sorter\<close> is the
  contract the packages share; every sort is shown to satisfy it, so that they agree with
  each other and with the library's \<open>sort\<close>.
\<close>

section \<open>The contract of a sort\<close>

locale sorter =
  fixes srt :: "'a::linorder list \<Rightarrow> 'a list"
  assumes perm: "mset (srt s) = mset s"
    and ascending: "sorted (srt s)"
begin

lemma same_length: "length (srt s) = length s"
  by (metis perm size_mset)

lemma same_set: "set (srt s) = set s"
  by (metis perm set_mset_mset)

lemma is_sort: "srt s = sort s"
  using perm ascending properties_for_sort by metis

lemma idempotent: "srt (srt s) = srt s"
  using ascending [of s] by (simp add: is_sort [of "srt s"] sorted_sort_id)

lemma input_order_irrelevant: "mset s = mset t \<Longrightarrow> srt s = srt t"
  by (metis is_sort properties_for_sort mset_sort sorted_sort)

end

section \<open>Heapsort\<close>

function heapify :: "'a::linorder list \<Rightarrow> nat \<Rightarrow> nat \<Rightarrow> 'a list" where
  "heapify s n i =
     (let l = 2 * i + 1; r = 2 * i + 2;
          largest = (if l < n \<and> s ! l > s ! i then l else i);
          largest = (if r < n \<and> s ! r > s ! largest then r else largest)
      in if largest \<noteq> i then heapify (swap s i largest) n largest else s)"
  by pat_completeness auto
termination
  by (relation "measure (\<lambda>(s, n, i). n - i)") (auto simp: Let_def split: if_splits)

declare heapify.simps [simp del]

text \<open>The two loops of \<^verbatim>\<open>Sort\<close>: the first calls \<open>heapify\<close> for \<open>k - 1, \<dots>, 0\<close>, the second
  moves the root behind the shrinking heap for \<open>k, \<dots>, 1\<close>.\<close>

fun heapsort_build :: "'a::linorder list \<Rightarrow> nat \<Rightarrow> nat \<Rightarrow> 'a list" where
  "heapsort_build s n 0 = s"
| "heapsort_build s n (Suc k) = heapsort_build (heapify s n k) n k"

fun heapsort_extract :: "'a::linorder list \<Rightarrow> nat \<Rightarrow> 'a list" where
  "heapsort_extract s 0 = s"
| "heapsort_extract s (Suc k) = heapsort_extract (heapify (swap s 0 (Suc k)) (Suc k) 0) k"

definition heapsort_Sort :: "'a::linorder list \<Rightarrow> 'a list" where
  "heapsort_Sort s =
     (let n = length s in heapsort_extract (heapsort_build s n (n div 2)) (n - 1))"

interpretation max_heap: heap_order "\<lambda>x y::'a::linorder. y \<le> x"
  by unfold_locales auto

text \<open>The node \<open>heapify\<close> swaps with: the larger child, when it is larger than the parent.\<close>

lemma heapify_cases:
  fixes s :: "'a::linorder list"
  obtains (stop) "heapify s n i = s" "\<And>c. heap_child i c \<Longrightarrow> c < n \<Longrightarrow> s ! c \<le> s ! i"
  | (step) c where "heapify s n i = heapify (swap s i c) n c" "heap_child i c" "c < n"
      "s ! i \<le> s ! c" "\<And>d. heap_child i d \<Longrightarrow> d < n \<Longrightarrow> s ! d \<le> s ! c" "n - c < n - i"
proof -
  let ?m = "if 2 * i + 1 < n \<and> s ! (2 * i + 1) > s ! i then 2 * i + 1 else i"
  let ?c = "if 2 * i + 2 < n \<and> s ! (2 * i + 2) > s ! ?m then 2 * i + 2 else ?m"
  have eq: "heapify s n i = (if ?c \<noteq> i then heapify (swap s i ?c) n ?c else s)"
    by (subst heapify.simps) (simp add: Let_def)
  show thesis
  proof (cases "?c = i")
    case True
    then show thesis using eq
      by (intro stop) (auto simp: heap_child_def split: if_splits)
  next
    case False
    then show thesis using eq
      by (intro step[of ?c]) (auto simp: heap_child_def split: if_splits)
  qed
qed

lemma mset_heapify:
  "n \<le> length s \<Longrightarrow> mset (heapify s n i) = mset s \<and> length (heapify s n i) = length s
     \<and> (\<forall>k \<ge> n. heapify s n i ! k = s ! k)"
proof (induction "n - i" arbitrary: s i rule: less_induct)
  case less
  show ?case
  proof (cases rule: heapify_cases[of s n i])
    case stop
    then show ?thesis by simp
  next
    case (step c)
    then have ic: "i < length s" "c < length s" using less.prems heap_child_gt by force+
    have "mset (heapify (swap s i c) n c) = mset (swap s i c)
        \<and> length (heapify (swap s i c) n c) = length (swap s i c)
        \<and> (\<forall>k \<ge> n. heapify (swap s i c) n c ! k = swap s i c ! k)"
      using step less.prems by (intro less.hyps) auto
    moreover have "i < n" using step heap_child_gt less_trans by blast
    moreover have "swap s i c ! k = s ! k" if "n \<le> k" for k
      using that step \<open>i < n\<close> by (simp add: swap_def)
    ultimately show ?thesis using step ic by simp
  qed
qed

lemmas heapify_frame =
  mset_heapify [THEN conjunct1] mset_heapify [THEN conjunct2, THEN conjunct1]
  mset_heapify [THEN conjunct2, THEN conjunct2, rule_format]

lemma heapify_heap:
  "n \<le> length s \<Longrightarrow> max_heap.down_hole s n lo i \<Longrightarrow> lo \<le> i \<Longrightarrow>
   max_heap.heap_from (heapify s n i) n lo"
proof (induction "n - i" arbitrary: s i rule: less_induct)
  case less
  show ?case
  proof (cases rule: heapify_cases[of s n i])
    case stop
    then show ?thesis using less.prems max_heap.down_hole_stop by fastforce
  next
    case (step c)
    have "max_heap.down_hole (swap s i c) n lo c"
      using step less.prems by (intro max_heap.down_hole_step) auto
    moreover have "lo \<le> c" using step heap_child_gt less.prems by fastforce
    ultimately show ?thesis using step less by simp
  qed
qed

lemma heapsort_build_heap:
  "n \<le> length s \<Longrightarrow> max_heap.heap_from s n k \<Longrightarrow>
   max_heap.heap_from (heapsort_build s n k) n 0 \<and> mset (heapsort_build s n k) = mset s"
proof (induction k arbitrary: s)
  case 0
  then show ?case by simp
next
  case (Suc k)
  have "max_heap.heap_from (heapify s n k) n k"
    using Suc.prems max_heap.heap_from_down_hole by (intro heapify_heap) auto
  then show ?case using Suc by (simp add: heapify_frame)
qed

text \<open>The leaves of an array heap start at \<open>n div 2\<close>.\<close>

lemma heap_leaves: "max_heap.heap_from s n (n div 2)"
  by (auto simp: max_heap.heap_from_def heap_child_def)

text \<open>The extraction invariant: a heap in front, and behind it a sorted part whose elements
  dominate the heap.\<close>

definition extract_inv :: "'a::linorder list \<Rightarrow> nat \<Rightarrow> bool" where
  "extract_inv s k \<longleftrightarrow> k \<le> length s \<and> max_heap.heap_from s k 0 \<and> sorted (drop k s) \<and>
     (\<forall>x \<in> set (take k s). \<forall>y \<in> set (drop k s). x \<le> y)"

lemma extract_inv_step:
  assumes inv: "extract_inv s (Suc (Suc k))"
  shows "extract_inv (heapify (swap s 0 (Suc k)) (Suc k) 0) (Suc k)"
proof -
  let ?n = "Suc (Suc k)" and ?m = "Suc k"
  let ?t = "swap s 0 ?m" and ?h = "heapify (swap s 0 ?m) ?m 0"
  have n: "?n \<le> length s" using inv by (simp add: extract_inv_def)
  have nth_t: "?t ! j = (if j = 0 then s ! ?m else if j = ?m then s ! 0 else s ! j)"
    if "j < length s" for j
    using that n by (subst nth_swap) auto
  have hole: "max_heap.down_hole ?t ?m 0 0"
    using inv n unfolding max_heap.down_hole_def extract_inv_def max_heap.heap_from_def
    by (auto simp: nth_t dest: heap_child_gt) (auto simp: nth_t heap_child_def)
  have m: "?m \<le> length ?t" using n by simp
  have heap: "max_heap.heap_from ?h ?m 0"
    using m hole by (rule heapify_heap) simp
  have "mset ?t = mset s" using n by (intro mset_swap_eq) auto
  then have msh: "mset ?h = mset s" "length ?h = length s"
    using m by (auto simp: heapify_frame)
  have dropt: "drop ?m ?h = s ! 0 # drop ?n s"
  proof (rule nth_equalityI)
    show "length (drop ?m ?h) = length (s ! 0 # drop ?n s)" using n msh by simp
    fix i assume "i < length (drop ?m ?h)"
    then show "drop ?m ?h ! i = (s ! 0 # drop ?n s) ! i"
      using m n msh by (cases i) (auto simp: heapify_frame nth_t)
  qed
  have "take ?n s = take ?m s @ [s ! ?m]" using n by (simp add: take_Suc_conv_app_nth)
  moreover have "mset (take ?m ?h @ drop ?m ?h) = mset (take ?n s @ drop ?n s)"
    using msh by simp
  ultimately have "mset (take ?m ?h) + {# s ! 0 #} = mset (take ?n s)"
    unfolding dropt mset_append mset.simps by (simp del: append_take_drop_id)
  then have sub: "set (take ?m ?h) \<subseteq> set (take ?n s)"
    by (metis mset_subset_eq_add_left set_mset_mono set_mset_mset)
  have root: "s ! 0 \<in> set (take ?n s)" using n by (intro nth_mem_take) auto
  have top: "x \<le> s ! 0" if "x \<in> set (take ?n s)" for x
    using that inv max_heap.heap_root_least[of s ?n]
    by (auto simp: in_set_take_conv extract_inv_def)
  show ?thesis
    unfolding extract_inv_def dropt
    using heap inv n sub root top msh by (auto simp: extract_inv_def)
qed

lemma heapsort_extract_inv:
  "extract_inv s (Suc k) \<Longrightarrow>
   extract_inv (heapsort_extract s k) 1 \<and> mset (heapsort_extract s k) = mset s"
proof (induction k arbitrary: s)
  case 0
  then show ?case by simp
next
  case (Suc k)
  have "Suc k < length s" using Suc.prems by (simp add: extract_inv_def)
  then have "mset (swap s 0 (Suc k)) = mset s" by (intro mset_swap_eq) auto
  moreover have "Suc (Suc k) \<le> length s" using Suc.prems by (simp add: extract_inv_def)
  moreover have "extract_inv (heapify (swap s 0 (Suc k)) (Suc k) 0) (Suc k)"
    using Suc.prems by (rule extract_inv_step)
  ultimately show ?case using Suc.IH by (simp add: heapify_frame)
qed

lemma extract_inv_sorted:
  assumes "extract_inv s 1"
  shows "sorted s"
proof -
  have "s \<noteq> []" using assms by (auto simp: extract_inv_def)
  then obtain x xs where "s = x # xs" by (cases s) auto
  then show ?thesis using assms by (auto simp: extract_inv_def)
qed

lemma heapsort_correct: "mset (heapsort_Sort s) = mset s \<and> sorted (heapsort_Sort s)"
proof (cases s)
  case Nil
  then show ?thesis by (simp add: heapsort_Sort_def)
next
  case (Cons a as)
  let ?n = "length s" and ?b = "heapsort_build s (length s) (length s div 2)"
  have b: "max_heap.heap_from ?b ?n 0" "mset ?b = mset s"
    using heapsort_build_heap[of ?n s "?n div 2"] heap_leaves by auto
  then have len: "length ?b = ?n" by (metis size_mset)
  have "extract_inv ?b (Suc (?n - 1))"
    using b len Cons by (simp add: extract_inv_def)
  then have "extract_inv (heapsort_extract ?b (?n - 1)) 1"
      "mset (heapsort_extract ?b (?n - 1)) = mset s"
    using heapsort_extract_inv b(2) by metis+
  then show ?thesis
    using extract_inv_sorted by (simp add: heapsort_Sort_def Let_def)
qed

interpretation heapsort: sorter heapsort_Sort
  by unfold_locales (simp_all add: heapsort_correct)

section \<open>Mergesort\<close>

text \<open>The merge loop over the indices \<open>i\<close> and \<open>j\<close> is a recursion on what remains of the two
  slices; its two trailing \<^verbatim>\<open>append\<close>s are the base cases.\<close>

fun mergesort_merge :: "'a::linorder list \<Rightarrow> 'a list \<Rightarrow> 'a list" where
  "mergesort_merge [] right = right"
| "mergesort_merge left [] = left"
| "mergesort_merge (x # left) (y # right) =
     (if x \<le> y then x # mergesort_merge left (y # right)
      else y # mergesort_merge (x # left) right)"

fun mergesort_Sort :: "'a::linorder list \<Rightarrow> 'a list" where
  "mergesort_Sort s =
     (if length s \<le> 1 then s
      else let mid = length s div 2
           in mergesort_merge (mergesort_Sort (take mid s)) (mergesort_Sort (drop mid s)))"

declare mergesort_Sort.simps [simp del]

lemma mset_mergesort_merge: "mset (mergesort_merge l r) = mset l + mset r"
  by (induction l r rule: mergesort_merge.induct) auto

lemma set_mergesort_merge: "set (mergesort_merge l r) = set l \<union> set r"
  by (metis mset_mergesort_merge set_mset_mset set_mset_union)

lemma sorted_mergesort_merge: "sorted l \<Longrightarrow> sorted r \<Longrightarrow> sorted (mergesort_merge l r)"
  by (induction l r rule: mergesort_merge.induct) (auto simp: set_mergesort_merge)

lemma mergesort_correct: "mset (mergesort_Sort s) = mset s \<and> sorted (mergesort_Sort s)"
proof (induction s rule: mergesort_Sort.induct)
  case (1 s)
  show ?case
  proof (cases "length s \<le> 1")
    case True
    then show ?thesis by (simp add: mergesort_Sort.simps [of s] sorted01)
  next
    case False
    let ?a = "take (length s div 2) s" and ?b = "drop (length s div 2) s"
    have ih: "mset (mergesort_Sort ?a) = mset ?a" "sorted (mergesort_Sort ?a)"
      "mset (mergesort_Sort ?b) = mset ?b" "sorted (mergesort_Sort ?b)"
      using False 1 by auto
    have "mset ?a + mset ?b = mset s" by (metis append_take_drop_id mset_append)
    then show ?thesis using False ih
      by (simp add: mergesort_Sort.simps [of s] Let_def mset_mergesort_merge sorted_mergesort_merge)
  qed
qed

interpretation mergesort: sorter mergesort_Sort
  by unfold_locales (simp_all add: mergesort_correct)

section \<open>Quicksort\<close>

text \<open>The scan of \<^verbatim>\<open>partition\<close>.  The source's \<open>i\<close> starts at -1 and is only used as \<open>i + 1\<close>;
  the argument \<open>k\<close> is that \<open>i + 1\<close>.\<close>

function quicksort_scan :: "'a::linorder list \<Rightarrow> 'a \<Rightarrow> nat \<Rightarrow> nat \<Rightarrow> 'a list \<times> nat" where
  "quicksort_scan s pivot k j =
     (if j < length s - 1
      then if s ! j < pivot then quicksort_scan (swap s k j) pivot (Suc k) (Suc j)
           else quicksort_scan s pivot k (Suc j)
      else (s, k))"
  by pat_completeness auto
termination
  by (relation "measure (\<lambda>(s, pivot, k, j). length s - j)") auto

declare quicksort_scan.simps [simp del]

definition quicksort_partition :: "'a::linorder list \<Rightarrow> 'a list \<times> nat" where
  "quicksort_partition s =
     (let pivot = s ! (length s - 1); (t, k) = quicksort_scan s pivot 0 0
      in (swap t k (length t - 1), k))"

text \<open>The median-of-three selection: three conditional swaps and the move of the median to the
  end.\<close>

definition quicksort_median :: "'a::linorder list \<Rightarrow> 'a list" where
  "quicksort_median s =
     (let mid = length s div 2; high = length s - 1;
          s = (if s ! mid < s ! 0 then swap s 0 mid else s);
          s = (if s ! high < s ! 0 then swap s 0 high else s);
          s = (if s ! high < s ! mid then swap s mid high else s)
      in swap s mid high)"

definition scan_inv :: "'a::linorder list \<Rightarrow> 'a \<Rightarrow> nat \<Rightarrow> nat \<Rightarrow> bool" where
  "scan_inv s pivot k j \<longleftrightarrow> k \<le> j \<and> j \<le> length s - 1 \<and> s \<noteq> [] \<and> s ! (length s - 1) = pivot \<and>
     (\<forall>i < k. s ! i < pivot) \<and> (\<forall>i. k \<le> i \<and> i < j \<longrightarrow> pivot \<le> s ! i)"

lemma scan_inv_less: "scan_inv s p k j \<Longrightarrow> j < length s - 1 \<Longrightarrow> s ! j < p \<Longrightarrow>
    scan_inv (swap s k j) p (Suc k) (Suc j)"
  by (auto simp: scan_inv_def nth_swap less_Suc_eq)

lemma scan_inv_ge: "scan_inv s p k j \<Longrightarrow> j < length s - 1 \<Longrightarrow> \<not> s ! j < p \<Longrightarrow>
    scan_inv s p k (Suc j)"
  by (auto simp: scan_inv_def less_Suc_eq not_less)

lemma quicksort_scan_correct:
  "scan_inv s p k j \<Longrightarrow> quicksort_scan s p k j = (t, m) \<Longrightarrow>
   scan_inv t p m (length t - 1) \<and> mset t = mset s"
proof (induction s p k j arbitrary: t m rule: quicksort_scan.induct)
  case (1 s p k j)
  have kj: "k < length s" "j < length s" if "j < length s - 1"
    using that 1(3) by (auto simp: scan_inv_def)
  consider (less) "j < length s - 1" "s ! j < p" | (ge) "j < length s - 1" "\<not> s ! j < p"
    | (stop) "\<not> j < length s - 1" by blast
  then show ?case
  proof cases
    case less
    then have "scan_inv t p m (length t - 1) \<and> mset t = mset (swap s k j)"
      using 1 by (intro "1.IH"(1)) (auto simp: scan_inv_less quicksort_scan.simps [of s p k j])
    then show ?thesis using kj less by simp
  next
    case ge
    then show ?thesis
      using 1 by (intro "1.IH"(2)) (auto simp: scan_inv_ge quicksort_scan.simps [of s p k j])
  next
    case stop
    then have "t = s" "m = k" using "1.prems"(2) by (simp_all add: quicksort_scan.simps [of s p k j])
    moreover have "j = length s - 1" using stop "1.prems"(1) by (auto simp: scan_inv_def)
    ultimately show ?thesis using "1.prems"(1) by simp
  qed
qed

text \<open>After the final swap the pivot stands at \<open>p\<close>.\<close>

lemma scan_inv_pivot:
  assumes inv: "scan_inv u piv p (length u - 1)"
  defines "t \<equiv> swap u p (length u - 1)"
  shows "p < length u" "t ! p = piv" "\<And>i. i < p \<Longrightarrow> t ! i < piv"
    "\<And>i. p < i \<Longrightarrow> i < length u \<Longrightarrow> piv \<le> t ! i"
proof -
  have u: "u \<noteq> []" and p: "p \<le> length u - 1" and last: "u ! (length u - 1) = piv"
    and lo: "\<And>i. i < p \<Longrightarrow> u ! i < piv" and hi: "\<And>i. p \<le> i \<Longrightarrow> i < length u - 1 \<Longrightarrow> piv \<le> u ! i"
    using inv by (auto simp: scan_inv_def)
  have len: "length u - 1 < length u" "p < length u" using u p by (cases u; auto)+
  have nth: "t ! i = (if i = p then piv else if i = length u - 1 then u ! p else u ! i)"
    if "i < length u" for i
    using that len last unfolding t_def by (subst nth_swap) auto
  show "p < length u" by (rule len)
  show "t ! p = piv" using nth len by simp
  show "t ! i < piv" if "i < p" for i using that nth [of i] lo len p by simp
  show "piv \<le> t ! i" if "p < i" "i < length u" for i
    using that nth [of i] hi [of i] hi [of p] by (cases "i = length u - 1") auto
qed

lemma quicksort_partition_correct:
  assumes "s \<noteq> []" and "quicksort_partition s = (t, p)"
  shows "mset t = mset s" "p < length t" "\<forall>x \<in> set (take p t). x < t ! p"
    "\<forall>x \<in> set (drop (Suc p) t). t ! p \<le> x"
proof -
  let ?piv = "s ! (length s - 1)"
  obtain u where u: "quicksort_scan s ?piv 0 0 = (u, p)" and t: "t = swap u p (length u - 1)"
    using assms(2) by (auto simp: quicksort_partition_def Let_def split: prod.splits)
  have "scan_inv s ?piv 0 0" using assms(1) by (simp add: scan_inv_def)
  then have inv: "scan_inv u ?piv p (length u - 1)" and m: "mset u = mset s"
    using quicksort_scan_correct u by blast+
  note piv = scan_inv_pivot [OF inv, folded t]
  have u0: "u \<noteq> []" using inv by (simp add: scan_inv_def)
  show "mset t = mset s" unfolding t m [symmetric] using piv(1) u0 by (intro mset_swap_eq) auto
  show "p < length t" using piv(1) by (simp add: t)
  show "\<forall>x \<in> set (take p t). x < t ! p"
    unfolding piv(2) using piv(3) by (auto simp: in_set_take_conv)
  show "\<forall>x \<in> set (drop (Suc p) t). t ! p \<le> x"
    unfolding piv(2) using piv(4) by (auto simp: in_set_conv_nth t)
qed

lemma mset_quicksort_median:
  assumes "s \<noteq> []"
  shows "mset (quicksort_median s) = mset s"
proof -
  let ?m = "length s div 2" and ?h = "length s - 1"
  have "?m < length s" "?h < length s" "0 < length s" using assms by auto
  then show ?thesis unfolding quicksort_median_def Let_def
    by (simp only: mset_swap_eq length_swap split: if_split) simp
qed

lemma quicksort_split:
  assumes "\<not> length s \<le> 1" and "quicksort_partition (quicksort_median s) = (t, p)"
  shows "mset t = mset s" "length t = length s" "p < length t"
    "\<forall>x \<in> set (take p t). x < t ! p" "\<forall>x \<in> set (drop (Suc p) t). t ! p \<le> x"
proof -
  have s: "s \<noteq> []" using assms(1) by auto
  then have m: "mset (quicksort_median s) = mset s" by (rule mset_quicksort_median)
  then have "quicksort_median s \<noteq> []" using s by auto
  note part = quicksort_partition_correct [OF this assms(2)]
  show "mset t = mset s" using part(1) m by simp
  then show "length t = length s" by (rule mset_eq_length)
  show "p < length t" "\<forall>x \<in> set (take p t). x < t ! p" "\<forall>x \<in> set (drop (Suc p) t). t ! p \<le> x"
    using part by auto
qed

function quicksort_Sort :: "'a::linorder list \<Rightarrow> 'a list" where
  "quicksort_Sort s =
     (if length s \<le> 1 then s
      else let (t, p) = quicksort_partition (quicksort_median s)
           in quicksort_Sort (take p t) @ [t ! p] @ quicksort_Sort (drop (p + 1) t))"
  by pat_completeness auto
termination
proof (relation "measure length", goal_cases)
  case (2 s y t p)
  then have "quicksort_partition (quicksort_median s) = (t, p)" by simp
  from quicksort_split(2,3) [OF 2(1) this] show ?case by simp
next
  case (3 s y t p)
  then have "quicksort_partition (quicksort_median s) = (t, p)" by simp
  from quicksort_split(2,3) [OF 3(1) this] show ?case by simp
qed simp

declare quicksort_Sort.simps [simp del]

lemma quicksort_correct: "mset (quicksort_Sort s) = mset s \<and> sorted (quicksort_Sort s)"
proof (induction s rule: quicksort_Sort.induct)
  case (1 s)
  show ?case
  proof (cases "length s \<le> 1")
    case True
    then show ?thesis by (simp add: quicksort_Sort.simps [of s] sorted01)
  next
    case False
    obtain t p where tp: "quicksort_partition (quicksort_median s) = (t, p)" by fastforce
    note part = quicksort_split [OF False tp]
    let ?a = "take p t" and ?b = "drop (p + 1) t"
    have ih: "mset (quicksort_Sort ?a) = mset ?a" "sorted (quicksort_Sort ?a)"
        "mset (quicksort_Sort ?b) = mset ?b" "sorted (quicksort_Sort ?b)"
      using False 1 tp by auto
    then have sets: "set (quicksort_Sort ?a) = set ?a" "set (quicksort_Sort ?b) = set ?b"
      by (metis set_mset_mset)+
    have eq: "quicksort_Sort s = quicksort_Sort ?a @ [t ! p] @ quicksort_Sort ?b"
      using False tp by (simp add: quicksort_Sort.simps [of s])
    have perm: "mset (?a @ [t ! p] @ ?b) = mset t" using part(3) by (simp add: id_take_nth_drop [symmetric])
    have "x \<le> y" if "x \<in> set ?a" "y \<in> set ?b" for x y
      using that part(4,5) by (metis Suc_eq_plus1 less_imp_le order.trans)
    then show ?thesis
      unfolding eq using ih part sets perm by (auto simp: sorted_append less_imp_le)
  qed
qed

interpretation quicksort: sorter quicksort_Sort
  by unfold_locales (simp_all add: quicksort_correct)

section \<open>The three sorts agree\<close>

text \<open>Heapsort, mergesort and quicksort, for every slice of a totally ordered type, return
  the same ascending permutation of their input: the library's \<open>sort\<close>.  In particular each of the
  three returns for every input.\<close>

lemma sorts_agree:
  "heapsort_Sort s = sort s \<and> mergesort_Sort s = sort s \<and> quicksort_Sort s = sort s"
  by (simp add: heapsort.is_sort mergesort.is_sort quicksort.is_sort)

end
