(* ===== verification/Search.thy ===== *)
theory Search
  imports Prelude
begin

text \<open>
  \<^verbatim>\<open>pkg/algorithms/search/binarysearch\<close>.  The search loop is the recursion \<open>search_loop\<close> on
  the interval \<open>[lo, hi)\<close>; \<open>Search\<close>, \<open>LowerBound\<close> and \<open>UpperBound\<close> use it as the source does.
  \<open>SearchFunc\<close> has the contract of Go's \<^verbatim>\<open>sort.Search\<close>, which the ring, bitmap and tree packages
  call; they are modelled over it.
\<close>

function search_loop :: "(nat \<Rightarrow> bool) \<Rightarrow> nat \<Rightarrow> nat \<Rightarrow> nat" where
  "search_loop ok lo hi =
     (if lo < hi
      then let mid = lo + (hi - lo) div 2
           in if \<not> ok mid then search_loop ok (mid + 1) hi else search_loop ok lo mid
      else lo)"
  by pat_completeness auto
termination
  by (relation "measure (\<lambda>(ok, lo, hi). hi - lo)") auto

declare search_loop.simps [simp del]

definition SearchFunc :: "nat \<Rightarrow> (nat \<Rightarrow> bool) \<Rightarrow> nat" where
  "SearchFunc n ok = search_loop ok 0 n"

definition bsearch_Search :: "'a::linorder list \<Rightarrow> 'a \<Rightarrow> nat \<times> bool" where
  "bsearch_Search s target =
     (let lo = search_loop (\<lambda>mid. \<not> s ! mid < target) 0 (length s)
      in if lo < length s \<and> s ! lo = target then (lo, True) else (lo, False))"

definition LowerBound :: "'a::linorder list \<Rightarrow> 'a \<Rightarrow> nat" where
  "LowerBound s target = SearchFunc (length s) (\<lambda>i. s ! i \<ge> target)"

definition UpperBound :: "'a::linorder list \<Rightarrow> 'a \<Rightarrow> nat" where
  "UpperBound s target = SearchFunc (length s) (\<lambda>i. s ! i > target)"

section \<open>The loop finds the boundary of a monotone predicate\<close>

text \<open>Without any assumption on \<open>ok\<close> the result lies in the interval and is a boundary point;
  with a monotone \<open>ok\<close> it is the first index where \<open>ok\<close> holds.\<close>

lemma search_loop_step:
  "search_loop ok lo hi =
     (if lo < hi
      then if ok (lo + (hi - lo) div 2) then search_loop ok lo (lo + (hi - lo) div 2)
           else search_loop ok (Suc (lo + (hi - lo) div 2)) hi
      else lo)"
  by (subst search_loop.simps) (simp add: Let_def)

lemma search_loop_bounds: "lo \<le> hi \<Longrightarrow> lo \<le> search_loop ok lo hi \<and> search_loop ok lo hi \<le> hi"
proof (induction "hi - lo" arbitrary: lo hi rule: less_induct)
  case less
  let ?mid = "lo + (hi - lo) div 2"
  show ?case
  proof (cases "lo < hi")
    case True
    then have mid: "lo \<le> ?mid" "?mid < hi" "?mid - lo < hi - lo" "hi - Suc ?mid < hi - lo" by auto
    then show ?thesis
      using less.hyps [of ?mid lo] less.hyps [of hi "Suc ?mid"] True
      by (subst (1 2) search_loop_step) (simp del: add_Suc)
  next
    case False
    then show ?thesis using less.prems by (subst (1 2) search_loop_step) simp
  qed
qed

lemma search_loop_first:
  assumes mono: "\<And>i j. i \<le> j \<Longrightarrow> j < n \<Longrightarrow> ok i \<Longrightarrow> ok j"
  shows "lo \<le> hi \<Longrightarrow> hi \<le> n \<Longrightarrow> \<forall>i < lo. \<not> ok i \<Longrightarrow> \<forall>i. hi \<le> i \<and> i < n \<longrightarrow> ok i \<Longrightarrow>
    (\<forall>i < search_loop ok lo hi. \<not> ok i) \<and> (\<forall>i. search_loop ok lo hi \<le> i \<and> i < n \<longrightarrow> ok i)"
proof (induction "hi - lo" arbitrary: lo hi rule: less_induct)
  case less
  let ?mid = "lo + (hi - lo) div 2"
  consider (stop) "\<not> lo < hi" | (right) "lo < hi" "\<not> ok ?mid" | (left) "lo < hi" "ok ?mid"
    by blast
  then show ?case
  proof cases
    case stop
    then have "search_loop ok lo hi = lo" by (subst search_loop_step) simp
    moreover have "hi = lo" using stop less.prems by simp
    ultimately show ?thesis using less.prems by simp
  next
    case right
    then have mid: "?mid < n" "hi - Suc ?mid < hi - lo" "Suc ?mid \<le> hi" using less.prems by auto
    have below: "\<forall>i < Suc ?mid. \<not> ok i"
    proof (intro allI impI notI)
      fix i assume "i < Suc ?mid" "ok i"
      then have "ok ?mid" using mid by (intro mono [of i ?mid]) simp_all
      then show False using right by blast
    qed
    have "search_loop ok lo hi = search_loop ok (Suc ?mid) hi"
      using right by (subst search_loop_step) simp
    then show ?thesis using less.hyps [OF mid(2,3) less.prems(2) below less.prems(4)] by simp
  next
    case left
    have above: "\<forall>i. ?mid \<le> i \<and> i < n \<longrightarrow> ok i" using left mono by blast
    have "search_loop ok lo hi = search_loop ok lo ?mid"
      using left by (subst search_loop_step) simp
    moreover have "?mid - lo < hi - lo" "lo \<le> ?mid" "?mid \<le> n" using left less.prems by auto
    ultimately show ?thesis using less.hyps [OF _ _ _ less.prems(3) above] by simp
  qed
qed

lemma SearchFunc_le: "SearchFunc n ok \<le> n"
  using search_loop_bounds [of 0 n ok] by (simp add: SearchFunc_def)

lemma SearchFunc_first:
  assumes "\<And>i j. i \<le> j \<Longrightarrow> j < n \<Longrightarrow> ok i \<Longrightarrow> ok j"
  shows "i < SearchFunc n ok \<Longrightarrow> \<not> ok i" and "SearchFunc n ok \<le> i \<Longrightarrow> i < n \<Longrightarrow> ok i"
proof -
  have "(\<forall>i < search_loop ok 0 n. \<not> ok i) \<and> (\<forall>i. search_loop ok 0 n \<le> i \<and> i < n \<longrightarrow> ok i)"
    by (rule search_loop_first [of n ok, OF assms]) auto
  then show "i < SearchFunc n ok \<Longrightarrow> \<not> ok i" "SearchFunc n ok \<le> i \<Longrightarrow> i < n \<Longrightarrow> ok i"
    unfolding SearchFunc_def by blast+
qed

lemma LowerBound_correct:
  assumes "sorted s"
  shows "i < LowerBound s x \<Longrightarrow> s ! i < x" and "LowerBound s x \<le> i \<Longrightarrow> i < length s \<Longrightarrow> x \<le> s ! i"
    and "LowerBound s x \<le> length s"
proof -
  have mono: "x \<le> s ! j" if "i \<le> j" "j < length s" "x \<le> s ! i" for i j
    using assms that by (metis order.trans sorted_nth_mono)
  show "i < LowerBound s x \<Longrightarrow> s ! i < x"
    using SearchFunc_first(1) [of "length s" "\<lambda>i. x \<le> s ! i", OF mono] by (simp add: LowerBound_def not_le)
  show "LowerBound s x \<le> i \<Longrightarrow> i < length s \<Longrightarrow> x \<le> s ! i"
    using SearchFunc_first(2) [of "length s" "\<lambda>i. x \<le> s ! i", OF mono] by (simp add: LowerBound_def)
  show "LowerBound s x \<le> length s" by (simp add: LowerBound_def SearchFunc_le)
qed

lemma UpperBound_correct:
  assumes "sorted s"
  shows "i < UpperBound s x \<Longrightarrow> s ! i \<le> x" and "UpperBound s x \<le> i \<Longrightarrow> i < length s \<Longrightarrow> x < s ! i"
    and "UpperBound s x \<le> length s"
proof -
  have mono: "x < s ! j" if "i \<le> j" "j < length s" "x < s ! i" for i j
    using assms that by (metis order.strict_trans2 sorted_nth_mono)
  show "i < UpperBound s x \<Longrightarrow> s ! i \<le> x"
    using SearchFunc_first(1) [of "length s" "\<lambda>i. x < s ! i", OF mono] by (simp add: UpperBound_def not_less)
  show "UpperBound s x \<le> i \<Longrightarrow> i < length s \<Longrightarrow> x < s ! i"
    using SearchFunc_first(2) [of "length s" "\<lambda>i. x < s ! i", OF mono] by (simp add: UpperBound_def)
  show "UpperBound s x \<le> length s" by (simp add: UpperBound_def SearchFunc_le)
qed

lemma bsearch_is_LowerBound:
  "bsearch_Search s x = (LowerBound s x, LowerBound s x < length s \<and> s ! LowerBound s x = x)"
  by (simp add: bsearch_Search_def LowerBound_def SearchFunc_def Let_def not_less)

section \<open>The searches on an ascending slice\<close>

text \<open>On an ascending slice \<open>Search\<close> reports that the target is present exactly when it is,
  the index it returns then holds the target, and in every case that index is the insertion
  point: everything before it is smaller, everything from it on is not, so inserting the target
  there keeps the slice ascending.  \<open>LowerBound\<close> and \<open>UpperBound\<close> delimit exactly the
  occurrences of the target.\<close>

lemma bsearch_correct:
  assumes "sorted s"
  shows "(snd (bsearch_Search s x) \<longleftrightarrow> x \<in> set s) \<and>
    (snd (bsearch_Search s x) \<longrightarrow> s ! fst (bsearch_Search s x) = x) \<and>
    sorted (take (fst (bsearch_Search s x)) s @ x # drop (fst (bsearch_Search s x)) s) \<and>
    (\<forall>i < length s. s ! i = x \<longleftrightarrow> LowerBound s x \<le> i \<and> i < UpperBound s x)"
proof -
  note low = LowerBound_correct [OF assms, where x = x] and up = UpperBound_correct [OF assms, where x = x]
  let ?l = "LowerBound s x"
  have mem: "(?l < length s \<and> s ! ?l = x) \<longleftrightarrow> x \<in> set s"
  proof
    assume "x \<in> set s"
    then obtain i where i: "i < length s" "s ! i = x" by (auto simp: in_set_conv_nth)
    then have "?l \<le> i" using low(1) [of i] by (metis less_irrefl not_le)
    then have "s ! ?l \<le> x" using i assms by (metis sorted_nth_mono)
    then show "?l < length s \<and> s ! ?l = x" using \<open>?l \<le> i\<close> i low(2) [of ?l] by auto
  qed (metis nth_mem)
  have "sorted (take ?l s @ x # drop ?l s)"
    using assms low sorted_nth_mono [OF assms]
    by (auto simp: sorted_append sorted_wrt_take sorted_wrt_drop in_set_conv_nth less_imp_le)
  moreover have "s ! i = x \<longleftrightarrow> ?l \<le> i \<and> i < UpperBound s x" if "i < length s" for i
    using that low(1,2) [of i] up(1,2) [of i] by (metis antisym less_irrefl not_le)
  ultimately show ?thesis using mem by (auto simp: bsearch_is_LowerBound)
qed

end
