(* ===== verification/Quorum.thy ===== *)
theory Quorum
  imports Prelude
begin

text \<open>
  Majorities, and the voting argument that the consensus packages rest on.  The locale
  \<open>quorum\<close> is the interface: any family of sets of which two always meet.  Inside it, a set of
  votes \<open>(acceptor, ballot, value)\<close> in which every ballot was cast after hearing from a quorum can
  choose one value at most.  Counting \<^verbatim>\<open>> n/2\<close> answers, as \<^verbatim>\<open>paxos.go\<close> and \<^verbatim>\<open>raft.go\<close> do,
  gives such a family.
\<close>

locale quorum =
  fixes quorum :: "'a set \<Rightarrow> bool"
  assumes meet: "quorum Q \<Longrightarrow> quorum R \<Longrightarrow> \<exists>i. i \<in> Q \<and> i \<in> R"
begin

definition chosen :: "('a \<times> int \<times> 'v) set \<Rightarrow> int \<Rightarrow> 'v \<Rightarrow> bool" where
  "chosen votes n v \<longleftrightarrow> (\<exists>Q. quorum Q \<and> (\<forall>i \<in> Q. (i, n, v) \<in> votes))"

text \<open>\<open>safe_at votes n v\<close>: some quorum has no vote below \<open>n\<close>, or \<open>v\<close> was voted for at the highest
  ballot below \<open>n\<close> at which that quorum voted.\<close>

definition safe_at :: "('a \<times> int \<times> 'v) set \<Rightarrow> int \<Rightarrow> 'v \<Rightarrow> bool" where
  "safe_at votes n v \<longleftrightarrow> (\<exists>Q. quorum Q \<and> (\<exists>c < n. (c = -1 \<or> (\<exists>j. (j, c, v) \<in> votes)) \<and>
     (\<forall>i \<in> Q. \<forall>m w. (i, m, w) \<in> votes \<longrightarrow> m \<le> c \<or> n \<le> m)))"

definition voting :: "('a \<times> int \<times> 'v) set \<Rightarrow> bool" where
  "voting votes \<longleftrightarrow> (\<forall>i n v. (i, n, v) \<in> votes \<longrightarrow> 0 \<le> n \<and> safe_at votes n v) \<and>
     (\<forall>i j n v w. (i, n, v) \<in> votes \<longrightarrow> (j, n, w) \<in> votes \<longrightarrow> v = w)"

lemma votingD:
  assumes "voting votes" "(i, n, v) \<in> votes"
  shows "0 \<le> n" "safe_at votes n v" "(j, n, w) \<in> votes \<Longrightarrow> w = v"
  using assms unfolding voting_def by metis+

lemma chosen_voted: "chosen votes n v \<Longrightarrow> \<exists>i. (i, n, v) \<in> votes"
  unfolding chosen_def using meet by metis

lemma later_vote_agrees:
  assumes voting: "voting votes" and chosen: "chosen votes m w"
  shows "(i, n, v) \<in> votes \<Longrightarrow> m \<le> n \<Longrightarrow> v = w"
proof (induction "nat n" arbitrary: i n v rule: less_induct)
  case less
  obtain R where R: "quorum R" "\<forall>i \<in> R. (i, m, w) \<in> votes" using chosen unfolding chosen_def by blast
  obtain k where k: "(k, m, w) \<in> votes" using chosen_voted [OF chosen] by blast
  show ?case
  proof (cases "n = m")
    case True
    then show ?thesis using votingD(3) [OF voting k] less.prems by simp
  next
    case False
    then have mn: "m < n" using less.prems by simp
    from votingD(2) [OF voting less.prems(1)] obtain Q c where Q: "quorum Q" "c < n" "c = -1 \<or> (\<exists>j. (j, c, v) \<in> votes)"
        "\<forall>i \<in> Q. \<forall>m w. (i, m, w) \<in> votes \<longrightarrow> m \<le> c \<or> n \<le> m"
      unfolding safe_at_def by blast
    obtain l where "l \<in> Q" "l \<in> R" using meet Q(1) R(1) by blast
    then have "m \<le> c" using Q(4) R(2) mn by (meson not_le)
    moreover have "0 \<le> m" using votingD(1) [OF voting k] .
    ultimately obtain j where "(j, c, v) \<in> votes" using Q(3) by auto
    then show ?thesis using less.hyps [of c j v] \<open>m \<le> c\<close> \<open>0 \<le> m\<close> \<open>c < n\<close> by simp
  qed
qed

lemma agreement:
  assumes "voting votes" "chosen votes m w" "chosen votes n v"
  shows "v = w"
proof (cases "m \<le> n")
  case True
  then show ?thesis using later_vote_agrees [OF assms(1,2)] chosen_voted [OF assms(3)] by blast
next
  case False
  then show ?thesis using later_vote_agrees [OF assms(1,3)] chosen_voted [OF assms(2)] by (metis linear)
qed

end

section \<open>Majorities\<close>

text \<open>The test \<^verbatim>\<open>count > n/2\<close> of the sources, for a set \<open>A\<close> of \<open>n\<close> nodes; Paxos numbers its
  peers from 0.\<close>

definition majority_of :: "'a set \<Rightarrow> 'a set \<Rightarrow> bool" where
  "majority_of A Q \<longleftrightarrow> finite A \<and> Q \<subseteq> A \<and> card A div 2 < card Q"

lemma majority_of_meet:
  assumes "majority_of A Q" "majority_of A R"
  shows "\<exists>i. i \<in> Q \<and> i \<in> R"
proof (rule ccontr)
  assume "\<not> ?thesis"
  then have "Q \<inter> R = {}" by blast
  moreover have "finite Q" "finite R" using assms finite_subset by (auto simp: majority_of_def)
  ultimately have "card (Q \<union> R) = card Q + card R" by (simp add: card_Un_disjoint)
  moreover have "card (Q \<union> R) \<le> card A" using assms card_mono [of A "Q \<union> R"] by (auto simp: majority_of_def)
  ultimately show False using assms by (auto simp: majority_of_def)
qed

interpretation maj_of: quorum "majority_of A" for A
  by unfold_locales (rule majority_of_meet)

definition majority :: "nat \<Rightarrow> nat set \<Rightarrow> bool" where
  "majority n Q \<longleftrightarrow> Q \<subseteq> {..<n} \<and> n div 2 < card Q"

lemma majority_eq: "majority n = majority_of {..<n}"
  by (auto simp: majority_def majority_of_def fun_eq_iff)

interpretation maj: quorum "majority n" for n
  unfolding majority_eq by unfold_locales

lemmas majority_meet = maj.meet

end
