(* ===== verification/Paxos.thy ===== *)
theory Paxos
  imports Quorum
begin

text \<open>
  \<^verbatim>\<open>pkg/algorithms/consensus/paxos/paxos.go\<close>: the acceptor's two handlers over its per-slot
  memory, the learner, the proposer's two phases over a transport, and the Multi-Paxos sequencing
  on top.  A value is an \<open>'v option\<close>, \<open>None\<close> being Go's \<^verbatim>\<open>nil\<close>.  The transport is not part of
  the package: it is a record of functions over a world \<open>'w\<close> that the calls transform.  Proposal
  ids are \<open>int\<close>s: they start at 0 and grow by one per proposal.
\<close>

section \<open>Acceptor\<close>

record 'v slotState =
  lastPromisedID :: int
  acceptedID :: int
  AcceptedValue :: "'v option"

type_synonym 'v Acceptor = "int \<rightharpoonup> 'v slotState"

definition NewAcceptor :: "'v Acceptor" where
  "NewAcceptor = Map.empty"

definition acceptor_state :: "'v Acceptor \<Rightarrow> int \<Rightarrow> 'v Acceptor \<times> 'v slotState" where
  "acceptor_state a slot =
     (case a slot of
        Some s \<Rightarrow> (a, s)
      | None \<Rightarrow> let s = \<lparr>lastPromisedID = -1, acceptedID = -1, AcceptedValue = None\<rparr>
                in (a(slot \<mapsto> s), s))"

definition AcceptedValueAt :: "'v Acceptor \<Rightarrow> int \<Rightarrow> 'v option" where
  "AcceptedValueAt a slot = (case a slot of None \<Rightarrow> None | Some s \<Rightarrow> AcceptedValue s)"

definition ReceivePrepare ::
  "'v Acceptor \<Rightarrow> int \<Rightarrow> int \<Rightarrow> 'v Acceptor \<times> bool \<times> int \<times> 'v option" where
  "ReceivePrepare a slot proposalID =
     (let (a, s) = acceptor_state a slot
      in if proposalID > lastPromisedID s
         then (a(slot \<mapsto> s\<lparr>lastPromisedID := proposalID\<rparr>), True, acceptedID s, AcceptedValue s)
         else (a, False, -1, None))"

definition ReceiveAccept ::
  "'v Acceptor \<Rightarrow> int \<Rightarrow> int \<Rightarrow> 'v option \<Rightarrow> 'v Acceptor \<times> bool" where
  "ReceiveAccept a slot proposalID value =
     (let (a, s) = acceptor_state a slot
      in if proposalID \<ge> lastPromisedID s
         then (a(slot \<mapsto> s\<lparr>lastPromisedID := proposalID, acceptedID := proposalID,
                          AcceptedValue := value\<rparr>), True)
         else (a, False))"

section \<open>Learner\<close>

text \<open>The nested count maps are one map on the triple; a missing entry counts as 0, Go's zero
  value.\<close>

record 'v Learner =
  counts :: "int \<times> int \<times> 'v option \<Rightarrow> nat"
  learned :: "int \<rightharpoonup> 'v option"

definition NewLearner :: "'v Learner" where
  "NewLearner = \<lparr>counts = (\<lambda>_. 0), learned = Map.empty\<rparr>"

definition learner_Observe ::
  "nat \<Rightarrow> 'v Learner \<Rightarrow> int \<Rightarrow> int \<Rightarrow> 'v option \<Rightarrow> 'v Learner \<times> bool" where
  "learner_Observe numPeers l slot proposalID value =
     (if learned l slot \<noteq> None then (l, True)
      else let n = counts l (slot, proposalID, value) + 1;
               l = l\<lparr>counts := (counts l)((slot, proposalID, value) := n)\<rparr>
           in if n > numPeers div 2 then (l\<lparr>learned := (learned l)(slot \<mapsto> value)\<rparr>, True)
              else (l, False))"

definition learner_Value :: "'v Learner \<Rightarrow> int \<Rightarrow> 'v option option" where
  "learner_Value l slot = learned l slot"

section \<open>Proposer\<close>

record ('w, 'v) Transport =
  tPrepare :: "'w \<Rightarrow> nat \<Rightarrow> int \<Rightarrow> int \<Rightarrow> 'w \<times> bool \<times> int \<times> 'v option"
  tAccept :: "'w \<Rightarrow> nat \<Rightarrow> int \<Rightarrow> int \<Rightarrow> 'v option \<Rightarrow> 'w \<times> bool"
  tNotifyLearn :: "('w \<Rightarrow> int \<Rightarrow> int \<Rightarrow> 'v option \<Rightarrow> 'w) option"

datatype paxos_error = NoMajorityPromises | NoMajorityAccepts

text \<open>The two loops of \<^verbatim>\<open>propose\<close>, for \<open>k\<close> remaining peers from peer \<open>i\<close> on.\<close>

fun prepare_loop ::
  "('w, 'v) Transport \<Rightarrow> int \<Rightarrow> int \<Rightarrow> nat \<Rightarrow> nat \<Rightarrow> 'w \<Rightarrow> nat \<Rightarrow> int \<Rightarrow> 'v option \<Rightarrow>
   'w \<times> nat \<times> int \<times> 'v option" where
  "prepare_loop t slot propID 0 i w promises highestAcceptedID highestValue =
     (w, promises, highestAcceptedID, highestValue)"
| "prepare_loop t slot propID (Suc k) i w promises highestAcceptedID highestValue =
     (let (w, promised, accID, accVal) = tPrepare t w i slot propID
      in if promised
         then if accID > highestAcceptedID
              then prepare_loop t slot propID k (Suc i) w (promises + 1) accID accVal
              else prepare_loop t slot propID k (Suc i) w (promises + 1) highestAcceptedID highestValue
         else prepare_loop t slot propID k (Suc i) w promises highestAcceptedID highestValue)"

fun accept_loop ::
  "('w, 'v) Transport \<Rightarrow> int \<Rightarrow> int \<Rightarrow> 'v option \<Rightarrow> nat \<Rightarrow> nat \<Rightarrow> 'w \<Rightarrow> nat \<Rightarrow> 'w \<times> nat" where
  "accept_loop t slot propID value 0 i w accepts = (w, accepts)"
| "accept_loop t slot propID value (Suc k) i w accepts =
     (let (w, accepted) = tAccept t w i slot propID value
      in if accepted
         then let w = (case tNotifyLearn t of None \<Rightarrow> w | Some notify \<Rightarrow> notify w slot propID value)
              in accept_loop t slot propID value k (Suc i) w (accepts + 1)
         else accept_loop t slot propID value k (Suc i) w accepts)"

definition paxos_value :: "'v option \<Rightarrow> 'v option \<Rightarrow> 'v option" where
  "paxos_value value highestValue = (if highestValue \<noteq> None then highestValue else value)"

text \<open>\<^verbatim>\<open>propose\<close> returns the new counter of the proposer, which is also the id it used, and the
  error if there is one; the code returns true exactly when the error is nil.\<close>

definition paxos_propose ::
  "nat \<Rightarrow> ('w, 'v) Transport \<Rightarrow> 'w \<Rightarrow> int \<Rightarrow> int \<Rightarrow> 'v option \<Rightarrow> 'w \<times> int \<times> (paxos_error + unit)" where
  "paxos_propose numPeers t w proposalID slot value =
     (let propID = proposalID + 1;
          (w, promises, highestAcceptedID, highestValue) =
            prepare_loop t slot propID numPeers 0 w 0 (-1) None
      in if promises \<le> numPeers div 2 then (w, propID, Inl NoMajorityPromises)
         else let (w, accepts) =
                accept_loop t slot propID (paxos_value value highestValue) numPeers 0 w 0
              in if accepts \<le> numPeers div 2 then (w, propID, Inl NoMajorityAccepts)
                 else (w, propID, Inr ()))"

definition paxos_Propose ::
  "nat \<Rightarrow> ('w, 'v) Transport \<Rightarrow> 'w \<Rightarrow> int \<Rightarrow> 'v option \<Rightarrow> 'w \<times> int \<times> (paxos_error + unit)" where
  "paxos_Propose numPeers t w proposalID value = paxos_propose numPeers t w proposalID 0 value"

section \<open>Multi-Paxos\<close>

text \<open>The learner is an object shared with the transport; \<open>lrn\<close> reads it from the world.\<close>

record 'v MultiPaxos =
  proposalID :: int
  nextSlot :: int
  Log :: "int \<rightharpoonup> 'v option"

definition NewMultiPaxos :: "'v MultiPaxos" where
  "NewMultiPaxos = \<lparr>proposalID = 0, nextSlot = 0, Log = Map.empty\<rparr>"

definition ProposeSlot ::
  "nat \<Rightarrow> ('w, 'v) Transport \<Rightarrow> ('w \<Rightarrow> 'v Learner) \<Rightarrow> 'w \<Rightarrow> 'v MultiPaxos \<Rightarrow> 'v option \<Rightarrow>
   'w \<times> 'v MultiPaxos \<times> int \<times> (paxos_error + unit)" where
  "ProposeSlot numPeers t lrn w m value =
     (let slot = nextSlot m;
          (w, pid, res) = paxos_propose numPeers t w (proposalID m) slot value;
          m = m\<lparr>proposalID := pid\<rparr>
      in case res of
           Inl e \<Rightarrow> (w, m, slot, Inl e)
         | Inr _ \<Rightarrow>
             let learned = (case learner_Value (lrn w) slot of Some v \<Rightarrow> v | None \<Rightarrow> value)
             in (w, m\<lparr>Log := (Log m)(slot \<mapsto> learned), nextSlot := nextSlot m + 1\<rparr>, slot, Inr ()))"

definition Chosen :: "'v MultiPaxos \<Rightarrow> int \<Rightarrow> 'v option option" where
  "Chosen m slot = Log m slot"

end
