(* ===== verification/Paxos_Safety.thy ===== *)
theory Paxos_Safety
  imports Paxos
begin

text \<open>
  Safety of the Paxos package.  Any number of \<^verbatim>\<open>propose\<close> calls run interleaved, one transport
  call at a time, against acceptors that run the two handlers; a message may be lost on the way
  there or on the way back, and may also arrive late, after its proposer has given up on it.  The
  step relation \<open>paxos_step\<close> composes the handlers of \<^theory_text>\<open>Paxos\<close>; the sequential \<open>paxos_propose\<close>
  refines it.  Three components are history only and never read by a step's guard or code: \<open>gacc\<close>, all
  acceptances so far, and in a run \<open>rQ\<close> and \<open>rA\<close>, the peers whose answers were counted.
\<close>

datatype delivery = Delivered | RequestLost | ReplyLost

definition prepare_call ::
  "delivery \<Rightarrow> 'v Acceptor \<Rightarrow> int \<Rightarrow> int \<Rightarrow> 'v Acceptor \<times> bool \<times> int \<times> 'v option" where
  "prepare_call d a slot n =
     (case d of
        Delivered \<Rightarrow> ReceivePrepare a slot n
      | RequestLost \<Rightarrow> (a, False, -1, None)
      | ReplyLost \<Rightarrow> (fst (ReceivePrepare a slot n), False, -1, None))"

definition accept_call ::
  "delivery \<Rightarrow> 'v Acceptor \<Rightarrow> int \<Rightarrow> int \<Rightarrow> 'v option \<Rightarrow> 'v Acceptor \<times> bool" where
  "accept_call d a slot n v =
     (case d of
        Delivered \<Rightarrow> ReceiveAccept a slot n v
      | RequestLost \<Rightarrow> (a, False)
      | ReplyLost \<Rightarrow> (fst (ReceiveAccept a slot n v), False))"

datatype phase = Preparing | PrepareFailed | Accepting | AcceptFailed | Succeeded

record 'v run =
  rslot :: int
  rvalue :: "'v option"
  rphase :: phase
  ridx :: nat
  rprom :: nat
  rhigh :: int
  rhval :: "'v option"
  rval :: "'v option"
  racc :: nat
  rQ :: "nat set"
  rA :: "nat set"

text \<open>A run is named by its proposer and its proposal id.\<close>

record 'v paxos =
  accs :: "nat \<Rightarrow> 'v Acceptor"
  lrn :: "'v Learner"
  ctr :: "nat \<Rightarrow> int"
  runs :: "nat \<times> int \<rightharpoonup> 'v run"
  gacc :: "(int \<times> nat \<times> int \<times> 'v option) set"

definition paxos_init :: "'v paxos" where
  "paxos_init = \<lparr>accs = (\<lambda>_. NewAcceptor), lrn = NewLearner, ctr = (\<lambda>_. 0), runs = Map.empty, gacc = {}\<rparr>"

definition new_run :: "int \<Rightarrow> 'v option \<Rightarrow> 'v run" where
  "new_run slot v = \<lparr>rslot = slot, rvalue = v, rphase = Preparing, ridx = 0, rprom = 0, rhigh = -1,
     rhval = None, rval = None, racc = 0, rQ = {}, rA = {}\<rparr>"

definition do_start :: "nat \<Rightarrow> int \<Rightarrow> 'v option \<Rightarrow> 'v paxos \<Rightarrow> 'v paxos" where
  "do_start p slot v s =
     s\<lparr>ctr := (ctr s)(p := ctr s p + 1), runs := (runs s)((p, ctr s p + 1) \<mapsto> new_run slot v)\<rparr>"

definition do_prepare :: "nat \<times> int \<Rightarrow> 'v run \<Rightarrow> delivery \<Rightarrow> 'v paxos \<Rightarrow> 'v paxos" where
  "do_prepare k r d s =
     (let i = ridx r;
          (a, promised, accID, accVal) = prepare_call d (accs s i) (rslot r) (snd k);
          r = r\<lparr>ridx := Suc i\<rparr>;
          r = (if promised then r\<lparr>rprom := rprom r + 1, rQ := insert i (rQ r)\<rparr> else r);
          r = (if promised \<and> accID > rhigh r then r\<lparr>rhigh := accID, rhval := accVal\<rparr> else r)
      in s\<lparr>accs := (accs s)(i := a), runs := (runs s)(k \<mapsto> r)\<rparr>)"

definition do_decide :: "nat \<Rightarrow> nat \<times> int \<Rightarrow> 'v run \<Rightarrow> 'v paxos \<Rightarrow> 'v paxos" where
  "do_decide N k r s =
     s\<lparr>runs := (runs s)(k \<mapsto>
        (if rprom r \<le> N div 2 then r\<lparr>rphase := PrepareFailed\<rparr>
         else r\<lparr>rphase := Accepting, ridx := 0, rval := paxos_value (rvalue r) (rhval r)\<rparr>))\<rparr>"

text \<open>The history records an acceptance when the acceptor accepts, whether or not its answer
  arrives.\<close>

definition accepts_now :: "'v Acceptor \<Rightarrow> int \<Rightarrow> int \<Rightarrow> 'v option \<Rightarrow> bool" where
  "accepts_now a slot n v = snd (ReceiveAccept a slot n v)"

definition do_accept :: "nat \<Rightarrow> nat \<times> int \<Rightarrow> 'v run \<Rightarrow> delivery \<Rightarrow> 'v paxos \<Rightarrow> 'v paxos" where
  "do_accept N k r d s =
     (let i = ridx r;
          (a, accepted) = accept_call d (accs s i) (rslot r) (snd k) (rval r);
          g = (if d \<noteq> RequestLost \<and> accepts_now (accs s i) (rslot r) (snd k) (rval r)
               then insert (rslot r, i, snd k, rval r) (gacc s) else gacc s);
          l = (if accepted then fst (learner_Observe N (lrn s) (rslot r) (snd k) (rval r)) else lrn s);
          r = r\<lparr>ridx := Suc i\<rparr>;
          r = (if accepted then r\<lparr>racc := racc r + 1, rA := insert i (rA r)\<rparr> else r)
      in s\<lparr>accs := (accs s)(i := a), lrn := l, runs := (runs s)(k \<mapsto> r), gacc := g\<rparr>)"

definition do_finish :: "nat \<Rightarrow> nat \<times> int \<Rightarrow> 'v run \<Rightarrow> 'v paxos \<Rightarrow> 'v paxos" where
  "do_finish N k r s =
     s\<lparr>runs := (runs s)(k \<mapsto> r\<lparr>rphase := (if racc r \<le> N div 2 then AcceptFailed else Succeeded)\<rparr>)\<rparr>"

definition late_prepare :: "nat \<times> int \<Rightarrow> 'v run \<Rightarrow> nat \<Rightarrow> 'v paxos \<Rightarrow> 'v paxos" where
  "late_prepare k r i s =
     s\<lparr>accs := (accs s)(i := fst (ReceivePrepare (accs s i) (rslot r) (snd k)))\<rparr>"

definition late_accept :: "nat \<times> int \<Rightarrow> 'v run \<Rightarrow> nat \<Rightarrow> 'v paxos \<Rightarrow> 'v paxos" where
  "late_accept k r i s =
     s\<lparr>accs := (accs s)(i := fst (ReceiveAccept (accs s i) (rslot r) (snd k) (rval r))),
       gacc := (if accepts_now (accs s i) (rslot r) (snd k) (rval r)
                then insert (rslot r, i, snd k, rval r) (gacc s) else gacc s)\<rparr>"

definition accept_phase :: "'v run \<Rightarrow> bool" where
  "accept_phase r \<longleftrightarrow> rphase r \<in> {Accepting, AcceptFailed, Succeeded}"

inductive paxos_step :: "nat \<Rightarrow> 'v paxos \<Rightarrow> 'v paxos \<Rightarrow> bool" for N where
  start: "paxos_step N s (do_start p slot v s)"
| prepare: "runs s k = Some r \<Longrightarrow> rphase r = Preparing \<Longrightarrow> ridx r < N \<Longrightarrow>
    paxos_step N s (do_prepare k r d s)"
| decide: "runs s k = Some r \<Longrightarrow> rphase r = Preparing \<Longrightarrow> ridx r = N \<Longrightarrow>
    paxos_step N s (do_decide N k r s)"
| accept: "runs s k = Some r \<Longrightarrow> rphase r = Accepting \<Longrightarrow> ridx r < N \<Longrightarrow>
    paxos_step N s (do_accept N k r d s)"
| finish: "runs s k = Some r \<Longrightarrow> rphase r = Accepting \<Longrightarrow> ridx r = N \<Longrightarrow>
    paxos_step N s (do_finish N k r s)"
| late_prep: "runs s k = Some r \<Longrightarrow> i < N \<Longrightarrow> paxos_step N s (late_prepare k r i s)"
| late_acc: "runs s k = Some r \<Longrightarrow> accept_phase r \<Longrightarrow> i < N \<Longrightarrow> paxos_step N s (late_accept k r i s)"

inductive paxos_reach :: "nat \<Rightarrow> 'v paxos \<Rightarrow> bool" for N where
  init: "paxos_reach N paxos_init"
| step: "paxos_reach N s \<Longrightarrow> paxos_step N s s' \<Longrightarrow> paxos_reach N s'"

text \<open>What the proposers must respect: no run proposes nil.\<close>

definition non_nil :: "'v paxos \<Rightarrow> bool" where
  "non_nil s \<longleftrightarrow> (\<forall>k r. runs s k = Some r \<longrightarrow> rvalue r \<noteq> None)"

section \<open>The handlers, seen per slot\<close>

definition slot_of :: "'v Acceptor \<Rightarrow> int \<Rightarrow> 'v slotState" where
  "slot_of a slot = snd (acceptor_state a slot)"

lemma slot_of_upd [simp]: "slot_of (a(slot \<mapsto> t)) slot' = (if slot' = slot then t else slot_of a slot')"
  by (auto simp: slot_of_def acceptor_state_def Let_def split: option.splits)

lemma slot_of_fst_state [simp]: "slot_of (fst (acceptor_state a slot)) slot' = slot_of a slot'"
  by (auto simp: slot_of_def acceptor_state_def Let_def split: option.splits)

lemma ReceivePrepare_slot:
  "slot_of (fst (ReceivePrepare a slot n)) slot' =
     (if slot' = slot \<and> n > lastPromisedID (slot_of a slot)
      then slot_of a slot\<lparr>lastPromisedID := n\<rparr> else slot_of a slot')"
  by (auto simp: ReceivePrepare_def split_beta Let_def slot_of_def [symmetric])

lemma ReceivePrepare_reply:
  "snd (ReceivePrepare a slot n) =
     (if n > lastPromisedID (slot_of a slot)
      then (True, acceptedID (slot_of a slot), AcceptedValue (slot_of a slot)) else (False, -1, None))"
  by (auto simp: ReceivePrepare_def split_beta Let_def slot_of_def [symmetric])

lemma ReceiveAccept_slot:
  "slot_of (fst (ReceiveAccept a slot n v)) slot' =
     (if slot' = slot \<and> n \<ge> lastPromisedID (slot_of a slot)
      then \<lparr>lastPromisedID = n, acceptedID = n, AcceptedValue = v\<rparr> else slot_of a slot')"
  by (auto simp: ReceiveAccept_def split_beta Let_def slot_of_def [symmetric])

lemma accepts_now_iff: "accepts_now a slot n v \<longleftrightarrow> n \<ge> lastPromisedID (slot_of a slot)"
  by (auto simp: accepts_now_def ReceiveAccept_def split_beta Let_def slot_of_def)

lemma slot_of_New [simp]:
  "slot_of NewAcceptor slot = \<lparr>lastPromisedID = -1, acceptedID = -1, AcceptedValue = None\<rparr>"
  by (simp add: slot_of_def acceptor_state_def NewAcceptor_def Let_def)

section \<open>The invariant\<close>

text \<open>\<open>vote s i slot m w\<close>: acceptor \<open>i\<close> has accepted \<open>w\<close> under proposal \<open>m\<close>.\<close>

abbreviation prom :: "'v paxos \<Rightarrow> nat \<Rightarrow> int \<Rightarrow> int" where
  "prom s i slot \<equiv> lastPromisedID (slot_of (accs s i) slot)"

abbreviation vote :: "'v paxos \<Rightarrow> int \<Rightarrow> nat \<Rightarrow> int \<Rightarrow> 'v option \<Rightarrow> bool" where
  "vote s slot i m w \<equiv> (slot, i, m, w) \<in> gacc s"

text \<open>An acceptor: its accepted proposal is the last one it voted for, and its promise is not
  below it.\<close>

definition acc_ok :: "'v slotState \<Rightarrow> (int \<times> 'v option) set \<Rightarrow> bool" where
  "acc_ok t V \<longleftrightarrow> acceptedID t \<le> lastPromisedID t \<and> (\<forall>(m, w) \<in> V. m \<le> acceptedID t) \<and>
     (acceptedID t = -1 \<and> AcceptedValue t = None \<or> (acceptedID t, AcceptedValue t) \<in> V)"

definition votes_of :: "'v paxos \<Rightarrow> nat \<Rightarrow> int \<Rightarrow> (int \<times> 'v option) set" where
  "votes_of s i slot = {(m, w). vote s slot i m w}"

definition acc_inv :: "'v paxos \<Rightarrow> bool" where
  "acc_inv s \<longleftrightarrow> (\<forall>i slot. acc_ok (slot_of (accs s i) slot) (votes_of s i slot))"

lemma acc_ok_promise: "acc_ok t V \<Longrightarrow> lastPromisedID t < n \<Longrightarrow> acc_ok (t\<lparr>lastPromisedID := n\<rparr>) V"
  by (auto simp: acc_ok_def)

lemma acc_ok_accept:
  "acc_ok t V \<Longrightarrow> lastPromisedID t \<le> n \<Longrightarrow>
   acc_ok \<lparr>lastPromisedID = n, acceptedID = n, AcceptedValue = v\<rparr> (insert (n, v) V)"
  unfolding acc_ok_def by force

lemma acc_okD:
  assumes "acc_inv s"
  shows "acceptedID (slot_of (accs s i) slot) \<le> prom s i slot"
    and "vote s slot i m w \<Longrightarrow> m \<le> acceptedID (slot_of (accs s i) slot)"
  using assms by (auto simp: acc_inv_def acc_ok_def votes_of_def)

text \<open>\<open>heard s slot n Q c\<close>: everyone in \<open>Q\<close> has promised \<open>n\<close> and has no vote strictly between
  \<open>c\<close> and \<open>n\<close>; \<open>backed\<close>: the value reported for \<open>c\<close> was voted for.\<close>

definition heard :: "'v paxos \<Rightarrow> int \<Rightarrow> int \<Rightarrow> nat set \<Rightarrow> int \<Rightarrow> bool" where
  "heard s slot n Q c \<longleftrightarrow> c < n \<and> (\<forall>i \<in> Q. n \<le> prom s i slot \<and> (\<forall>m w. vote s slot i m w \<longrightarrow> m \<le> c \<or> n \<le> m))"

definition backed :: "'v paxos \<Rightarrow> int \<Rightarrow> int \<Rightarrow> 'v option \<Rightarrow> bool" where
  "backed s slot c v \<longleftrightarrow> c = -1 \<and> v = None \<or> (\<exists>j. vote s slot j c v)"

definition preparing_inv :: "'v paxos \<Rightarrow> int \<Rightarrow> 'v run \<Rightarrow> bool" where
  "preparing_inv s n r \<longleftrightarrow> rQ r \<subseteq> {..<ridx r} \<and> card (rQ r) = rprom r \<and>
     heard s (rslot r) n (rQ r) (rhigh r) \<and> backed s (rslot r) (rhigh r) (rhval r) \<and> rA r = {} \<and> racc r = 0"

definition accepting_inv :: "nat \<Rightarrow> 'v paxos \<Rightarrow> int \<Rightarrow> 'v run \<Rightarrow> bool" where
  "accepting_inv N s n r \<longleftrightarrow>
     (\<exists>c hv. majority N (rQ r) \<and> heard s (rslot r) n (rQ r) c \<and> backed s (rslot r) c hv \<and>
        rval r = paxos_value (rvalue r) hv) \<and>
     rA r \<subseteq> {..<ridx r} \<and> card (rA r) = racc r \<and> (\<forall>i \<in> rA r. vote s (rslot r) i n (rval r))"

definition run_inv :: "nat \<Rightarrow> 'v paxos \<Rightarrow> int \<Rightarrow> 'v run \<Rightarrow> bool" where
  "run_inv N s n r \<longleftrightarrow> ridx r \<le> N \<and> (rphase r = Preparing \<longrightarrow> preparing_inv s n r) \<and>
     (accept_phase r \<longrightarrow> accepting_inv N s n r) \<and> (rphase r = Succeeded \<longrightarrow> N div 2 < racc r)"

text \<open>An acceptor promises an id once only, so runs that share an id do not share promises.\<close>

definition rivals :: "'v run \<Rightarrow> 'v run \<Rightarrow> bool" where
  "rivals r r' \<longleftrightarrow> rslot r = rslot r' \<and> rphase r \<noteq> PrepareFailed \<and> rphase r' \<noteq> PrepareFailed"

definition paxos_inv :: "nat \<Rightarrow> 'v paxos \<Rightarrow> bool" where
  "paxos_inv N s \<longleftrightarrow> acc_inv s \<and> (\<forall>p. 0 \<le> ctr s p) \<and>
     (\<forall>p n r. runs s (p, n) = Some r \<longrightarrow> 1 \<le> n \<and> n \<le> ctr s p \<and> run_inv N s n r) \<and>
     (\<forall>slot i m w. vote s slot i m w \<longrightarrow>
        (\<exists>p r. runs s (p, m) = Some r \<and> rslot r = slot \<and> accept_phase r \<and> rval r = w)) \<and>
     (\<forall>p q n r r'. runs s (p, n) = Some r \<longrightarrow> runs s (q, n) = Some r' \<longrightarrow> p \<noteq> q \<longrightarrow> rivals r r' \<longrightarrow>
        rQ r \<inter> rQ r' = {})"

text \<open>How a step may change the acceptors: promises grow, votes are only added, and a new vote is
  not below the promise its acceptor had given.\<close>

definition extends :: "'v paxos \<Rightarrow> 'v paxos \<Rightarrow> bool" where
  "extends s s' \<longleftrightarrow> (\<forall>i slot. prom s i slot \<le> prom s' i slot) \<and> gacc s \<subseteq> gacc s' \<and>
     (\<forall>slot i m w. vote s' slot i m w \<longrightarrow> vote s slot i m w \<or> prom s i slot \<le> m)"

lemma heard_extends: "extends s s' \<Longrightarrow> heard s slot n Q c \<Longrightarrow> heard s' slot n Q c"
  unfolding extends_def heard_def by (meson order.trans)

lemma backed_extends: "extends s s' \<Longrightarrow> backed s slot c v \<Longrightarrow> backed s' slot c v"
  unfolding extends_def backed_def by blast

lemma run_inv_extends:
  assumes "extends s s'" "run_inv N s n r"
  shows "run_inv N s' n r"
proof -
  have "gacc s \<subseteq> gacc s'" using assms(1) by (simp add: extends_def)
  then show ?thesis
    using assms(2) heard_extends [OF assms(1)] backed_extends [OF assms(1)]
    unfolding run_inv_def preparing_inv_def accepting_inv_def by (meson subsetD)
qed

text \<open>What a delivered message does to the acceptors.\<close>

lemma receive_prepare_effect:
  assumes "accs s' = (accs s)(i := fst (ReceivePrepare (accs s i) slot n))" "gacc s' = gacc s"
  shows "extends s s'" and "acc_inv s \<Longrightarrow> acc_inv s'"
proof -
  show "extends s s'" using assms by (auto simp: extends_def ReceivePrepare_slot)
  have "votes_of s' j sl = votes_of s j sl" for j sl using assms by (simp add: votes_of_def)
  then show "acc_inv s \<Longrightarrow> acc_inv s'"
    using assms by (simp add: acc_inv_def ReceivePrepare_slot acc_ok_promise)
qed

lemma receive_accept_effect:
  assumes "accs s' = (accs s)(i := fst (ReceiveAccept (accs s i) slot n v))"
    and "gacc s' = (if accepts_now (accs s i) slot n v then insert (slot, i, n, v) (gacc s) else gacc s)"
  shows "extends s s'" and "acc_inv s \<Longrightarrow> acc_inv s'"
proof -
  show "extends s s'" using assms by (auto simp: extends_def ReceiveAccept_slot accepts_now_iff)
  have "votes_of s' j sl = (if j = i \<and> sl = slot \<and> prom s i slot \<le> n
      then insert (n, v) (votes_of s j sl) else votes_of s j sl)" for j sl
    using assms by (auto simp: votes_of_def accepts_now_iff)
  then show "acc_inv s \<Longrightarrow> acc_inv s'"
    using assms(1) by (auto simp: acc_inv_def ReceiveAccept_slot intro: acc_ok_accept)
qed

lemma paxos_invD:
  assumes "paxos_inv N s"
  shows "acc_inv s" "0 \<le> ctr s p"
    and "runs s (p, n) = Some r \<Longrightarrow> 1 \<le> n \<and> n \<le> ctr s p \<and> run_inv N s n r"
    and "vote s slot i m w \<Longrightarrow> \<exists>p r. runs s (p, m) = Some r \<and> rslot r = slot \<and> accept_phase r \<and> rval r = w"
    and "runs s (p, n) = Some r \<Longrightarrow> runs s (q, n) = Some r' \<Longrightarrow> p \<noteq> q \<Longrightarrow> rivals r r' \<Longrightarrow> rQ r \<inter> rQ r' = {}"
  using assms unfolding paxos_inv_def by blast+

lemma rival_promises:
  assumes "paxos_inv N s" "runs s (q, n) = Some r'" "rphase r' \<noteq> PrepareFailed" "i \<in> rQ r'"
  shows "n \<le> prom s i (rslot r')"
proof -
  have "run_inv N s n r'" using paxos_invD(3) [OF assms(1,2)] by blast
  then show ?thesis using assms(3,4)
    unfolding run_inv_def preparing_inv_def accepting_inv_def heard_def accept_phase_def
    by (cases "rphase r'") auto
qed

text \<open>A step that touches the run \<open>k\<close> only keeps the invariant if the new run is right.\<close>

lemma paxos_inv_frame:
  assumes inv: "paxos_inv N s" and ext: "extends s s'" and acc: "acc_inv s'"
    and ctr: "\<And>p. ctr s p \<le> ctr s' p"
    and runs: "runs s' = (runs s)((p, n) \<mapsto> r)" and n: "1 \<le> n" "n \<le> ctr s' p"
    and run: "run_inv N s' n r"
    and keep: "\<And>q. runs s (p, n) = Some q \<Longrightarrow> accept_phase q \<Longrightarrow>
      rslot r = rslot q \<and> rval r = rval q \<and> accept_phase r"
    and votes: "\<And>slot i m w. vote s' slot i m w \<Longrightarrow> \<not> vote s slot i m w \<Longrightarrow>
      slot = rslot r \<and> m = n \<and> w = rval r \<and> accept_phase r"
    and fresh: "\<And>q r'. runs s (q, n) = Some r' \<Longrightarrow> q \<noteq> p \<Longrightarrow> rivals r r' \<Longrightarrow> rQ r \<inter> rQ r' = {}"
  shows "paxos_inv N s'"
  unfolding paxos_inv_def
proof (intro conjI allI impI)
  fix q show "0 \<le> ctr s' q" using paxos_invD(2) [OF inv, of q] ctr [of q] by linarith
next
  fix q m r' assume r': "runs s' (q, m) = Some r'"
  have "1 \<le> m \<and> m \<le> ctr s' q \<and> run_inv N s' m r'"
  proof (cases "(q, m) = (p, n)")
    case True
    then show ?thesis using r' runs n run by simp
  next
    case False
    then have "runs s (q, m) = Some r'" using r' unfolding runs by (simp only: fun_upd_apply if_False)
    from paxos_invD(3) [OF inv this] show ?thesis
      using run_inv_extends [OF ext] order.trans [OF _ ctr] by blast
  qed
  then show "1 \<le> m" "m \<le> ctr s' q" "run_inv N s' m r'" by auto
next
  fix slot i m w assume v: "vote s' slot i m w"
  show "\<exists>q r. runs s' (q, m) = Some r \<and> rslot r = slot \<and> accept_phase r \<and> rval r = w"
  proof (cases "vote s slot i m w")
    case True
    then obtain q r' where q: "runs s (q, m) = Some r'" "rslot r' = slot" "accept_phase r'" "rval r' = w"
      using paxos_invD(4) [OF inv True] by blast
    then show ?thesis using keep [of r'] runs by (cases "(q, m) = (p, n)") auto
  next
    case False
    then show ?thesis using votes [OF v] runs by (intro exI [of _ p] exI [of _ r]) auto
  qed
next
  fix q q' m r1 r2
  assume *: "runs s' (q, m) = Some r1" "runs s' (q', m) = Some r2" "q \<noteq> q'" "rivals r1 r2"
  then have "rivals r2 r1" by (auto simp: rivals_def)
  then show "rQ r1 \<inter> rQ r2 = {}"
    using * fresh [of q' r2] fresh [of q r1] paxos_invD(5) [OF inv, of q m r1 q' r2] runs
    by (cases "(q, m) = (p, n)"; cases "(q', m) = (p, n)") auto
qed (fact acc)

section \<open>Every step keeps it\<close>

lemma unchanged_effect:
  assumes "accs s' = accs s" "gacc s' = gacc s"
  shows "extends s s'" and "acc_inv s \<Longrightarrow> acc_inv s'"
  using assms by (auto simp: extends_def acc_inv_def votes_of_def)

lemma prepare_call_effect:
  assumes "accs s' = (accs s)(i := fst (prepare_call d (accs s i) slot n))" "gacc s' = gacc s"
  shows "extends s s'" and "acc_inv s \<Longrightarrow> acc_inv s'"
  using assms receive_prepare_effect [of s' s i slot n] unchanged_effect [of s' s]
  by (cases d; simp add: prepare_call_def)+

lemma accept_call_effect:
  assumes "accs s' = (accs s)(i := fst (accept_call d (accs s i) slot n v))"
    and "gacc s' = (if d \<noteq> RequestLost \<and> accepts_now (accs s i) slot n v
                    then insert (slot, i, n, v) (gacc s) else gacc s)"
  shows "extends s s'" and "acc_inv s \<Longrightarrow> acc_inv s'"
  using assms receive_accept_effect [of s' s i slot n v] unchanged_effect [of s' s]
  by (cases d; simp add: accept_call_def)+

lemma backed_acceptor: "acc_inv s \<Longrightarrow> backed s slot (acceptedID (slot_of (accs s i) slot)) (AcceptedValue (slot_of (accs s i) slot))"
  unfolding acc_inv_def acc_ok_def backed_def votes_of_def by blast

lemma heard_mono: "heard s slot n Q c \<Longrightarrow> c \<le> c' \<Longrightarrow> c' < n \<Longrightarrow> heard s slot n Q c'"
  unfolding heard_def by (meson order.trans)

lemma inv_start: "paxos_inv N s \<Longrightarrow> paxos_inv N (do_start p slot v s)"
proof (rule paxos_inv_frame [where s = s and p = p and n = "ctr s p + 1" and r = "new_run slot v"])
  assume inv: "paxos_inv N s"
  show "extends s (do_start p slot v s)" "acc_inv (do_start p slot v s)"
    using unchanged_effect [of "do_start p slot v s" s] paxos_invD(1) [OF inv] by (simp_all add: do_start_def)
  show "1 \<le> ctr s p + 1" using paxos_invD(2) [OF inv, of p] by simp
  then show "run_inv N (do_start p slot v s) (ctr s p + 1) (new_run slot v)"
    by (simp add: run_inv_def preparing_inv_def heard_def backed_def new_run_def accept_phase_def)
  fix q assume "runs s (p, ctr s p + 1) = Some q"
  then show "rslot (new_run slot v) = rslot q \<and> rval (new_run slot v) = rval q \<and> accept_phase (new_run slot v)"
    using paxos_invD(3) [OF inv] by fastforce
qed (auto simp: do_start_def new_run_def)

text \<open>The run after one answer to its prepare request.\<close>

definition prepared :: "'v paxos \<Rightarrow> int \<Rightarrow> 'v run \<Rightarrow> 'v run" where
  "prepared s n r = (let t = slot_of (accs s (ridx r)) (rslot r); r' = r\<lparr>ridx := Suc (ridx r)\<rparr> in
     if n > lastPromisedID t
     then let r' = r'\<lparr>rprom := rprom r + 1, rQ := insert (ridx r) (rQ r)\<rparr>
          in if acceptedID t > rhigh r then r'\<lparr>rhigh := acceptedID t, rhval := AcceptedValue t\<rparr> else r'
     else r')"

lemma do_prepare_eq:
  "do_prepare k r d s = s\<lparr>accs := (accs s)(ridx r := fst (prepare_call d (accs s (ridx r)) (rslot r) (snd k))),
     runs := (runs s)(k \<mapsto> (if d = Delivered then prepared s (snd k) r else r\<lparr>ridx := Suc (ridx r)\<rparr>))\<rparr>"
  by (cases d) (auto simp: do_prepare_def prepared_def prepare_call_def split_beta Let_def ReceivePrepare_reply)

lemma preparing_inv_skip:
  "extends s s' \<Longrightarrow> preparing_inv s n r \<Longrightarrow> preparing_inv s' n (r\<lparr>ridx := Suc (ridx r)\<rparr>)"
  unfolding preparing_inv_def by (auto dest: heard_extends backed_extends)

lemma preparing_inv_prepared:
  assumes inv: "acc_inv s" and pre: "preparing_inv s n r"
    and s': "accs s' = (accs s)(ridx r := fst (prepare_call Delivered (accs s (ridx r)) (rslot r) n))" "gacc s' = gacc s"
  shows "preparing_inv s' n (prepared s n r)"
proof -
  note ext = prepare_call_effect(1) [OF s']
  let ?t = "slot_of (accs s (ridx r)) (rslot r)" and ?i = "ridx r"
  have Q: "rQ r \<subseteq> {..<?i}" "card (rQ r) = rprom r" using pre by (auto simp: preparing_inv_def)
  then have fin: "finite (rQ r)" "?i \<notin> rQ r" using finite_subset by auto
  have hb: "heard s' (rslot r) n (rQ r) (rhigh r)" "backed s' (rslot r) (rhigh r) (rhval r)"
    using pre heard_extends [OF ext] backed_extends [OF ext] by (auto simp: preparing_inv_def)
  show ?thesis
  proof (cases "n > lastPromisedID ?t")
    case False
    then show ?thesis using preparing_inv_skip [OF ext pre] by (simp add: prepared_def Let_def)
  next
    case True
    let ?c = "max (rhigh r) (acceptedID ?t)"
    have "acceptedID ?t < n" using acc_okD(1) [OF inv] True by (rule le_less_trans)
    then have c: "?c < n" using hb(1) by (simp add: heard_def)
    have "n \<le> prom s' ?i (rslot r)" using True s' by (simp add: prepare_call_def ReceivePrepare_slot)
    moreover have "m \<le> ?c" if "vote s' (rslot r) ?i m w" for m w
      using acc_okD(2) [OF inv, of "rslot r" ?i m w] that s'(2) by simp
    ultimately have "heard s' (rslot r) n (insert ?i (rQ r)) ?c"
      using heard_mono [OF hb(1) _ c] unfolding heard_def by auto
    moreover have "backed s' (rslot r) (acceptedID ?t) (AcceptedValue ?t)"
      by (rule backed_extends [OF ext backed_acceptor [OF inv]])
    ultimately show ?thesis using True Q fin hb pre
      by (auto simp: preparing_inv_def prepared_def Let_def max_def split: if_splits)
  qed
qed

lemma inv_prepare:
  assumes inv: "paxos_inv N s" and run: "runs s k = Some r" "rphase r = Preparing" "ridx r < N"
  shows "paxos_inv N (do_prepare k r d s)"
proof -
  obtain p n where k: "k = (p, n)" by fastforce
  let ?s' = "do_prepare k r d s"
  let ?r' = "if d = Delivered then prepared s n r else r\<lparr>ridx := Suc (ridx r)\<rparr>"
  have old: "1 \<le> n" "n \<le> ctr s p" "run_inv N s n r" using paxos_invD(3) [OF inv] run(1) k by auto
  then have pre: "preparing_inv s n r" using run(2) by (simp add: run_inv_def)
  have s': "accs ?s' = (accs s)(ridx r := fst (prepare_call d (accs s (ridx r)) (rslot r) n))"
      "gacc ?s' = gacc s" "runs ?s' = (runs s)((p, n) \<mapsto> ?r')" "ctr ?s' = ctr s"
    unfolding do_prepare_eq using k by simp_all
  note ext = prepare_call_effect(1) [OF s'(1,2)]
  have "preparing_inv ?s' n ?r'"
    using preparing_inv_skip [OF ext pre] preparing_inv_prepared [OF paxos_invD(1) [OF inv] pre _ s'(2)] s'(1)
    by auto
  moreover have "rphase ?r' = Preparing" "ridx ?r' = Suc (ridx r)"
    using run(2) by (auto simp: prepared_def Let_def)
  ultimately have new: "run_inv N ?s' n ?r'" using run(3) by (auto simp: run_inv_def accept_phase_def)
  have fresh: "rQ ?r' \<inter> rQ q = {}" if q: "runs s (p', n) = Some q" "p' \<noteq> p" "rivals ?r' q" for p' q
  proof -
    have "rivals r q" using q(3) run(2) by (auto simp: rivals_def prepared_def Let_def split: if_splits)
    then have "rQ r \<inter> rQ q = {}" using paxos_invD(5) [OF inv _ q(1)] run(1) k q(2) by blast
    moreover have "ridx r \<notin> rQ q" if "prom s (ridx r) (rslot r) < n"
      using rival_promises [OF inv q(1), of "ridx r"] that \<open>rivals r q\<close> by (auto simp: rivals_def)
    ultimately show ?thesis by (auto simp: prepared_def Let_def split: if_splits)
  qed
  show ?thesis
    by (rule paxos_inv_frame [OF inv ext prepare_call_effect(2) [OF s'(1,2) paxos_invD(1) [OF inv]] _ s'(3) _ _ new])
      (use old run s' k fresh in \<open>auto simp: accept_phase_def\<close>)
qed

lemma inv_decide:
  assumes inv: "paxos_inv N s" and run: "runs s k = Some r" "rphase r = Preparing" "ridx r = N"
  shows "paxos_inv N (do_decide N k r s)"
proof -
  obtain p n where k: "k = (p, n)" by fastforce
  let ?s' = "do_decide N k r s"
  let ?r' = "if rprom r \<le> N div 2 then r\<lparr>rphase := PrepareFailed\<rparr>
         else r\<lparr>rphase := Accepting, ridx := 0, rval := paxos_value (rvalue r) (rhval r)\<rparr>"
  have old: "1 \<le> n" "n \<le> ctr s p" "run_inv N s n r" using paxos_invD(3) [OF inv] run(1) k by auto
  then have pre: "preparing_inv s n r" using run(2) by (simp add: run_inv_def)
  have s': "accs ?s' = accs s" "gacc ?s' = gacc s" "runs ?s' = (runs s)((p, n) \<mapsto> ?r')" "ctr ?s' = ctr s"
    unfolding do_decide_def using k by simp_all
  note ext = unchanged_effect(1) [OF s'(1,2)]
  have "accepting_inv N ?s' n ?r'" if "\<not> rprom r \<le> N div 2"
  proof -
    have "majority N (rQ r)" using that pre run(3) by (auto simp: preparing_inv_def majority_def)
    moreover have "heard ?s' (rslot r) n (rQ r) (rhigh r)" "backed ?s' (rslot r) (rhigh r) (rhval r)"
      using pre heard_extends [OF ext] backed_extends [OF ext] by (auto simp: preparing_inv_def)
    moreover have "rA r = {}" "racc r = 0" using pre by (auto simp: preparing_inv_def)
    ultimately show ?thesis unfolding accepting_inv_def using that by auto
  qed
  then have new: "run_inv N ?s' n ?r'" using run(3) by (auto simp: run_inv_def accept_phase_def)
  show ?thesis
    by (rule paxos_inv_frame [OF inv ext unchanged_effect(2) [OF s'(1,2) paxos_invD(1) [OF inv]] _ s'(3) _ _ new])
      (use old run s' k paxos_invD(5) [OF inv] in \<open>auto simp: accept_phase_def rivals_def split: if_splits\<close>)
qed

definition accepted_run :: "'v run \<Rightarrow> bool \<Rightarrow> 'v run" where
  "accepted_run r accepted = (let r' = r\<lparr>ridx := Suc (ridx r)\<rparr> in
     if accepted then r'\<lparr>racc := racc r + 1, rA := insert (ridx r) (rA r)\<rparr> else r')"

lemma do_accept_eq:
  "do_accept N k r d s =
     (let accepted = snd (accept_call d (accs s (ridx r)) (rslot r) (snd k) (rval r)) in
      s\<lparr>accs := (accs s)(ridx r := fst (accept_call d (accs s (ridx r)) (rslot r) (snd k) (rval r))),
        lrn := (if accepted then fst (learner_Observe N (lrn s) (rslot r) (snd k) (rval r)) else lrn s),
        runs := (runs s)(k \<mapsto> accepted_run r accepted),
        gacc := (if d \<noteq> RequestLost \<and> accepts_now (accs s (ridx r)) (rslot r) (snd k) (rval r)
               then insert (rslot r, ridx r, snd k, rval r) (gacc s) else gacc s)\<rparr>)"
  by (simp add: do_accept_def accepted_run_def split_beta Let_def)

lemma accepted_is_vote:
  "snd (accept_call d a slot n v) \<Longrightarrow> d \<noteq> RequestLost \<and> accepts_now a slot n v"
  by (cases d) (auto simp: accept_call_def accepts_now_def)

lemma accepting_inv_accepted:
  assumes ext: "extends s s'" and old: "accepting_inv N s n r"
    and vote: "accepted \<Longrightarrow> vote s' (rslot r) (ridx r) n (rval r)"
  shows "accepting_inv N s' n (accepted_run r accepted)"
proof -
  have "gacc s \<subseteq> gacc s'" using ext by (simp add: extends_def)
  moreover have "finite (rA r)" "ridx r \<notin> rA r"
    using old finite_subset by (auto simp: accepting_inv_def)
  moreover obtain c hv where "majority N (rQ r)" "heard s' (rslot r) n (rQ r) c" "backed s' (rslot r) c hv"
      "rval r = paxos_value (rvalue r) hv"
    using old heard_extends [OF ext] backed_extends [OF ext] unfolding accepting_inv_def by blast
  ultimately show ?thesis
    using old vote unfolding accepting_inv_def accepted_run_def by (auto simp: Let_def)
qed

lemma inv_accept:
  assumes inv: "paxos_inv N s" and run: "runs s k = Some r" "rphase r = Accepting" "ridx r < N"
  shows "paxos_inv N (do_accept N k r d s)"
proof -
  obtain p n where k: "k = (p, n)" by fastforce
  let ?s' = "do_accept N k r d s"
  let ?acc = "snd (accept_call d (accs s (ridx r)) (rslot r) n (rval r))"
  have old: "1 \<le> n" "n \<le> ctr s p" "run_inv N s n r" using paxos_invD(3) [OF inv] run(1) k by auto
  then have pre: "accepting_inv N s n r" using run(2) by (simp add: run_inv_def accept_phase_def)
  have s': "accs ?s' = (accs s)(ridx r := fst (accept_call d (accs s (ridx r)) (rslot r) n (rval r)))"
      "gacc ?s' = (if d \<noteq> RequestLost \<and> accepts_now (accs s (ridx r)) (rslot r) n (rval r)
               then insert (rslot r, ridx r, n, rval r) (gacc s) else gacc s)"
      "runs ?s' = (runs s)((p, n) \<mapsto> accepted_run r ?acc)" "ctr ?s' = ctr s"
    unfolding do_accept_eq using k by (simp_all add: Let_def)
  note ext = accept_call_effect(1) [OF s'(1,2)]
  have "accepting_inv N ?s' n (accepted_run r ?acc)"
    by (rule accepting_inv_accepted [OF ext pre]) (drule accepted_is_vote, simp add: s'(2))
  moreover have r': "rphase (accepted_run r ?acc) = Accepting" "ridx (accepted_run r ?acc) = Suc (ridx r)"
      "rslot (accepted_run r ?acc) = rslot r" "rval (accepted_run r ?acc) = rval r"
      "rQ (accepted_run r ?acc) = rQ r"
    using run(2) by (auto simp: accepted_run_def Let_def)
  ultimately have new: "run_inv N ?s' n (accepted_run r ?acc)" using run(3) by (auto simp: run_inv_def)
  show ?thesis
    by (rule paxos_inv_frame [OF inv ext accept_call_effect(2) [OF s'(1,2) paxos_invD(1) [OF inv]] _ s'(3) _ _ new])
      (use old run s' k r' paxos_invD(5) [OF inv] in \<open>auto simp: accept_phase_def rivals_def split: if_splits\<close>)
qed

lemma inv_finish:
  assumes inv: "paxos_inv N s" and run: "runs s k = Some r" "rphase r = Accepting" "ridx r = N"
  shows "paxos_inv N (do_finish N k r s)"
proof -
  obtain p n where k: "k = (p, n)" by fastforce
  let ?s' = "do_finish N k r s" and ?r' = "r\<lparr>rphase := (if racc r \<le> N div 2 then AcceptFailed else Succeeded)\<rparr>"
  have old: "1 \<le> n" "n \<le> ctr s p" "run_inv N s n r" using paxos_invD(3) [OF inv] run(1) k by auto
  have s': "accs ?s' = accs s" "gacc ?s' = gacc s" "runs ?s' = (runs s)((p, n) \<mapsto> ?r')" "ctr ?s' = ctr s"
    unfolding do_finish_def using k by simp_all
  note ext = unchanged_effect(1) [OF s'(1,2)]
  have new: "run_inv N ?s' n ?r'"
    using run_inv_extends [OF ext old(3)] run by (simp add: run_inv_def accept_phase_def accepting_inv_def)
  show ?thesis
    by (rule paxos_inv_frame [OF inv ext unchanged_effect(2) [OF s'(1,2) paxos_invD(1) [OF inv]] _ s'(3) _ _ new])
      (use old run s' k paxos_invD(5) [OF inv] in \<open>auto simp: accept_phase_def rivals_def split: if_splits\<close>)
qed

lemma inv_late_prepare:
  assumes inv: "paxos_inv N s" and run: "runs s k = Some r"
  shows "paxos_inv N (late_prepare k r i s)"
proof -
  obtain p n where k: "k = (p, n)" by fastforce
  let ?s' = "late_prepare k r i s"
  have s': "accs ?s' = (accs s)(i := fst (ReceivePrepare (accs s i) (rslot r) n))" "gacc ?s' = gacc s"
      "runs ?s' = (runs s)((p, n) \<mapsto> r)" "ctr ?s' = ctr s"
    unfolding late_prepare_def using k run by (simp_all add: fun_upd_idem)
  note old = paxos_invD(3) [OF inv run [unfolded k]] and ext = receive_prepare_effect(1) [OF s'(1,2)]
  show ?thesis
    by (rule paxos_inv_frame [OF inv ext receive_prepare_effect(2) [OF s'(1,2) paxos_invD(1) [OF inv]] _ s'(3)])
      (use old run_inv_extends [OF ext] s' k run paxos_invD(5) [OF inv] in auto)
qed

lemma inv_late_accept:
  assumes inv: "paxos_inv N s" and run: "runs s k = Some r" "accept_phase r"
  shows "paxos_inv N (late_accept k r i s)"
proof -
  obtain p n where k: "k = (p, n)" by fastforce
  let ?s' = "late_accept k r i s"
  have s': "accs ?s' = (accs s)(i := fst (ReceiveAccept (accs s i) (rslot r) n (rval r)))"
      "gacc ?s' = (if accepts_now (accs s i) (rslot r) n (rval r) then insert (rslot r, i, n, rval r) (gacc s) else gacc s)"
      "runs ?s' = (runs s)((p, n) \<mapsto> r)" "ctr ?s' = ctr s"
    unfolding late_accept_def using k run by (simp_all add: fun_upd_idem)
  note old = paxos_invD(3) [OF inv run(1) [unfolded k]] and ext = receive_accept_effect(1) [OF s'(1,2)]
  show ?thesis
    by (rule paxos_inv_frame [OF inv ext receive_accept_effect(2) [OF s'(1,2) paxos_invD(1) [OF inv]] _ s'(3)])
      (use old run_inv_extends [OF ext] s' k run paxos_invD(5) [OF inv] in \<open>auto split: if_splits\<close>)
qed

lemma paxos_step_inv: "paxos_step N s s' \<Longrightarrow> paxos_inv N s \<Longrightarrow> paxos_inv N s'"
  by (induction rule: paxos_step.induct)
    (simp_all add: inv_start inv_prepare inv_decide inv_accept inv_finish inv_late_prepare inv_late_accept)

lemma paxos_reach_inv: "paxos_reach N s \<Longrightarrow> paxos_inv N s"
proof (induction rule: paxos_reach.induct)
  case init
  show ?case by (simp add: paxos_inv_def acc_inv_def acc_ok_def votes_of_def paxos_init_def)
qed (rule paxos_step_inv)

section \<open>Agreement\<close>

text \<open>The runs need not have distinct ids: two runs with one id cannot both get past the prepare
  phase, because each acceptor promises an id once.\<close>

lemma accept_phase_unique:
  assumes inv: "paxos_inv N s" and r: "runs s (p, n) = Some r" "accept_phase r"
    and r': "runs s (q, n) = Some r'" "accept_phase r'" and slot: "rslot r = rslot r'"
  shows "p = q"
proof (rule ccontr)
  assume "p \<noteq> q"
  have "rivals r r'" using r(2) r'(2) slot by (auto simp: rivals_def accept_phase_def)
  then have "rQ r \<inter> rQ r' = {}" using paxos_invD(5) [OF inv r(1) r'(1) \<open>p \<noteq> q\<close>] by blast
  moreover have "majority N (rQ r)" "majority N (rQ r')"
    using paxos_invD(3) [OF inv r(1)] paxos_invD(3) [OF inv r'(1)] r(2) r'(2)
    by (auto simp: run_inv_def accepting_inv_def)
  ultimately show False using majority_meet by blast
qed

definition slot_votes :: "'v paxos \<Rightarrow> int \<Rightarrow> (nat \<times> int \<times> 'v option) set" where
  "slot_votes s slot = {(i, m, w). vote s slot i m w}"

lemma vote_non_nil:
  assumes inv: "paxos_inv N s" and nn: "non_nil s" and "vote s slot i m w"
  shows "w \<noteq> None"
proof -
  obtain p r where r: "runs s (p, m) = Some r" "accept_phase r" "rval r = w"
    using paxos_invD(4) [OF inv assms(3)] by blast
  moreover have "rvalue r \<noteq> None" using nn r(1) by (auto simp: non_nil_def)
  moreover have "run_inv N s m r" using paxos_invD(3) [OF inv r(1)] by blast
  ultimately show ?thesis unfolding run_inv_def accepting_inv_def paxos_value_def by (metis (full_types))
qed

lemma run_safe_at:
  assumes inv: "paxos_inv N s" and nn: "non_nil s" and r: "runs s (p, n) = Some r" "accept_phase r"
  shows "maj.safe_at N (slot_votes s (rslot r)) n (rval r)"
proof -
  obtain c hv where c: "majority N (rQ r)" "heard s (rslot r) n (rQ r) c" "backed s (rslot r) c hv"
      "rval r = paxos_value (rvalue r) hv"
    using paxos_invD(3) [OF inv r(1)] r(2) unfolding run_inv_def accepting_inv_def by blast
  have "c = -1 \<or> (\<exists>j. vote s (rslot r) j c (rval r))"
    using c(3,4) vote_non_nil [OF inv nn] unfolding backed_def paxos_value_def by metis
  then show ?thesis unfolding maj.safe_at_def slot_votes_def
    using c(1,2) by (intro exI [of _ "rQ r"]) (auto simp: heard_def)
qed

lemma slot_voting:
  assumes inv: "paxos_inv N s" and nn: "non_nil s"
  shows "maj.voting N (slot_votes s slot)"
proof -
  have run: "\<exists>p r. runs s (p, m) = Some r \<and> rslot r = slot \<and> accept_phase r \<and> rval r = w"
    if "(i, m, w) \<in> slot_votes s slot" for i m w
    using paxos_invD(4) [OF inv] that by (auto simp: slot_votes_def)
  show ?thesis unfolding maj.voting_def
  proof (intro conjI allI impI)
    fix i m w assume "(i, m, w) \<in> slot_votes s slot"
    then obtain p r where r: "runs s (p, m) = Some r" "rslot r = slot" "accept_phase r" "rval r = w"
      using run by blast
    show "0 \<le> m" using paxos_invD(3) [OF inv r(1)] by simp
    show "maj.safe_at N (slot_votes s slot) m w" using run_safe_at [OF inv nn r(1,3)] r by simp
  next
    fix i j m w w' assume "(i, m, w) \<in> slot_votes s slot" "(j, m, w') \<in> slot_votes s slot"
    then obtain p r q r' where r: "runs s (p, m) = Some r" "rslot r = slot" "accept_phase r" "rval r = w"
      "runs s (q, m) = Some r'" "rslot r' = slot" "accept_phase r'" "rval r' = w'" using run by metis
    then have "p = q" using accept_phase_unique [OF inv r(1,3,5,7)] by simp
    then show "w = w'" using r by simp
  qed
qed

lemma majority_run_chosen:
  assumes inv: "paxos_inv N s" and r: "runs s (p, n) = Some r" "accept_phase r" "N div 2 < racc r"
  shows "maj.chosen N (slot_votes s (rslot r)) n (rval r)"
proof -
  have "run_inv N s n r" using paxos_invD(3) [OF inv r(1)] by blast
  then have "ridx r \<le> N" "accepting_inv N s n r" using r(2) by (auto simp: run_inv_def)
  then show ?thesis using r(3) unfolding maj.chosen_def majority_def slot_votes_def accepting_inv_def
    by (intro exI [of _ "rA r"]) auto
qed

lemma majority_runs_agree:
  assumes inv: "paxos_inv N s" and nn: "non_nil s"
    and r: "runs s k = Some r" "accept_phase r" "N div 2 < racc r"
    and r': "runs s k' = Some r'" "accept_phase r'" "N div 2 < racc r'" and "rslot r = rslot r'"
  shows "rval r = rval r'"
proof -
  obtain p n q m where k: "k = (p, n)" "k' = (q, m)" by fastforce
  show ?thesis
    using maj.agreement [OF slot_voting [OF inv nn] majority_run_chosen [OF inv r'(1) [unfolded k] r'(2,3)]]
      majority_run_chosen [OF inv r(1) [unfolded k] r(2,3)] assms(9) by simp
qed

text \<open>Validity: a run only ever gets a value accepted that some run on the slot was asked to
  propose.\<close>

lemma accepted_value_proposed:
  assumes inv: "paxos_inv N s"
  shows "runs s (p, n) = Some r \<Longrightarrow> accept_phase r \<Longrightarrow>
    \<exists>k r0. runs s k = Some r0 \<and> rslot r0 = rslot r \<and> rvalue r0 = rval r"
proof (induction "nat n" arbitrary: p n r rule: less_induct)
  case less
  obtain c hv where c: "heard s (rslot r) n (rQ r) c" "backed s (rslot r) c hv"
      "rval r = paxos_value (rvalue r) hv"
    using paxos_invD(3) [OF inv less.prems(1)] less.prems(2) unfolding run_inv_def accepting_inv_def by blast
  show ?case
  proof (cases "hv = None")
    case True
    then show ?thesis using c(3) less.prems by (auto simp: paxos_value_def)
  next
    case False
    then obtain j where "vote s (rslot r) j c hv" using c(2) by (auto simp: backed_def)
    then obtain q r' where r': "runs s (q, c) = Some r'" "rslot r' = rslot r" "accept_phase r'" "rval r' = hv"
      using paxos_invD(4) [OF inv] by blast
    moreover have "nat c < nat n" using c(1) paxos_invD(3) [OF inv less.prems(1)] by (auto simp: heard_def)
    ultimately show ?thesis using less.hyps [of c q r'] c(3) False by (auto simp: paxos_value_def)
  qed
qed

section \<open>The learner\<close>

text \<open>The learner counts no more than the acceptances its run has counted.\<close>

definition counted :: "'v paxos \<Rightarrow> int \<Rightarrow> int \<Rightarrow> 'v option \<Rightarrow> nat \<Rightarrow> bool" where
  "counted s slot n v c \<longleftrightarrow>
     (\<exists>p r. runs s (p, n) = Some r \<and> rslot r = slot \<and> accept_phase r \<and> rval r = v \<and> c \<le> racc r)"

definition learner_inv :: "nat \<Rightarrow> 'v paxos \<Rightarrow> bool" where
  "learner_inv N s \<longleftrightarrow>
     (\<forall>slot n v. counts (lrn s) (slot, n, v) \<noteq> 0 \<longrightarrow> counted s slot n v (counts (lrn s) (slot, n, v))) \<and>
     (\<forall>slot v. learned (lrn s) slot = Some v \<longrightarrow> (\<exists>n c. N div 2 < c \<and> counted s slot n v c))"

lemma counted_step:
  assumes "paxos_step N s s'" "paxos_inv N s" "counted s slot n v c"
  shows "counted s' slot n v c"
proof -
  obtain p r where r: "runs s (p, n) = Some r" "rslot r = slot" "accept_phase r" "rval r = v" "c \<le> racc r"
    using assms(3) by (auto simp: counted_def)
  have "\<exists>r'. runs s' (p, n) = Some r' \<and> rslot r' = slot \<and> accept_phase r' \<and> rval r' = v \<and> c \<le> racc r'"
    using assms(1)
  proof cases
    case (start q slot' v')
    have "n \<le> ctr s p" using paxos_invD(3) [OF assms(2) r(1)] by blast
    then show ?thesis using start r by (auto simp: do_start_def)
  next
    case (prepare k r' d)
    then show ?thesis using r unfolding do_prepare_eq by (auto simp: accept_phase_def)
  next
    case (decide k r')
    then show ?thesis using r by (auto simp: do_decide_def accept_phase_def)
  next
    case (accept k r' d)
    then show ?thesis using r unfolding do_accept_eq
      by (auto simp: Let_def accepted_run_def accept_phase_def)
  next
    case (finish k r')
    then show ?thesis using r by (auto simp: do_finish_def accept_phase_def)
  next
    case (late_prep k r' i)
    then show ?thesis using r by (auto simp: late_prepare_def)
  next
    case (late_acc k r' i)
    then show ?thesis using r by (auto simp: late_accept_def)
  qed
  then show ?thesis by (auto simp: counted_def)
qed

lemma learner_inv_same:
  assumes "paxos_step N s s'" "paxos_inv N s" "learner_inv N s" "lrn s' = lrn s"
  shows "learner_inv N s'"
  using assms(3) counted_step [OF assms(1,2)] unfolding learner_inv_def assms(4) by meson

lemma learner_inv_observe:
  assumes step: "paxos_step N s s'" and inv: "paxos_inv N s" and l: "learner_inv N s"
    and lrn: "lrn s' = fst (learner_Observe N (lrn s) slot n v)"
    and now: "counted s' slot n v (Suc (counts (lrn s) (slot, n, v)))"
  shows "learner_inv N s'"
proof (cases "learned (lrn s) slot")
  case (Some w)
  then show ?thesis using learner_inv_same [OF step inv l] lrn by (simp add: learner_Observe_def)
next
  case None
  note keep = counted_step [OF step inv]
  have "counts (lrn s') = (counts (lrn s))((slot, n, v) := Suc (counts (lrn s) (slot, n, v)))"
      "learned (lrn s') = (if N div 2 < Suc (counts (lrn s) (slot, n, v))
         then (learned (lrn s))(slot \<mapsto> v) else learned (lrn s))"
    using lrn None by (auto simp: learner_Observe_def Let_def)
  then show ?thesis using l now keep unfolding learner_inv_def by (auto split: if_splits) blast+
qed

lemma paxos_step_learner:
  assumes step: "paxos_step N s s'" and inv: "paxos_inv N s" and l: "learner_inv N s"
  shows "learner_inv N s'"
  using step
proof cases
  case (accept k r d)
  obtain p n where k: "k = (p, n)" by fastforce
  let ?accepted = "snd (accept_call d (accs s (ridx r)) (rslot r) n (rval r))"
  show ?thesis
  proof (cases ?accepted)
    case False
    then show ?thesis using accept k by (intro learner_inv_same [OF step inv l]) (simp add: do_accept_eq Let_def)
  next
    case True
    let ?c = "counts (lrn s) (rslot r, n, rval r)"
    have phase: "accept_phase r" using accept by (simp add: accept_phase_def)
    have "?c \<le> racc r"
    proof (cases "?c = 0")
      case False
      then obtain q r' where r': "runs s (q, n) = Some r'" "rslot r' = rslot r" "accept_phase r'" "?c \<le> racc r'"
        using l unfolding learner_inv_def counted_def by blast
      then have "q = p" using accept_phase_unique [OF inv r'(1,3) _ phase] accept k by auto
      then show ?thesis using r' accept k by simp
    qed simp
    then have "counted s' (rslot r) n (rval r) (Suc ?c)"
      unfolding counted_def using accept k True phase
      by (intro exI [of _ p]) (simp add: do_accept_eq Let_def accepted_run_def accept_phase_def)
    moreover have "lrn s' = fst (learner_Observe N (lrn s) (rslot r) n (rval r))"
      using accept k True by (simp add: do_accept_eq Let_def)
    ultimately show ?thesis using learner_inv_observe [OF step inv l] by blast
  qed
qed (rule learner_inv_same [OF step inv l];
  simp add: do_start_def do_prepare_eq do_decide_def do_finish_def late_prepare_def late_accept_def)+

lemma paxos_reach_learner: "paxos_reach N s \<Longrightarrow> learner_inv N s"
proof (induction rule: paxos_reach.induct)
  case init
  show ?case by (simp add: learner_inv_def paxos_init_def NewLearner_def)
next
  case (step s s')
  then show ?case using paxos_step_learner paxos_reach_inv by blast
qed

text \<open>Conversely the learner misses nothing: until it has learned a value for the slot, its count for
  a run is the run's own count.\<close>

definition notified_inv :: "nat \<Rightarrow> 'v paxos \<Rightarrow> bool" where
  "notified_inv N s \<longleftrightarrow> (\<forall>slot n v. learned (lrn s) slot = None \<longrightarrow>
     counts (lrn s) (slot, n, v) \<le> N div 2 \<and>
     (\<forall>p r. runs s (p, n) = Some r \<longrightarrow> rslot r = slot \<longrightarrow> accept_phase r \<longrightarrow> rval r = v \<longrightarrow>
        counts (lrn s) (slot, n, v) = racc r))"

lemma notified_inv_same:
  assumes "notified_inv N s" "lrn s' = lrn s"
    and "\<And>p n r. runs s' (p, n) = Some r \<Longrightarrow> accept_phase r \<Longrightarrow>
      (\<exists>r0. runs s (p, n) = Some r0 \<and> accept_phase r0 \<and> rslot r0 = rslot r \<and> rval r0 = rval r \<and> racc r0 = racc r) \<or>
      counts (lrn s) (rslot r, n, rval r) = racc r"
  shows "notified_inv N s'"
  using assms unfolding notified_inv_def by metis

lemma notified_inv_observe:
  assumes nt: "notified_inv N s" and r: "runs s (p, n) = Some r" and phase: "accept_phase r"
    and s': "lrn s' = fst (learner_Observe N (lrn s) (rslot r) n (rval r))"
      "runs s' = (runs s)((p, n) \<mapsto> accepted_run r True)"
    and other: "\<And>q r1. runs s (q, n) = Some r1 \<Longrightarrow> accept_phase r1 \<Longrightarrow> rslot r1 = rslot r \<Longrightarrow> q = p"
  shows "notified_inv N s'"
  unfolding notified_inv_def
proof (intro allI impI conjI)
  fix slot m v assume none: "learned (lrn s') slot = None"
  then have old: "learned (lrn s) slot = None" and upd: "rslot r = slot \<Longrightarrow>
      lrn s' = lrn s\<lparr>counts := (counts (lrn s))((slot, n, rval r) := Suc (counts (lrn s) (slot, n, rval r)))\<rparr>"
    using s'(1) by (auto simp: learner_Observe_def Let_def split: if_splits)
  have cnt: "counts (lrn s') (slot, m, v) = (if (slot, m, v) = (rslot r, n, rval r)
      then Suc (counts (lrn s) (slot, m, v)) else counts (lrn s) (slot, m, v))"
    using s'(1) upd old by (auto simp: learner_Observe_def Let_def split: if_splits)
  show "counts (lrn s') (slot, m, v) \<le> N div 2"
    using none s'(1) cnt nt old by (auto simp: learner_Observe_def Let_def notified_inv_def split: if_splits)
  fix q r1 assume r1: "runs s' (q, m) = Some r1" "rslot r1 = slot" "accept_phase r1" "rval r1 = v"
  show "counts (lrn s') (slot, m, v) = racc r1"
  proof (cases "(q, m) = (p, n)")
    case True
    then have "r1 = accepted_run r True" using r1 s'(2) by simp
    then show ?thesis using True r1 nt old r phase cnt
      by (auto simp: notified_inv_def accepted_run_def Let_def)
  next
    case False
    then have "runs s (q, m) = Some r1" using r1 s'(2) by auto
    moreover from this have "(slot, m, v) \<noteq> (rslot r, n, rval r)" using other r1 False by auto
    ultimately show ?thesis using r1 nt old cnt by (auto simp: notified_inv_def)
  qed
qed

lemma paxos_step_notified:
  assumes step: "paxos_step N s s'" and inv: "paxos_inv N s" and l: "learner_inv N s" and nt: "notified_inv N s"
  shows "notified_inv N s'"
  using step
proof cases
  case (start p slot v)
  show ?thesis by (rule notified_inv_same [OF nt])
    (use start in \<open>auto simp: do_start_def new_run_def accept_phase_def split: if_splits\<close>)
next
  case (prepare k r d)
  show ?thesis by (rule notified_inv_same [OF nt])
    (use prepare in \<open>auto simp: do_prepare_eq prepared_def accept_phase_def Let_def split: if_splits\<close>)
next
  case (decide k r)
  obtain p n where k: "k = (p, n)" by fastforce
  let ?r' = "r\<lparr>rphase := Accepting, ridx := 0, rval := paxos_value (rvalue r) (rhval r)\<rparr>"
  have "counts (lrn s) (rslot r, n, v) = racc r" if "\<not> rprom r \<le> N div 2" for v
  proof (rule ccontr)
    assume neq: "counts (lrn s) (rslot r, n, v) \<noteq> racc r"
    have "racc r = 0"
      using paxos_invD(3) [OF inv, of p n r] decide k by (auto simp: run_inv_def preparing_inv_def)
    then have "counts (lrn s) (rslot r, n, v) \<noteq> 0" using neq by simp
    then obtain q r1 where "runs s (q, n) = Some r1" "rslot r1 = rslot r" "accept_phase r1"
      using l unfolding learner_inv_def counted_def by blast
    moreover from this have "q \<noteq> p" using decide k by (auto simp: accept_phase_def)
    ultimately have r1: "runs s' (q, n) = Some r1" "accept_phase r1" "rslot ?r' = rslot r1" "q \<noteq> p"
      using decide k by (auto simp: do_decide_def)
    have "runs s' (p, n) = Some ?r'" "accept_phase ?r'"
      using decide k that by (auto simp: do_decide_def accept_phase_def)
    then show False using accept_phase_unique [OF paxos_step_inv [OF step inv]] r1 by blast
  qed
  then show ?thesis
    by (intro notified_inv_same [OF nt]) (use decide k in \<open>auto simp: do_decide_def accept_phase_def split: if_splits\<close>)
next
  case (accept k r d)
  obtain p n where k: "k = (p, n)" by fastforce
  let ?accepted = "snd (accept_call d (accs s (ridx r)) (rslot r) n (rval r))"
  have phase: "accept_phase r" using accept by (simp add: accept_phase_def)
  show ?thesis
  proof (cases ?accepted)
    case False
    show ?thesis by (rule notified_inv_same [OF nt])
      (use accept k False phase in \<open>auto simp: do_accept_eq accepted_run_def Let_def accept_phase_def split: if_splits\<close>)
  next
    case True
    have s': "lrn s' = fst (learner_Observe N (lrn s) (rslot r) n (rval r))"
      "runs s' = (runs s)((p, n) \<mapsto> accepted_run r True)" using accept k True by (simp_all add: do_accept_eq Let_def)
    have other: "q = p" if "runs s (q, n) = Some r1" "accept_phase r1" "rslot r1 = rslot r" for q r1
      using accept_phase_unique [OF inv that(1,2) _ phase that(3)] accept k by auto
    have "runs s (p, n) = Some r" using accept k by simp
    then show ?thesis by (rule notified_inv_observe [OF nt _ phase s']) (rule other)
  qed
next
  case (finish k r)
  show ?thesis by (rule notified_inv_same [OF nt])
    (use finish in \<open>auto simp: do_finish_def accept_phase_def split: if_splits\<close>)
next
  case (late_prep k r i)
  show ?thesis by (rule notified_inv_same [OF nt]) (use late_prep in \<open>auto simp: late_prepare_def\<close>)
next
  case (late_acc k r i)
  show ?thesis by (rule notified_inv_same [OF nt]) (use late_acc in \<open>auto simp: late_accept_def\<close>)
qed

lemma paxos_reach_notified: "paxos_reach N s \<Longrightarrow> notified_inv N s"
proof (induction rule: paxos_reach.induct)
  case init
  show ?case by (simp add: notified_inv_def paxos_init_def NewLearner_def)
next
  case (step s s')
  then show ?case using paxos_step_notified paxos_reach_inv paxos_reach_learner by blast
qed

end
