(* ===== verification/Paxos_Refine.thy ===== *)
theory Paxos_Refine
  imports Paxos_Safety
begin

text \<open>
  The proposer's sequential code refines the step relation of \<^theory_text>\<open>Paxos_Safety\<close>, and the
  properties of the package.  The transport is instantiated by a cluster of acceptors and a
  learner; a list of deliveries decides the fate of each message (past its end, everything is
  delivered).
\<close>

record 'v cluster =
  caccs :: "nat \<Rightarrow> 'v Acceptor"
  clrn :: "'v Learner"
  cdel :: "delivery list"

definition next_delivery :: "'v cluster \<Rightarrow> delivery" where
  "next_delivery w = (case cdel w of [] \<Rightarrow> Delivered | d # _ \<Rightarrow> d)"

definition cluster_Transport :: "nat \<Rightarrow> ('v cluster, 'v) Transport" where
  "cluster_Transport N = \<lparr>
     tPrepare = (\<lambda>w i slot n.
       let (a, rep) = prepare_call (next_delivery w) (caccs w i) slot n
       in (w\<lparr>caccs := (caccs w)(i := a), cdel := tl (cdel w)\<rparr>, rep)),
     tAccept = (\<lambda>w i slot n v.
       let (a, rep) = accept_call (next_delivery w) (caccs w i) slot n v
       in (w\<lparr>caccs := (caccs w)(i := a), cdel := tl (cdel w)\<rparr>, rep)),
     tNotifyLearn = Some (\<lambda>w slot n v. w\<lparr>clrn := fst (learner_Observe N (clrn w) slot n v)\<rparr>)\<rparr>"

definition same_cluster :: "'v paxos \<Rightarrow> 'v cluster \<Rightarrow> bool" where
  "same_cluster s w \<longleftrightarrow> accs s = caccs w \<and> lrn s = clrn w"

lemma paxos_reach_steps:
  "(paxos_step N)\<^sup>*\<^sup>* s s' \<Longrightarrow> paxos_reach N s \<Longrightarrow> paxos_reach N s'"
  by (induction rule: rtranclp_induct) (auto intro: paxos_reach.step)

lemma prepare_loop_refines:
  assumes "prepare_loop (cluster_Transport N) slot (snd k) j i w promises high hval = (w', res)"
    and "i + j = N" "same_cluster s w" "runs s k = Some r" "rphase r = Preparing" "ridx r = i"
    and "rslot r = slot" "rprom r = promises" "rhigh r = high" "rhval r = hval"
  shows "\<exists>s' r'. (paxos_step N)\<^sup>*\<^sup>* s s' \<and> same_cluster s' w' \<and> ctr s' = ctr s \<and> runs s' k = Some r' \<and>
    rphase r' = Preparing \<and> ridx r' = N \<and> rslot r' = slot \<and> rvalue r' = rvalue r \<and> racc r' = racc r \<and>
    (rprom r', rhigh r', rhval r') = res \<and> (\<forall>k'. k' \<noteq> k \<longrightarrow> runs s' k' = runs s k')"
  using assms
proof (induction j arbitrary: i w promises high hval s r)
  case 0
  then show ?case by (intro exI [of _ s] exI [of _ r]) auto
next
  case (Suc j)
  let ?d = "next_delivery w"
  let ?s1 = "do_prepare k r ?d s"
  obtain a promised accID accVal where
    call: "prepare_call ?d (caccs w i) slot (snd k) = (a, promised, accID, accVal)"
    by (metis prod_cases4)
  let ?w1 = "w\<lparr>caccs := (caccs w)(i := a), cdel := tl (cdel w)\<rparr>"
  let ?p = "if promised then promises + 1 else promises"
  let ?h = "if promised \<and> accID > high then accID else high"
  let ?hv = "if promised \<and> accID > high then accVal else hval"
  have step: "paxos_step N s ?s1" using Suc.prems by (intro paxos_step.prepare) auto
  obtain r1 where r1: "runs ?s1 k = Some r1" "rphase r1 = Preparing" "ridx r1 = Suc i" "rslot r1 = slot"
      "rprom r1 = ?p" "rhigh r1 = ?h" "rhval r1 = ?hv" "rvalue r1 = rvalue r" "racc r1 = racc r"
    using Suc.prems call by (auto simp: do_prepare_def same_cluster_def Let_def)
  have s1: "same_cluster ?s1 ?w1" "ctr ?s1 = ctr s" "\<forall>k'. k' \<noteq> k \<longrightarrow> runs ?s1 k' = runs s k'"
    using Suc.prems call by (auto simp: do_prepare_def same_cluster_def Let_def split_beta)
  have rest: "prepare_loop (cluster_Transport N) slot (snd k) j (Suc i) ?w1 ?p ?h ?hv = (w', res)"
    using Suc.prems(1) call by (auto simp: cluster_Transport_def split: if_splits)
  obtain s' r' where "(paxos_step N)\<^sup>*\<^sup>* ?s1 s'" "same_cluster s' w'" "ctr s' = ctr s" "runs s' k = Some r'"
      "rphase r' = Preparing" "ridx r' = N" "rslot r' = slot" "rvalue r' = rvalue r" "racc r' = racc r"
      "(rprom r', rhigh r', rhval r') = res" "\<forall>k'. k' \<noteq> k \<longrightarrow> runs s' k' = runs s k'"
    using Suc.IH [OF rest _ s1(1) r1(1-7)] Suc.prems(2) r1(8,9) s1(2,3) by auto
  then show ?case using converse_rtranclp_into_rtranclp [of "paxos_step N", OF step] by blast
qed

lemma accept_loop_refines:
  assumes "accept_loop (cluster_Transport N) slot (snd k) v j i w accepts = (w', res)"
    and "i + j = N" "same_cluster s w" "runs s k = Some r" "rphase r = Accepting" "ridx r = i"
    and "rslot r = slot" "rval r = v" "racc r = accepts"
  shows "\<exists>s' r'. (paxos_step N)\<^sup>*\<^sup>* s s' \<and> same_cluster s' w' \<and> ctr s' = ctr s \<and> runs s' k = Some r' \<and>
    rphase r' = Accepting \<and> ridx r' = N \<and> rslot r' = slot \<and> rvalue r' = rvalue r \<and> rval r' = v \<and> racc r' = res \<and>
    (\<forall>k'. k' \<noteq> k \<longrightarrow> runs s' k' = runs s k')"
  using assms
proof (induction j arbitrary: i w accepts s r)
  case 0
  then show ?case by (intro exI [of _ s] exI [of _ r]) auto
next
  case (Suc j)
  let ?d = "next_delivery w"
  let ?s1 = "do_accept N k r ?d s"
  obtain a accepted where call: "accept_call ?d (caccs w i) slot (snd k) v = (a, accepted)" by fastforce
  let ?w1 = "w\<lparr>caccs := (caccs w)(i := a), cdel := tl (cdel w),
    clrn := (if accepted then fst (learner_Observe N (clrn w) slot (snd k) v) else clrn w)\<rparr>"
  let ?n = "if accepted then accepts + 1 else accepts"
  have step: "paxos_step N s ?s1" using Suc.prems by (intro paxos_step.accept) auto
  have r1: "runs ?s1 k = Some (accepted_run r accepted)" "same_cluster ?s1 ?w1" "ctr ?s1 = ctr s"
      "\<forall>k'. k' \<noteq> k \<longrightarrow> runs ?s1 k' = runs s k'"
    using Suc.prems call by (auto simp: do_accept_eq same_cluster_def Let_def)
  have "rphase (accepted_run r accepted) = Accepting" "ridx (accepted_run r accepted) = Suc i"
      "rslot (accepted_run r accepted) = slot" "rval (accepted_run r accepted) = v"
      "racc (accepted_run r accepted) = ?n" "rvalue (accepted_run r accepted) = rvalue r"
    using Suc.prems by (auto simp: accepted_run_def Let_def)
  moreover have rest: "accept_loop (cluster_Transport N) slot (snd k) v j (Suc i) ?w1 ?n = (w', res)"
    using Suc.prems(1) call by (auto simp: cluster_Transport_def split: if_splits)
  ultimately obtain s' r' where "(paxos_step N)\<^sup>*\<^sup>* ?s1 s'" "same_cluster s' w'" "ctr s' = ctr s"
      "runs s' k = Some r'" "rphase r' = Accepting" "ridx r' = N" "rslot r' = slot" "rvalue r' = rvalue r"
      "rval r' = v" "racc r' = res" "\<forall>k'. k' \<noteq> k \<longrightarrow> runs s' k' = runs s k'"
    using Suc.IH [OF rest _ r1(2) r1(1)] Suc.prems(2) r1(3,4) by auto
  then show ?case using converse_rtranclp_into_rtranclp [of "paxos_step N", OF step] by blast
qed

section \<open>The sequential proposer\<close>

fun outcome :: "paxos_error + unit \<Rightarrow> phase" where
  "outcome (Inl NoMajorityPromises) = PrepareFailed"
| "outcome (Inl NoMajorityAccepts) = AcceptFailed"
| "outcome (Inr _) = Succeeded"

lemma propose_is_run:
  assumes call: "paxos_propose N (cluster_Transport N) w (ctr s p) slot v = (w', pid, res)"
    and w: "same_cluster s w"
  shows "\<exists>s' r. (paxos_step N)\<^sup>*\<^sup>* s s' \<and> same_cluster s' w' \<and> ctr s' p = pid \<and> pid = ctr s p + 1 \<and>
    runs s' (p, pid) = Some r \<and> rslot r = slot \<and> rvalue r = v \<and> rphase r = outcome res \<and>
    (\<forall>k. k \<noteq> (p, pid) \<longrightarrow> runs s' k = runs s k)"
proof -
  let ?T = "cluster_Transport N" and ?s1 = "do_start p slot v s" and ?n = "ctr s p + 1"
  let ?k = "(p, ?n)"
  obtain w1 promises high hval where
    prep: "prepare_loop ?T slot (snd ?k) N 0 w 0 (-1) None = (w1, promises, high, hval)" by (metis prod_cases4)
  have st: "(paxos_step N)\<^sup>*\<^sup>* s ?s1" by (blast intro: paxos_step.start)
  obtain s2 r2 where s2: "(paxos_step N)\<^sup>*\<^sup>* ?s1 s2" "same_cluster s2 w1" "ctr s2 = ctr ?s1" "runs s2 ?k = Some r2"
      "rphase r2 = Preparing" "ridx r2 = N" "rslot r2 = slot" "rvalue r2 = v" "racc r2 = 0"
      "rprom r2 = promises" "rhval r2 = hval" "\<forall>k. k \<noteq> ?k \<longrightarrow> runs s2 k = runs s k"
    using prepare_loop_refines [OF prep, of ?s1 "new_run slot v"] w
    by (auto simp: do_start_def new_run_def same_cluster_def)
  let ?s3 = "do_decide N ?k r2 s2"
  have step: "paxos_step N s2 ?s3" using s2 by (intro paxos_step.decide) auto
  have s3: "(paxos_step N)\<^sup>*\<^sup>* s ?s3" "same_cluster ?s3 w1" "ctr ?s3 p = ?n" "\<forall>k. k \<noteq> ?k \<longrightarrow> runs ?s3 k = runs s k"
    using rtranclp_trans [OF st rtranclp.rtrancl_into_rtrancl [OF s2(1) step]] s2
    by (auto simp: do_decide_def do_start_def same_cluster_def)
  show ?thesis
  proof (cases "promises \<le> N div 2")
    case True
    then show ?thesis using call prep s3 s2
      by (intro exI [of _ ?s3]) (auto simp: paxos_propose_def do_decide_def Let_def)
  next
    case False
    let ?r3 = "r2\<lparr>rphase := Accepting, ridx := 0, rval := paxos_value v hval\<rparr>"
    obtain w2 accepts where acc: "accept_loop ?T slot (snd ?k) (paxos_value v hval) N 0 w1 0 = (w2, accepts)" by fastforce
    have r3: "runs ?s3 ?k = Some ?r3" using False s2 by (simp add: do_decide_def)
    obtain s4 r4 where s4: "(paxos_step N)\<^sup>*\<^sup>* ?s3 s4" "same_cluster s4 w2" "ctr s4 = ctr ?s3" "runs s4 ?k = Some r4"
        "rphase r4 = Accepting" "ridx r4 = N" "rslot r4 = slot" "rvalue r4 = v" "racc r4 = accepts"
        "\<forall>k. k \<noteq> ?k \<longrightarrow> runs s4 k = runs ?s3 k"
      using accept_loop_refines [OF acc _ s3(2) r3] s2 by auto
    let ?s5 = "do_finish N ?k r4 s4"
    have "paxos_step N s4 ?s5" using s4 by (intro paxos_step.finish) auto
    then have "(paxos_step N)\<^sup>*\<^sup>* s ?s5"
      by (rule rtranclp_trans [OF s3(1) rtranclp.rtrancl_into_rtrancl [OF s4(1)]])
    then show ?thesis using call prep acc False s4 s3(3,4)
      by (intro exI [of _ ?s5]) (auto simp: paxos_propose_def do_finish_def same_cluster_def Let_def)
  qed
qed

lemma succeeded_learned:
  assumes "paxos_reach N s" "non_nil s" "runs s k = Some r" "rphase r = Succeeded"
  shows "learned (lrn s) (rslot r) = Some (rval r)"
proof -
  note inv = paxos_reach_inv [OF assms(1)]
  obtain p n where k: "k = (p, n)" by fastforce
  have r: "accept_phase r" "N div 2 < racc r"
    using paxos_invD(3) [OF inv, of p n r] assms(3,4) k by (auto simp: run_inv_def accept_phase_def)
  have "learned (lrn s) (rslot r) \<noteq> None"
    using paxos_reach_notified [OF assms(1)] r assms(3) k unfolding notified_inv_def by (metis not_le)
  then obtain v where v: "learned (lrn s) (rslot r) = Some v" by blast
  then obtain q m r' where "runs s (q, m) = Some r'" "rslot r' = rslot r" "accept_phase r'" "rval r' = v" "N div 2 < racc r'"
    using paxos_reach_learner [OF assms(1)] unfolding learner_inv_def counted_def by (meson less_le_trans)
  then show ?thesis using majority_runs_agree [OF inv assms(2,3) r] v by auto
qed

section \<open>Properties\<close>

text \<open>A concrete cluster: three fresh acceptors, two consecutive proposals.\<close>

definition cluster0 :: "delivery list \<Rightarrow> nat cluster" where
  "cluster0 ds = \<lparr>caccs = (\<lambda>_. NewAcceptor), clrn = NewLearner, cdel = ds\<rparr>"

lemmas paxos_eval = paxos_propose_def prepare_loop.simps accept_loop.simps cluster_Transport_def
  cluster0_def next_delivery_def prepare_call_def accept_call_def ReceivePrepare_def ReceiveAccept_def
  acceptor_state_def NewAcceptor_def NewLearner_def learner_Observe_def paxos_value_def

lemma two_proposals:
  "\<exists>w1 w2. paxos_propose 3 (cluster_Transport 3) (cluster0 [Delivered, RequestLost]) 0 0 (Some 7) = (w1, 1, Inr ()) \<and>
     paxos_propose 3 (cluster_Transport 3) w1 1 0 (Some 8) = (w2, 2, Inr ())"
  by (simp add: paxos_eval Let_def numeral_3_eq_3)

lemma two_runs:
  "\<exists>(s :: nat paxos) r r'. paxos_reach 3 s \<and> non_nil s \<and> runs s (0, 1) = Some r \<and> rphase r = Succeeded \<and>
     runs s (0, 2) = Some r' \<and> rphase r' = Succeeded \<and> rslot r = 0 \<and> rslot r' = 0"
proof -
  obtain w1 w2 where w: "paxos_propose 3 (cluster_Transport 3) (cluster0 [Delivered, RequestLost]) 0 0 (Some 7) = (w1, 1, Inr ())"
      "paxos_propose 3 (cluster_Transport 3) w1 1 0 (Some 8) = (w2, 2, Inr ())" using two_proposals by blast
  obtain s1 r1 where s1: "(paxos_step 3)\<^sup>*\<^sup>* paxos_init s1" "same_cluster s1 w1" "ctr s1 0 = 1" "runs s1 (0, 1) = Some r1"
      "rslot r1 = 0" "rvalue r1 = Some 7" "rphase r1 = Succeeded"
      "\<forall>k. k \<noteq> (0, 1) \<longrightarrow> runs s1 k = runs (paxos_init :: nat paxos) k"
    using propose_is_run [of 3 "cluster0 [Delivered, RequestLost]" "paxos_init :: nat paxos" 0 0 "Some 7"] w(1)
    by (auto simp: paxos_init_def same_cluster_def cluster0_def)
  obtain s2 r2 where s2: "(paxos_step 3)\<^sup>*\<^sup>* s1 s2" "runs s2 (0, 2) = Some r2"
      "rslot r2 = 0" "rvalue r2 = Some 8" "rphase r2 = Succeeded" "\<forall>k. k \<noteq> (0, 2) \<longrightarrow> runs s2 k = runs s1 k"
    using propose_is_run [of 3 w1 s1 0 0 "Some 8"] w(2) s1(2,3) by auto
  have "paxos_reach 3 s2" using paxos_reach_steps s1(1) s2(1) paxos_reach.init by blast
  moreover have "rvalue r \<noteq> None" if "runs s2 k = Some r" for k r
    using that s1(4,6,8) s2(2,4,6) by (cases "k = (0, 2)"; cases "k = (0, 1)") (auto simp: paxos_init_def)
  then have "non_nil s2" by (auto simp: non_nil_def)
  ultimately show ?thesis using s1(4,5,7) s2 by auto
qed

text \<open>C1: Paxos agreement.  In every state that any number of concurrent proposers can reach with \<open>N\<close>
  acceptors, with messages lost in either direction or arriving late, two proposals on the same
  slot that both succeeded got the same value accepted, that value was proposed by someone, and it
  is the value the learner holds for the slot.  Proposal ids need not be unique; the proposed values must not
  be nil.\<close>

theorem paxos_agreement:
  assumes "paxos_reach N s" and "non_nil s"
    and "runs s k = Some r" "rphase r = Succeeded"
    and "runs s k' = Some r'" "rphase r' = Succeeded" and "rslot r = rslot r'"
  shows "rval r = rval r' \<and> (\<exists>k0 r0. runs s k0 = Some r0 \<and> rslot r0 = rslot r \<and> rvalue r0 = rval r) \<and>
    learner_Value (lrn s) (rslot r) = Some (rval r)"
proof -
  have "learned (lrn s) (rslot r) = Some (rval r)" "learned (lrn s) (rslot r') = Some (rval r')"
    using succeeded_learned [OF assms(1,2)] assms(3-6) by auto
  moreover have "\<exists>k0 r0. runs s k0 = Some r0 \<and> rslot r0 = rslot r \<and> rvalue r0 = rval r"
    using accepted_value_proposed [OF paxos_reach_inv [OF assms(1)], of "fst k" "snd k"] assms(3,4)
    by (simp add: accept_phase_def)
  ultimately show ?thesis using assms(7) by (simp add: learner_Value_def)
qed

theorem paxos_agreement_witness:
  "\<exists>(s :: nat paxos) r r'. paxos_reach 3 s \<and> non_nil s \<and> runs s (0, 1) = Some r \<and> rphase r = Succeeded \<and>
     runs s (0, 2) = Some r' \<and> rphase r' = Succeeded \<and> rval r = rval r'"
proof -
  obtain s :: "nat paxos" and r r' where s: "paxos_reach 3 s" "non_nil s" "runs s (0, 1) = Some r"
    "rphase r = Succeeded" "runs s (0, 2) = Some r'" "rphase r' = Succeeded" "rslot r = 0" "rslot r' = 0"
    using two_runs by blast
  then show ?thesis using paxos_agreement [OF s(1-6)] by auto
qed

text \<open>C2: the proposer's code refines the protocol.  Running \<^verbatim>\<open>propose\<close> against a cluster of
  acceptors and a learner, whatever the fate of its messages, is a sequence of protocol steps that
  ends with the same acceptors and the same learner and with the run of that proposal in the phase its result
  reports; the other runs are untouched.\<close>

theorem paxos_propose_refines:
  assumes "paxos_propose N (cluster_Transport N) w (ctr s p) slot v = (w', pid, res)"
    and "same_cluster s w"
  shows "\<exists>s' r. (paxos_step N)\<^sup>*\<^sup>* s s' \<and> same_cluster s' w' \<and> ctr s' p = pid \<and> pid = ctr s p + 1 \<and>
    runs s' (p, pid) = Some r \<and> rslot r = slot \<and> rvalue r = v \<and> rphase r = outcome res \<and>
    (\<forall>k. k \<noteq> (p, pid) \<longrightarrow> runs s' k = runs s k)"
  by (rule propose_is_run [OF assms])

theorem paxos_propose_refines_witness:
  "\<exists>w' pid res s' r. paxos_propose 3 (cluster_Transport 3) (cluster0 [RequestLost, ReplyLost]) 0 0 (Some 7) = (w', pid, res) \<and>
     (paxos_step 3)\<^sup>*\<^sup>* (paxos_init :: nat paxos) s' \<and> same_cluster s' w' \<and> runs s' (0, pid) = Some r \<and>
     rphase r = PrepareFailed"
proof -
  have c: "snd (paxos_propose 3 (cluster_Transport 3) (cluster0 [RequestLost, ReplyLost]) 0 0 (Some 7)) = (1, Inl NoMajorityPromises)"
    by (simp add: paxos_eval Let_def numeral_3_eq_3)
  then obtain w' where "paxos_propose 3 (cluster_Transport 3) (cluster0 [RequestLost, ReplyLost]) 0 0 (Some 7)
      = (w', 1, Inl NoMajorityPromises)"
    by (metis prod.collapse)
  then show ?thesis
    using paxos_propose_refines [of 3 "cluster0 [RequestLost, ReplyLost]" "paxos_init :: nat paxos" 0 0 "Some 7" w' 1 "Inl NoMajorityPromises"]
    by (fastforce simp: paxos_init_def same_cluster_def cluster0_def)
qed

text \<open>Multi-Paxos.  When the transport notifies the learner, a successful \<^verbatim>\<open>ProposeSlot\<close> logs for
  its slot the value its proposal got accepted (which need not be the value it was called with),
  advances the slot by one and leaves the cluster in a reachable state, so that the agreement of
  the protocol extends to the log.\<close>

lemma ProposeSlot_logs_chosen:
  assumes "paxos_reach N s" "non_nil s" "same_cluster s w" "proposalID m = ctr s p" "v \<noteq> None"
    and "ProposeSlot N (cluster_Transport N) clrn w m v = (w', m', slot, Inr ())"
  shows "\<exists>s' r. paxos_reach N s' \<and> non_nil s' \<and> same_cluster s' w' \<and> runs s' (p, proposalID m') = Some r \<and>
    rphase r = Succeeded \<and> rslot r = slot \<and> Chosen m' slot = Some (rval r) \<and>
    slot = nextSlot m \<and> nextSlot m' = slot + 1"
proof -
  obtain w1 pid res where call: "paxos_propose N (cluster_Transport N) w (ctr s p) (nextSlot m) v = (w1, pid, res)"
    by (metis prod_cases3)
  then have res: "res = Inr ()" "w' = w1" "slot = nextSlot m" "proposalID m' = pid" "nextSlot m' = nextSlot m + 1"
      "Log m' slot = Some (case learned (clrn w1) slot of Some u \<Rightarrow> u | None \<Rightarrow> v)"
    using assms(4,6) by (auto simp: ProposeSlot_def learner_Value_def Let_def split: sum.splits)
  obtain s' r where s': "(paxos_step N)\<^sup>*\<^sup>* s s'" "same_cluster s' w1" "runs s' (p, pid) = Some r" "rslot r = nextSlot m"
      "rvalue r = v" "rphase r = Succeeded" "\<forall>k. k \<noteq> (p, pid) \<longrightarrow> runs s' k = runs s k"
    using propose_is_run [OF call assms(3)] res(1) by auto
  have reach: "paxos_reach N s'" using paxos_reach_steps [OF s'(1) assms(1)] .
  have nn: "non_nil s'" unfolding non_nil_def using assms(2,5) s'(3,5,7) by (metis non_nil_def option.inject)
  have "learned (clrn w1) slot = Some (rval r)"
    using succeeded_learned [OF reach nn s'(3,6)] s'(2,4) res(3) by (simp add: same_cluster_def)
  then show ?thesis using reach nn s' res by (auto simp: Chosen_def)
qed

text \<open>The hypothesis on nil is needed.  A nil value can be chosen and learned, and a later
  proposal on the same slot then gets a different value accepted by every acceptor, because the
  code takes a reported nil for no report.\<close>

lemma paxos_nil_not_kept:
  "\<exists>w1 w2. paxos_propose 3 (cluster_Transport 3) (cluster0 []) 0 0 None = (w1, 1, Inr ()) \<and>
     learner_Value (clrn w1) 0 = Some None \<and>
     paxos_propose 3 (cluster_Transport 3) w1 1 0 (Some 8) = (w2, 2, Inr ()) \<and>
     AcceptedValueAt (caccs w2 0) 0 = Some 8 \<and> AcceptedValueAt (caccs w2 1) 0 = Some 8 \<and>
     AcceptedValueAt (caccs w2 2) 0 = Some 8 \<and> learner_Value (clrn w2) 0 = Some None"
  by (simp add: paxos_eval Let_def numeral_3_eq_3 learner_Value_def AcceptedValueAt_def)

text \<open>Without notifications (a transport that is not a \<^verbatim>\<open>LearnTransport\<close>) \<^verbatim>\<open>ProposeSlot\<close> logs the
  value it was called with even when its proposal had to adopt another one: here every acceptor
  holds 7, and the log says 8.\<close>

lemma ProposeSlot_logs_unchosen:
  "\<exists>w1 w2 m. paxos_propose 3 (cluster_Transport 3) (cluster0 []) 0 0 (Some 7) = (w1, 1, Inr ()) \<and>
     ProposeSlot 3 ((cluster_Transport 3)\<lparr>tNotifyLearn := None\<rparr>) (\<lambda>_. NewLearner) w1
       (NewMultiPaxos\<lparr>proposalID := 1\<rparr>) (Some 8) = (w2, m, 0, Inr ()) \<and>
     Chosen m 0 = Some (Some 8) \<and> AcceptedValueAt (caccs w2 0) 0 = Some 7 \<and>
     AcceptedValueAt (caccs w2 1) 0 = Some 7 \<and> AcceptedValueAt (caccs w2 2) 0 = Some 7"
  by (simp add: ProposeSlot_def NewMultiPaxos_def Chosen_def paxos_eval Let_def numeral_3_eq_3
      learner_Value_def AcceptedValueAt_def)

end
