(* ===== verification/Raft.thy ===== *)
theory Raft
  imports Quorum
begin

text \<open>
  \<^verbatim>\<open>pkg/algorithms/consensus/raft/raft.go\<close>: the node, its RPC handlers, and the parts of its
  candidate and leader code that run under the node's mutex.  Node ids are strings, the empty
  string meaning no vote as in the source; terms and indices are \<open>int\<close>s.  A slice access out of
  range panics: the functions that could do so return an \<open>option\<close>.  The timers, the goroutine
  scheduling and the transport are not here; \<^verbatim>\<open>Raft_Election\<close> composes these functions into
  steps.
\<close>

section \<open>State\<close>

datatype State = Follower | Candidate | Leader

record 'c LogEntry =
  Term :: int
  Command :: 'c

text \<open>The apply channel: its buffered commands and its capacity.\<close>

type_synonym 'c channel = "'c list \<times> nat"

record 'c Node =
  nid :: string
  peers :: "string list"
  nstate :: State
  currentTerm :: int
  votedFor :: string
  rlog :: "'c LogEntry list"
  commitIndex :: int
  lastApplied :: int
  nextIndex :: "string \<Rightarrow> int"
  matchIndex :: "string \<Rightarrow> int"
  applyCh :: "'c channel option"

definition raft_New :: "string \<Rightarrow> string list \<Rightarrow> 'c channel option \<Rightarrow> 'c Node" where
  "raft_New i ps ch = \<lparr>nid = i, peers = ps, nstate = Follower, currentTerm = 0, votedFor = [], rlog = [],
     commitIndex = -1, lastApplied = -1, nextIndex = (\<lambda>_. 0), matchIndex = (\<lambda>_. 0), applyCh = ch\<rparr>"

section \<open>Applying committed entries\<close>

text \<open>A send that would block is dropped (the \<^verbatim>\<open>default\<close> branch of the select).\<close>

definition try_send :: "'c channel \<Rightarrow> 'c \<Rightarrow> 'c channel" where
  "try_send ch c = (case ch of (buf, cap) \<Rightarrow> if length buf < cap then (buf @ [c], cap) else (buf, cap))"

function applyCommitted :: "'c Node \<Rightarrow> 'c Node option" where
  "applyCommitted n =
     (if lastApplied n < commitIndex n
      then let i = lastApplied n + 1; n' = n\<lparr>lastApplied := i\<rparr>
           in case applyCh n of
                None \<Rightarrow> applyCommitted n'
              | Some ch \<Rightarrow>
                  if 0 \<le> i \<and> i < int (length (rlog n))
                  then applyCommitted (n'\<lparr>applyCh := Some (try_send ch (Command (rlog n ! nat i)))\<rparr>)
                  else None
      else Some n)"
  by pat_completeness auto
termination
  by (relation "measure (\<lambda>n. nat (commitIndex n - lastApplied n))") auto

declare applyCommitted.simps [simp del]

section \<open>AppendEntries\<close>

fun append_entries :: "'c LogEntry list \<Rightarrow> nat \<Rightarrow> 'c LogEntry list \<Rightarrow> 'c LogEntry list" where
  "append_entries l idx [] = l"
| "append_entries l idx (e # es) =
     (if idx < length l
      then if Term (l ! idx) \<noteq> Term e then take idx l @ (e # es) else append_entries l (idx + 1) es
      else l @ (e # es))"

definition prev_ok :: "'c LogEntry list \<Rightarrow> int \<Rightarrow> int \<Rightarrow> bool" where
  "prev_ok l prevLogIndex prevLogTerm \<longleftrightarrow>
     (if prevLogIndex \<ge> 0
      then prevLogIndex < int (length l) \<and> Term (l ! nat prevLogIndex) = prevLogTerm
      else \<not> prevLogIndex < -1)"

definition raft_commit :: "'c Node \<Rightarrow> int \<Rightarrow> 'c Node option" where
  "raft_commit n leaderCommit =
     (if leaderCommit > commitIndex n
      then let lastNew = int (length (rlog n)) - 1
           in applyCommitted (n\<lparr>commitIndex := (if leaderCommit < lastNew then leaderCommit else lastNew)\<rparr>)
      else Some n)"

definition HandleAppendEntries ::
  "'c Node \<Rightarrow> int \<Rightarrow> string \<Rightarrow> int \<Rightarrow> int \<Rightarrow> 'c LogEntry list \<Rightarrow> int \<Rightarrow> ('c Node \<times> int \<times> bool) option" where
  "HandleAppendEntries n trm leaderID prevLogIndex prevLogTerm entries leaderCommit =
     (if trm < currentTerm n then Some (n, currentTerm n, False)
      else let n = (if trm > currentTerm n then n\<lparr>currentTerm := trm, votedFor := []\<rparr> else n);
               n = n\<lparr>nstate := Follower\<rparr>
           in if \<not> prev_ok (rlog n) prevLogIndex prevLogTerm then Some (n, currentTerm n, False)
              else let n = n\<lparr>rlog := append_entries (rlog n) (nat (prevLogIndex + 1)) entries\<rparr>
                   in case raft_commit n leaderCommit of
                        None \<Rightarrow> None
                      | Some n \<Rightarrow> Some (n, currentTerm n, True))"

section \<open>RequestVote\<close>

definition last_index :: "'c Node \<Rightarrow> int" where
  "last_index n = int (length (rlog n)) - 1"

definition last_term :: "'c Node \<Rightarrow> int" where
  "last_term n = (if last_index n \<ge> 0 then Term (rlog n ! nat (last_index n)) else 0)"

definition HandleRequestVote ::
  "'c Node \<Rightarrow> int \<Rightarrow> string \<Rightarrow> int \<Rightarrow> int \<Rightarrow> 'c Node \<times> int \<times> bool" where
  "HandleRequestVote n trm candidateID lastLogIndex lastLogTerm =
     (if trm < currentTerm n then (n, currentTerm n, False)
      else let n = (if trm > currentTerm n
                    then n\<lparr>currentTerm := trm, votedFor := [], nstate := Follower\<rparr> else n);
               upToDate = (lastLogTerm > last_term n \<or>
                           lastLogTerm = last_term n \<and> lastLogIndex \<ge> last_index n)
           in if (votedFor n = [] \<or> votedFor n = candidateID) \<and> upToDate
              then (n\<lparr>votedFor := candidateID\<rparr>, currentTerm n, True)
              else (n, currentTerm n, False))"

section \<open>Follower and candidate\<close>

definition follower_timeout :: "'c Node \<Rightarrow> 'c Node" where
  "follower_timeout n = n\<lparr>nstate := Candidate\<rparr>"

text \<open>The start of \<^verbatim>\<open>runCandidate\<close>: the new state, and the term, last index and last term it asks
  its peers to vote on.\<close>

definition candidate_start :: "'c Node \<Rightarrow> 'c Node \<times> int \<times> int \<times> int" where
  "candidate_start n =
     (let n = n\<lparr>currentTerm := currentTerm n + 1, votedFor := nid n\<rparr>
      in (n, currentTerm n, last_index n, last_term n))"

text \<open>The two branches of the reply callback.  \<open>candidate_majority\<close> runs when the votes of the
  campaign for \<open>trm\<close> have become a majority.\<close>

definition votes_suffice :: "nat \<Rightarrow> nat \<Rightarrow> bool" where
  "votes_suffice votes npeers \<longleftrightarrow> votes > (npeers + 1) div 2"

definition candidate_majority :: "'c Node \<Rightarrow> int \<Rightarrow> 'c Node" where
  "candidate_majority n trm =
     (if nstate n = Candidate \<and> currentTerm n = trm
      then n\<lparr>nstate := Leader,
             nextIndex := (\<lambda>p. if p \<in> set (peers n) then int (length (rlog n)) else nextIndex n p),
             matchIndex := (\<lambda>p. if p \<in> set (peers n) then -1 else matchIndex n p)\<rparr>
      else n)"

definition candidate_rejected :: "'c Node \<Rightarrow> int \<Rightarrow> int \<Rightarrow> 'c Node" where
  "candidate_rejected n trm t =
     (if t > trm then n\<lparr>nstate := Follower, currentTerm := t, votedFor := []\<rparr> else n)"

section \<open>Leader\<close>

definition raft_Propose :: "'c Node \<Rightarrow> 'c \<Rightarrow> 'c Node option" where
  "raft_Propose n command =
     (if nstate n \<noteq> Leader then None
      else Some (n\<lparr>rlog := rlog n @ [\<lparr>Term = currentTerm n, Command = command\<rparr>]\<rparr>))"

text \<open>\<open>replicate_message\<close> is the AppendEntries call \<^verbatim>\<open>replicateToFollowers\<close> makes for a peer from
  its snapshot of the node; \<open>replicate_reply\<close> is what its goroutine does with the answer.\<close>

record 'c AppendMsg =
  mterm :: int
  mprev :: int
  mprevTerm :: int
  mentries :: "'c LogEntry list"
  mcommit :: int

definition replicate_message :: "'c Node \<Rightarrow> string \<Rightarrow> 'c AppendMsg option" where
  "replicate_message n p =
     (if nstate n \<noteq> Leader then None
      else let ni = nextIndex n p; prevLogIndex = ni - 1
           in Some \<lparr>mterm = currentTerm n, mprev = prevLogIndex,
                mprevTerm = (if prevLogIndex \<ge> 0 \<and> prevLogIndex < int (length (rlog n))
                             then Term (rlog n ! nat prevLogIndex) else 0),
                mentries = (if ni < int (length (rlog n)) then drop (nat ni) (rlog n) else []),
                mcommit = commitIndex n\<rparr>)"

text \<open>The loop of \<^verbatim>\<open>advanceCommitLocked\<close>, for \<open>N = k - 1\<close> downwards.\<close>

definition commit_count :: "'c Node \<Rightarrow> int \<Rightarrow> nat" where
  "commit_count n N = 1 + length (filter (\<lambda>p. matchIndex n p \<ge> N) (peers n))"

fun advance_loop :: "'c Node \<Rightarrow> nat \<Rightarrow> 'c Node option" where
  "advance_loop n 0 = Some n"
| "advance_loop n (Suc N) =
     (if int N > commitIndex n
      then if Term (rlog n ! N) \<noteq> currentTerm n then advance_loop n N
           else if commit_count n (int N) > (length (peers n) + 1) div 2
           then applyCommitted (n\<lparr>commitIndex := int N\<rparr>)
           else advance_loop n N
      else Some n)"

definition advanceCommit :: "'c Node \<Rightarrow> 'c Node option" where
  "advanceCommit n = advance_loop n (length (rlog n))"

definition replicate_reply :: "'c Node \<Rightarrow> string \<Rightarrow> int \<Rightarrow> int \<Rightarrow> bool \<Rightarrow> 'c Node option" where
  "replicate_reply n p trm t ok =
     (if t > currentTerm n then Some (n\<lparr>nstate := Follower, currentTerm := t, votedFor := []\<rparr>)
      else if nstate n \<noteq> Leader \<or> currentTerm n \<noteq> trm then Some n
      else if ok
      then advanceCommit (n\<lparr>nextIndex := (nextIndex n)(p := int (length (rlog n))),
                            matchIndex := (matchIndex n)(p := int (length (rlog n)) - 1)\<rparr>)
      else if nextIndex n p > 0
      then Some (n\<lparr>nextIndex := (nextIndex n)(p := nextIndex n p - 1)\<rparr>)
      else Some n)"

section \<open>What applying and committing leave alone\<close>

lemma applyCommitted_frame:
  "applyCommitted n = Some n' \<Longrightarrow> nid n' = nid n \<and> peers n' = peers n \<and> currentTerm n' = currentTerm n \<and>
     votedFor n' = votedFor n \<and> nstate n' = nstate n \<and> rlog n' = rlog n \<and> commitIndex n' = commitIndex n \<and>
     nextIndex n' = nextIndex n \<and> matchIndex n' = matchIndex n"
proof (induction n rule: applyCommitted.induct)
  case (1 n)
  let ?i = "lastApplied n + 1"
  consider (stop) "\<not> lastApplied n < commitIndex n" | (none) "lastApplied n < commitIndex n" "applyCh n = None"
    | (some) ch where "lastApplied n < commitIndex n" "applyCh n = Some ch" by (cases "applyCh n") auto
  then show ?case
  proof cases
    case stop
    then show ?thesis using "1.prems" by (subst (asm) applyCommitted.simps) simp
  next
    case none
    then have "applyCommitted (n\<lparr>lastApplied := ?i\<rparr>) = Some n'"
      using "1.prems" by (subst (asm) applyCommitted.simps) (simp add: Let_def)
    from "1.IH"(1) [OF none(1) refl refl none(2) this] show ?thesis by simp
  next
    case some
    then have "0 \<le> ?i \<and> ?i < int (length (rlog n))"
      and "applyCommitted (n\<lparr>lastApplied := ?i, applyCh := Some (try_send ch (Command (rlog n ! nat ?i)))\<rparr>) = Some n'"
      using "1.prems" by (subst (asm) applyCommitted.simps, simp add: Let_def split: if_splits)+
    from "1.IH"(2) [OF some(1) refl refl some(2) this] show ?thesis by simp
  qed
qed

lemma advance_loop_frame:
  "advance_loop n k = Some n' \<Longrightarrow> nid n' = nid n \<and> peers n' = peers n \<and> currentTerm n' = currentTerm n \<and>
     votedFor n' = votedFor n \<and> nstate n' = nstate n \<and> rlog n' = rlog n \<and> nextIndex n' = nextIndex n \<and>
     matchIndex n' = matchIndex n"
  by (induction k) (auto split: if_splits dest: applyCommitted_frame)

end
