(* ===== verification/Raft_Election.thy ===== *)
theory Raft_Election
  imports Raft
begin

text \<open>
  Leader election in the Raft package.  The nodes of a cluster run the handlers of \<^theory_text>\<open>Raft\<close>;
  every \<^verbatim>\<open>runCandidate\<close> is a campaign whose vote requests may be delivered any number of times, at
  any time or never, and whose replies may be handled at any later time, at most one per peer.
  AppendEntries messages are arbitrary.  The flag \<open>ordered\<close> of the step relation says whether a
  rejection with a higher term is only handled while that term is still above the node's own.  The
  components \<open>cast\<close>, \<open>led\<close> and the field \<open>voters\<close> are history and are never read by the code's steps.
\<close>

record campaign =
  cand :: string
  cterm :: int
  cidx :: int
  clast :: int
  votes :: nat
  voters :: "string set"

record 'c raft =
  nodes :: "string \<Rightarrow> 'c Node"
  camps :: "nat \<rightharpoonup> campaign"
  nextCamp :: nat
  asked :: "(nat \<times> string) set"
  replies :: "(nat \<times> string \<times> int \<times> bool) set"
  cast :: "(int \<times> string \<times> string) set"
  led :: "(int \<times> string) set"

definition raft_init :: "string list \<Rightarrow> 'c raft" where
  "raft_init ids = \<lparr>nodes = (\<lambda>i. raft_New i (remove1 i ids) None), camps = Map.empty, nextCamp = 0,
     asked = {}, replies = {}, cast = {}, led = {}\<rparr>"

definition set_node :: "'c raft \<Rightarrow> string \<Rightarrow> 'c Node \<Rightarrow> 'c raft" where
  "set_node s i n = s\<lparr>nodes := (nodes s)(i := n)\<rparr>"

definition do_campaign :: "string \<Rightarrow> 'c raft \<Rightarrow> 'c raft" where
  "do_campaign i s =
     (let (n, trm, lastIndex, lastTerm) = candidate_start (nodes s i); c = nextCamp s
      in s\<lparr>nodes := (nodes s)(i := n),
           camps := (camps s)(c \<mapsto> \<lparr>cand = i, cterm = trm, cidx = lastIndex, clast = lastTerm, votes = 1, voters = {i}\<rparr>),
           nextCamp := c + 1, asked := asked s \<union> {c} \<times> set (peers n), cast := insert (trm, i, i) (cast s)\<rparr>)"

definition do_request :: "nat \<Rightarrow> campaign \<Rightarrow> string \<Rightarrow> 'c raft \<Rightarrow> 'c raft" where
  "do_request c k p s =
     (let (n, t, granted) = HandleRequestVote (nodes s p) (cterm k) (cand k) (cidx k) (clast k)
      in s\<lparr>nodes := (nodes s)(p := n), replies := insert (c, p, t, granted) (replies s),
           cast := (if granted then insert (cterm k, p, cand k) (cast s) else cast s)\<rparr>)"

definition do_granted :: "nat \<Rightarrow> campaign \<Rightarrow> string \<Rightarrow> 'c raft \<Rightarrow> 'c raft" where
  "do_granted c k p s =
     (let n = nodes s (cand k); k' = k\<lparr>votes := votes k + 1, voters := insert p (voters k)\<rparr>;
          s = s\<lparr>camps := (camps s)(c \<mapsto> k'), asked := asked s - {(c, p)}\<rparr>
      in if votes_suffice (votes k') (length (peers n))
         then s\<lparr>nodes := (nodes s)(cand k := candidate_majority n (cterm k)),
                led := (if nstate n = Candidate \<and> currentTerm n = cterm k
                        then insert (cterm k, cand k) (led s) else led s)\<rparr>
         else s)"

definition do_rejected :: "nat \<Rightarrow> campaign \<Rightarrow> string \<Rightarrow> int \<Rightarrow> 'c raft \<Rightarrow> 'c raft" where
  "do_rejected c k p t s =
     s\<lparr>nodes := (nodes s)(cand k := candidate_rejected (nodes s (cand k)) (cterm k) t),
       asked := asked s - {(c, p)}\<rparr>"

inductive raft_step :: "bool \<Rightarrow> string set \<Rightarrow> 'c raft \<Rightarrow> 'c raft \<Rightarrow> bool" for ordered I where
  timeout: "i \<in> I \<Longrightarrow> nstate (nodes s i) = Follower \<Longrightarrow>
    raft_step ordered I s (set_node s i (follower_timeout (nodes s i)))"
| campaign: "i \<in> I \<Longrightarrow> nstate (nodes s i) = Candidate \<Longrightarrow> raft_step ordered I s (do_campaign i s)"
| request: "camps s c = Some k \<Longrightarrow> (c, p) \<in> asked s \<Longrightarrow> raft_step ordered I s (do_request c k p s)"
| granted: "camps s c = Some k \<Longrightarrow> (c, p) \<in> asked s \<Longrightarrow> (c, p, t, True) \<in> replies s \<Longrightarrow>
    raft_step ordered I s (do_granted c k p s)"
| rejected: "camps s c = Some k \<Longrightarrow> (c, p) \<in> asked s \<Longrightarrow> (c, p, t, False) \<in> replies s \<Longrightarrow>
    (ordered \<Longrightarrow> cterm k < t \<Longrightarrow> currentTerm (nodes s (cand k)) < t) \<Longrightarrow>
    raft_step ordered I s (do_rejected c k p t s)"
| append: "i \<in> I \<Longrightarrow> HandleAppendEntries (nodes s i) trm l pi pt es lc = Some (n, t, ok) \<Longrightarrow>
    raft_step ordered I s (set_node s i n)"
| replicated: "i \<in> I \<Longrightarrow> replicate_reply (nodes s i) p trm t ok = Some n \<Longrightarrow>
    raft_step ordered I s (set_node s i n)"
| propose: "i \<in> I \<Longrightarrow> raft_Propose (nodes s i) cmd = Some n \<Longrightarrow> raft_step ordered I s (set_node s i n)"

inductive raft_reach :: "bool \<Rightarrow> string list \<Rightarrow> 'c raft \<Rightarrow> bool" for ordered ids where
  init: "raft_reach ordered ids (raft_init ids)"
| step: "raft_reach ordered ids s \<Longrightarrow> raft_step ordered (set ids) s s' \<Longrightarrow> raft_reach ordered ids s'"

section \<open>What a step does to a node\<close>

text \<open>Between two states of a node, the term grows or the node keeps its term and its vote (or
  casts its first one).\<close>

definition node_moves :: "'c Node \<Rightarrow> 'c Node \<Rightarrow> bool" where
  "node_moves n n' \<longleftrightarrow> nid n' = nid n \<and> peers n' = peers n \<and> currentTerm n \<le> currentTerm n' \<and>
     (currentTerm n' = currentTerm n \<longrightarrow> votedFor n' = votedFor n)"

lemma append_moves:
  assumes "HandleAppendEntries n trm l pi pt es lc = Some (n', t, ok)"
  shows "node_moves n n' \<and> (nstate n' = Leader \<longrightarrow> n' = n)"
  using assms
  by (auto simp: HandleAppendEntries_def raft_commit_def node_moves_def Let_def
      split: if_splits option.splits dest!: applyCommitted_frame)

lemma replicated_moves:
  assumes "replicate_reply n p trm t ok = Some n'"
  shows "node_moves n n' \<and> (nstate n' = Leader \<longrightarrow> nstate n = Leader \<and> currentTerm n' = currentTerm n)"
  using assms
  by (auto simp: replicate_reply_def advanceCommit_def node_moves_def split: if_splits dest!: advance_loop_frame)

lemma propose_moves:
  "raft_Propose n cmd = Some n' \<Longrightarrow> node_moves n n' \<and> (nstate n' = Leader \<longrightarrow> nstate n = Leader \<and> currentTerm n' = currentTerm n)"
  by (auto simp: raft_Propose_def node_moves_def split: if_splits)

lemma timeout_moves:
  "node_moves n (follower_timeout n) \<and> nstate (follower_timeout n) \<noteq> Leader"
  by (simp add: node_moves_def follower_timeout_def)

lemma majority_moves: "node_moves n (candidate_majority n trm)"
  by (simp add: node_moves_def candidate_majority_def)

lemma rejected_moves:
  assumes "trm < t \<Longrightarrow> currentTerm n < t"
  shows "node_moves n (candidate_rejected n trm t) \<and>
    (nstate (candidate_rejected n trm t) = Leader \<longrightarrow> candidate_rejected n trm t = n)"
  using assms by (auto simp: node_moves_def candidate_rejected_def)

lemma request_refused:
  assumes "HandleRequestVote n trm x li lt = (n', t, False)"
  shows "node_moves n n' \<and> (nstate n' = Leader \<longrightarrow> n' = n)"
  using assms by (auto simp: HandleRequestVote_def node_moves_def Let_def split: if_splits)

lemma request_granted:
  assumes "HandleRequestVote n trm x li lt = (n', t, True)"
  shows "nid n' = nid n" "peers n' = peers n" "currentTerm n' = trm" "votedFor n' = x" "currentTerm n \<le> trm"
    and "currentTerm n = trm \<Longrightarrow> votedFor n = [] \<or> votedFor n = x"
    and "nstate n' = Leader \<Longrightarrow> nstate n = Leader \<and> currentTerm n = trm"
  using assms by (auto simp: HandleRequestVote_def Let_def split: if_splits)

section \<open>The invariant\<close>

definition voter_ok :: "(int \<times> string \<times> string) set \<Rightarrow> string \<Rightarrow> 'c Node \<Rightarrow> bool" where
  "voter_ok C p n \<longleftrightarrow> (\<forall>T x. (T, p, x) \<in> C \<longrightarrow>
     x \<noteq> [] \<and> T \<le> currentTerm n \<and> (T = currentTerm n \<longrightarrow> votedFor n = x))"

definition single_votes :: "(int \<times> string \<times> string) set \<Rightarrow> bool" where
  "single_votes C \<longleftrightarrow> (\<forall>T p x y. (T, p, x) \<in> C \<longrightarrow> (T, p, y) \<in> C \<longrightarrow> x = y)"

definition camp_ok :: "string set \<Rightarrow> (int \<times> string \<times> string) set \<Rightarrow> campaign \<Rightarrow> bool" where
  "camp_ok I C k \<longleftrightarrow> cand k \<in> I \<and> voters k \<subseteq> I \<and> card (voters k) = votes k \<and>
     (\<forall>v \<in> voters k. (cterm k, v, cand k) \<in> C)"

definition elected :: "string set \<Rightarrow> (int \<times> string \<times> string) set \<Rightarrow> int \<times> string \<Rightarrow> bool" where
  "elected I C Ti \<longleftrightarrow> (\<exists>Q. majority_of I Q \<and> (\<forall>p \<in> Q. (fst Ti, p, snd Ti) \<in> C))"

definition raft_inv :: "string list \<Rightarrow> 'c raft \<Rightarrow> bool" where
  "raft_inv ids s \<longleftrightarrow>
     (\<forall>i. nid (nodes s i) = i \<and> peers (nodes s i) = remove1 i ids \<and> voter_ok (cast s) i (nodes s i) \<and>
        (nstate (nodes s i) = Leader \<longrightarrow> (currentTerm (nodes s i), i) \<in> led s)) \<and>
     single_votes (cast s) \<and>
     (\<forall>c k. camps s c = Some k \<longrightarrow> c < nextCamp s \<and> camp_ok (set ids) (cast s) k) \<and>
     (\<forall>c p. (c, p) \<in> asked s \<longrightarrow> c < nextCamp s \<and> p \<in> set ids \<and> (\<forall>k. camps s c = Some k \<longrightarrow> p \<notin> voters k)) \<and>
     (\<forall>c p t. (c, p, t, True) \<in> replies s \<longrightarrow> c < nextCamp s \<and> (\<forall>k. camps s c = Some k \<longrightarrow> (cterm k, p, cand k) \<in> cast s)) \<and>
     (\<forall>Ti \<in> led s. elected (set ids) (cast s) Ti)"

lemma raft_invD:
  assumes "raft_inv ids s"
  shows "nid (nodes s i) = i" "peers (nodes s i) = remove1 i ids" "voter_ok (cast s) i (nodes s i)"
    and "nstate (nodes s i) = Leader \<Longrightarrow> (currentTerm (nodes s i), i) \<in> led s"
    and "single_votes (cast s)"
    and "camps s c = Some k \<Longrightarrow> c < nextCamp s \<and> camp_ok (set ids) (cast s) k"
    and "(c, p) \<in> asked s \<Longrightarrow> c < nextCamp s \<and> p \<in> set ids \<and> (\<forall>k. camps s c = Some k \<longrightarrow> p \<notin> voters k)"
    and "(c, p, t, True) \<in> replies s \<Longrightarrow> c < nextCamp s \<and> (\<forall>k. camps s c = Some k \<longrightarrow> (cterm k, p, cand k) \<in> cast s)"
    and "Ti \<in> led s \<Longrightarrow> elected (set ids) (cast s) Ti"
  using assms unfolding raft_inv_def by blast+

lemma voter_ok_moves: "node_moves n n' \<Longrightarrow> voter_ok C p n \<Longrightarrow> voter_ok C p n'"
  unfolding voter_ok_def node_moves_def by (metis antisym order.trans)

text \<open>A step that moves one node and records no vote.\<close>

lemma raft_inv_moves:
  assumes inv: "raft_inv ids s" and moves: "node_moves (nodes s i) n"
    and leader: "nstate n = Leader \<Longrightarrow> nstate (nodes s i) = Leader \<and> currentTerm n = currentTerm (nodes s i)"
  shows "raft_inv ids (set_node s i n)"
proof -
  have "nid n = i" "peers n = remove1 i ids"
    using moves raft_invD(1,2) [OF inv, of i] by (auto simp: node_moves_def)
  moreover have "voter_ok (cast s) i n" using voter_ok_moves [OF moves raft_invD(3) [OF inv]] .
  moreover have "nstate n = Leader \<Longrightarrow> (currentTerm n, i) \<in> led s" using leader raft_invD(4) [OF inv, of i] by auto
  ultimately show ?thesis using inv unfolding raft_inv_def set_node_def by simp
qed

lemma camp_ok_mono: "C \<subseteq> C' \<Longrightarrow> camp_ok I C k \<Longrightarrow> camp_ok I C' k"
  unfolding camp_ok_def by blast

lemma elected_mono: "C \<subseteq> C' \<Longrightarrow> elected I C Ti \<Longrightarrow> elected I C' Ti"
  unfolding elected_def by blast

text \<open>Node \<open>p\<close> casts a vote in term \<open>T\<close>: nobody else is affected, and the votes stay single.\<close>

lemma cast_vote:
  assumes inv: "raft_inv ids s" and x: "x \<noteq> []"
    and n: "currentTerm (nodes s p) \<le> T" "currentTerm n = T" "votedFor n = x"
    and free: "currentTerm (nodes s p) = T \<Longrightarrow> votedFor (nodes s p) = [] \<or> votedFor (nodes s p) = x"
  shows "voter_ok (insert (T, p, x) (cast s)) p n" and "single_votes (insert (T, p, x) (cast s))"
    and "q \<noteq> p \<Longrightarrow> voter_ok (insert (T, p, x) (cast s)) q (nodes s q)"
proof -
  have old: "T' \<le> currentTerm (nodes s p)" "y \<noteq> []" "T' = currentTerm (nodes s p) \<Longrightarrow> votedFor (nodes s p) = y"
    if "(T', p, y) \<in> cast s" for T' y
    using raft_invD(3) [OF inv, of p] that unfolding voter_ok_def by auto
  have same: "y = x" if "(T, p, y) \<in> cast s" for y
    using old [OF that] n free by auto
  show "single_votes (insert (T, p, x) (cast s))"
    using raft_invD(5) [OF inv] same unfolding single_votes_def by (metis insert_iff prod.inject)
  show "voter_ok (insert (T, p, x) (cast s)) p n"
    using old(1,2) same n x unfolding voter_ok_def by (auto dest: order.trans)
  show "q \<noteq> p \<Longrightarrow> voter_ok (insert (T, p, x) (cast s)) q (nodes s q)"
    using raft_invD(3) [OF inv, of q] unfolding voter_ok_def by auto
qed

lemma inv_campaign:
  assumes inv: "raft_inv ids s" and ids: "distinct ids" "[] \<notin> set ids" and i: "i \<in> set ids"
    and cand: "nstate (nodes s i) = Candidate"
  shows "raft_inv ids (do_campaign i s)"
proof -
  let ?n = "nodes s i" and ?T = "currentTerm (nodes s i) + 1" and ?c = "nextCamp s"
  let ?n' = "?n\<lparr>currentTerm := ?T, votedFor := nid ?n\<rparr>" and ?C = "insert (?T, i, i) (cast s)"
  let ?k = "\<lparr>cand = i, cterm = ?T, cidx = last_index ?n', clast = last_term ?n', votes = 1, voters = {i}\<rparr>"
  have s': "do_campaign i s = s\<lparr>nodes := (nodes s)(i := ?n'), camps := (camps s)(?c \<mapsto> ?k), nextCamp := ?c + 1,
      asked := asked s \<union> {?c} \<times> set (remove1 i ids), cast := ?C\<rparr>"
    using raft_invD(2) [OF inv, of i] by (simp add: do_campaign_def candidate_start_def Let_def)
  have "i \<noteq> []" using ids i by auto
  note cv = cast_vote [OF inv this, of i ?T ?n']
  have nodes: "voter_ok ?C j (((nodes s)(i := ?n')) j)" for j
    using cv raft_invD(1) [OF inv, of i] by (cases "j = i") auto
  have sv: "single_votes ?C" using cv(2) raft_invD(1) [OF inv, of i] by simp
  have sub: "cast s \<subseteq> ?C" by blast
  have camp: "c < ?c + 1 \<and> camp_ok (set ids) ?C k" if "((camps s)(?c \<mapsto> ?k)) c = Some k" for c k
    using that raft_invD(6) [OF inv, of c k] camp_ok_mono [OF sub] i
    by (auto simp: camp_ok_def split: if_splits)
  have asked: "c < ?c + 1 \<and> p \<in> set ids \<and> (\<forall>k. ((camps s)(?c \<mapsto> ?k)) c = Some k \<longrightarrow> p \<notin> voters k)"
    if "(c, p) \<in> asked s \<union> {?c} \<times> set (remove1 i ids)" for c p
    using that raft_invD(7) [OF inv, of c p] ids(1) by (auto split: if_splits)
  have replies: "c < ?c + 1 \<and> (\<forall>k. ((camps s)(?c \<mapsto> ?k)) c = Some k \<longrightarrow> (cterm k, p, cand k) \<in> ?C)"
    if "(c, p, t, True) \<in> replies s" for c p t
    using raft_invD(8) [OF inv that] by (auto split: if_splits)
  have led: "\<forall>Ti \<in> led s. elected (set ids) ?C Ti" using raft_invD(9) [OF inv] elected_mono [OF sub] by blast
  show ?thesis unfolding s' raft_inv_def
    using nodes sv camp asked replies led raft_invD(1,2,4) [OF inv] cand by auto
qed

lemma inv_request:
  assumes inv: "raft_inv ids s" and ids: "[] \<notin> set ids" and k: "camps s c = Some k" and a: "(c, p) \<in> asked s"
  shows "raft_inv ids (do_request c k p s)"
proof -
  obtain n t g where h: "HandleRequestVote (nodes s p) (cterm k) (cand k) (cidx k) (clast k) = (n, t, g)"
    by (metis prod_cases3)
  show ?thesis
  proof (cases g)
    case False
    have s': "do_request c k p s = (set_node s p n)\<lparr>replies := insert (c, p, t, False) (replies s)\<rparr>"
      using h False by (simp add: do_request_def set_node_def)
    have "raft_inv ids (set_node s p n)"
      using request_refused h False by (intro raft_inv_moves [OF inv]) force+
    then show ?thesis unfolding s' raft_inv_def by (simp add: set_node_def)
  next
    case True
    have "HandleRequestVote (nodes s p) (cterm k) (cand k) (cidx k) (clast k) = (n, t, True)" using h True by simp
    note g = request_granted [OF this] and sub = subset_insertI [of "cast s" "(cterm k, p, cand k)"]
    let ?C = "insert (cterm k, p, cand k) (cast s)"
    have s': "do_request c k p s = s\<lparr>nodes := (nodes s)(p := n), replies := insert (c, p, t, True) (replies s), cast := ?C\<rparr>"
      using h True by (simp add: do_request_def)
    have "cand k \<noteq> []" using raft_invD(6) [OF inv k] ids by (auto simp: camp_ok_def)
    note cv = cast_vote [OF inv this g(5,3,4,6)]
    have "voter_ok ?C j (((nodes s)(p := n)) j)" for j using cv(1,3) by (cases "j = p") auto
    moreover have "nstate n = Leader \<longrightarrow> (currentTerm n, p) \<in> led s"
      using g(3,7) raft_invD(4) [OF inv, of p] by auto
    moreover have "\<forall>Ti \<in> led s. elected (set ids) ?C Ti" using raft_invD(9) [OF inv] elected_mono [OF sub] by blast
    moreover have "\<forall>c k. camps s c = Some k \<longrightarrow> c < nextCamp s \<and> camp_ok (set ids) ?C k"
      using raft_invD(6) [OF inv] camp_ok_mono [OF sub] by blast
    ultimately show ?thesis unfolding s' raft_inv_def
      using cv(2) g(1,2) raft_invD(1,2,4,7,8) [OF inv] k raft_invD(6) [OF inv k] by auto
  qed
qed

text \<open>Counting a granted vote, before the majority test.\<close>

definition count_vote :: "nat \<Rightarrow> campaign \<Rightarrow> string \<Rightarrow> 'c raft \<Rightarrow> 'c raft" where
  "count_vote c k p s = s\<lparr>camps := (camps s)(c \<mapsto> k\<lparr>votes := votes k + 1, voters := insert p (voters k)\<rparr>),
     asked := asked s - {(c, p)}\<rparr>"

lemma inv_count_vote:
  assumes inv: "raft_inv ids s" and k: "camps s c = Some k" and a: "(c, p) \<in> asked s" and r: "(c, p, t, True) \<in> replies s"
  shows "raft_inv ids (count_vote c k p s)"
    and "camp_ok (set ids) (cast s) (k\<lparr>votes := votes k + 1, voters := insert p (voters k)\<rparr>)"
proof -
  let ?k' = "k\<lparr>votes := votes k + 1, voters := insert p (voters k)\<rparr>"
  have ok: "camp_ok (set ids) (cast s) k" using raft_invD(6) [OF inv k] by blast
  moreover have "p \<in> set ids" "p \<notin> voters k" using raft_invD(7) [OF inv a] k by auto
  moreover have "(cterm k, p, cand k) \<in> cast s" using raft_invD(8) [OF inv r] k by blast
  moreover have "finite (voters k)" using ok finite_subset by (auto simp: camp_ok_def)
  ultimately show ok': "camp_ok (set ids) (cast s) ?k'" unfolding camp_ok_def by auto
  have camp: "d < nextCamp s \<and> camp_ok (set ids) (cast s) q" if "((camps s)(c \<mapsto> ?k')) d = Some q" for d q
    using that ok' raft_invD(6) [OF inv, of d q] raft_invD(6) [OF inv k] by (auto split: if_splits)
  have asked: "d < nextCamp s \<and> q \<in> set ids \<and> (\<forall>m. ((camps s)(c \<mapsto> ?k')) d = Some m \<longrightarrow> q \<notin> voters m)"
    if "(d, q) \<in> asked s - {(c, p)}" for d q
    using that raft_invD(7) [OF inv, of d q] k by (auto split: if_splits)
  have replies: "d < nextCamp s \<and> (\<forall>m. ((camps s)(c \<mapsto> ?k')) d = Some m \<longrightarrow> (cterm m, q, cand m) \<in> cast s)"
    if "(d, q, u, True) \<in> replies s" for d q u
    using raft_invD(8) [OF inv that] k by (auto split: if_splits)
  show "raft_inv ids (count_vote c k p s)"
    unfolding raft_inv_def count_vote_def using camp asked replies raft_invD(1-5,9) [OF inv] by auto
qed

lemma inv_granted:
  assumes inv: "raft_inv ids s" and ids: "distinct ids" and k: "camps s c = Some k"
    and a: "(c, p) \<in> asked s" and r: "(c, p, t, True) \<in> replies s"
  shows "raft_inv ids (do_granted c k p s)"
proof -
  let ?k' = "k\<lparr>votes := votes k + 1, voters := insert p (voters k)\<rparr>" and ?i = "cand k"
  let ?n = "nodes s ?i" and ?s = "count_vote c k p s"
  let ?win = "votes_suffice (votes ?k') (length (peers ?n)) \<and> nstate ?n = Candidate \<and> currentTerm ?n = cterm k"
  note cv = inv_count_vote [OF inv k a r]
  show ?thesis
  proof (cases ?win)
    case False
    then have "do_granted c k p s = ?s"
      by (auto simp: do_granted_def count_vote_def candidate_majority_def Let_def fun_upd_idem)
    then show ?thesis using cv(1) by simp
  next
    case True
    have "?i \<in> set ids" using cv(2) by (simp add: camp_ok_def)
    then have "length (peers ?n) + 1 = card (set ids)"
      using raft_invD(2) [OF inv, of ?i] ids by (simp add: length_remove1 distinct_card)
        (metis Suc_pred length_pos_if_in_set)
    then have "majority_of (set ids) (voters ?k')"
      using cv(2) True by (simp add: majority_of_def votes_suffice_def camp_ok_def)
    then have el: "elected (set ids) (cast s) (cterm k, ?i)"
      using cv(2) unfolding elected_def camp_ok_def by auto
    have s': "do_granted c k p s = (set_node ?s ?i (candidate_majority ?n (cterm k)))\<lparr>led := insert (cterm k, ?i) (led s)\<rparr>"
      using True by (auto simp: do_granted_def count_vote_def set_node_def Let_def)
    have n': "nstate (candidate_majority ?n (cterm k)) = Leader" "currentTerm (candidate_majority ?n (cterm k)) = cterm k"
      using True by (auto simp: candidate_majority_def)
    have vo: "voter_ok (cast s) ?i (candidate_majority ?n (cterm k))"
      by (rule voter_ok_moves [OF majority_moves raft_invD(3) [OF inv]])
    have "nid (candidate_majority ?n (cterm k)) = ?i" "peers (candidate_majority ?n (cterm k)) = remove1 ?i ids"
      using majority_moves [of ?n "cterm k"] raft_invD(1,2) [OF inv, of ?i] by (auto simp: node_moves_def)
    then show ?thesis using cv(1) el vo n' unfolding s' raft_inv_def by (auto simp: set_node_def count_vote_def)
  qed
qed

lemma inv_rejected:
  assumes inv: "raft_inv ids s" and t: "cterm k < t \<Longrightarrow> currentTerm (nodes s (cand k)) < t"
  shows "raft_inv ids (do_rejected c k p t s)"
proof -
  let ?n = "candidate_rejected (nodes s (cand k)) (cterm k) t"
  have "raft_inv ids (set_node s (cand k) ?n)"
    using rejected_moves [of "cterm k" t "nodes s (cand k)", OF t] by (intro raft_inv_moves [OF inv]) auto
  moreover have "do_rejected c k p t s = (set_node s (cand k) ?n)\<lparr>asked := asked s - {(c, p)}\<rparr>"
    by (simp add: do_rejected_def set_node_def)
  ultimately show ?thesis unfolding raft_inv_def by (simp add: set_node_def) blast
qed

lemma raft_step_inv:
  assumes "raft_step True (set ids) s s'" "raft_inv ids s" "distinct ids" "[] \<notin> set ids"
  shows "raft_inv ids s'"
  using assms(1)
proof cases
  case (timeout i)
  then show ?thesis using raft_inv_moves [OF assms(2)] timeout_moves by metis
next
  case (campaign i)
  then show ?thesis using inv_campaign assms by metis
next
  case (request c k p)
  then show ?thesis using inv_request assms by metis
next
  case (granted c k p t)
  then show ?thesis using inv_granted assms by metis
next
  case (rejected c k p t)
  then show ?thesis using inv_rejected [OF assms(2)] by simp
next
  case (append i trm l pi pt es lc n t ok)
  then show ?thesis using raft_inv_moves [OF assms(2)] append_moves by metis
next
  case (replicated i p trm t ok n)
  then show ?thesis using raft_inv_moves [OF assms(2)] replicated_moves by metis
next
  case (propose i cmd n)
  then show ?thesis using raft_inv_moves [OF assms(2)] propose_moves by metis
qed

lemma raft_reach_inv:
  "raft_reach True ids s \<Longrightarrow> distinct ids \<Longrightarrow> [] \<notin> set ids \<Longrightarrow> raft_inv ids s"
proof (induction rule: raft_reach.induct)
  case init
  show ?case by (simp add: raft_inv_def raft_init_def raft_New_def voter_ok_def single_votes_def)
qed (rule raft_step_inv)

lemma raft_inv_one_leader:
  assumes inv: "raft_inv ids s" and "(T, i) \<in> led s" "(T, j) \<in> led s"
  shows "i = j"
proof -
  obtain Q R where "majority_of (set ids) Q" "\<forall>p \<in> Q. (T, p, i) \<in> cast s"
      "majority_of (set ids) R" "\<forall>p \<in> R. (T, p, j) \<in> cast s"
    using raft_invD(9) [OF inv assms(2)] raft_invD(9) [OF inv assms(3)] unfolding elected_def by auto
  moreover from this obtain p where "p \<in> Q" "p \<in> R" using maj_of.meet by blast
  ultimately show ?thesis using raft_invD(5) [OF inv] unfolding single_votes_def by blast
qed

section \<open>Executing a schedule\<close>

datatype event = ETimeout string | ECampaign string | ERequest nat string | EGranted nat string | ERejected nat string int

fun exec_event :: "bool \<Rightarrow> string list \<Rightarrow> event \<Rightarrow> 'c raft \<Rightarrow> 'c raft option" where
  "exec_event ord ids (ETimeout i) s =
     (if i \<in> set ids \<and> nstate (nodes s i) = Follower
      then Some (set_node s i (follower_timeout (nodes s i))) else None)"
| "exec_event ord ids (ECampaign i) s =
     (if i \<in> set ids \<and> nstate (nodes s i) = Candidate then Some (do_campaign i s) else None)"
| "exec_event ord ids (ERequest c p) s =
     (case camps s c of None \<Rightarrow> None
      | Some k \<Rightarrow> if (c, p) \<in> asked s then Some (do_request c k p s) else None)"
| "exec_event ord ids (EGranted c p) s =
     (case camps s c of None \<Rightarrow> None
      | Some k \<Rightarrow> if (c, p) \<in> asked s \<and> (\<exists>(d, q, t, g) \<in> replies s. d = c \<and> q = p \<and> g)
                  then Some (do_granted c k p s) else None)"
| "exec_event ord ids (ERejected c p t) s =
     (case camps s c of None \<Rightarrow> None
      | Some k \<Rightarrow> if (c, p) \<in> asked s \<and> (c, p, t, False) \<in> replies s \<and>
                    (ord \<longrightarrow> cterm k < t \<longrightarrow> currentTerm (nodes s (cand k)) < t)
                  then Some (do_rejected c k p t s) else None)"

fun exec_events :: "bool \<Rightarrow> string list \<Rightarrow> event list \<Rightarrow> 'c raft \<Rightarrow> 'c raft option" where
  "exec_events ord ids [] s = Some s"
| "exec_events ord ids (e # es) s =
     (case exec_event ord ids e s of None \<Rightarrow> None | Some s' \<Rightarrow> exec_events ord ids es s')"

lemma exec_event_step: "exec_event ord ids e s = Some s' \<Longrightarrow> raft_step ord (set ids) s s'"
  by (cases e) (auto split: if_splits option.splits intro: raft_step.intros)

lemma exec_events_reach:
  "exec_events ord ids es s = Some s' \<Longrightarrow> raft_reach ord ids s \<Longrightarrow> raft_reach ord ids s'"
  by (induction es arbitrary: s) (auto split: option.splits dest!: exec_event_step intro: raft_reach.step)

definition two_leaders :: "event list" where
  "two_leaders = [ETimeout ''A'', ECampaign ''A'', ETimeout ''B'', ECampaign ''B'', ECampaign ''B'',
     ERequest 0 ''B'', ERequest 2 ''A'', EGranted 2 ''A'', ERejected 0 ''B'' 2,
     ETimeout ''C'', ECampaign ''C'', ECampaign ''C'', ERequest 4 ''A'', EGranted 4 ''A'']"

section \<open>Properties\<close>



text \<open>C39: the proviso is needed.  The code accepts a rejection whose term is higher than the
  campaign's although the node has meanwhile reached that term and voted in it; it then forgets
  its vote, votes again, and two nodes of a three-node cluster are leaders of term 2.\<close>

theorem raft_two_leaders:
  "\<exists>s :: nat raft. raft_reach False [''A'', ''B'', ''C''] s \<and>
     nstate (nodes s ''B'') = Leader \<and> currentTerm (nodes s ''B'') = 2 \<and>
     nstate (nodes s ''C'') = Leader \<and> currentTerm (nodes s ''C'') = 2"
proof -
  let ?ids = "[''A'', ''B'', ''C'']"
  have "case exec_events False ?ids two_leaders (raft_init ?ids :: nat raft) of None \<Rightarrow> False
      | Some s \<Rightarrow> nstate (nodes s ''B'') = Leader \<and> currentTerm (nodes s ''B'') = 2 \<and>
                 nstate (nodes s ''C'') = Leader \<and> currentTerm (nodes s ''C'') = 2"
    by code_simp
  then show ?thesis using exec_events_reach [OF _ raft_reach.init] by (fastforce split: option.splits)
qed

end
