(* ===== verification/Raft_Log.thy ===== *)
theory Raft_Log
  imports Raft
begin

text \<open>
  Log replication in the Raft package: what \<^verbatim>\<open>HandleAppendEntries\<close> does to the log, the commit
  index and the apply channel, the hand-shake of a leader's message with a follower's handler and
  the leader's handling of the answer, and the commit rule.
\<close>

section \<open>Applying\<close>

text \<open>A node is well-formed when its indices are in order and within its log.\<close>

definition node_wf :: "'c Node \<Rightarrow> bool" where
  "node_wf n \<longleftrightarrow> -1 \<le> lastApplied n \<and> lastApplied n \<le> commitIndex n \<and> commitIndex n < int (length (rlog n))"

lemma applyCommitted_returns:
  "-1 \<le> lastApplied n \<Longrightarrow> commitIndex n < int (length (rlog n)) \<Longrightarrow>
   \<exists>n'. applyCommitted n = Some n' \<and> lastApplied n' = max (lastApplied n) (commitIndex n) \<and>
     rlog n' = rlog n \<and> commitIndex n' = commitIndex n \<and> currentTerm n' = currentTerm n"
proof (induction n rule: applyCommitted.induct)
  case (1 n)
  let ?i = "lastApplied n + 1"
  consider (stop) "\<not> lastApplied n < commitIndex n" | (none) "lastApplied n < commitIndex n" "applyCh n = None"
    | (some) ch where "lastApplied n < commitIndex n" "applyCh n = Some ch" by (cases "applyCh n") auto
  then show ?case
  proof cases
    case stop
    then show ?thesis by (subst applyCommitted.simps) simp
  next
    case none
    have "applyCommitted n = applyCommitted (n\<lparr>lastApplied := ?i\<rparr>)"
      using none by (subst applyCommitted.simps) (simp add: Let_def)
    moreover have "max ?i (commitIndex n) = max (lastApplied n) (commitIndex n)" using none by simp
    ultimately show ?thesis using "1.IH"(1) [OF none(1) refl refl none(2)] "1.prems" by simp
  next
    case some
    let ?n = "n\<lparr>lastApplied := ?i, applyCh := Some (try_send ch (Command (rlog n ! nat ?i)))\<rparr>"
    have r: "0 \<le> ?i \<and> ?i < int (length (rlog n))" using some(1) "1.prems" by linarith
    then have "applyCommitted n = applyCommitted ?n"
      using some by (subst applyCommitted.simps) (simp add: Let_def)
    moreover have "max ?i (commitIndex n) = max (lastApplied n) (commitIndex n)" using some by simp
    ultimately show ?thesis using "1.IH"(2) [OF some(1) refl refl some(2) r] "1.prems" by simp
  qed
qed

section \<open>The log after an append\<close>

text \<open>Two logs match when an index at which their terms agree carries the same entries up to there:
  the log matching property.\<close>

definition logs_match :: "'c LogEntry list \<Rightarrow> 'c LogEntry list \<Rightarrow> bool" where
  "logs_match l L \<longleftrightarrow> (\<forall>i. i < length l \<longrightarrow> i < length L \<longrightarrow> Term (l ! i) = Term (L ! i) \<longrightarrow>
     take (Suc i) l = take (Suc i) L)"

text \<open>The first index from \<open>idx\<close> on where the log ends or disagrees with the new entries.\<close>

fun conflict :: "'c LogEntry list \<Rightarrow> nat \<Rightarrow> 'c LogEntry list \<Rightarrow> nat" where
  "conflict l idx [] = idx"
| "conflict l idx (e # es) =
     (if idx < length l \<and> Term (l ! idx) = Term e then conflict l (idx + 1) es else idx)"

lemma conflict_bounds: "idx \<le> conflict l idx es \<and> conflict l idx es \<le> idx + length es"
  by (induction l idx es rule: conflict.induct) auto

lemma conflict_agree:
  "idx \<le> j \<Longrightarrow> j < conflict l idx es \<Longrightarrow> j < length l \<and> Term (l ! j) = Term (es ! (j - idx))"
proof (induction l idx es rule: conflict.induct)
  case (2 l idx e es)
  then show ?case by (cases "j = idx") (auto split: if_splits simp: nth_Cons')
qed simp

lemma append_entries_eq:
  "idx \<le> length l \<Longrightarrow>
   append_entries l idx es =
     (if conflict l idx es = idx + length es then l
      else take (conflict l idx es) l @ drop (conflict l idx es - idx) es)"
proof (induction l idx es rule: append_entries.induct)
  case (2 l idx e es)
  show ?case
  proof (cases "idx < length l \<and> Term (l ! idx) = Term e")
    case True
    then have ih: "append_entries l (idx + 1) es =
       (if conflict l (idx + 1) es = idx + 1 + length es then l
        else take (conflict l (idx + 1) es) l @ drop (conflict l (idx + 1) es - (idx + 1)) es)"
      using 2 by auto
    have "conflict l (idx + 1) es \<ge> idx + 1" using conflict_bounds [of "idx + 1" l es] by simp
    then have "conflict l (idx + 1) es - idx = Suc (conflict l (idx + 1) es - (idx + 1))" by simp
    then show ?thesis using ih True by (simp del: append_entries.simps add: append_entries.simps(2) [of l idx e es])
  next
    case False
    then show ?thesis using "2.prems" by auto
  qed
qed simp

lemma append_entries_prefix:
  assumes match: "logs_match l L" and idx: "idx \<le> length l" "idx \<le> length L"
    and base: "take idx l = take idx L"
  shows "take (length L) (append_entries l idx (drop idx L)) = L"
    and "logs_match (append_entries l idx (drop idx L)) L"
proof -
  let ?es = "drop idx L" and ?c = "conflict l idx (drop idx L)"
  have c: "idx \<le> ?c" "?c \<le> length L" using conflict_bounds [of idx l ?es] idx by auto
  have agree: "j < length l \<and> Term (l ! j) = Term (L ! j)" if "idx \<le> j" "j < ?c" for j
    using conflict_agree [OF that] idx that c by auto
  have pre: "take ?c l = take ?c L"
  proof (cases "?c = idx")
    case False
    then have i: "idx \<le> ?c - 1" "?c - 1 < ?c" "?c - 1 < length L" "Suc (?c - 1) = ?c" using c by auto
    have "take (Suc (?c - 1)) l = take (Suc (?c - 1)) L"
      using match agree [OF i(1,2)] i(3) unfolding logs_match_def by blast
    then show ?thesis using i(4) by simp
  qed (simp add: base)
  have eq: "append_entries l idx ?es = (if ?c = length L then l else L)"
    using append_entries_eq [OF idx(1), of ?es] c idx pre by (auto simp: append_take_drop_id)
  show "take (length L) (append_entries l idx ?es) = L" using eq pre by auto
  show "logs_match (append_entries l idx ?es) L" using eq match by (auto simp: logs_match_def)
qed

section \<open>AppendEntries and the commit index\<close>

lemma raft_commit_wf:
  assumes "-1 \<le> lastApplied n" "lastApplied n \<le> commitIndex n" "commitIndex n < int (length (rlog n))"
  shows "\<exists>n'. raft_commit n lc = Some n' \<and> rlog n' = rlog n \<and> currentTerm n' = currentTerm n \<and>
    commitIndex n' = max (commitIndex n) (min lc (int (length (rlog n)) - 1)) \<and> node_wf n'"
proof (cases "lc > commitIndex n")
  case True
  let ?c = "if lc < int (length (rlog n)) - 1 then lc else int (length (rlog n)) - 1"
  have c: "commitIndex n \<le> ?c" "?c < int (length (rlog n))" using True assms(3) by auto
  obtain n' where n': "applyCommitted (n\<lparr>commitIndex := ?c\<rparr>) = Some n'" "lastApplied n' = max (lastApplied n) ?c"
      "rlog n' = rlog n" "commitIndex n' = ?c" "currentTerm n' = currentTerm n"
    using applyCommitted_returns [of "n\<lparr>commitIndex := ?c\<rparr>"] assms(1) c(2) by auto
  have "lastApplied n' = ?c" using n'(2) c(1) assms(2) by simp
  then have "node_wf n'" using n' c assms by (auto simp: node_wf_def)
  moreover have "raft_commit n lc = Some n'" using True n'(1) by (simp add: raft_commit_def Let_def)
  ultimately show ?thesis using n' True assms(3) by auto
next
  case False
  then show ?thesis using assms by (auto simp: raft_commit_def node_wf_def)
qed

text \<open>The committed part of a log is kept when it is a part of the leader's.\<close>

lemma append_entries_keeps:
  assumes "logs_match l L" "idx \<le> length l" "idx \<le> length L" "take idx l = take idx L"
    and "k \<le> length L" "k \<le> length l" "take k l = take k L"
  shows "take k (append_entries l idx (drop idx L)) = take k l \<and> k \<le> length (append_entries l idx (drop idx L))"
proof -
  have "take (length L) (append_entries l idx (drop idx L)) = L" by (rule append_entries_prefix(1) [OF assms(1-4)])
  then have "take k (append_entries l idx (drop idx L)) = take k L"
    and "length L \<le> length (append_entries l idx (drop idx L))"
    using assms(5) by (metis min.absorb1 take_take, metis length_take min.cobounded1)
  then show ?thesis using assms(5,7) by simp
qed

lemma prev_ok_base:
  assumes "prev_ok l prev pt" "logs_match l L" "-1 \<le> prev" "prev < int (length L)"
    and "0 \<le> prev \<Longrightarrow> pt = Term (L ! nat prev)"
  shows "nat (prev + 1) \<le> length l" "take (nat (prev + 1)) l = take (nat (prev + 1)) L"
proof -
  show "nat (prev + 1) \<le> length l" using assms(1,3) by (auto simp: prev_ok_def split: if_splits)
  show "take (nat (prev + 1)) l = take (nat (prev + 1)) L"
  proof (cases "0 \<le> prev")
    case True
    then have "nat prev < length l" "nat prev < length L" "Term (l ! nat prev) = Term (L ! nat prev)"
      using assms by (auto simp: prev_ok_def)
    then have "take (Suc (nat prev)) l = take (Suc (nat prev)) L" using assms(2) unfolding logs_match_def by blast
    moreover have "nat (prev + 1) = Suc (nat prev)" using True by simp
    ultimately show ?thesis by simp
  qed (use assms(3) in simp)
qed

lemma HandleAppendEntries_success:
  assumes "HandleAppendEntries f trm l prev pt es lc = Some (f', t, True)"
  shows "\<exists>g. rlog g = append_entries (rlog f) (nat (prev + 1)) es \<and> commitIndex g = commitIndex f \<and>
    lastApplied g = lastApplied f \<and> raft_commit g lc = Some f'" and "prev_ok (rlog f) prev pt"
proof -
  define g where "g = (if trm > currentTerm f then f\<lparr>currentTerm := trm, votedFor := []\<rparr> else f)
    \<lparr>nstate := Follower, rlog := append_entries (rlog f) (nat (prev + 1)) es\<rparr>"
  have "prev_ok (rlog f) prev pt \<and> raft_commit g lc = Some f'"
    using assms by (auto simp: HandleAppendEntries_def g_def Let_def split: if_splits option.splits)
  then show "prev_ok (rlog f) prev pt"
    and "\<exists>g. rlog g = append_entries (rlog f) (nat (prev + 1)) es \<and> commitIndex g = commitIndex f \<and>
      lastApplied g = lastApplied f \<and> raft_commit g lc = Some f'"
    by (auto simp: g_def intro!: exI [of _ g])
qed

section \<open>The commit rule\<close>

lemma advance_loop_commit:
  assumes "advance_loop n k = Some n'" "k \<le> length (rlog n)"
  shows "commitIndex n' = commitIndex n \<and> (\<forall>N. commitIndex n < int N \<and> N < k \<longrightarrow>
      \<not> (Term (rlog n ! N) = currentTerm n \<and> (length (peers n) + 1) div 2 < commit_count n (int N))) \<or>
    (\<exists>N < k. commitIndex n' = int N \<and> commitIndex n < int N \<and> Term (rlog n ! N) = currentTerm n \<and>
      (length (peers n) + 1) div 2 < commit_count n (int N) \<and>
      (\<forall>M. N < M \<and> M < k \<longrightarrow> \<not> (Term (rlog n ! M) = currentTerm n \<and> (length (peers n) + 1) div 2 < commit_count n (int M))))"
  using assms
proof (induction k)
  case (Suc k)
  consider (low) "\<not> int k > commitIndex n"
    | (commit) "int k > commitIndex n" "Term (rlog n ! k) = currentTerm n" "(length (peers n) + 1) div 2 < commit_count n (int k)"
    | (skip) "int k > commitIndex n" "\<not> (Term (rlog n ! k) = currentTerm n \<and> (length (peers n) + 1) div 2 < commit_count n (int k))"
    by blast
  then show ?case
  proof cases
    case low
    then show ?thesis using Suc.prems by auto
  next
    case commit
    then have "applyCommitted (n\<lparr>commitIndex := int k\<rparr>) = Some n'" using Suc.prems by simp
    from applyCommitted_frame [OF this] show ?thesis using commit by (intro disjI2 exI [of _ k]) auto
  next
    case skip
    then have "advance_loop n k = Some n'" using Suc.prems by (auto split: if_splits)
    from Suc.IH [OF this] Suc.prems(2) show ?thesis using skip(2) by (auto simp: less_Suc_eq)
  qed
qed simp

section \<open>Properties\<close>


definition ent :: "int \<Rightarrow> nat \<Rightarrow> nat LogEntry" where
  "ent t c = \<lparr>Term = t, Command = c\<rparr>"

definition leader0 :: "nat Node" where
  "leader0 = (raft_New ''A'' [''B'', ''C''] None)\<lparr>nstate := Leader, currentTerm := 2,
     rlog := [ent 1 10, ent 2 20, ent 2 30], nextIndex := (\<lambda>_. 1), matchIndex := (\<lambda>_. -1)\<rparr>"

definition follower0 :: "nat Node" where
  "follower0 = (raft_New ''B'' [''A'', ''C''] None)\<lparr>currentTerm := 1, rlog := [ent 1 10, ent 1 11],
     commitIndex := 0, lastApplied := 0\<rparr>"

lemmas raft_eval = leader0_def follower0_def raft_New_def ent_def replicate_message_def HandleAppendEntries_def
  prev_ok_def raft_commit_def applyCommitted.simps replicate_reply_def advanceCommit_def commit_count_def Let_def


text \<open>\<^verbatim>\<open>HandleAppendEntries\<close> never indexes its log out of range, for any message whatever: it
  always returns, reports the node's new term, which is the larger of the two, and if it refuses
  it leaves the log and the commit index alone; a message from an old term changes nothing.\<close>

lemma raft_append_total:
  assumes "-1 \<le> lastApplied f"
  shows "\<exists>f' t ok. HandleAppendEntries f trm l prev pt es lc = Some (f', t, ok) \<and> t = currentTerm f' \<and>
    t = max trm (currentTerm f) \<and> -1 \<le> lastApplied f' \<and>
    (ok \<longleftrightarrow> currentTerm f \<le> trm \<and> prev_ok (rlog f) prev pt) \<and>
    (\<not> ok \<longrightarrow> rlog f' = rlog f \<and> commitIndex f' = commitIndex f) \<and> (trm < currentTerm f \<longrightarrow> f' = f)"
proof (cases "trm < currentTerm f \<or> \<not> prev_ok (rlog f) prev pt")
  case True
  then show ?thesis using assms by (auto simp: HandleAppendEntries_def Let_def max_def)
next
  case False
  define g where "g = (if trm > currentTerm f then f\<lparr>currentTerm := trm, votedFor := []\<rparr> else f)
    \<lparr>nstate := Follower, rlog := append_entries (rlog f) (nat (prev + 1)) es\<rparr>"
  have g: "-1 \<le> lastApplied g" "currentTerm g = max trm (currentTerm f)" using assms False by (auto simp: g_def)
  have "\<exists>f'. raft_commit g lc = Some f' \<and> currentTerm f' = currentTerm g \<and> -1 \<le> lastApplied f'"
  proof (cases "lc > commitIndex g")
    case True
    then show ?thesis
      using g(1) applyCommitted_returns [of "g\<lparr>commitIndex := (if lc < int (length (rlog g)) - 1 then lc else int (length (rlog g)) - 1)\<rparr>"]
      by (auto simp: raft_commit_def Let_def)
  qed (use g in \<open>simp add: raft_commit_def\<close>)
  then obtain f' where "raft_commit g lc = Some f'" "currentTerm f' = currentTerm g" "-1 \<le> lastApplied f'" by blast
  moreover have "HandleAppendEntries f trm l prev pt es lc =
      (case raft_commit g lc of None \<Rightarrow> None | Some n \<Rightarrow> Some (n, currentTerm n, True))"
    using False by (auto simp: HandleAppendEntries_def g_def Let_def)
  ultimately show ?thesis using False g(2) by auto
qed

text \<open>The commit rule.  \<^verbatim>\<open>advanceCommitLocked\<close> leaves the commit index alone or moves it forward
  to the highest index whose entry is of the current term and is recorded on a majority of the
  cluster.\<close>

lemma raft_advance_commit:
  assumes "advanceCommit n = Some n'"
  shows "let ok = (\<lambda>N. Term (rlog n ! N) = currentTerm n \<and> (length (peers n) + 1) div 2 < commit_count n (int N)) in
    commitIndex n' = commitIndex n \<and> (\<forall>N < length (rlog n). commitIndex n < int N \<longrightarrow> \<not> ok N) \<or>
    (\<exists>N < length (rlog n). commitIndex n' = int N \<and> commitIndex n < int N \<and> ok N \<and>
      (\<forall>M < length (rlog n). N < M \<longrightarrow> \<not> ok M))"
  using advance_loop_commit [of n "length (rlog n)" n'] assms unfolding advanceCommit_def Let_def by auto


end
