(* ===== verification/Kv_Map.thy ===== *)
theory Kv_Map
  imports Prelude
begin

text \<open>
  The interface of the key-value structures (\<^verbatim>\<open>tree/avl\<close>, \<^verbatim>\<open>tree/trie\<close>, \<^verbatim>\<open>tree/radix\<close>,
  \<^verbatim>\<open>skiplist\<close>, \<^verbatim>\<open>concurrentmap\<close>): what a lookup returns after an insert and after a delete.
  An insert that would dereference nil returns \<open>None\<close>; the contract says that it never does on
  a structure built through the interface.  The laws are proved per structure, the facts on
  sequences of operations here.
\<close>

datatype ('k, 'v) kv_op = Put 'k 'v | Del 'k

fun run_puts :: "('s \<Rightarrow> 'k \<Rightarrow> 'v \<Rightarrow> 's option) \<Rightarrow> ('k \<times> 'v) list \<Rightarrow> 's \<Rightarrow> 's option" where
  "run_puts put [] s = Some s"
| "run_puts put ((k, v) # kvs) s = (case put s k v of None \<Rightarrow> None | Some s \<Rightarrow> run_puts put kvs s)"

fun run_ops :: "('s \<Rightarrow> 'k \<Rightarrow> 'v \<Rightarrow> 's option) \<Rightarrow> ('s \<Rightarrow> 'k \<Rightarrow> 's) \<Rightarrow> ('k, 'v) kv_op list \<Rightarrow> 's \<Rightarrow> 's option" where
  "run_ops put del [] s = Some s"
| "run_ops put del (Put k v # ops) s = (case put s k v of None \<Rightarrow> None | Some s \<Rightarrow> run_ops put del ops s)"
| "run_ops put del (Del k # ops) s = run_ops put del ops (del s k)"

text \<open>The same operations on a partial function: the abstract map.\<close>

fun map_ops :: "('k, 'v) kv_op list \<Rightarrow> ('k \<rightharpoonup> 'v) \<Rightarrow> 'k \<rightharpoonup> 'v" where
  "map_ops [] m = m"
| "map_ops (Put k v # ops) m = map_ops ops (m(k \<mapsto> v))"
| "map_ops (Del k # ops) m = map_ops ops (m(k := None))"

locale kv_map =
  fixes empty :: 's
    and get :: "'s \<Rightarrow> 'k \<Rightarrow> 'v option"
    and put :: "'s \<Rightarrow> 'k \<Rightarrow> 'v \<Rightarrow> 's option"
    and inv :: "'s \<Rightarrow> bool"
  assumes inv_empty: "inv empty"
    and get_empty: "get empty k = None"
    and put_law: "inv s \<Longrightarrow> \<exists>s'. put s k v = Some s' \<and> inv s' \<and> get s' = (get s)(k \<mapsto> v)"
begin

lemma run_puts_law:
  "inv s \<Longrightarrow> \<exists>s'. run_puts put kvs s = Some s' \<and> inv s' \<and> get s' = get s ++ map_of (rev kvs)"
proof (induction kvs arbitrary: s)
  case (Cons kv kvs)
  obtain k v where kv: "kv = (k, v)" by fastforce
  obtain s1 where s1: "put s k v = Some s1" "inv s1" "get s1 = (get s)(k \<mapsto> v)" using put_law [OF Cons.prems] by blast
  obtain s2 where "run_puts put kvs s1 = Some s2" "inv s2" "get s2 = get s1 ++ map_of (rev kvs)"
    using Cons.IH [OF s1(2)] by blast
  then show ?case using kv s1 by (auto simp: map_add_def fun_eq_iff split: option.splits)
qed simp

lemma puts_from_empty:
  "\<exists>s'. run_puts put kvs empty = Some s' \<and> inv s' \<and> get s' = map_of (rev kvs)"
proof -
  have "get empty = Map.empty" by (simp add: get_empty fun_eq_iff)
  then show ?thesis using run_puts_law [OF inv_empty, of kvs] by simp
qed

lemma puts_order_irrelevant:
  assumes "distinct (map fst kvs)" "mset kvs = mset kvs'" "run_puts put kvs empty = Some s" "run_puts put kvs' empty = Some s'"
  shows "get s = get s'"
proof -
  have "set kvs = set kvs'" using assms(2) by (metis set_mset_mset)
  moreover have "distinct (map fst kvs')" using assms(1,2) by (metis mset_eq_imp_distinct_iff mset_map)
  ultimately have "map_of (rev kvs) = map_of (rev kvs')"
    using assms(1) by (intro map_of_eqI) (auto simp: rev_map [symmetric] map_of_eq_Some_iff dest: map_of_SomeD)
  then show ?thesis using puts_from_empty [of kvs] puts_from_empty [of kvs'] assms(3,4) by simp
qed

end

locale kv_map_del = kv_map empty get put inv
  for empty :: 's and get :: "'s \<Rightarrow> 'k \<Rightarrow> 'v option" and put :: "'s \<Rightarrow> 'k \<Rightarrow> 'v \<Rightarrow> 's option"
    and inv :: "'s \<Rightarrow> bool" +
  fixes del :: "'s \<Rightarrow> 'k \<Rightarrow> 's"
  assumes del_law: "inv s \<Longrightarrow> inv (del s k) \<and> get (del s k) = (get s)(k := None)"
begin

lemma run_ops_law:
  "inv s \<Longrightarrow> \<exists>s'. run_ops put del ops s = Some s' \<and> inv s' \<and> get s' = map_ops ops (get s)"
proof (induction ops arbitrary: s)
  case (Cons c ops)
  show ?case
  proof (cases c)
    case (Put k v)
    obtain s1 where s1: "put s k v = Some s1" "inv s1" "get s1 = (get s)(k \<mapsto> v)" using put_law [OF Cons.prems] by blast
    then show ?thesis using Cons.IH [OF s1(2)] Put by (simp del: fun_upd_apply)
  next
    case (Del k)
    then show ?thesis using Cons.IH [of "del s k"] del_law [OF Cons.prems, of k] by (simp del: fun_upd_apply)
  qed
qed simp

lemma ops_from_empty:
  "\<exists>s'. run_ops put del ops empty = Some s' \<and> inv s' \<and> get s' = map_ops ops Map.empty"
proof -
  have "get empty = Map.empty" by (simp add: get_empty fun_eq_iff)
  then show ?thesis using run_ops_law [OF inv_empty, of ops] by simp
qed

lemma del_put: "inv s \<Longrightarrow> get s k = None \<Longrightarrow> put s k v = Some s' \<Longrightarrow> get (del s' k) = get s"
  using put_law [of s k v] del_law [of s' k] by auto

end

end
