(* ===== verification/Avl.thy ===== *)
theory Avl
  imports Kv_Map
begin

text \<open>
  \<^verbatim>\<open>pkg/datastructures/tree/avl/tree.go\<close>.  The stored height is a field of the node, as in the
  source; the rotations dereference a child, so they return an \<open>option\<close> whose \<open>None\<close> is the nil
  dereference.
\<close>

datatype ('k, 'v) avl_node = Nil | Node (avl_key: 'k) (avl_value: 'v) (avl_height: int)
  (avl_left: "('k, 'v) avl_node") (avl_right: "('k, 'v) avl_node")

definition avl_New :: "('k, 'v) avl_node" where
  "avl_New = Nil"

fun Height :: "('k, 'v) avl_node \<Rightarrow> int" where
  "Height Nil = 0"
| "Height (Node k v h l r) = h"

definition avl_max :: "int \<Rightarrow> int \<Rightarrow> int" where
  "avl_max a b = (if a > b then a else b)"

fun updateHeight :: "('k, 'v) avl_node \<Rightarrow> ('k, 'v) avl_node" where
  "updateHeight Nil = Nil"
| "updateHeight (Node k v h l r) = Node k v (1 + avl_max (Height l) (Height r)) l r"

fun getBalance :: "('k, 'v) avl_node \<Rightarrow> int" where
  "getBalance Nil = 0"
| "getBalance (Node k v h l r) = Height l - Height r"

fun rightRotate :: "('k, 'v) avl_node \<Rightarrow> ('k, 'v) avl_node option" where
  "rightRotate (Node ky vy hy (Node kx vx hx xl T2) yr) =
     Some (updateHeight (Node kx vx hx xl (updateHeight (Node ky vy hy T2 yr))))"
| "rightRotate _ = None"

fun leftRotate :: "('k, 'v) avl_node \<Rightarrow> ('k, 'v) avl_node option" where
  "leftRotate (Node kx vx hx xl (Node ky vy hy T2 yr)) =
     Some (updateHeight (Node ky vy hy (updateHeight (Node kx vx hx xl T2)) yr))"
| "leftRotate _ = None"

fun node_key :: "('k, 'v) avl_node \<Rightarrow> 'k option" where
  "node_key Nil = None"
| "node_key (Node k v h l r) = Some k"

text \<open>The rebalancing at the end of \<^verbatim>\<open>insert\<close>.  Reading the key of a nil child is a panic.\<close>

definition rebalance :: "'k::linorder \<Rightarrow> ('k, 'v) avl_node \<Rightarrow> ('k, 'v) avl_node option" where
  "rebalance Key n =
     (case n of Nil \<Rightarrow> None
      | Node k v h l r \<Rightarrow>
          let balance = getBalance n
          in if balance > 1 \<and> node_key l = None \<or> balance < -1 \<and> node_key r = None then None
             else if balance > 1 \<and> Key < the (node_key l) then rightRotate n
             else if balance < -1 \<and> Key > the (node_key r) then leftRotate n
             else if balance > 1 \<and> Key > the (node_key l)
             then (case leftRotate l of None \<Rightarrow> None | Some l \<Rightarrow> rightRotate (Node k v h l r))
             else if balance < -1 \<and> Key < the (node_key r)
             then (case rightRotate r of None \<Rightarrow> None | Some r \<Rightarrow> leftRotate (Node k v h l r))
             else Some n)"

fun avl_insert :: "('k::linorder, 'v) avl_node \<Rightarrow> 'k \<Rightarrow> 'v \<Rightarrow> ('k, 'v) avl_node option" where
  "avl_insert Nil Key Value = Some (Node Key Value 1 Nil Nil)"
| "avl_insert (Node k v h l r) Key Value =
     (if Key < k
      then (case avl_insert l Key Value of None \<Rightarrow> None
            | Some l \<Rightarrow> rebalance Key (updateHeight (Node k v h l r)))
      else if Key > k
      then (case avl_insert r Key Value of None \<Rightarrow> None
            | Some r \<Rightarrow> rebalance Key (updateHeight (Node k v h l r)))
      else Some (Node k Value h l r))"

fun avl_search :: "('k::linorder, 'v) avl_node \<Rightarrow> 'k \<Rightarrow> ('k, 'v) avl_node" where
  "avl_search Nil Key = Nil"
| "avl_search (Node k v h l r) Key =
     (if Key < k then avl_search l Key else if Key > k then avl_search r Key else Node k v h l r)"

definition avl_Put :: "('k::linorder, 'v) avl_node \<Rightarrow> 'k \<Rightarrow> 'v \<Rightarrow> ('k, 'v) avl_node option" where
  "avl_Put t Key Value = avl_insert t Key Value"

definition avl_Get :: "('k::linorder, 'v) avl_node \<Rightarrow> 'k \<Rightarrow> 'v option" where
  "avl_Get t Key = (case avl_search t Key of Nil \<Rightarrow> None | Node k v h l r \<Rightarrow> Some v)"

section \<open>The tree as a map\<close>

fun inorder :: "('k, 'v) avl_node \<Rightarrow> ('k \<times> 'v) list" where
  "inorder Nil = []"
| "inorder (Node k v h l r) = inorder l @ (k, v) # inorder r"

abbreviation ascending :: "('k::linorder \<times> 'v) list \<Rightarrow> bool" where
  "ascending kvs \<equiv> sorted_wrt (<) (map fst kvs)"

text \<open>\<open>balanced\<close>: every stored height is the true one and siblings differ by at most one.\<close>

fun balanced :: "('k, 'v) avl_node \<Rightarrow> bool" where
  "balanced Nil = True"
| "balanced (Node k v h l r) \<longleftrightarrow> balanced l \<and> balanced r \<and> h = 1 + max (Height l) (Height r) \<and>
     \<bar>Height l - Height r\<bar> \<le> 1"

definition avl :: "('k::linorder, 'v) avl_node \<Rightarrow> bool" where
  "avl t \<longleftrightarrow> ascending (inorder t) \<and> balanced t"

lemma avl_max_max [simp]: "avl_max a b = max a b"
  by (simp add: avl_max_def max_def)

lemma Height_nonneg: "balanced t \<Longrightarrow> 0 \<le> Height t"
  by (induction t) auto

lemma Height_pos: "balanced t \<Longrightarrow> 0 < Height t \<longleftrightarrow> t \<noteq> Nil"
  using Height_nonneg by (cases t) (fastforce simp: max_def)+

lemma inorder_updateHeight [simp]: "inorder (updateHeight t) = inorder t"
  by (cases t) auto

lemma inorder_rightRotate: "rightRotate t = Some t' \<Longrightarrow> inorder t' = inorder t"
  by (induction t rule: rightRotate.induct) auto

lemma inorder_leftRotate: "leftRotate t = Some t' \<Longrightarrow> inorder t' = inorder t"
  by (induction t rule: leftRotate.induct) auto

lemma inorder_rebalance: "rebalance Key t = Some t' \<Longrightarrow> inorder t' = inorder t"
  by (auto simp: rebalance_def Let_def split: avl_node.splits if_splits option.splits
      dest!: inorder_rightRotate inorder_leftRotate)

text \<open>Inserting into the ascending list of the bindings.\<close>

fun ins_list :: "'k::linorder \<Rightarrow> 'v \<Rightarrow> ('k \<times> 'v) list \<Rightarrow> ('k \<times> 'v) list" where
  "ins_list k v [] = [(k, v)]"
| "ins_list k v ((a, b) # kvs) =
     (if k < a then (k, v) # (a, b) # kvs else if k = a then (k, v) # kvs else (a, b) # ins_list k v kvs)"

lemma keys_ins_list: "set (map fst (ins_list k v kvs)) = insert k (set (map fst kvs))"
proof (induction kvs)
  case (Cons ab kvs)
  then show ?case by (cases ab) (simp, blast)
qed simp

lemma ascending_ins_list: "ascending kvs \<Longrightarrow> ascending (ins_list k v kvs)"
proof (induction kvs)
  case (Cons ab kvs)
  obtain a b where ab: "ab = (a, b)" by fastforce
  show ?case
  proof (cases "k \<le> a")
    case True
    then show ?thesis using Cons.prems ab by force
  next
    case False
    then have "\<forall>x \<in> set (map fst (ins_list k v kvs)). a < x"
      using Cons.prems ab unfolding keys_ins_list by auto
    then show ?thesis using Cons False ab by auto
  qed
qed simp

lemma map_of_ins_list: "map_of (ins_list k v kvs) = (map_of kvs)(k \<mapsto> v)"
  by (induction kvs) auto

lemma ins_list_append:
  "ascending (xs @ (a, b) # ys) \<Longrightarrow>
   ins_list k v (xs @ (a, b) # ys) =
     (if k < a then ins_list k v xs @ (a, b) # ys else if k = a then xs @ (k, v) # ys
      else xs @ (a, b) # ins_list k v ys)"
  by (induction xs) (auto simp: sorted_wrt_append)

lemma avl_insert_inorder:
  "ascending (inorder t) \<Longrightarrow> avl_insert t k v = Some t' \<Longrightarrow> inorder t' = ins_list k v (inorder t)"
proof (induction t arbitrary: t')
  case (Node a b h l r)
  have asc: "ascending (inorder l)" "ascending (inorder r)" using Node.prems by (auto simp: sorted_wrt_append)
  have ins: "ins_list k v (inorder (Node a b h l r)) =
     (if k < a then ins_list k v (inorder l) @ (a, b) # inorder r else if k = a then inorder l @ (k, v) # inorder r
      else inorder l @ (a, b) # ins_list k v (inorder r))"
    using Node.prems(1) unfolding inorder.simps by (rule ins_list_append)
  consider "k < a" | "k = a" | "k > a" by fastforce
  then show ?case
  proof cases
    case 1
    then obtain l' where "avl_insert l k v = Some l'" "rebalance k (updateHeight (Node a b h l' r)) = Some t'"
      using Node.prems(2) by (auto split: option.splits)
    then show ?thesis using inorder_rebalance [of k _ t'] Node.IH(1) [OF asc(1)] ins 1 by fastforce
  next
    case 2
    then show ?thesis using Node.prems(2) ins by auto
  next
    case 3
    then obtain r' where "avl_insert r k v = Some r'" "rebalance k (updateHeight (Node a b h l r')) = Some t'"
      using Node.prems(2) less_not_sym [OF 3] by (auto split: option.splits)
    then show ?thesis using inorder_rebalance [of k _ t'] Node.IH(2) [OF asc(2)] ins 3 by fastforce
  qed
qed simp

lemma avl_Get_map_of: "ascending (inorder t) \<Longrightarrow> avl_Get t k = map_of (inorder t) k"
proof (induction t)
  case (Node a b h l r)
  have asc: "ascending (inorder l)" "ascending (inorder r)"
      "\<forall>x \<in> fst ` set (inorder l). x < a" "\<forall>x \<in> fst ` set (inorder r). a < x"
    using Node.prems by (auto simp: sorted_wrt_append)
  have "map_of (inorder l) k = None" if "a \<le> k" using asc(3) that by (force simp: map_of_eq_None_iff)
  moreover have "map_of (inorder r) k = None" if "k \<le> a" using asc(4) that by (force simp: map_of_eq_None_iff)
  moreover have "avl_Get (Node a b h l r) k =
      (if k < a then avl_Get l k else if k > a then avl_Get r k else Some b)"
    by (simp add: avl_Get_def)
  ultimately show ?case using Node.IH asc(1,2) by (auto simp: map_add_def split: option.splits)
qed (simp add: avl_Get_def)

section \<open>Balance\<close>

text \<open>When an insert makes a non-empty tree higher, the side the key went to is the higher one.\<close>

definition grown :: "'k::linorder \<Rightarrow> ('k, 'v) avl_node \<Rightarrow> ('k, 'v) avl_node \<Rightarrow> bool" where
  "grown k t t' \<longleftrightarrow> balanced t' \<and> (Height t' = Height t \<or> Height t' = Height t + 1 \<and>
     (t = Nil \<or> (\<exists>a b h l r. t' = Node a b h l r \<and>
        (k < a \<and> Height l = Height r + 1 \<or> k > a \<and> Height r = Height l + 1))))"

lemma rebalance_left:
  assumes t: "balanced (Node a b h l r)" and l': "grown k l l'" and k: "k < a"
  shows "\<exists>t'. rebalance k (updateHeight (Node a b h l' r)) = Some t' \<and> grown k (Node a b h l r) t'"
proof (cases "Height l' - Height r \<le> 1")
  case True
  then show ?thesis using t l' k Height_nonneg [of r]
    by (auto simp: rebalance_def grown_def Let_def max_def)
next
  case False
  have b: "balanced l'" "balanced l" "balanced r" "\<bar>Height l - Height r\<bar> \<le> 1"
    using t l' by (auto simp: grown_def)
  then have eq: "Height l' = Height r + 2" "Height l = Height r + 1" using False l' by (auto simp: grown_def)
  have ht: "h = Height r + 2" using t eq by simp
  have "l \<noteq> Nil" using Height_nonneg [OF b(3)] eq by auto
  then obtain x y hx xl xr where x: "l' = Node x y hx xl xr"
      "k < x \<and> Height xl = Height xr + 1 \<or> k > x \<and> Height xr = Height xl + 1"
    using l' eq by (auto simp: grown_def)
  show ?thesis
  proof (cases "k < x")
    case True
    then have h: "Height xl = Height xr + 1" "Height xr = Height r" "\<not> k > x" using x eq b(1) by auto
    then show ?thesis using True x(1) eq b k ht
      by (simp add: rebalance_def grown_def Let_def max_def)
  next
    case False
    then have h: "Height xr = Height xl + 1" "Height xl = Height r" "k > x" using x eq b(1) by auto
    then have "xr \<noteq> Nil" using Height_nonneg [OF b(3)] by auto
    then obtain z w hz zl zr where z: "xr = Node z w hz zl zr" by (cases xr) auto
    have zh: "Height zl \<le> Height r" "Height zr \<le> Height r" "Height r - 1 \<le> Height zl" "Height r - 1 \<le> Height zr"
        "balanced xl" "balanced zl" "balanced zr" "hx = Height r + 2"
      using b(1) x(1) z h by auto
    have "rebalance k (updateHeight (Node a b h l' r)) = Some (Node z w (Height r + 2)
        (Node x y (Height r + 1) xl zl) (Node a b (Height r + 1) zr r))"
      using False h z eq zh(1,2,8) x(1) k
      by (simp add: rebalance_def Let_def max_absorb1 max_absorb2)
    then show ?thesis using zh h ht b(3) by (auto simp: grown_def)
  qed
qed

lemma rebalance_right:
  assumes t: "balanced (Node a b h l r)" and r': "grown k r r'" and k: "k > a"
  shows "\<exists>t'. rebalance k (updateHeight (Node a b h l r')) = Some t' \<and> grown k (Node a b h l r) t'"
proof (cases "Height r' - Height l \<le> 1")
  case True
  then show ?thesis using t r' k Height_nonneg [of l]
    by (auto simp: rebalance_def grown_def Let_def max_def)
next
  case False
  have b: "balanced r'" "balanced r" "balanced l" "\<bar>Height l - Height r\<bar> \<le> 1"
    using t r' by (auto simp: grown_def)
  then have eq: "Height r' = Height l + 2" "Height r = Height l + 1" using False r' by (auto simp: grown_def)
  have ht: "h = Height l + 2" using t eq by simp
  have "r \<noteq> Nil" using Height_nonneg [OF b(3)] eq by auto
  then obtain x y hx xl xr where x: "r' = Node x y hx xl xr"
      "k < x \<and> Height xl = Height xr + 1 \<or> k > x \<and> Height xr = Height xl + 1"
    using r' eq by (auto simp: grown_def)
  show ?thesis
  proof (cases "k < x")
    case False
    then have h: "Height xr = Height xl + 1" "Height xl = Height l" "k > x" using x eq b(1) by auto
    then show ?thesis using False x(1) eq b k ht
      by (simp add: rebalance_def grown_def Let_def max_def)
  next
    case True
    then have h: "Height xl = Height xr + 1" "Height xr = Height l" "\<not> k > x" using x eq b(1) by auto
    then have "xl \<noteq> Nil" using Height_nonneg [OF b(3)] by auto
    then obtain z w hz zl zr where z: "xl = Node z w hz zl zr" by (cases xl) auto
    have zh: "Height zl \<le> Height l" "Height zr \<le> Height l" "Height l - 1 \<le> Height zl" "Height l - 1 \<le> Height zr"
        "balanced xr" "balanced zl" "balanced zr" "hx = Height l + 2"
      using b(1) x(1) z h by auto
    have "rebalance k (updateHeight (Node a b h l r')) = Some (Node z w (Height l + 2)
        (Node a b (Height l + 1) l zl) (Node x y (Height l + 1) zr xr))"
      using True h z eq zh(1,2,8) x(1) k
      by (simp add: rebalance_def Let_def max_absorb1 max_absorb2)
    then show ?thesis using zh h ht b(3) by (auto simp: grown_def)
  qed
qed

lemma avl_insert_grown: "balanced t \<Longrightarrow> \<exists>t'. avl_insert t k v = Some t' \<and> grown k t t'"
proof (induction t)
  case Nil
  then show ?case by (simp add: grown_def)
next
  case (Node a b h l r)
  consider "k < a" | "k = a" | "k > a" by fastforce
  then show ?case
  proof cases
    case 1
    then show ?thesis using Node rebalance_left [OF Node.prems] by fastforce
  next
    case 2
    then show ?thesis using Node.prems by (auto simp: grown_def)
  next
    case 3
    then show ?thesis using Node rebalance_right [OF Node.prems] less_not_sym [OF 3] by fastforce
  qed
qed

interpretation avl_map: kv_map avl_New avl_Get avl_Put avl
proof
  fix t :: "('k::linorder, 'v) avl_node" and k v
  assume t: "avl t"
  then obtain t' where t': "avl_insert t k v = Some t'" "balanced t'"
    using avl_insert_grown [of t k v] by (auto simp: avl_def grown_def)
  have io: "inorder t' = ins_list k v (inorder t)" using t avl_insert_inorder [OF _ t'(1)] by (simp add: avl_def)
  then have asc: "ascending (inorder t')" using t by (simp add: avl_def ascending_ins_list)
  then have "avl_Get t' = (avl_Get t)(k \<mapsto> v)"
    using t avl_Get_map_of [OF asc] avl_Get_map_of [of t] unfolding io map_of_ins_list
    by (simp add: avl_def fun_eq_iff)
  moreover have "avl t'" using asc t'(2) by (simp add: avl_def)
  ultimately show "\<exists>s'. avl_Put t k v = Some s' \<and> avl s' \<and> avl_Get s' = (avl_Get t)(k \<mapsto> v)"
    using t'(1) by (simp add: avl_Put_def)
qed (simp_all add: avl_New_def avl_def avl_Get_def)

section \<open>The height is logarithmic\<close>

fun nodes :: "('k, 'v) avl_node \<Rightarrow> nat" where
  "nodes Nil = 0"
| "nodes (Node k v h l r) = Suc (nodes l + nodes r)"

lemma nodes_inorder: "length (inorder t) = nodes t"
  by (induction t) auto

lemma balanced_size: "balanced t \<Longrightarrow> 2 ^ (nat (Height t) div 2) \<le> nodes t + 1"
proof (induction "nodes t" arbitrary: t rule: less_induct)
  case less
  show ?case
  proof (cases t)
    case (Node k v h l r)
    have b: "balanced l" "balanced r" "h = 1 + max (Height l) (Height r)" "\<bar>Height l - Height r\<bar> \<le> 1"
      using less.prems Node by auto
    have ge: "0 \<le> Height l" "0 \<le> Height r" using b Height_nonneg by auto
    have "nat (Height t) div 2 \<le> Suc (nat (Height l) div 2)" "nat (Height t) div 2 \<le> Suc (nat (Height r) div 2)"
      using b(3,4) ge Node by auto
    then have "(2::nat) ^ (nat (Height t) div 2) \<le> 2 * 2 ^ (nat (Height l) div 2)"
        "(2::nat) ^ (nat (Height t) div 2) \<le> 2 * 2 ^ (nat (Height r) div 2)"
      by (metis one_le_numeral power_Suc power_increasing)+
    moreover have "2 ^ (nat (Height l) div 2) \<le> nodes l + 1" "2 ^ (nat (Height r) div 2) \<le> nodes r + 1"
      using less.hyps [of l] less.hyps [of r] b Node by auto
    ultimately show ?thesis using Node by simp
  qed simp
qed

text \<open>C21: the AVL tree.  After any sequence of \<^verbatim>\<open>Put\<close>s (none of which dereferences nil), \<^verbatim>\<open>Get\<close> returns
  for every key the value put last, the keys are in ascending order and without duplicates, every stored height is right and siblings
  differ in height by at most one, and hence the height is logarithmic: \<open>2\<close> to half the height is at
  most the number of keys plus one.\<close>

theorem avl_correct:
  "\<exists>t. run_puts avl_Put kvs avl_New = Some t \<and> (\<forall>k. avl_Get t k = map_of (rev kvs) k) \<and>
     sorted_wrt (<) (map fst (inorder t)) \<and> set (map fst (inorder t)) = set (map fst kvs) \<and> balanced t \<and>
     2 ^ (nat (Height t) div 2) \<le> length (inorder t) + 1"
proof -
  obtain t where t: "run_puts avl_Put kvs avl_New = Some t" "avl t" "avl_Get t = map_of (rev kvs)"
    using avl_map.puts_from_empty by blast
  then have "map_of (inorder t) = map_of (rev kvs)" by (simp add: avl_def avl_Get_map_of fun_eq_iff)
  then have "set (map fst (inorder t)) = set (map fst kvs)" by (metis dom_map_of_conv_image_fst list.set_map set_rev)
  then show ?thesis using t balanced_size [of t] by (auto simp: avl_def nodes_inorder)
qed

end
