(* ===== verification/Trie.thy ===== *)
theory Trie
  imports Kv_Map
begin

text \<open>
  \<^verbatim>\<open>pkg/datastructures/tree/trie/trie.go\<close>.  Keys are the rune sequences the source ranges over.
  The children of a node are a Go map that \<^verbatim>\<open>PrefixSearch\<close> iterates over, hence an association
  list in an arbitrary order.  The value field of a node is \<open>None\<close> while it has Go's zero value.
\<close>

datatype 'v trie = TNode (children: "(nat \<times> 'v trie) list") (tvalue: "'v option") (isTerm: bool)

definition trie_New :: "'v trie" where
  "trie_New = TNode [] None False"

fun trie_Insert :: "'v trie \<Rightarrow> nat list \<Rightarrow> 'v \<Rightarrow> 'v trie" where
  "trie_Insert (TNode cs v t) [] value = TNode cs (Some value) True"
| "trie_Insert (TNode cs v t) (char # key) value =
     (let child = (case map_of cs char of None \<Rightarrow> trie_New | Some n \<Rightarrow> n)
      in TNode (AList.update char (trie_Insert child key value) cs) v t)"

fun trie_walk :: "'v trie \<Rightarrow> nat list \<Rightarrow> 'v trie option" where
  "trie_walk n [] = Some n"
| "trie_walk n (char # key) =
     (case map_of (children n) char of None \<Rightarrow> None | Some child \<Rightarrow> trie_walk child key)"

definition trie_Get :: "'v trie \<Rightarrow> nat list \<Rightarrow> 'v option" where
  "trie_Get t key =
     (case trie_walk t key of None \<Rightarrow> None | Some n \<Rightarrow> if \<not> isTerm n then None else tvalue n)"

fun trie_delete :: "'v trie \<Rightarrow> nat list \<Rightarrow> 'v trie \<times> bool" where
  "trie_delete (TNode cs v t) [] = (if \<not> t then (TNode cs v t, False) else (TNode cs v False, cs = []))"
| "trie_delete (TNode cs v t) (char # key) =
     (case map_of cs char of
        None \<Rightarrow> (TNode cs v t, False)
      | Some child \<Rightarrow>
          let (child, shouldDeleteChild) = trie_delete child key
          in if shouldDeleteChild
             then let cs = AList.delete char cs in (TNode cs v t, cs = [] \<and> \<not> t)
             else (TNode (AList.update char child cs) v t, False))"

definition trie_Delete :: "'v trie \<Rightarrow> nat list \<Rightarrow> 'v trie" where
  "trie_Delete t key = fst (trie_delete t key)"

fun trie_collect :: "'v trie \<Rightarrow> 'v list" where
  "trie_collect (TNode cs v t) =
     (if t then [the v] else []) @ concat (map (\<lambda>p. trie_collect (snd p)) cs)"

definition PrefixSearch :: "'v trie \<Rightarrow> nat list \<Rightarrow> 'v list" where
  "PrefixSearch t prefix = (case trie_walk t prefix of None \<Rightarrow> [] | Some n \<Rightarrow> trie_collect n)"

section \<open>The invariant\<close>

text \<open>Children are keyed by distinct runes, a terminal node has a value, and no branch is dead:
  every node below the root is terminal or has children.\<close>

definition live :: "'v trie \<Rightarrow> bool" where
  "live n \<longleftrightarrow> isTerm n \<or> children n \<noteq> []"

fun trie_ok :: "'v trie \<Rightarrow> bool" where
  "trie_ok (TNode cs v t) \<longleftrightarrow> distinct (map fst cs) \<and> (t \<longrightarrow> v \<noteq> None) \<and>
     list_all id (map (\<lambda>p. trie_ok (snd p) \<and> live (snd p)) cs)"

lemma trie_ok_iff:
  "trie_ok (TNode cs v t) \<longleftrightarrow> distinct (map fst cs) \<and> (t \<longrightarrow> v \<noteq> None) \<and>
     (\<forall>(c, n) \<in> set cs. trie_ok n \<and> live n)"
  by (auto simp: list_all_iff)

declare trie_ok.simps [simp del]

lemma trie_ok_child: "trie_ok (TNode cs v t) \<Longrightarrow> map_of cs c = Some n \<Longrightarrow> trie_ok n \<and> live n"
  by (auto simp: trie_ok_iff dest: map_of_SomeD)

lemma trie_ok_update:
  "trie_ok (TNode cs v t) \<Longrightarrow> trie_ok n \<Longrightarrow> live n \<Longrightarrow> trie_ok (TNode (AList.update c n cs) v t)"
  by (auto simp: trie_ok_iff distinct_update in_alist_update split: if_splits)

lemma live_insert: "live (trie_Insert t key v)"
  by (induction t key v rule: trie_Insert.induct) (auto simp: live_def Let_def update_nonempty)

lemma trie_ok_insert: "trie_ok t \<Longrightarrow> trie_ok (trie_Insert t key v)"
proof (induction t key v rule: trie_Insert.induct)
  case (1 cs v t x)
  then show ?case by (auto simp: trie_ok_iff)
next
  case (2 cs v t c key x)
  have "trie_ok (trie_New :: 'a trie)" by (simp add: trie_New_def trie_ok_iff)
  then have "trie_ok (trie_Insert (case map_of cs c of None \<Rightarrow> trie_New | Some n \<Rightarrow> n) key x)"
    using 2 trie_ok_child [of cs v t c] by (auto split: option.splits)
  from trie_ok_update [OF "2.prems" this live_insert] show ?case by (simp add: Let_def)
qed

lemma trie_Get_simps:
  "trie_Get (TNode cs v t) [] = (if t then v else None)"
  "trie_Get (TNode cs v t) (c # key) = (case map_of cs c of None \<Rightarrow> None | Some n \<Rightarrow> trie_Get n key)"
  by (auto simp: trie_Get_def split: option.splits)

lemma trie_Get_New: "trie_Get trie_New key = None"
  by (cases key) (auto simp: trie_New_def trie_Get_simps)

lemma trie_Get_insert: "trie_Get (trie_Insert t key v) key' = (if key' = key then Some v else trie_Get t key')"
proof (induction t key v arbitrary: key' rule: trie_Insert.induct)
  case (1 cs v t x)
  then show ?case by (cases key') (auto simp: trie_Get_simps)
next
  case (2 cs v t c key x)
  then show ?case
    by (cases key') (auto simp: trie_Get_simps Let_def update_conv' trie_Get_New split: option.splits)
qed

lemma dead_Get: "\<not> live n \<Longrightarrow> trie_Get n key = None"
  by (cases n; cases key) (auto simp: live_def trie_Get_simps)

lemma trie_delete_spec:
  "trie_ok t \<Longrightarrow> trie_delete t key = (t', d) \<Longrightarrow>
   trie_ok t' \<and> trie_Get t' = (trie_Get t)(key := None) \<and> (d \<longrightarrow> \<not> live t') \<and> (\<not> d \<longrightarrow> live t \<longrightarrow> live t')"
proof (induction t key arbitrary: t' d rule: trie_delete.induct)
  case (1 cs v t)
  have "trie_Get (TNode cs v False) = (trie_Get (TNode cs v t))([] := None)"
    by (auto simp: fun_eq_iff trie_Get_simps neq_Nil_conv)
  then show ?case using 1 by (auto simp: trie_ok_iff live_def trie_Get_simps split: if_splits)
next
  case (2 cs v t c key)
  show ?case
  proof (cases "map_of cs c")
    case None
    then have "trie_Get (TNode cs v t) (c # key) = None" by (simp add: trie_Get_simps)
    then show ?thesis using 2 None by auto
  next
    case (Some child)
    obtain child' e where del: "trie_delete child key = (child', e)" by fastforce
    have ih: "trie_ok child'" "trie_Get child' = (trie_Get child)(key := None)" "e \<Longrightarrow> \<not> live child'" "\<not> e \<Longrightarrow> live child'"
      using "2.IH" [OF Some _ del] trie_ok_child [OF "2.prems"(1) Some] by auto
    have upd: "trie_Get (TNode cs' v t) = (trie_Get (TNode cs v t))(c # key := None)"
      if "\<And>c'. c' \<noteq> c \<Longrightarrow> map_of cs' c' = map_of cs c'"
        "\<And>k. (case map_of cs' c of None \<Rightarrow> None | Some n \<Rightarrow> trie_Get n k) = trie_Get child' k" for cs'
    proof
      fix k show "trie_Get (TNode cs' v t) k = ((trie_Get (TNode cs v t))(c # key := None)) k"
      proof (cases k)
        case (Cons a l)
        then show ?thesis using that ih(2) Some by (cases "a = c") (auto simp: trie_Get_simps)
      qed (simp add: trie_Get_simps)
    qed
    show ?thesis
    proof (cases e)
      case True
      then have t': "t' = TNode (AList.delete c cs) v t" "d \<longleftrightarrow> AList.delete c cs = [] \<and> \<not> t"
        using "2.prems"(2) Some del by (auto simp: Let_def)
      have "trie_ok t'" using "2.prems"(1) t' by (auto simp: trie_ok_iff distinct_delete in_alist_delete)
      moreover have "trie_Get t' = (trie_Get (TNode cs v t))(c # key := None)"
        unfolding t' by (rule upd) (auto simp: delete_conv' dead_Get [OF ih(3) [OF True]])
      ultimately show ?thesis using t' by (auto simp: live_def)
    next
      case False
      then have t': "t' = TNode (AList.update c child' cs) v t" "\<not> d"
        using "2.prems"(2) Some del by (auto simp: Let_def)
      have "trie_ok t'" using trie_ok_update [OF "2.prems"(1) ih(1) ih(4)] t' False by simp
      moreover have "trie_Get t' = (trie_Get (TNode cs v t))(c # key := None)"
        unfolding t' by (rule upd) (auto simp: update_conv')
      ultimately show ?thesis using t' by (auto simp: live_def)
    qed
  qed
qed

interpretation trie_map: kv_map_del trie_New trie_Get "\<lambda>t k v. Some (trie_Insert t k v)" trie_ok trie_Delete
proof
  fix t :: "'v trie" and k v
  show "trie_ok (trie_New :: 'v trie)" by (simp add: trie_New_def trie_ok_iff)
  show "trie_Get (trie_New :: 'v trie) k = None" by (rule trie_Get_New)
  assume t: "trie_ok t"
  then show "\<exists>s'. Some (trie_Insert t k v) = Some s' \<and> trie_ok s' \<and> trie_Get s' = (trie_Get t)(k \<mapsto> v)"
    by (auto simp: trie_ok_insert trie_Get_insert fun_eq_iff)
  show "trie_ok (trie_Delete t k) \<and> trie_Get (trie_Delete t k) = (trie_Get t)(k := None)"
    using trie_delete_spec [OF t, of k] unfolding trie_Delete_def by (metis prod.collapse)
qed

section \<open>Prefix search\<close>

fun trie_keys :: "'v trie \<Rightarrow> nat list list" where
  "trie_keys (TNode cs v t) =
     (if t then [[]] else []) @ concat (map (\<lambda>p. map ((#) (fst p)) (trie_keys (snd p))) cs)"

lemma set_trie_keys: "trie_ok t \<Longrightarrow> k \<in> set (trie_keys t) \<longleftrightarrow> trie_Get t k \<noteq> None"
proof (induction t arbitrary: k rule: trie_keys.induct)
  case (1 cs v t)
  have kids: "k' \<in> set (trie_keys n) \<longleftrightarrow> trie_Get n k' \<noteq> None" if "(c, n) \<in> set cs" for c n k'
    using 1 that by (force simp: trie_ok_iff)
  have d: "distinct (map fst cs)" "t \<longrightarrow> v \<noteq> None" using "1.prems" by (auto simp: trie_ok_iff)
  show ?case
  proof (cases k)
    case Nil
    then show ?thesis using d(2) by (auto simp: trie_Get_simps)
  next
    case (Cons c k')
    have "k \<in> set (trie_keys (TNode cs v t)) \<longleftrightarrow> (\<exists>n. (c, n) \<in> set cs \<and> k' \<in> set (trie_keys n))"
      using Cons by (auto simp: image_iff) force
    also have "\<dots> \<longleftrightarrow> (\<exists>n. map_of cs c = Some n \<and> trie_Get n k' \<noteq> None)"
      using kids d(1) by (auto simp: map_of_eq_Some_iff)
    finally show ?thesis using Cons by (auto simp: trie_Get_simps split: option.splits)
  qed
qed

lemma distinct_trie_keys: "trie_ok t \<Longrightarrow> distinct (trie_keys t)"
proof (induction t rule: trie_keys.induct)
  case (1 cs v t)
  have "distinct (trie_keys n)" if "(c, n) \<in> set cs" for c n
    using 1 that by (force simp: trie_ok_iff)
  moreover have "distinct (map fst cs)" using "1.prems" by (simp add: trie_ok_iff)
  ultimately have "distinct (concat (map (\<lambda>p. map ((#) (fst p)) (trie_keys (snd p))) cs))"
  proof (induction cs)
    case (Cons p cs)
    have "\<forall>q \<in> set cs. fst q \<noteq> fst p" using Cons.prems(2) by (auto simp: image_iff)
    moreover have "distinct (trie_keys (snd p))" using Cons.prems(1) [of "fst p" "snd p"] by simp
    ultimately show ?case using Cons by (auto simp: distinct_map)
  qed simp
  then show ?case by (auto)
qed

lemma trie_collect_keys: "trie_ok t \<Longrightarrow> trie_collect t = map (\<lambda>k. the (trie_Get t k)) (trie_keys t)"
proof (induction t rule: trie_keys.induct)
  case (1 cs v t)
  have d: "distinct (map fst cs)" "t \<longrightarrow> v \<noteq> None" using "1.prems" by (auto simp: trie_ok_iff)
  have "trie_collect (snd p) = map (\<lambda>k. the (trie_Get (TNode cs v t) k)) (map ((#) (fst p)) (trie_keys (snd p)))"
    if "p \<in> set cs" for p
  proof -
    have "map_of cs (fst p) = Some (snd p)" using d(1) that by (simp add: map_of_eq_Some_iff)
    then have "(\<lambda>k. the (trie_Get (TNode cs v t) (fst p # k))) = (\<lambda>k. the (trie_Get (snd p) k))"
      by (simp add: trie_Get_simps)
    moreover have "trie_collect (snd p) = map (\<lambda>k. the (trie_Get (snd p) k)) (trie_keys (snd p))"
      using 1 that by (force simp: trie_ok_iff)
    ultimately show ?thesis by (simp add: comp_def)
  qed
  then have "map (\<lambda>p. trie_collect (snd p)) cs =
      map (map (\<lambda>k. the (trie_Get (TNode cs v t) k)) \<circ> (\<lambda>p. map ((#) (fst p)) (trie_keys (snd p)))) cs"
    by simp
  then have "concat (map (\<lambda>p. trie_collect (snd p)) cs) =
      map (\<lambda>k. the (trie_Get (TNode cs v t) k)) (concat (map (\<lambda>p. map ((#) (fst p)) (trie_keys (snd p))) cs))"
    by (simp only: map_concat map_map)
  then show ?case by (simp add: trie_Get_simps(1))
qed

lemma trie_walk_Get: "trie_walk t p = Some n \<Longrightarrow> trie_Get t (p @ k) = trie_Get n k"
  by (induction t p rule: trie_walk.induct) (auto simp: trie_Get_def split: option.splits)

lemma trie_walk_ok: "trie_walk t p = Some n \<Longrightarrow> trie_ok t \<Longrightarrow> trie_ok n"
proof (induction t p rule: trie_walk.induct)
  case (2 t c key)
  then show ?case by (cases t) (auto split: option.splits dest: trie_ok_child)
qed simp

lemma trie_walk_None: "trie_walk t p = None \<Longrightarrow> trie_Get t (p @ k) = None"
  by (induction t p rule: trie_walk.induct) (auto simp: trie_Get_def split: option.splits)

lemma PrefixSearch_spec:
  assumes "trie_ok t"
  shows "\<exists>ks. distinct ks \<and> set ks = {k. take (length p) k = p \<and> trie_Get t k \<noteq> None} \<and>
    PrefixSearch t p = map (\<lambda>k. the (trie_Get t k)) ks"
proof (cases "trie_walk t p")
  case None
  have "trie_Get t k = None" if "take (length p) k = p" for k
    using trie_walk_None [OF None, of "drop (length p) k"] that by (metis append_take_drop_id)
  then show ?thesis using None by (intro exI [of _ "[]"]) (auto simp: PrefixSearch_def)
next
  case (Some n)
  note ok = trie_walk_ok [OF Some assms] and get = trie_walk_Get [OF Some]
  have "set (map ((@) p) (trie_keys n)) = {k. take (length p) k = p \<and> trie_Get t k \<noteq> None}"
  proof (intro equalityI subsetI)
    fix k assume "k \<in> {k. take (length p) k = p \<and> trie_Get t k \<noteq> None}"
    then have "k = p @ drop (length p) k" "trie_Get t k \<noteq> None" using append_take_drop_id [of "length p" k] by auto
    then show "k \<in> set (map ((@) p) (trie_keys n))" using set_trie_keys [OF ok] get by (metis image_eqI list.set_map)
  qed (auto simp: get set_trie_keys [OF ok])
  moreover have "distinct (map ((@) p) (trie_keys n))" using distinct_trie_keys [OF ok] by (simp add: distinct_map inj_on_def)
  moreover have "PrefixSearch t p = map (\<lambda>k. the (trie_Get t k)) (map ((@) p) (trie_keys n))"
    using Some trie_collect_keys [OF ok] get by (simp add: PrefixSearch_def comp_def)
  ultimately show ?thesis by blast
qed

text \<open>The trie.  After any sequence of \<^verbatim>\<open>Insert\<close>s and \<^verbatim>\<open>Delete\<close>s the trie holds exactly the map those
  operations describe; \<^verbatim>\<open>PrefixSearch\<close> then returns the value of every key that starts with the
  prefix, each once, and nothing else; and deletes leave no dead branch behind (every node below
  the root is terminal or has children).\<close>

lemma trie_correct:
  "\<exists>t. run_ops (\<lambda>t k v. Some (trie_Insert t k v)) trie_Delete ops trie_New = Some t \<and>
     trie_Get t = map_ops ops Map.empty \<and> trie_ok t \<and>
     (\<forall>p. \<exists>ks. distinct ks \<and> set ks = {k. take (length p) k = p \<and> map_ops ops Map.empty k \<noteq> None} \<and>
        PrefixSearch t p = map (\<lambda>k. the (map_ops ops Map.empty k)) ks)"
proof -
  obtain t where "run_ops (\<lambda>t k v. Some (trie_Insert t k v)) trie_Delete ops trie_New = Some t"
      "trie_ok t" "trie_Get t = map_ops ops Map.empty"
    using trie_map.ops_from_empty by blast
  then show ?thesis using PrefixSearch_spec [of t] by auto
qed

end
