(* ===== verification/Radix_Tree.thy ===== *)
theory Radix_Tree
  imports Kv_Map
begin

text \<open>
  \<^verbatim>\<open>pkg/datastructures/tree/radix/radix.go\<close>: the compressed prefix tree.  Paths are byte strings.
  Indexing an empty edge (\<^verbatim>\<open>child.path[0]\<close>) is a panic, the \<open>None\<close> of the insert functions.  The
  loop over the children that mutates the matching child is \<open>radix_loop\<close>, which returns the new
  list of children.
\<close>

datatype 'v rnode = RNode (rpath: string) (rchildren: "'v rnode list") (rvalue: "'v option") (rterm: bool)

definition radix_New :: "'v rnode" where
  "radix_New = RNode [] [] None False"

text \<open>The length of the shared prefix of two paths.\<close>

fun lcp :: "string \<Rightarrow> string \<Rightarrow> nat" where
  "lcp (a # as) (b # bs) = (if a = b then Suc (lcp as bs) else 0)"
| "lcp as bs = 0"

text \<open>The split of an edge at \<open>n\<close>: the old child becomes the head, its data move to the tail, and the
  new value goes to a leaf or, if the path ends at the split point, to the head.\<close>

definition split_edge :: "'v rnode \<Rightarrow> nat \<Rightarrow> string \<Rightarrow> 'v \<Rightarrow> 'v rnode" where
  "split_edge child n path x =
     (let tail = RNode (drop n (rpath child)) (rchildren child) (rvalue child) (rterm child)
      in if n < length path
         then RNode (take n (rpath child)) [tail, RNode (drop n path) [] (Some x) True] (rvalue child) False
         else RNode (take n (rpath child)) [tail] (Some x) True)"

function (sequential) radix_insert :: "'v rnode \<Rightarrow> string \<Rightarrow> 'v \<Rightarrow> 'v rnode option"
  and radix_loop :: "'v rnode list \<Rightarrow> string \<Rightarrow> 'v \<Rightarrow> 'v rnode list option" where
  "radix_insert (RNode p cs v t) path x =
     (if path = [] then Some (RNode p cs (Some x) True)
      else map_option (\<lambda>cs. RNode p cs v t) (radix_loop cs path x))"
| "radix_loop [] path x = Some [RNode path [] (Some x) True]"
| "radix_loop (child # cs) path x =
     (if rpath child = [] \<or> path = [] then None
      else if hd (rpath child) = hd path
      then let n = lcp (rpath child) path
           in if n = length (rpath child)
              then map_option (\<lambda>child. child # cs) (radix_insert child (drop n path) x)
              else Some (split_edge child n path x # cs)
      else map_option ((#) child) (radix_loop cs path x))"
  by pat_completeness auto
termination
  by (relation "measures [\<lambda>a. case a of Inl (n, p, x) \<Rightarrow> length p | Inr (cs, p, x) \<Rightarrow> length p,
      \<lambda>a. case a of Inl (n, p, x) \<Rightarrow> Suc (length (rchildren n)) | Inr (cs, p, x) \<Rightarrow> length cs]")
    (auto, metis diff_less length_greater_0_conv)

definition radix_Insert :: "'v rnode \<Rightarrow> string \<Rightarrow> 'v \<Rightarrow> 'v rnode option" where
  "radix_Insert t path x = radix_insert t path x"

definition HasPrefix :: "string \<Rightarrow> string \<Rightarrow> bool" where
  "HasPrefix s p \<longleftrightarrow> take (length p) s = p"

function (sequential) radix_get :: "'v rnode \<Rightarrow> string \<Rightarrow> 'v option"
  and radix_find :: "'v rnode list \<Rightarrow> string \<Rightarrow> 'v option" where
  "radix_get (RNode p cs v t) path = (if path = [] then if t then v else None else radix_find cs path)"
| "radix_find [] path = None"
| "radix_find (child # cs) path =
     (if HasPrefix path (rpath child) then radix_get child (drop (length (rpath child)) path)
      else radix_find cs path)"
  by pat_completeness auto
termination
  by (relation "measure (\<lambda>a. case a of Inl (n, p) \<Rightarrow> size n | Inr (cs, p) \<Rightarrow> size_list size cs)") auto

definition radix_Get :: "'v rnode \<Rightarrow> string \<Rightarrow> 'v option" where
  "radix_Get t path = radix_get t path"

section \<open>Invariant\<close>

text \<open>Edges are not empty and siblings start with distinct bytes.\<close>

definition edges_ok :: "'v rnode list \<Rightarrow> bool" where
  "edges_ok cs \<longleftrightarrow> (\<forall>c \<in> set cs. rpath c \<noteq> []) \<and> distinct (map (hd \<circ> rpath) cs)"

fun radix_ok :: "'v rnode \<Rightarrow> bool" where
  "radix_ok (RNode p cs v t) \<longleftrightarrow> (t \<longrightarrow> v \<noteq> None) \<and> edges_ok cs \<and> list_all id (map radix_ok cs)"

lemma radix_ok_iff: "radix_ok (RNode p cs v t) \<longleftrightarrow> (t \<longrightarrow> v \<noteq> None) \<and> edges_ok cs \<and> (\<forall>c \<in> set cs. radix_ok c)"
  by (auto simp: list_all_iff)

declare radix_ok.simps [simp del]

lemma lcp_le: "lcp a b \<le> length a \<and> lcp a b \<le> length b"
  by (induction a b rule: lcp.induct) auto

lemma lcp_take: "take (lcp a b) a = take (lcp a b) b"
  by (induction a b rule: lcp.induct) auto

lemma lcp_max: "lcp a b < length a \<Longrightarrow> lcp a b < length b \<Longrightarrow> a ! lcp a b \<noteq> b ! lcp a b"
  by (induction a b rule: lcp.induct) auto

lemma lcp_full: "lcp a b = length a \<longleftrightarrow> HasPrefix b a"
  by (induction a b rule: lcp.induct) (auto simp: HasPrefix_def)

lemma HasPrefix_hd: "HasPrefix s p \<Longrightarrow> p \<noteq> [] \<Longrightarrow> s \<noteq> [] \<and> hd s = hd p"
  by (cases p; cases s) (auto simp: HasPrefix_def)

lemma HasPrefix_take: "HasPrefix s p \<Longrightarrow> HasPrefix s (take n p)"
  unfolding HasPrefix_def by (metis take_take length_take min.commute)

lemma HasPrefix_split: "n \<le> length p \<Longrightarrow> HasPrefix s p \<longleftrightarrow> HasPrefix s (take n p) \<and> HasPrefix (drop n s) (drop n p)"
proof -
  assume n: "n \<le> length p"
  have split: "take (length p) s = take n s @ take (length p - n) (drop n s)"
    using take_add [of n "length p - n" s] n by simp
  show ?thesis
  proof (cases "n \<le> length s")
    case True
    have "take (length p) s = p \<longleftrightarrow> take n s @ take (length p - n) (drop n s) = take n p @ drop n p"
      unfolding split by simp
    also have "\<dots> \<longleftrightarrow> take n s = take n p \<and> take (length p - n) (drop n s) = drop n p"
      using n True by (intro append_eq_append_conv) simp
    finally show ?thesis using n by (simp add: HasPrefix_def min_absorb2)
  next
    case False
    then have "length (take (length p) s) \<noteq> length p" "length (take n s) \<noteq> length (take n p)" using n by auto
    then show ?thesis using n unfolding HasPrefix_def by (metis length_take min.absorb2)
  qed
qed

lemma HasPrefix_eq: "HasPrefix s p \<Longrightarrow> HasPrefix q p \<Longrightarrow> s = q \<longleftrightarrow> drop (length p) s = drop (length p) q"
  unfolding HasPrefix_def by (metis append_take_drop_id)

lemma radix_find_other:
  "edges_ok cs \<Longrightarrow> \<forall>c \<in> set cs. hd (rpath c) \<noteq> hd path \<Longrightarrow> radix_find cs path = None"
  by (induction cs) (auto simp: edges_ok_def dest: HasPrefix_hd)

section \<open>Insert\<close>

definition upd_at :: "(string \<Rightarrow> 'v option) \<Rightarrow> string \<Rightarrow> 'v \<Rightarrow> string \<Rightarrow> 'v option" where
  "upd_at m path x q = (if q = path then Some x else m q)"

lemma split_edge_find:
  assumes c: "rpath c \<noteq> []" "path \<noteq> []" "hd (rpath c) = hd path" and n: "lcp (rpath c) path < length (rpath c)" and q: "q \<noteq> []"
    and cs: "\<forall>d \<in> set cs. hd (rpath d) \<noteq> hd (rpath c)" "edges_ok cs"
  shows "radix_find (split_edge c (lcp (rpath c) path) path x # cs) q = upd_at (radix_find (c # cs)) path x q"
proof -
  let ?n = "lcp (rpath c) path" and ?pre = "take (lcp (rpath c) path) (rpath c)"
  define tail where "tail = RNode (drop ?n (rpath c)) (rchildren c) (rvalue c) (rterm c)"
  have n0: "0 < ?n" using c by (cases "rpath c"; cases path) auto
  have len: "length ?pre = ?n" using n by simp
  have "HasPrefix path ?pre" unfolding HasPrefix_def len by (simp add: lcp_take)
  moreover have "?pre \<noteq> []" "hd ?pre = hd (rpath c)" using n n0 c(1) by auto
  ultimately have pre: "length ?pre = ?n" "HasPrefix path ?pre" "?pre \<noteq> []" "hd ?pre = hd (rpath c)"
    using len by auto
  have get_tail: "radix_get tail r = radix_get c r" and path_tail: "rpath tail = drop ?n (rpath c)" for r
    by (cases c; simp add: tail_def)+
  have split: "split_edge c ?n path x = (if ?n < length path
      then RNode ?pre [tail, RNode (drop ?n path) [] (Some x) True] (rvalue c) False
      else RNode ?pre [tail] (Some x) True)"
    by (simp add: split_edge_def tail_def)
  have edge: "HasPrefix q (rpath c) \<longleftrightarrow> HasPrefix q ?pre \<and> HasPrefix (drop ?n q) (drop ?n (rpath c))"
    using HasPrefix_split n by (metis less_imp_le)
  show ?thesis
  proof (cases "HasPrefix q ?pre")
    case False
    then have "q \<noteq> path" "\<not> HasPrefix q (rpath c)" using pre(2) edge by auto
    then show ?thesis using False by (simp add: split upd_at_def)
  next
    case True
    have "hd q = hd (rpath c)" using HasPrefix_hd [OF True pre(3)] pre(4) by simp
    then have others: "radix_find cs q = None" using radix_find_other [OF cs(2), of q] cs(1) by simp
    have qp: "q = path \<longleftrightarrow> drop ?n q = drop ?n path" using HasPrefix_eq [OF True pre(2)] pre(1) by simp
    have old: "radix_find (c # cs) q = (if HasPrefix (drop ?n q) (drop ?n (rpath c))
        then radix_get c (drop (length (rpath c)) q) else None)"
      using True edge others by simp
    have dd: "drop (length (drop ?n (rpath c))) (drop ?n q) = drop (length (rpath c)) q" using n by simp
    have ne: "drop ?n (rpath c) \<noteq> []" using n by simp
    show ?thesis
    proof (cases "?n < length path")
      case False
      then have p: "drop ?n path = []" by simp
      then show ?thesis
        using True False qp old pre(1) get_tail path_tail dd HasPrefix_hd [OF _ ne, of "drop ?n q"]
        by (auto simp: split upd_at_def simp del: drop_drop drop_eq_Nil)
    next
      case leaf: True
      have "rpath c ! ?n \<noteq> path ! ?n" using lcp_max [OF n leaf] .
      then have hds: "hd (drop ?n (rpath c)) \<noteq> hd (drop ?n path)" using n leaf by (simp add: hd_drop_conv_nth)
      have p: "drop ?n path \<noteq> []" using leaf by simp
      have "drop (length path - ?n) (drop ?n q) = [] \<Longrightarrow> take (length path - ?n) (drop ?n q) = drop ?n q" by simp
      then have "radix_get (split_edge c ?n path x) (drop ?n q) =
          (if HasPrefix (drop ?n q) (drop ?n (rpath c)) then radix_get c (drop (length (rpath c)) q)
           else if drop ?n q = drop ?n path then Some x else None)"
        using leaf p dd get_tail path_tail HasPrefix_hd [OF _ ne, of "drop ?n q"] hds
        by (auto simp: split HasPrefix_def [of _ "drop ?n path"] simp del: drop_drop drop_eq_Nil)
      moreover have "\<not> HasPrefix (drop ?n path) (drop ?n (rpath c))" using HasPrefix_hd [OF _ ne] hds by metis
      moreover have "rpath (split_edge c ?n path x) = ?pre" by (simp add: split)
      ultimately show ?thesis using True qp old pre(1) by (auto simp: upd_at_def)
    qed
  qed
qed

lemma split_edge_ok:
  assumes c: "rpath c \<noteq> []" "path \<noteq> []" "hd (rpath c) = hd path" and n: "lcp (rpath c) path < length (rpath c)"
    and ok: "radix_ok c"
  shows "radix_ok (split_edge c (lcp (rpath c) path) path x)" "rpath (split_edge c (lcp (rpath c) path) path x) \<noteq> []"
    and "hd (rpath (split_edge c (lcp (rpath c) path) path x)) = hd path"
proof -
  let ?n = "lcp (rpath c) path"
  have n0: "0 < ?n" using c by (cases "rpath c"; cases path) auto
  have "radix_ok (RNode (drop ?n (rpath c)) (rchildren c) (rvalue c) (rterm c))"
    using ok by (cases c) (simp add: radix_ok_iff)
  moreover have "hd (drop ?n (rpath c)) \<noteq> hd (drop ?n path)" if "?n < length path"
    using lcp_max [OF n that] n that by (simp add: hd_drop_conv_nth)
  ultimately show "radix_ok (split_edge c ?n path x)"
    using n by (auto simp: split_edge_def radix_ok_iff edges_ok_def Let_def)
  show "rpath (split_edge c ?n path x) \<noteq> []" "hd (rpath (split_edge c ?n path x)) = hd path"
    using n0 c n by (auto simp: split_edge_def Let_def)
qed

lemma radix_insert_spec:
  shows "radix_ok t \<Longrightarrow> \<exists>t'. radix_insert t path x = Some t' \<and> radix_ok t' \<and> rpath t' = rpath t \<and>
      radix_get t' = upd_at (radix_get t) path x"
    and "path \<noteq> [] \<Longrightarrow> edges_ok cs \<Longrightarrow> \<forall>c \<in> set cs. radix_ok c \<Longrightarrow>
      \<exists>cs'. radix_loop cs path x = Some cs' \<and> edges_ok cs' \<and> (\<forall>c \<in> set cs'. radix_ok c) \<and>
      set (map (hd \<circ> rpath) cs') = insert (hd path) (set (map (hd \<circ> rpath) cs)) \<and>
      (\<forall>q. q \<noteq> [] \<longrightarrow> radix_find cs' q = upd_at (radix_find cs) path x q)"
proof (induction t path x and cs path x rule: radix_insert_radix_loop.induct)
  case (1 p cs v t path x)
  show ?case
  proof (cases "path = []")
    case True
    then show ?thesis using "1.prems" by (auto simp: radix_ok_iff upd_at_def fun_eq_iff)
  next
    case False
    then obtain cs' where "radix_loop cs path x = Some cs'" "edges_ok cs'" "\<forall>c \<in> set cs'. radix_ok c"
        "\<forall>q. q \<noteq> [] \<longrightarrow> radix_find cs' q = upd_at (radix_find cs) path x q"
      using 1 by (auto simp: radix_ok_iff)
    then show ?thesis using False "1.prems" by (auto simp: radix_ok_iff upd_at_def fun_eq_iff)
  qed
next
  case (2 path x)
  have "radix_find [RNode path [] (Some x) True] q = upd_at (radix_find []) path x q" if "q \<noteq> []" for q
    using HasPrefix_eq [of q path path] by (auto simp: upd_at_def HasPrefix_def)
  then show ?case using 2 by (auto simp: edges_ok_def radix_ok_iff simp del: radix_find.simps)
next
  case (3 c cs path x)
  have c: "rpath c \<noteq> []" "radix_ok c" "edges_ok cs" "\<forall>d \<in> set cs. hd (rpath d) \<noteq> hd (rpath c)"
    using "3.prems" by (auto simp: edges_ok_def image_iff)
  let ?n = "lcp (rpath c) path"
  consider (other) "hd (rpath c) \<noteq> hd path" | (down) "hd (rpath c) = hd path" "?n = length (rpath c)"
    | (split) "hd (rpath c) = hd path" "?n < length (rpath c)" using lcp_le [of "rpath c" path] by linarith
  then show ?case
  proof cases
    case other
    then obtain cs' where "radix_loop cs path x = Some cs'" "edges_ok cs'" "\<forall>c \<in> set cs'. radix_ok c"
        "set (map (hd \<circ> rpath) cs') = insert (hd path) (set (map (hd \<circ> rpath) cs))"
        and f: "\<forall>q. q \<noteq> [] \<longrightarrow> radix_find cs' q = upd_at (radix_find cs) path x q"
      using "3.IH"(2) "3.prems" c by auto
    moreover have "radix_find (c # cs') q = upd_at (radix_find (c # cs)) path x q" if "q \<noteq> []" for q
      using f that HasPrefix_hd [of path "rpath c"] c(1) other by (auto simp: upd_at_def)
    ultimately show ?thesis using other c "3.prems"(1) by (auto simp: edges_ok_def simp del: radix_find.simps)
  next
    case down
    then obtain c' where c': "radix_insert c (drop ?n path) x = Some c'" "radix_ok c'" "rpath c' = rpath c"
        "radix_get c' = upd_at (radix_get c) (drop ?n path) x"
      using "3.IH"(1) "3.prems" c by auto
    have pre: "HasPrefix path (rpath c)" using down(2) lcp_full by blast
    have "radix_find (c' # cs) q = upd_at (radix_find (c # cs)) path x q" if "q \<noteq> []" for q
      using c'(3,4) HasPrefix_eq [OF _ pre, of q] pre down(2) by (auto simp: upd_at_def)
    then show ?thesis using c' down c "3.prems" by (auto simp: edges_ok_def simp del: radix_find.simps)
  next
    case split
    let ?s = "split_edge c ?n path x"
    note s = split_edge_ok [OF c(1) "3.prems"(1) split c(2), of x]
    have "radix_loop (c # cs) path x = Some (?s # cs)" using split c(1) "3.prems"(1) by (simp add: Let_def)
    moreover have "radix_find (?s # cs) q = upd_at (radix_find (c # cs)) path x q" if "q \<noteq> []" for q
      by (rule split_edge_find [OF c(1) "3.prems"(1) split that c(4,3)])
    ultimately show ?thesis using s split c "3.prems" by (auto simp: edges_ok_def simp del: radix_find.simps)
  qed
qed

interpretation radix_map: kv_map radix_New radix_Get radix_Insert radix_ok
proof
  fix t :: "'v rnode" and k v
  show "radix_ok (radix_New :: 'v rnode)" by (simp add: radix_New_def radix_ok_iff edges_ok_def)
  show "radix_Get (radix_New :: 'v rnode) k = None" by (simp add: radix_New_def radix_Get_def)
  assume "radix_ok t"
  then show "\<exists>s'. radix_Insert t k v = Some s' \<and> radix_ok s' \<and> radix_Get s' = (radix_Get t)(k \<mapsto> v)"
    using radix_insert_spec(1) [of t k v] by (auto simp: radix_Insert_def radix_Get_def upd_at_def fun_eq_iff)
qed

text \<open>The radix tree.  After any sequence of \<^verbatim>\<open>Insert\<close>s, through all edge splits, \<^verbatim>\<open>Get\<close> returns for
  every path exactly the value inserted last for it; no insert panics; and siblings always start
  with distinct bytes and have non-empty edges, so at most one child matches a path.\<close>

lemma radix_correct:
  "\<exists>t. run_puts radix_Insert kvs radix_New = Some t \<and> (\<forall>k. radix_Get t k = map_of (rev kvs) k) \<and> radix_ok t"
  using radix_map.puts_from_empty [of kvs] by auto

end
