(* ===== verification/Sharded_Map.thy ===== *)
theory Sharded_Map
  imports Kv_Map
begin

text \<open>
  \<^verbatim>\<open>pkg/datastructures/concurrentmap/map.go\<close>: the sharded map, with its 32-bit FNV-1a hash and its
  bit-mask shard selection.  A shard's Go map is an association list (its length is what \<^verbatim>\<open>len\<close>
  returns).  Each call holds the lock of the one shard it touches; \<^verbatim>\<open>Len\<close> is taken at rest.
\<close>

unbundle bit_operations_syntax

record 'v ShardedMap =
  shards :: "(bytes \<times> 'v) list list"
  shardCount :: "32 word"
  shardMask :: "32 word"

text \<open>The loop that rounds the shard count up to a power of two: for a count above \<open>2\<^sup>31\<close> the shifted
  word becomes 0 and the loop does not end.\<close>

partial_function (option) round_up :: "32 word \<Rightarrow> 32 word \<Rightarrow> 32 word option" where
  "round_up c n = (if n < c then round_up c (push_bit 1 n) else Some n)"

definition shard_New :: "int \<Rightarrow> 'v ShardedMap option" where
  "shard_New cnt =
     (let cnt = (if cnt \<le> 0 then 32 else cnt);
          c = word_of_int cnt
      in case (if c AND (c - 1) \<noteq> 0 then round_up c 1 else Some c) of
           None \<Rightarrow> None
         | Some n \<Rightarrow> Some \<lparr>shards = replicate (unat n) [], shardCount = n, shardMask = n - 1\<rparr>)"

definition fnv_step :: "32 word \<Rightarrow> 8 word \<Rightarrow> 32 word" where
  "fnv_step hash b = (hash XOR ucast b) * 16777619"

definition fnv32a :: "bytes \<Rightarrow> 32 word" where
  "fnv32a key = foldl fnv_step 2166136261 key"

definition getShard :: "'v ShardedMap \<Rightarrow> bytes \<Rightarrow> nat" where
  "getShard m key = unat (fnv32a key AND shardMask m)"

definition shard_Get :: "'v ShardedMap \<Rightarrow> bytes \<Rightarrow> 'v option" where
  "shard_Get m key =
     (let i = getShard m key in if i < length (shards m) then map_of (shards m ! i) key else None)"

text \<open>An index out of range would panic.\<close>

definition shard_Set :: "'v ShardedMap \<Rightarrow> bytes \<Rightarrow> 'v \<Rightarrow> 'v ShardedMap option" where
  "shard_Set m key v =
     (let i = getShard m key
      in if i < length (shards m)
         then Some (m\<lparr>shards := (shards m)[i := AList.update key v (shards m ! i)]\<rparr>) else None)"

definition shard_Delete :: "'v ShardedMap \<Rightarrow> bytes \<Rightarrow> 'v ShardedMap" where
  "shard_Delete m key =
     (let i = getShard m key
      in if i < length (shards m)
         then m\<lparr>shards := (shards m)[i := AList.delete key (shards m ! i)]\<rparr> else m)"

definition shard_Len :: "'v ShardedMap \<Rightarrow> nat" where
  "shard_Len m = foldl (\<lambda>n s. n + length s) 0 (shards m)"

section \<open>Invariant\<close>

definition shard_ok :: "'v ShardedMap \<Rightarrow> bool" where
  "shard_ok m \<longleftrightarrow> shardCount m \<noteq> 0 \<and> length (shards m) = unat (shardCount m) \<and> shardMask m = shardCount m - 1 \<and>
     (\<forall>i < length (shards m). distinct (map fst (shards m ! i)) \<and> (\<forall>k v. (k, v) \<in> set (shards m ! i) \<longrightarrow> getShard m k = i))"

lemma getShard_bound: "shard_ok m \<Longrightarrow> getShard m key < length (shards m)"
proof -
  assume ok: "shard_ok m"
  have "fnv32a key AND shardMask m \<le> shardMask m" by (rule word_and_le1)
  then have "getShard m key \<le> unat (shardMask m)" by (simp add: getShard_def word_le_nat_alt)
  also have "\<dots> = unat (shardCount m) - 1" using ok by (simp add: shard_ok_def unat_minus_one)
  finally have "getShard m key \<le> unat (shardCount m) - 1" .
  moreover have "0 < unat (shardCount m)" using ok by (simp add: shard_ok_def unat_gt_0)
  ultimately show ?thesis using ok by (simp add: shard_ok_def)
qed

lemma getShard_cong: "shardMask m' = shardMask m \<Longrightarrow> getShard m' = getShard m"
  by (auto simp: getShard_def fun_eq_iff)

lemma shard_home: "shard_ok m \<Longrightarrow> i < length (shards m) \<Longrightarrow> (k, v) \<in> set (shards m ! i) \<Longrightarrow> getShard m k = i"
  unfolding shard_ok_def by blast

lemma shard_ok_replace:
  assumes ok: "shard_ok m" and s: "distinct (map fst s)" "\<And>k v. (k, v) \<in> set s \<Longrightarrow> getShard m k = i"
  shows "shard_ok (m\<lparr>shards := (shards m)[i := s]\<rparr>)"
proof -
  have "getShard (m\<lparr>shards := (shards m)[i := s]\<rparr>) = getShard m" by (rule getShard_cong) simp
  moreover have "distinct (map fst ((shards m)[i := s] ! j)) \<and> (\<forall>k v. (k, v) \<in> set ((shards m)[i := s] ! j) \<longrightarrow> getShard m k = j)"
    if "j < length (shards m)" for j
    using that ok s unfolding shard_ok_def by (cases "j = i") auto
  ultimately show ?thesis using ok unfolding shard_ok_def by simp
qed

lemma shard_distinct: "shard_ok m \<Longrightarrow> i < length (shards m) \<Longrightarrow> distinct (map fst (shards m ! i))"
  unfolding shard_ok_def by blast

lemma shard_Set_ok:
  assumes ok: "shard_ok m"
  shows "\<exists>m'. shard_Set m k v = Some m' \<and> shard_ok m' \<and> shard_Get m' = (shard_Get m)(k \<mapsto> v)"
proof -
  let ?i = "getShard m k" and ?m = "m\<lparr>shards := (shards m)[getShard m k := AList.update k v (shards m ! getShard m k)]\<rparr>"
  note i = getShard_bound [OF ok, of k] and gs = getShard_cong [of ?m m]
  have "shard_ok ?m"
    using shard_distinct [OF ok i] shard_home [OF ok i]
    by (intro shard_ok_replace [OF ok] distinct_update) (auto simp: in_alist_update split: if_splits)
  moreover have "shard_Get ?m = (shard_Get m)(k \<mapsto> v)"
    using i gs by (auto simp: shard_Get_def nth_list_update update_conv' fun_eq_iff Let_def)
  ultimately show ?thesis using i by (simp add: shard_Set_def Let_def)
qed

lemma shard_Delete_ok:
  assumes ok: "shard_ok m"
  shows "shard_ok (shard_Delete m k) \<and> shard_Get (shard_Delete m k) = (shard_Get m)(k := None)"
proof -
  let ?i = "getShard m k" and ?m = "m\<lparr>shards := (shards m)[getShard m k := AList.delete k (shards m ! getShard m k)]\<rparr>"
  note i = getShard_bound [OF ok, of k] and gs = getShard_cong [of ?m m]
  have "shard_ok ?m"
    using shard_distinct [OF ok i] shard_home [OF ok i]
    by (intro shard_ok_replace [OF ok] distinct_delete) (auto simp: in_alist_delete)
  moreover have "shard_Get ?m = (shard_Get m)(k := None)"
    using i gs by (auto simp: shard_Get_def nth_list_update delete_conv' fun_eq_iff Let_def)
  ultimately show ?thesis using i by (simp add: shard_Delete_def Let_def)
qed

lemma shard_new_ok:
  assumes "n \<noteq> 0"
  shows "shard_ok \<lparr>shards = replicate (unat n) [], shardCount = n, shardMask = n - 1\<rparr>"
    and "shard_Get \<lparr>shards = replicate (unat n) [], shardCount = n, shardMask = n - 1\<rparr> k = None"
  using assms by (auto simp: shard_ok_def shard_Get_def Let_def)

definition default_shards :: "'v ShardedMap" where
  "default_shards = \<lparr>shards = replicate (unat (32 :: 32 word)) [], shardCount = 32, shardMask = 32 - 1\<rparr>"

lemma shard_New_default: "shard_New 0 = Some default_shards"
  by (simp add: shard_New_def default_shards_def Let_def)

interpretation shard_map: kv_map_del default_shards shard_Get shard_Set shard_ok shard_Delete
proof
  have n: "(32 :: 32 word) \<noteq> 0" by simp
  show "shard_ok (default_shards :: 'v ShardedMap)" unfolding default_shards_def by (rule shard_new_ok(1) [OF n])
  show "shard_Get (default_shards :: 'v ShardedMap) k = None" for k unfolding default_shards_def by (rule shard_new_ok(2) [OF n])
qed (rule shard_Set_ok shard_Delete_ok; assumption)+

section \<open>The shard count\<close>

lemma unat_pow2: "k < 32 \<Longrightarrow> unat (2 ^ k :: 32 word) = 2 ^ k"
proof -
  assume "k < 32"
  then have "(2 :: nat) ^ k < 2 ^ 32" by (intro power_strict_increasing) auto
  then have "unat (of_nat (2 ^ k) :: 32 word) = 2 ^ k" by (simp only: unat_of_nat take_bit_eq_mod len_of_numeral_defs) simp
  then show ?thesis by simp
qed

lemma round_up_power:
  "k \<le> 31 \<Longrightarrow> unat c \<le> 2 ^ 31 \<Longrightarrow> \<exists>j. j \<le> 31 \<and> round_up c (2 ^ k) = Some (2 ^ j) \<and> unat c \<le> 2 ^ j"
proof (induction "31 - k" arbitrary: k)
  case 0
  then have k: "k = 31" by simp
  have "unat (2 ^ 31 :: 32 word) = 2 ^ 31" by simp
  then have "\<not> 2 ^ k < c" using 0 k by (simp add: word_less_nat_alt)
  then show ?case using k 0 by (subst round_up.simps) auto
next
  case (Suc d)
  have u: "unat (2 ^ k :: 32 word) = 2 ^ k" using Suc.prems by (intro unat_pow2) simp
  show ?case
  proof (cases "2 ^ k < c")
    case True
    have "push_bit 1 (2 ^ k :: 32 word) = 2 ^ Suc k" by (simp add: push_bit_eq_mult mult.commute)
    then have "round_up c (2 ^ k) = round_up c (2 ^ Suc k)" using True by (subst round_up.simps) (simp_all add: mult.commute)
    moreover have "d = 31 - Suc k" "Suc k \<le> 31" using Suc by auto
    ultimately show ?thesis using Suc.hyps(1) [of "Suc k"] Suc.prems by auto
  next
    case False
    then have "unat c \<le> 2 ^ k" using u by (simp add: word_less_nat_alt)
    then show ?thesis using False Suc.prems by (subst round_up.simps) auto
  qed
qed

text \<open>The test \<open>c AND (c - 1) = 0\<close> recognises the powers of two.\<close>

lemma power_of_two_test:
  fixes c :: "32 word"
  assumes "c \<noteq> 0" "c AND (c - 1) = 0"
  shows "\<exists>j < 32. c = 2 ^ j"
proof -
  have "1 \<le> unat c" using assms(1) unat_gt_0 [of c] by simp
  then obtain j where j: "2 ^ j \<le> unat c" "unat c < 2 ^ (j + 1)" using ex_power_ivl1 [of 2 "unat c"] by auto
  have "unat c < 2 ^ 32" by (rule order_less_le_trans [OF unsigned_less]) simp
  then have "(2 :: nat) ^ j < 2 ^ 32" using j(1) by linarith
  then have j32: "j < 32" by (rule power_less_imp_less_exp [rotated]) simp
  have "unat c = 2 ^ j"
  proof (rule ccontr)
    assume "unat c \<noteq> 2 ^ j"
    then have "2 ^ j \<le> unat (c - 1)" "unat (c - 1) < 2 ^ (j + 1)"
      using j assms(1) by (auto simp: unat_minus_one)
    then have "unat c div 2 ^ j = 1" "unat (c - 1) div 2 ^ j = 1" using j
      by (auto intro!: div_nat_eqI)
    then have "bit (unat c) j" "bit (unat (c - 1)) j" by (simp_all add: bit_iff_odd)
    then have "bit (c AND (c - 1)) j" by (simp add: bit_unsigned_iff bit_and_iff)
    then show False using assms(2) by simp
  qed
  then have "c = 2 ^ j" using unat_pow2 [OF j32] by (metis word_unat_eq_iff)
  then show ?thesis using j32 by blast
qed

lemma shard_count_power:
  assumes "0 < unat c" "unat c \<le> 2 ^ 31"
  shows "\<exists>j \<le> 31. (if c AND (c - 1) \<noteq> 0 then round_up c 1 else Some c) = Some (2 ^ j) \<and> unat c \<le> 2 ^ j"
proof (cases "c AND (c - 1) = 0")
  case True
  then obtain j where "j < 32" "c = 2 ^ j" using power_of_two_test [of c] assms(1) unat_gt_0 by blast
  then show ?thesis using True unat_pow2 [of j] by (intro exI [of _ j]) auto
next
  case False
  then show ?thesis using round_up_power [of 0 c] assms(2) by auto
qed

lemma shard_Len_card:
  assumes ok: "shard_ok m"
  shows "shard_Len m = card (dom (shard_Get m))"
proof -
  let ?S = "shards m" and ?n = "length (shards m)"
  have fold: "foldl (\<lambda>n s. n + length s) a ss = a + sum_list (map length ss)" for a and ss :: "(bytes \<times> 'a) list list"
    by (induction ss arbitrary: a) auto
  have dom: "dom (shard_Get m) = (\<Union>i \<in> {..<?n}. fst ` set (?S ! i))"
  proof (intro equalityI subsetI)
    fix k assume "k \<in> dom (shard_Get m)"
    then show "k \<in> (\<Union>i \<in> {..<?n}. fst ` set (?S ! i))"
      using getShard_bound [OF ok, of k] by (force simp: shard_Get_def Let_def dest: map_of_SomeD)
  next
    fix k assume "k \<in> (\<Union>i \<in> {..<?n}. fst ` set (?S ! i))"
    then obtain i where i: "i < ?n" "k \<in> fst ` set (?S ! i)" by blast
    then have "getShard m k = i" using shard_home [OF ok i(1)] by auto
    then show "k \<in> dom (shard_Get m)" using i by (simp add: shard_Get_def Let_def dom_def map_of_eq_None_iff [symmetric])
        (metis map_of_eq_None_iff not_None_eq)
  qed
  have "card (dom (shard_Get m)) = (\<Sum>i < ?n. card (fst ` set (?S ! i)))"
    unfolding dom using shard_home [OF ok] by (intro card_UN_disjoint) (auto, blast)
  also have "\<dots> = (\<Sum>i < ?n. length (?S ! i))"
    using shard_distinct [OF ok] by (intro sum.cong refl) (metis distinct_card length_map lessThan_iff list.set_map)
  also have "\<dots> = sum_list (map length ?S)" by (simp add: sum_list_sum_nth atLeast0LessThan)
  finally show ?thesis using fold by (simp add: shard_Len_def)
qed

text \<open>The sharded map.  For every requested shard count up to \<open>2\<^sup>31\<close> the map is created with a power of two of shards, at least as many as
  requested; the masked hash never indexes a shard that does not exist; and after any sequence of \<^verbatim>\<open>Set\<close>s and
  \<^verbatim>\<open>Delete\<close>s the shards together hold exactly the map these describe, with \<^verbatim>\<open>Len\<close> its number of
  keys.\<close>

lemma shard_correct:
  assumes "cnt \<le> 2 ^ 31"
  shows "\<exists>m0 m j. shard_New cnt = Some m0 \<and> shardCount m0 = 2 ^ j \<and> j \<le> 31 \<and> cnt \<le> 2 ^ j \<and>
    run_ops shard_Set shard_Delete ops m0 = Some m \<and> shard_Get m = map_ops ops Map.empty \<and>
    shard_Len m = card (dom (map_ops ops Map.empty :: bytes \<rightharpoonup> 'v)) \<and> (\<forall>k. getShard m k < length (shards m))"
proof -
  define d where "d = (if cnt \<le> 0 then 32 else cnt)"
  define c where "c = (word_of_int d :: 32 word)"
  have d: "0 < d" "d \<le> 2 ^ 31" "cnt \<le> d" using assms by (auto simp: d_def)
  then have u: "int (unat c) = d" by (simp add: c_def uint_nat [symmetric] uint_word_of_int)
  have "int (unat c) \<le> int (2 ^ 31)" using u d(2) by simp
  then have c: "0 < unat c" "unat c \<le> 2 ^ 31" using u d(1) by (linarith, simp only: of_nat_le_iff)
  then obtain j where j: "j \<le> 31" "(if c AND (c - 1) \<noteq> 0 then round_up c 1 else Some c) = Some (2 ^ j)" "unat c \<le> 2 ^ j"
    using shard_count_power by blast
  let ?m = "\<lparr>shards = replicate (unat (2 ^ j :: 32 word)) [], shardCount = 2 ^ j, shardMask = 2 ^ j - 1\<rparr> :: 'v ShardedMap"
  have new: "shard_New cnt = Some ?m"
    using j(2) unfolding shard_New_def Let_def d_def [symmetric] c_def [symmetric] by (simp split: option.splits)
  have "unat (2 ^ j :: 32 word) = 2 ^ j" using j(1) by (intro unat_pow2) simp
  then have "unat (2 ^ j :: 32 word) \<noteq> 0" by simp
  then have "(2 ^ j :: 32 word) \<noteq> 0" by (metis unsigned_0)
  note ok = shard_new_ok [OF this]
  have empty: "shard_Get ?m = Map.empty" by (rule ext) (rule ok(2))
  obtain m where m: "run_ops shard_Set shard_Delete ops ?m = Some m" "shard_ok m" "shard_Get m = map_ops ops Map.empty"
    using shard_map.run_ops_law [OF ok(1), of ops] unfolding empty by blast
  have "cnt \<le> 2 ^ j" using d(3) u j(3) by (metis of_nat_le_iff of_nat_numeral of_nat_power order.trans)
  then show ?thesis using new m j(1) shard_Len_card [OF m(2)] getShard_bound [OF m(2)]
    by (intro exI [of _ ?m] exI [of _ m] exI [of _ j]) simp
qed

end
