(* ===== verification/Min_Heap.thy ===== *)
theory Min_Heap
  imports Heap_Order
begin

text \<open>
  \<^verbatim>\<open>pkg/datastructures/heap/heap.go\<close>, the array min-heap, and the priority-queue interface that its
  clients (\<^verbatim>\<open>dijkstra\<close>, \<^verbatim>\<open>prim\<close>, \<^verbatim>\<open>astar\<close>, the delay queue) rely on.  A score is a float64 in
  the source; it is used through its order only and is any linearly ordered type here (a NaN has
  no place in it).
\<close>

section \<open>Priority queues\<close>

fun pq_drain :: "('q \<Rightarrow> ('q \<times> 'v \<times> 'k) option) \<Rightarrow> nat \<Rightarrow> 'q \<Rightarrow> ('v \<times> 'k) list" where
  "pq_drain pop 0 q = []"
| "pq_drain pop (Suc n) q = (case pop q of None \<Rightarrow> [] | Some (q, v, k) \<Rightarrow> (v, k) # pq_drain pop n q)"

fun pq_pushes :: "('q \<Rightarrow> 'v \<Rightarrow> 'k \<Rightarrow> 'q) \<Rightarrow> ('v \<times> 'k) list \<Rightarrow> 'q \<Rightarrow> 'q" where
  "pq_pushes push [] q = q"
| "pq_pushes push ((v, k) # vks) q = pq_pushes push vks (push q v k)"

locale priority_queue =
  fixes empty :: 'q
    and push :: "'q \<Rightarrow> 'v \<Rightarrow> 'k::linorder \<Rightarrow> 'q"
    and pop :: "'q \<Rightarrow> ('q \<times> 'v \<times> 'k) option"
    and content :: "'q \<Rightarrow> ('v \<times> 'k) multiset"
    and inv :: "'q \<Rightarrow> bool"
  assumes inv_empty: "inv empty" and content_empty: "content empty = {#}"
    and push_law: "inv q \<Longrightarrow> inv (push q v k) \<and> content (push q v k) = add_mset (v, k) (content q)"
    and pop_none: "inv q \<Longrightarrow> pop q = None \<longleftrightarrow> content q = {#}"
    and pop_law: "inv q \<Longrightarrow> pop q = Some (q', v, k) \<Longrightarrow>
      inv q' \<and> content q = add_mset (v, k) (content q') \<and> (\<forall>(w, l) \<in># content q. k \<le> l)"
begin

lemma pushes_law: "inv q \<Longrightarrow> inv (pq_pushes push vks q) \<and> content (pq_pushes push vks q) = mset vks + content q"
proof (induction vks arbitrary: q)
  case (Cons vk vks)
  then show ?case using push_law [OF Cons.prems] by (cases vk) auto
qed simp

lemma drain_law:
  "inv q \<Longrightarrow> size (content q) \<le> n \<Longrightarrow> mset (pq_drain pop n q) = content q \<and> sorted (map snd (pq_drain pop n q))"
proof (induction n arbitrary: q)
  case (Suc n)
  show ?case
  proof (cases "pop q")
    case None
    then show ?thesis using pop_none [OF Suc.prems(1)] by simp
  next
    case (Some r)
    obtain q' v k where r: "r = (q', v, k)" by (metis prod_cases3)
    note law = pop_law [OF Suc.prems(1) Some [unfolded r]]
    then have ih: "mset (pq_drain pop n q') = content q'" "sorted (map snd (pq_drain pop n q'))"
      using Suc by auto
    have "\<forall>x \<in> set (pq_drain pop n q'). k \<le> snd x"
      using law ih(1) by (metis (mono_tags, lifting) case_prod_beta insert_iff set_mset_add_mset_insert set_mset_mset)
    then show ?thesis using Some r ih law by auto
  qed
qed simp

lemma heap_sorts:
  assumes "length vks \<le> n"
  shows "mset (pq_drain pop n (pq_pushes push vks empty)) = mset vks \<and>
    sorted (map snd (pq_drain pop n (pq_pushes push vks empty)))"
  using pushes_law [OF inv_empty, of vks] drain_law [of "pq_pushes push vks empty" n] assms
  by (simp add: content_empty)

end

section \<open>The array heap\<close>

record ('v, 'k) Item =
  Value :: 'v
  Score :: 'k
  Index :: nat

type_synonym ('v, 'k) MinHeap = "('v, 'k) Item list"

definition NewMinHeap :: "('v, 'k) MinHeap" where
  "NewMinHeap = []"

definition heap_Len :: "('v, 'k) MinHeap \<Rightarrow> nat" where
  "heap_Len h = length h"

definition heap_Less :: "('v, 'k::linorder) MinHeap \<Rightarrow> nat \<Rightarrow> nat \<Rightarrow> bool" where
  "heap_Less h i j \<longleftrightarrow> Score (h ! i) < Score (h ! j)"

definition heap_Swap :: "('v, 'k) MinHeap \<Rightarrow> nat \<Rightarrow> nat \<Rightarrow> ('v, 'k) MinHeap" where
  "heap_Swap h i j =
     (let h = swap h i j; h = h[i := (h ! i)\<lparr>Index := i\<rparr>] in h[j := (h ! j)\<lparr>Index := j\<rparr>])"

definition heap_Push :: "('v, 'k) MinHeap \<Rightarrow> ('v, 'k) Item \<Rightarrow> ('v, 'k) MinHeap" where
  "heap_Push h item = h @ [item\<lparr>Index := length h\<rparr>]"

definition heap_Pop :: "('v, 'k) MinHeap \<Rightarrow> (('v, 'k) MinHeap \<times> ('v, 'k) Item) option" where
  "heap_Pop h = (if h = [] then None else Some (take (length h - 1) h, h ! (length h - 1)))"

function heap_up :: "('v, 'k::linorder) MinHeap \<Rightarrow> nat \<Rightarrow> ('v, 'k) MinHeap" where
  "heap_up h j =
     (let i = (j - 1) div 2
      in if i = j \<or> \<not> Score (h ! j) < Score (h ! i) then h else heap_up (heap_Swap h j i) i)"
  by pat_completeness auto
termination
  by (relation "measure snd") auto

declare heap_up.simps [simp del]

function heap_down :: "('v, 'k::linorder) MinHeap \<Rightarrow> nat \<Rightarrow> nat \<Rightarrow> ('v, 'k) MinHeap \<times> nat" where
  "heap_down h i n =
     (let j1 = 2 * i + 1
      in if j1 \<ge> n then (h, i)
         else let j2 = j1 + 1; j = (if j2 < n \<and> Score (h ! j2) < Score (h ! j1) then j2 else j1)
              in if \<not> Score (h ! j) < Score (h ! i) then (h, i)
                 else heap_down (heap_Swap h i j) j n)"
  by pat_completeness auto
termination
  by (relation "measure (\<lambda>(h, i, n). n - i)") (auto split: if_splits)

declare heap_down.simps [simp del]

text \<open>\<^verbatim>\<open>down(i0, n)\<close> also reports whether it moved anything: whether the final index exceeds \<open>i0\<close>.\<close>

definition heap_moved :: "('v, 'k::linorder) MinHeap \<Rightarrow> nat \<Rightarrow> nat \<Rightarrow> bool" where
  "heap_moved h i0 n \<longleftrightarrow> snd (heap_down h i0 n) > i0"

definition PushItem :: "('v, 'k::linorder) MinHeap \<Rightarrow> 'v \<Rightarrow> 'k \<Rightarrow> ('v, 'k) MinHeap" where
  "PushItem h v score =
     (let n = length h in heap_up (h @ [\<lparr>Value = v, Score = score, Index = n\<rparr>]) n)"

definition PopItem :: "('v, 'k::linorder) MinHeap \<Rightarrow> (('v, 'k) MinHeap \<times> 'v \<times> 'k) option" where
  "PopItem h =
     (let n = length h
      in if n = 0 then None
         else let h = fst (heap_down (heap_Swap h 0 (n - 1)) 0 (n - 1)); item = h ! (n - 1)
              in Some (take (n - 1) h, Value item, Score item))"

definition heap_Peek :: "('v, 'k) MinHeap \<Rightarrow> ('v \<times> 'k) option" where
  "heap_Peek h = (if length h = 0 then None else Some (Value (h ! 0), Score (h ! 0)))"

section \<open>Content and order\<close>

definition item_pair :: "('v, 'k) Item \<Rightarrow> 'v \<times> 'k" where
  "item_pair x = (Value x, Score x)"

definition pairs :: "('v, 'k) MinHeap \<Rightarrow> ('v \<times> 'k) list" where
  "pairs h = map item_pair h"

lemma pairs_Swap:
  assumes "i < length h" "j < length h"
  shows "pairs (heap_Swap h i j) = swap (pairs h) i j" "length (heap_Swap h i j) = length h"
    and "(\<And>k. k < length h \<Longrightarrow> Index (h ! k) = k) \<Longrightarrow> k < length h \<Longrightarrow> Index (heap_Swap h i j ! k) = k"
proof -
  show len: "length (heap_Swap h i j) = length h" by (simp add: heap_Swap_def Let_def)
  show "pairs (heap_Swap h i j) = swap (pairs h) i j"
    using assms len by (intro nth_equalityI)
      (auto simp: pairs_def heap_Swap_def item_pair_def Let_def nth_list_update nth_swap)
  show "(\<And>k. k < length h \<Longrightarrow> Index (h ! k) = k) \<Longrightarrow> k < length h \<Longrightarrow> Index (heap_Swap h i j ! k) = k"
    using assms by (auto simp: heap_Swap_def Let_def nth_list_update nth_swap)
qed

interpretation min_heap: heap_order "\<lambda>x y :: 'v \<times> 'k::linorder. snd x \<le> snd y"
  by unfold_locales auto

definition heap_ok :: "('v, 'k::linorder) MinHeap \<Rightarrow> bool" where
  "heap_ok h \<longleftrightarrow> min_heap.heap_from (pairs h) (length h) 0 \<and> (\<forall>k < length h. Index (h ! k) = k)"

lemma pairs_length [simp]: "length (pairs h) = length h"
  by (simp add: pairs_def)

lemma Score_pairs: "i < length h \<Longrightarrow> Score (h ! i) = snd (pairs h ! i)"
  by (simp add: pairs_def item_pair_def)

definition indexed :: "('v, 'k) MinHeap \<Rightarrow> bool" where
  "indexed h \<longleftrightarrow> (\<forall>k < length h. Index (h ! k) = k)"

lemma indexed_Swap: "indexed h \<Longrightarrow> i < length h \<Longrightarrow> j < length h \<Longrightarrow> indexed (heap_Swap h i j)"
  using pairs_Swap(2,3) [of i h j] by (auto simp: indexed_def)

lemma heap_up_correct:
  "j < length h \<Longrightarrow> indexed h \<Longrightarrow> min_heap.up_hole (pairs h) (length h) j \<Longrightarrow>
   length (heap_up h j) = length h \<and> mset (pairs (heap_up h j)) = mset (pairs h) \<and> indexed (heap_up h j) \<and>
   min_heap.heap_from (pairs (heap_up h j)) (length h) 0"
proof (induction j arbitrary: h rule: less_induct)
  case (less j)
  let ?i = "(j - 1) div 2"
  show ?case
  proof (cases "?i = j \<or> \<not> Score (h ! j) < Score (h ! ?i)")
    case True
    have "snd (pairs h ! p) \<le> snd (pairs h ! j)" if "heap_child p j" for p
    proof -
      have "p = ?i" "p < j" using that heap_child_parent heap_child_gt by auto
      then show ?thesis using True less.prems(1) Score_pairs [of j h] Score_pairs [of p h] by auto
    qed
    then have "min_heap.heap_from (pairs h) (length h) 0"
      using min_heap.up_hole_stop [OF less.prems(3)] by blast
    moreover have "heap_up h j = h" using True by (subst heap_up.simps) (auto simp: Let_def)
    ultimately show ?thesis using less.prems by simp
  next
    case False
    then have c: "heap_child ?i j" "?i < j" by (auto simp: heap_child_parent)
    then have i: "?i < length h" using less.prems(1) by simp
    note sw = pairs_Swap(1,2) [OF less.prems(1) i]
    have "min_heap.up_hole (swap (pairs h) j ?i) (length h) ?i"
      using False Score_pairs [of j h] Score_pairs [OF i] less.prems
      by (intro min_heap.up_hole_step [OF less.prems(3) c(1)]) auto
    then have "length (heap_up (heap_Swap h j ?i) ?i) = length h \<and>
        mset (pairs (heap_up (heap_Swap h j ?i) ?i)) = mset (pairs h) \<and> indexed (heap_up (heap_Swap h j ?i) ?i) \<and>
        min_heap.heap_from (pairs (heap_up (heap_Swap h j ?i) ?i)) (length h) 0"
      using less.IH [OF c(2), of "heap_Swap h j ?i"] i sw less.prems(1) indexed_Swap [OF less.prems(2,1) i] by simp
    moreover have "heap_up h j = heap_up (heap_Swap h j ?i) ?i" using False by (subst heap_up.simps) (simp add: Let_def)
    ultimately show ?thesis by simp
  qed
qed

text \<open>One round of the sift-down loop.\<close>

lemma heap_down_cases:
  fixes h :: "('v, 'k::linorder) MinHeap"
  assumes n: "n \<le> length h"
  obtains (stop) "heap_down h i n = (h, i)" "\<And>c. heap_child i c \<Longrightarrow> c < n \<Longrightarrow> snd (pairs h ! i) \<le> snd (pairs h ! c)"
  | (step) j where "heap_down h i n = heap_down (heap_Swap h i j) j n" "heap_child i j" "j < n" "i < j"
      "snd (pairs h ! j) \<le> snd (pairs h ! i)" "\<And>d. heap_child i d \<Longrightarrow> d < n \<Longrightarrow> snd (pairs h ! j) \<le> snd (pairs h ! d)"
proof -
  let ?j1 = "2 * i + 1"
  let ?j = "if ?j1 + 1 < n \<and> Score (h ! (?j1 + 1)) < Score (h ! ?j1) then ?j1 + 1 else ?j1"
  have eq: "heap_down h i n = (if ?j1 \<ge> n \<or> \<not> Score (h ! ?j) < Score (h ! i) then (h, i) else heap_down (heap_Swap h i ?j) ?j n)"
    by (subst heap_down.simps) (simp add: Let_def)
  have sc: "Score (h ! k) = snd (pairs h ! k)" if "k < n" for k using that n by (intro Score_pairs) simp
  show thesis
  proof (cases "?j1 \<ge> n \<or> \<not> Score (h ! ?j) < Score (h ! i)")
    case True
    then show thesis using eq sc
      by (intro stop) (auto simp: heap_child_def not_less split: if_splits)
  next
    case False
    then show thesis using eq sc
      by (intro step [of ?j]) (auto simp: heap_child_def split: if_splits)
  qed
qed

lemma heap_down_correct:
  "n \<le> length h \<Longrightarrow> indexed h \<Longrightarrow> i < n \<or> n = 0 \<Longrightarrow> min_heap.down_hole (pairs h) n 0 i \<Longrightarrow>
   length (fst (heap_down h i n)) = length h \<and> mset (pairs (fst (heap_down h i n))) = mset (pairs h) \<and>
   indexed (fst (heap_down h i n)) \<and> min_heap.heap_from (pairs (fst (heap_down h i n))) n 0 \<and>
   (\<forall>k \<ge> n. k < length h \<longrightarrow> fst (heap_down h i n) ! k = h ! k)"
proof (induction "n - i" arbitrary: h i rule: less_induct)
  case less
  show ?case
  proof (cases rule: heap_down_cases [OF less.prems(1), of i, case_names stop step])
    case stop
    then show ?thesis using less.prems min_heap.down_hole_stop by fastforce
  next
    case (step j)
    then have ij: "i < length h" "j < length h" using less.prems(1) by auto
    note sw = pairs_Swap(1,2) [OF ij]
    have "min_heap.down_hole (pairs (heap_Swap h i j)) n 0 j"
      unfolding sw using step less.prems by (intro min_heap.down_hole_step) auto
    moreover have "heap_Swap h i j ! k = h ! k" if "n \<le> k" "k < length h" for k
      using that step by (auto simp: heap_Swap_def swap_def Let_def)
    ultimately show ?thesis
      using less.hyps [of j "heap_Swap h i j"] step sw less.prems indexed_Swap [OF less.prems(2) ij] ij by simp
  qed
qed

lemma PushItem_correct:
  assumes "heap_ok h"
  shows "heap_ok (PushItem h v k) \<and> mset (pairs (PushItem h v k)) = add_mset (v, k) (mset (pairs h))"
proof -
  let ?x = "\<lparr>Value = v, Score = k, Index = length h\<rparr>"
  have p: "pairs (h @ [?x]) = pairs h @ [(v, k)]" by (simp add: pairs_def item_pair_def)
  have "min_heap.up_hole (pairs (h @ [?x])) (length (h @ [?x])) (length h)"
    using assms unfolding p heap_ok_def min_heap.heap_from_def min_heap.up_hole_def
    by (auto simp: nth_append less_Suc_eq heap_child_def)
  moreover have "indexed (h @ [?x])" using assms by (auto simp: heap_ok_def indexed_def nth_append less_Suc_eq)
  ultimately show ?thesis
    using heap_up_correct [of "length h" "h @ [?x]"] p by (simp add: PushItem_def heap_ok_def indexed_def Let_def)
qed

lemma PopItem_correct:
  assumes h: "heap_ok h" and pop: "PopItem h = Some (h', v, k)"
  shows "heap_ok h' \<and> mset (pairs h) = add_mset (v, k) (mset (pairs h')) \<and> (\<forall>(w, l) \<in># mset (pairs h). k \<le> l)"
proof -
  let ?n = "length h"
  have n: "0 < ?n" using pop by (auto simp: PopItem_def Let_def split: if_splits)
  let ?s = "heap_Swap h 0 (?n - 1)"
  have idx: "0 < length h" "?n - 1 < length h" using n by auto
  note sw = pairs_Swap(1,2) [OF idx]
  define d where "d = fst (heap_down ?s 0 (?n - 1))"
  have ok: "min_heap.heap_from (pairs h) ?n 0" "indexed h" using h by (auto simp: heap_ok_def indexed_def)
  have "min_heap.heap_from (pairs h) (?n - 1) (Suc 0)"
    using min_heap.heap_from_mono [OF min_heap.heap_from_shrink [OF ok(1)]] by auto
  then have "min_heap.heap_from (swap (pairs h) 0 (?n - 1)) (?n - 1) (Suc 0)"
    using idx by (auto simp: min_heap.heap_from_def nth_swap heap_child_def)
  then have hole: "min_heap.down_hole (pairs ?s) (?n - 1) 0 0"
    using min_heap.heap_from_down_hole sw by simp
  have D: "length d = ?n" "mset (pairs d) = mset (pairs h)" "indexed d" "min_heap.heap_from (pairs d) (?n - 1) 0"
      "d ! (?n - 1) = ?s ! (?n - 1)"
  proof -
    have "?n - 1 \<le> length ?s" "0 < ?n - 1 \<or> ?n - 1 = 0" using sw(2) by auto
    note H = heap_down_correct [OF this(1) indexed_Swap [OF ok(2) idx] this(2) hole]
    have "mset (pairs ?s) = mset (pairs h)" unfolding sw(1) using idx by (intro mset_swap_eq) auto
    then show "length d = ?n" "mset (pairs d) = mset (pairs h)" "indexed d" "min_heap.heap_from (pairs d) (?n - 1) 0"
        "d ! (?n - 1) = ?s ! (?n - 1)"
      using H sw(2) idx unfolding d_def by auto
  qed
  have r: "h' = take (?n - 1) d" "(v, k) = item_pair (d ! (?n - 1))"
    using pop n by (auto simp: PopItem_def Let_def d_def item_pair_def)
  have vk: "(v, k) = pairs h ! 0"
  proof -
    have "(v, k) = pairs ?s ! (?n - 1)" using r(2) D(5) idx sw(2) by (simp add: pairs_def)
    then show ?thesis using idx unfolding sw(1) by (simp add: nth_swap)
  qed
  have "take (Suc (?n - 1)) d = take (?n - 1) d @ [d ! (?n - 1)]" using D(1) n by (intro take_Suc_conv_app_nth) simp
  moreover have "take (Suc (?n - 1)) d = d" using D(1) by simp
  ultimately have "pairs d = map item_pair (h' @ [d ! (?n - 1)])" unfolding r(1) pairs_def by (intro arg_cong [of _ _ "map item_pair"]) (rule trans [OF sym])
  then have "pairs d = pairs h' @ [(v, k)]" using r(2) by (simp add: pairs_def)
  then have "mset (pairs h) = add_mset (v, k) (mset (pairs h'))" using D(2) by simp
  moreover have "k \<le> l" if "(w, l) \<in># mset (pairs h)" for w l
  proof -
    obtain i where i: "i < ?n" "pairs h ! i = (w, l)" using \<open>(w, l) \<in># _\<close> by (auto simp: in_set_conv_nth)
    have "snd (pairs h ! 0) \<le> snd (pairs h ! i)" by (rule min_heap.heap_root_least [OF ok(1) i(1)])
    then show ?thesis using i vk by (metis snd_conv)
  qed
  moreover have "min_heap.heap_from (pairs h') (?n - 1) 0"
    using min_heap.heap_from_cong [of "?n - 1" "pairs d" "pairs h'" 0] D(1,4) r(1) by (simp add: pairs_def)
  then have "heap_ok h'" using D(1,3) r(1) n by (simp add: heap_ok_def indexed_def)
  ultimately show ?thesis by auto
qed

interpretation heap_pq: priority_queue NewMinHeap PushItem PopItem "mset \<circ> pairs" heap_ok
proof
  fix h h' :: "('v, 'k::linorder) MinHeap" and v k
  show "heap_ok (NewMinHeap :: ('v, 'k) MinHeap)" by (simp add: NewMinHeap_def heap_ok_def pairs_def min_heap.heap_from_def)
  show "(mset \<circ> pairs) (NewMinHeap :: ('v, 'k) MinHeap) = {#}" by (simp add: NewMinHeap_def pairs_def)
  assume h: "heap_ok h"
  then show "heap_ok (PushItem h v k) \<and> (mset \<circ> pairs) (PushItem h v k) = add_mset (v, k) ((mset \<circ> pairs) h)"
    using PushItem_correct [OF h, of v k] by simp
  show "PopItem h = None \<longleftrightarrow> (mset \<circ> pairs) h = {#}" by (auto simp: PopItem_def pairs_def Let_def)
  assume pop: "PopItem h = Some (h', v, k)"
  show "heap_ok h' \<and> (mset \<circ> pairs) h = add_mset (v, k) ((mset \<circ> pairs) h') \<and>
      (\<forall>(w, l) \<in># (mset \<circ> pairs) h. k \<le> l)"
    unfolding comp_apply by (rule PopItem_correct [OF h pop])
qed

text \<open>C24: the min-heap is a priority queue.  Pushing any items and popping until the heap is empty
  returns exactly the pushed items, in ascending order of their scores; and every push and pop keeps the heap order and the
  item's index field equal to its position.\<close>

theorem heap_correct:
  "mset (pq_drain PopItem (length vks) (pq_pushes PushItem vks NewMinHeap)) = mset vks \<and>
   sorted (map snd (pq_drain PopItem (length vks) (pq_pushes PushItem vks NewMinHeap))) \<and>
   heap_ok (pq_pushes PushItem vks NewMinHeap)"
  using heap_pq.heap_sorts [of vks "length vks"] heap_pq.pushes_law [OF heap_pq.inv_empty, of vks] by simp

end
