(* ===== verification/Queues.thy ===== *)
theory Queues
  imports Prelude
begin

text \<open>
  The sequence containers: \<^verbatim>\<open>queue\<close>, \<^verbatim>\<open>stack\<close>, \<^verbatim>\<open>linkedlist\<close>, the ring-buffer \<^verbatim>\<open>deque\<close> and the bounded \<^verbatim>\<open>queue/ring\<close>.
  Two interfaces, both with an abstraction to lists: \<open>fifo\<close>, a queue that may be full, and \<open>double_ended\<close>,
  which gives a \<open>fifo\<close> from its back-push and front-pop.  The zero value that the deque writes into freed
  cells is an argument.
\<close>

unbundle bit_operations_syntax

section \<open>Interfaces\<close>

datatype 'a fifo_op = Enq 'a | Deq

text \<open>Run operations; collect the accepted inputs and the outputs.\<close>

fun run_fifo :: "('s \<Rightarrow> 'a \<Rightarrow> 's option) \<Rightarrow> ('s \<Rightarrow> ('s \<times> 'a) option) \<Rightarrow> 'a fifo_op list \<Rightarrow> 's \<Rightarrow> 's \<times> 'a list \<times> 'a list" where
  "run_fifo enq deq [] s = (s, [], [])"
| "run_fifo enq deq (Enq x # ops) s =
     (case enq s x of
        None \<Rightarrow> run_fifo enq deq ops s
      | Some s \<Rightarrow> let (s, ins, outs) = run_fifo enq deq ops s in (s, x # ins, outs))"
| "run_fifo enq deq (Deq # ops) s =
     (case deq s of
        None \<Rightarrow> run_fifo enq deq ops s
      | Some (s, x) \<Rightarrow> let (s, ins, outs) = run_fifo enq deq ops s in (s, ins, x # outs))"

locale fifo =
  fixes items :: "'s \<Rightarrow> 'a list"
    and inv :: "'s \<Rightarrow> bool"
    and full :: "'s \<Rightarrow> bool"
    and enq :: "'s \<Rightarrow> 'a \<Rightarrow> 's option"
    and deq :: "'s \<Rightarrow> ('s \<times> 'a) option"
  assumes enq_full: "inv s \<Longrightarrow> enq s x = None \<longleftrightarrow> full s"
    and enq_law: "inv s \<Longrightarrow> enq s x = Some s' \<Longrightarrow> inv s' \<and> items s' = items s @ [x]"
    and deq_empty: "inv s \<Longrightarrow> deq s = None \<longleftrightarrow> items s = []"
    and deq_law: "inv s \<Longrightarrow> deq s = Some (s', x) \<Longrightarrow> inv s' \<and> items s = x # items s'"
begin

text \<open>What comes out is what went in, in order, and what is left.\<close>

lemma fifo_order:
  "inv s \<Longrightarrow> run_fifo enq deq ops s = (s', ins, outs) \<Longrightarrow> inv s' \<and> items s @ ins = outs @ items s'"
proof (induction ops arbitrary: s s' ins outs)
  case (Cons c ops)
  show ?case
  proof (cases c)
    case (Enq x)
    show ?thesis
    proof (cases "enq s x")
      case None
      then show ?thesis using Cons Enq by auto
    next
      case (Some s1)
      obtain s2 i o2 where r: "run_fifo enq deq ops s1 = (s2, i, o2)" by (metis prod_cases3)
      show ?thesis using Cons.IH [OF _ r] enq_law [OF Cons.prems(1) Some] Cons.prems(2) Enq Some r by auto
    qed
  next
    case Deq
    show ?thesis
    proof (cases "deq s")
      case None
      then show ?thesis using Cons Deq by auto
    next
      case (Some sx)
      obtain s1 x where sx: "sx = (s1, x)" by fastforce
      obtain s2 i o2 where r: "run_fifo enq deq ops s1 = (s2, i, o2)" by (metis prod_cases3)
      show ?thesis using Cons.IH [OF _ r] deq_law [OF Cons.prems(1) Some [unfolded sx]] Cons.prems(2) Deq Some sx r by auto
    qed
  qed
qed simp

end

datatype 'a dq_op = PushB 'a | PushF 'a | PopB | PopF

fun run_dq ::
  "('s \<Rightarrow> 'a \<Rightarrow> 's) \<Rightarrow> ('s \<Rightarrow> 'a \<Rightarrow> 's) \<Rightarrow> ('s \<Rightarrow> ('s \<times> 'a) option) \<Rightarrow> ('s \<Rightarrow> ('s \<times> 'a) option) \<Rightarrow>
   'a dq_op list \<Rightarrow> 's \<Rightarrow> 's \<times> 'a option list" where
  "run_dq pb pf qb qf [] s = (s, [])"
| "run_dq pb pf qb qf (PushB x # ops) s = run_dq pb pf qb qf ops (pb s x)"
| "run_dq pb pf qb qf (PushF x # ops) s = run_dq pb pf qb qf ops (pf s x)"
| "run_dq pb pf qb qf (PopB # ops) s =
     (case qb s of
        None \<Rightarrow> let (s, out) = run_dq pb pf qb qf ops s in (s, None # out)
      | Some (s, x) \<Rightarrow> let (s, out) = run_dq pb pf qb qf ops s in (s, Some x # out))"
| "run_dq pb pf qb qf (PopF # ops) s =
     (case qf s of
        None \<Rightarrow> let (s, out) = run_dq pb pf qb qf ops s in (s, None # out)
      | Some (s, x) \<Rightarrow> let (s, out) = run_dq pb pf qb qf ops s in (s, Some x # out))"

text \<open>The abstract double-ended queue: a list.\<close>

definition list_pop_back :: "'a list \<Rightarrow> ('a list \<times> 'a) option" where
  "list_pop_back xs = (if xs = [] then None else Some (butlast xs, last xs))"

fun list_pop_front :: "'a list \<Rightarrow> ('a list \<times> 'a) option" where
  "list_pop_front [] = None"
| "list_pop_front (x # xs) = Some (xs, x)"

abbreviation run_list :: "'a dq_op list \<Rightarrow> 'a list \<Rightarrow> 'a list \<times> 'a option list" where
  "run_list \<equiv> run_dq (\<lambda>xs x. xs @ [x]) (\<lambda>xs x. x # xs) list_pop_back list_pop_front"

locale double_ended =
  fixes items :: "'s \<Rightarrow> 'a list"
    and inv :: "'s \<Rightarrow> bool"
    and push_back :: "'s \<Rightarrow> 'a \<Rightarrow> 's"
    and push_front :: "'s \<Rightarrow> 'a \<Rightarrow> 's"
    and pop_back :: "'s \<Rightarrow> ('s \<times> 'a) option"
    and pop_front :: "'s \<Rightarrow> ('s \<times> 'a) option"
  assumes push_back_law: "inv s \<Longrightarrow> inv (push_back s x) \<and> items (push_back s x) = items s @ [x]"
    and push_front_law: "inv s \<Longrightarrow> inv (push_front s x) \<and> items (push_front s x) = x # items s"
    and pop_back_empty: "inv s \<Longrightarrow> pop_back s = None \<longleftrightarrow> items s = []"
    and pop_back_law: "inv s \<Longrightarrow> pop_back s = Some (s', x) \<Longrightarrow> inv s' \<and> items s = items s' @ [x]"
    and pop_front_empty: "inv s \<Longrightarrow> pop_front s = None \<longleftrightarrow> items s = []"
    and pop_front_law: "inv s \<Longrightarrow> pop_front s = Some (s', x) \<Longrightarrow> inv s' \<and> items s = x # items s'"
begin

lemma run_refines:
  "inv s \<Longrightarrow> run_dq push_back push_front pop_back pop_front ops s = (s', out) \<Longrightarrow>
   inv s' \<and> run_list ops (items s) = (items s', out)"
proof (induction ops arbitrary: s s' out)
  case (Cons c ops)
  let ?run = "run_dq push_back push_front pop_back pop_front"
  have step: "inv s' \<and> run_list (c # ops) (items s) = (items s', out)"
    if "inv s1" "?run ops s1 = (s', o1)" "run_list (c # ops) (items s) =
        (let (l, o2) = run_list ops (items s1) in (l, pre @ o2))" "out = pre @ o1" for s1 o1 pre
    using Cons.IH [OF that(1,2)] that(3,4) by simp
  show ?case
  proof (cases c)
    case (PushB x)
    then show ?thesis using Cons.prems push_back_law [of s x] by (intro step [of "push_back s x" out "[]"]) (auto split: prod.splits)
  next
    case (PushF x)
    then show ?thesis using Cons.prems push_front_law [of s x] by (intro step [of "push_front s x" out "[]"]) (auto split: prod.splits)
  next
    case PopB
    show ?thesis
    proof (cases "pop_back s")
      case None
      then show ?thesis using Cons.prems PopB pop_back_empty [of s] by (intro step [of s "tl out" "[None]"]) (auto simp: list_pop_back_def split: prod.splits)
    next
      case (Some sx)
      obtain s1 x where sx: "sx = (s1, x)" by fastforce
      show ?thesis using Cons.prems PopB Some sx pop_back_law [OF Cons.prems(1) Some [unfolded sx]]
        by (intro step [of s1 "tl out" "[Some x]"]) (auto simp: list_pop_back_def split: prod.splits)
    qed
  next
    case PopF
    show ?thesis
    proof (cases "pop_front s")
      case None
      then show ?thesis using Cons.prems PopF pop_front_empty [of s] by (intro step [of s "tl out" "[None]"]) (auto split: prod.splits)
    next
      case (Some sx)
      obtain s1 x where sx: "sx = (s1, x)" by fastforce
      show ?thesis using Cons.prems PopF Some sx pop_front_law [OF Cons.prems(1) Some [unfolded sx]]
        by (intro step [of s1 "tl out" "[Some x]"]) (auto split: prod.splits)
    qed
  qed
qed simp

end

sublocale double_ended \<subseteq> dq_fifo: fifo items inv "\<lambda>_. False" "\<lambda>s x. Some (push_back s x)" pop_front
  using push_back_law pop_front_empty pop_front_law by unfold_locales auto

end
