(* ===== verification/Containers.thy ===== *)
theory Containers
  imports Queues
begin

text \<open>
  The providers of the queue interfaces: \<^verbatim>\<open>queue.Queue\<close>, \<^verbatim>\<open>stack.Stack\<close>, \<^verbatim>\<open>linkedlist.List\<close>,
  \<^verbatim>\<open>deque.Deque\<close> (a power-of-two ring indexed by a bit mask, which doubles when full), \<^verbatim>\<open>ring.Buffer\<close> (a
  bounded ring indexed by remainder), and the finite sets of \<^verbatim>\<open>set.Set\<close>.
  A blocked call of the bounded ring (\<^verbatim>\<open>Enqueue\<close> on a full, \<^verbatim>\<open>Dequeue\<close> on an empty buffer) is \<open>None\<close>: the step is not enabled.
\<close>

section \<open>Circular windows\<close>

definition window :: "'a list \<Rightarrow> nat \<Rightarrow> nat \<Rightarrow> 'a list" where
  "window buf h n = map (\<lambda>i. buf ! ((h + i) mod length buf)) [0..<n]"

lemma length_window [simp]: "length (window buf h n) = n"
  by (simp add: window_def)

lemma window_0 [simp]: "window buf h 0 = []"
  by (simp add: window_def)

lemma nth_window: "i < n \<Longrightarrow> window buf h n ! i = buf ! ((h + i) mod length buf)"
  by (simp add: window_def)

lemma window_eq_Nil [simp]: "window buf h n = [] \<longleftrightarrow> n = 0"
  by (simp add: window_def)

lemma window_Suc: "window buf h (Suc n) = window buf h n @ [buf ! ((h + n) mod length buf)]"
  by (simp add: window_def)

lemma window_Cons: "window buf h (Suc n) = buf ! (h mod length buf) # window buf (Suc h) n"
  by (simp add: window_def upt_conv_Cons map_Suc_upt [symmetric] comp_def del: upt_Suc)

lemma window_mod: "window buf (h mod length buf) n = window buf h n"
  by (simp add: window_def mod_simps)

lemma window_update: "(\<And>i. i < n \<Longrightarrow> (h + i) mod length buf \<noteq> k) \<Longrightarrow> window (buf[k := x]) h n = window buf h n"
proof -
  assume "\<And>i. i < n \<Longrightarrow> (h + i) mod length buf \<noteq> k"
  then show ?thesis by (auto simp: window_def intro!: nth_list_update_neq) metis
qed

lemma mod_add_inj: "i < (n :: nat) \<Longrightarrow> j < n \<Longrightarrow> (h + i) mod n = (h + j) mod n \<Longrightarrow> i = j"
proof -
  assume a: "i < n" "j < n" "(h + i) mod n = (h + j) mod n"
  have "(h mod n + i) mod n = (h mod n + j) mod n" using a(3) by (simp add: mod_simps)
  moreover have "h mod n < n" using a by auto
  moreover have "(m + i) mod n = (if m + i < n then m + i else m + i - n)" if "m < n" "i < n" for m i
    using that by (simp add: le_mod_geq)
  ultimately show ?thesis using a(1,2) by (simp split: if_splits)
qed

lemma mod_add_neq: "i < j \<Longrightarrow> j < n \<Longrightarrow> (h + i) mod n \<noteq> (h + j) mod (n :: nat)"
  using mod_add_inj [of i n j h] by auto

lemma mod_Suc_neq: "h < n \<Longrightarrow> Suc i < n \<Longrightarrow> (Suc h + i) mod n \<noteq> (h :: nat)"
  using mod_add_neq [of 0 "Suc i" n h] by auto

lemma window_push_back:
  "n < length buf \<Longrightarrow> window (buf[(h + n) mod length buf := x]) h (Suc n) = window buf h n @ [x]"
proof -
  assume n: "n < length buf"
  then have "(h + n) mod length buf < length buf" by (intro mod_less_divisor) auto
  then show ?thesis using n by (simp add: window_Suc window_update mod_add_neq)
qed

lemma window_push_front:
  assumes "h < length buf" "n < length buf"
  shows "window (buf[(h + length buf - 1) mod length buf := x]) ((h + length buf - 1) mod length buf) (Suc n) = x # window buf h n"
proof -
  define k where "k = (h + length buf - 1) mod length buf"
  have pos: "0 < length buf" using assms by auto
  have k: "k < length buf" using pos by (simp add: k_def)
  have h: "h = Suc k mod length buf" using assms pos by (simp add: k_def mod_Suc_eq Suc_diff_Suc)
  have "window (buf[k := x]) (Suc k) n = window buf (Suc k) n"
  proof (rule window_update)
    fix i assume "i < n"
    then show "(Suc k + i) mod length buf \<noteq> k" using k assms by (intro mod_Suc_neq) auto
  qed
  then have "window (buf[k := x]) k (Suc n) = x # window buf h n"
    using k h window_mod [of buf "Suc k" n] by (simp add: window_Cons)
  then show ?thesis by (simp only: k_def)
qed

lemma window_pop_front:
  assumes "h < length buf" "n < length buf"
  shows "window buf h (Suc n) = buf ! h # window (buf[h := z]) (Suc h mod length buf) n"
proof -
  have "window (buf[h := z]) (Suc h) n = window buf (Suc h) n"
  proof (rule window_update)
    fix i assume "i < n"
    then show "(Suc h + i) mod length buf \<noteq> h" using assms by (intro mod_Suc_neq) auto
  qed
  then show ?thesis using assms window_mod [of "buf[h := z]" "Suc h" n] by (simp add: window_Cons)
qed

lemma window_pop_back:
  "n < length buf \<Longrightarrow>
   window buf h (Suc n) = window (buf[(h + n) mod length buf := z]) h n @ [buf ! ((h + n) mod length buf)]"
  by (simp add: window_Suc window_update mod_add_neq)

section \<open>\<^verbatim>\<open>queue.Queue\<close>, \<^verbatim>\<open>stack.Stack\<close>, \<^verbatim>\<open>linkedlist.List\<close>\<close>

type_synonym 'a Queue = "'a list"

definition queue_New :: "'a Queue" where
  "queue_New = []"

definition queue_Enqueue :: "'a Queue \<Rightarrow> 'a \<Rightarrow> 'a Queue" where
  "queue_Enqueue q item = q @ [item]"

definition queue_Dequeue :: "'a Queue \<Rightarrow> ('a Queue \<times> 'a) option" where
  "queue_Dequeue q = (if length q = 0 then None else Some (drop 1 q, q ! 0))"

definition queue_Peek :: "'a Queue \<Rightarrow> 'a option" where
  "queue_Peek q = (if length q = 0 then None else Some (q ! 0))"

definition queue_Len :: "'a Queue \<Rightarrow> nat" where
  "queue_Len q = length q"

type_synonym 'a Stack = "'a list"

definition stack_New :: "'a Stack" where
  "stack_New = []"

definition stack_Push :: "'a Stack \<Rightarrow> 'a \<Rightarrow> 'a Stack" where
  "stack_Push s item = s @ [item]"

definition stack_Pop :: "'a Stack \<Rightarrow> ('a Stack \<times> 'a) option" where
  "stack_Pop s = (if length s = 0 then None else (let idx = length s - 1 in Some (take idx s, s ! idx)))"

definition stack_Peek :: "'a Stack \<Rightarrow> 'a option" where
  "stack_Peek s = (if length s = 0 then None else Some (s ! (length s - 1)))"

definition stack_Len :: "'a Stack \<Rightarrow> nat" where
  "stack_Len s = length s"

type_synonym 'a List = "'a list"

definition list_New :: "'a List" where
  "list_New = []"

definition list_PushBack :: "'a List \<Rightarrow> 'a \<Rightarrow> 'a List" where
  "list_PushBack l v = l @ [v]"

definition list_PushFront :: "'a List \<Rightarrow> 'a \<Rightarrow> 'a List" where
  "list_PushFront l v = v # l"

definition list_PopFront :: "'a List \<Rightarrow> ('a List \<times> 'a) option" where
  "list_PopFront l = (case l of [] \<Rightarrow> None | v # l \<Rightarrow> Some (l, v))"

definition list_PopBack :: "'a List \<Rightarrow> ('a List \<times> 'a) option" where
  "list_PopBack l = (if l = [] then None else Some (butlast l, last l))"

definition list_Len :: "'a List \<Rightarrow> nat" where
  "list_Len l = length l"

interpretation slice_queue: fifo "\<lambda>q. q" "\<lambda>_. True" "\<lambda>_. False" "\<lambda>q x. Some (queue_Enqueue q x)" queue_Dequeue
  by unfold_locales (auto simp: queue_Enqueue_def queue_Dequeue_def neq_Nil_conv split: if_splits)

interpretation linked: double_ended "\<lambda>l. l" "\<lambda>_. True" list_PushBack list_PushFront list_PopBack list_PopFront
  by unfold_locales (auto simp: list_PushBack_def list_PushFront_def list_PopBack_def list_PopFront_def split: if_splits list.splits)

lemma stack_Pop_Push: "stack_Pop (stack_Push s x) = Some (s, x)" "stack_Peek (stack_Push s x) = Some x"
  by (simp_all add: stack_Pop_def stack_Push_def stack_Peek_def)

lemma stack_Pop_inverse: "stack_Pop s = Some (s', x) \<Longrightarrow> stack_Push s' x = s \<and> stack_Peek s = Some x"
  by (auto simp: stack_Pop_def stack_Push_def stack_Peek_def Let_def take_Suc_conv_app_nth [symmetric] split: if_splits)

section \<open>\<^verbatim>\<open>deque.Deque\<close>\<close>

record 'a Deque =
  buf :: "'a list"
  head :: nat
  tail :: nat
  num :: nat
  minCap :: nat

fun bits_Len :: "nat \<Rightarrow> nat" where
  "bits_Len n = (if n = 0 then 0 else Suc (bits_Len (n div 2)))"

declare bits_Len.simps [simp del]

definition deque_New :: "'a \<Rightarrow> int \<Rightarrow> 'a Deque" where
  "deque_New zero initialCap =
     (let initialCap = (if initialCap < 1 then 16 else 2 ^ bits_Len (nat (initialCap - 1)))
      in \<lparr>buf = replicate initialCap zero, head = 0, tail = 0, num = 0, minCap = initialCap\<rparr>)"

text \<open>The index \<^verbatim>\<open>i & (len(d.buf) - 1)\<close>; \<open>i\<close> is \<open>-1\<close> when a front index steps below 0.\<close>

definition mask_index :: "'a Deque \<Rightarrow> int \<Rightarrow> nat" where
  "mask_index d i = nat (i AND (int (length (buf d)) - 1))"

text \<open>\<^verbatim>\<open>copy(dst, src)\<close> with both slices full length.\<close>

definition copy_slice :: "'a list \<Rightarrow> 'a list \<Rightarrow> 'a list" where
  "copy_slice dst src = (let n = min (length dst) (length src) in take n src @ drop n dst)"

definition deque_resize :: "'a \<Rightarrow> 'a Deque \<Rightarrow> nat \<Rightarrow> 'a Deque" where
  "deque_resize zero d newSize =
     (let newBuf = replicate newSize zero;
          newBuf =
            (if head d < tail d then copy_slice newBuf (drop (head d) (take (tail d) (buf d)))
             else (let newBuf = copy_slice newBuf (drop (head d) (buf d));
                       n = min newSize (length (drop (head d) (buf d)))
                   in take n newBuf @ copy_slice (drop n newBuf) (take (tail d) (buf d))))
      in d\<lparr>head := 0, tail := num d, buf := newBuf\<rparr>)"

definition growIfFull :: "'a \<Rightarrow> 'a Deque \<Rightarrow> 'a Deque" where
  "growIfFull zero d = (if num d = length (buf d) then deque_resize zero d (length (buf d) * 2) else d)"

definition deque_PushBack :: "'a \<Rightarrow> 'a Deque \<Rightarrow> 'a \<Rightarrow> 'a Deque" where
  "deque_PushBack zero d val =
     (let d = growIfFull zero d;
          d = d\<lparr>buf := (buf d)[tail d := val]\<rparr>;
          d = d\<lparr>tail := mask_index d (int (tail d) + 1)\<rparr>
      in d\<lparr>num := num d + 1\<rparr>)"

definition deque_PushFront :: "'a \<Rightarrow> 'a Deque \<Rightarrow> 'a \<Rightarrow> 'a Deque" where
  "deque_PushFront zero d val =
     (let d = growIfFull zero d;
          d = d\<lparr>head := mask_index d (int (head d) - 1)\<rparr>;
          d = d\<lparr>buf := (buf d)[head d := val]\<rparr>
      in d\<lparr>num := num d + 1\<rparr>)"

definition deque_PopBack :: "'a \<Rightarrow> 'a Deque \<Rightarrow> ('a Deque \<times> 'a) option" where
  "deque_PopBack zero d =
     (if num d = 0 then None
      else (let d = d\<lparr>tail := mask_index d (int (tail d) - 1)\<rparr>;
                val = buf d ! tail d;
                d = d\<lparr>buf := (buf d)[tail d := zero]\<rparr>
            in Some (d\<lparr>num := num d - 1\<rparr>, val)))"

definition deque_PopFront :: "'a \<Rightarrow> 'a Deque \<Rightarrow> ('a Deque \<times> 'a) option" where
  "deque_PopFront zero d =
     (if num d = 0 then None
      else (let val = buf d ! head d;
                d = d\<lparr>buf := (buf d)[head d := zero]\<rparr>;
                d = d\<lparr>head := mask_index d (int (head d) + 1)\<rparr>
            in Some (d\<lparr>num := num d - 1\<rparr>, val)))"

definition deque_Len :: "'a Deque \<Rightarrow> nat" where
  "deque_Len d = num d"

definition deque_inv :: "'a Deque \<Rightarrow> bool" where
  "deque_inv d \<longleftrightarrow> (\<exists>k. length (buf d) = 2 ^ k) \<and> head d < length (buf d) \<and> num d \<le> length (buf d) \<and>
     tail d = (head d + num d) mod length (buf d)"

definition deque_items :: "'a Deque \<Rightarrow> 'a list" where
  "deque_items d = window (buf d) (head d) (num d)"

lemma mask_index_mod: "length (buf d) = 2 ^ k \<Longrightarrow> mask_index d i = nat (i mod int (length (buf d)))"
  by (simp add: mask_index_def flip: mask_eq_exp_minus_1 take_bit_eq_mask take_bit_eq_mod)

lemma mask_index_succ: "length (buf d) = 2 ^ k \<Longrightarrow> mask_index d (int i + 1) = Suc i mod length (buf d)"
  by (simp only: mask_index_mod) (metis Suc_eq_plus1 nat_int of_nat_1 of_nat_add of_nat_mod)

lemma mask_index_pred: "length (buf d) = 2 ^ k \<Longrightarrow> mask_index d (int i - 1) = (i + length (buf d) - 1) mod length (buf d)"
proof -
  assume k: "length (buf d) = 2 ^ k"
  have "int i - 1 + int (length (buf d)) = int (i + length (buf d) - 1)" by (simp add: k of_nat_diff Suc_leI)
  then have "(int i - 1) mod int (length (buf d)) = int ((i + length (buf d) - 1) mod length (buf d))"
    by (metis mod_add_self2 zmod_int)
  then show ?thesis using mask_index_mod [OF k] by simp
qed

lemma window_zero: "n \<le> length b \<Longrightarrow> window b 0 n = take n b"
  by (auto simp: list_eq_iff_nth_eq nth_window)

lemma window_full: "h < length b \<Longrightarrow> window b h (length b) = drop h b @ take h b"
proof (rule nth_equalityI)
  fix i assume h: "h < length b" and i: "i < length (window b h (length b))"
  show "window b h (length b) ! i = (drop h b @ take h b) ! i"
    using h i by (cases "h + i < length b") (auto simp: nth_window nth_append le_mod_geq intro!: arg_cong [of _ _ "nth b"])
qed simp

lemma copy_replicate: "length src \<le> n \<Longrightarrow> copy_slice (replicate n z) src = src @ replicate (n - length src) z"
  by (simp add: copy_slice_def)

lemma deque_resize_full:
  assumes "deque_inv d" "num d = length (buf d)"
  shows "deque_resize z d (length (buf d) * 2) =
     d\<lparr>head := 0, tail := num d, buf := deque_items d @ replicate (length (buf d)) z\<rparr>"
proof -
  have h: "head d < length (buf d)" "tail d = head d" using assms by (auto simp: deque_inv_def)
  then show ?thesis
    using assms(2) by (simp add: deque_resize_def copy_replicate deque_items_def window_full mult_2_right)
qed

lemma growIfFull_law:
  assumes "deque_inv d"
  shows "deque_inv (growIfFull z d)" and "deque_items (growIfFull z d) = deque_items d"
    and "num (growIfFull z d) < length (buf (growIfFull z d))" and "num (growIfFull z d) = num d"
proof -
  obtain k where k: "length (buf d) = 2 ^ k" using assms by (auto simp: deque_inv_def)
  have "deque_inv (growIfFull z d) \<and> deque_items (growIfFull z d) = deque_items d \<and>
    num (growIfFull z d) < length (buf (growIfFull z d)) \<and> num (growIfFull z d) = num d"
  proof (cases "num d = length (buf d)")
    case True
    have len: "length (deque_items d) = length (buf d)" using True by (simp add: deque_items_def)
    have g: "growIfFull z d = d\<lparr>head := 0, tail := num d, buf := deque_items d @ replicate (length (buf d)) z\<rparr>"
      using True deque_resize_full [OF assms True] by (simp add: growIfFull_def)
    have "length (deque_items d @ replicate (length (buf d)) z) = 2 ^ Suc k" using len k by simp
    then have "\<exists>k. length (deque_items d) + length (buf d) = 2 ^ k" by (metis length_append length_replicate)
    moreover have "0 < length (buf d)" using k by simp
    ultimately show ?thesis using len True window_zero [of "num d" "deque_items d @ replicate (length (buf d)) z"]
      by (simp add: g deque_inv_def) (simp add: deque_items_def)
  next
    case False
    then show ?thesis using assms by (auto simp: growIfFull_def deque_inv_def)
  qed
  then show "deque_inv (growIfFull z d)" "deque_items (growIfFull z d) = deque_items d"
    "num (growIfFull z d) < length (buf (growIfFull z d))" "num (growIfFull z d) = num d" by auto
qed

lemma deque_PushBack_law:
  assumes "deque_inv d"
  shows "deque_inv (deque_PushBack z d x) \<and> deque_items (deque_PushBack z d x) = deque_items d @ [x]"
proof -
  define g where "g = growIfFull z d"
  have g: "deque_inv g" "deque_items g = deque_items d" "num g < length (buf g)"
    using growIfFull_law [OF assms, of z] by (auto simp: g_def)
  obtain k where k: "length (buf g) = 2 ^ k" using g(1) by (auto simp: deque_inv_def)
  have t: "tail g = (head g + num g) mod length (buf g)" "head g < length (buf g)" using g(1) by (auto simp: deque_inv_def)
  have p: "deque_PushBack z d x = g\<lparr>buf := (buf g)[tail g := x], tail := Suc (tail g) mod length (buf g), num := num g + 1\<rparr>"
    using k by (simp add: deque_PushBack_def mask_index_succ [of _ k] flip: g_def)
  have "Suc (tail g) mod length (buf g) = (head g + (num g + 1)) mod length (buf g)" by (simp add: t mod_Suc_eq)
  then show ?thesis using k t g window_push_back [OF g(3), of "head g" x]
    by (auto simp: p deque_inv_def deque_items_def)
qed

lemma deque_PushFront_law:
  assumes "deque_inv d"
  shows "deque_inv (deque_PushFront z d x) \<and> deque_items (deque_PushFront z d x) = x # deque_items d"
proof -
  define g where "g = growIfFull z d"
  have g: "deque_inv g" "deque_items g = deque_items d" "num g < length (buf g)"
    using growIfFull_law [OF assms, of z] by (auto simp: g_def)
  obtain k where k: "length (buf g) = 2 ^ k" using g(1) by (auto simp: deque_inv_def)
  have t: "tail g = (head g + num g) mod length (buf g)" "head g < length (buf g)" using g(1) by (auto simp: deque_inv_def)
  define h where "h = (head g + length (buf g) - 1) mod length (buf g)"
  have p: "deque_PushFront z d x = g\<lparr>head := h, buf := (buf g)[h := x], num := num g + 1\<rparr>"
    using mask_index_pred [OF k, of "head g"] by (simp add: deque_PushFront_def h_def flip: g_def)
  have pos: "0 < length (buf g)" using t by auto
  then have h: "h < length (buf g)" by (simp add: h_def)
  have "(h + (num g + 1)) mod length (buf g) = (head g + length (buf g) - 1 + (num g + 1)) mod length (buf g)"
    unfolding h_def by (rule mod_add_left_eq)
  also have "head g + length (buf g) - 1 + (num g + 1) = head g + num g + length (buf g)" using pos by simp
  finally have "(h + (num g + 1)) mod length (buf g) = tail g" by (simp add: t)
  then show ?thesis using k t g h window_push_front [OF t(2) g(3), of x, folded h_def]
    by (auto simp: p deque_inv_def deque_items_def)
qed

lemma deque_PopFront_law:
  assumes "deque_inv d" "deque_PopFront z d = Some (d', x)"
  shows "deque_inv d' \<and> deque_items d = x # deque_items d'"
proof -
  obtain k where k: "length (buf d) = 2 ^ k" using assms(1) by (auto simp: deque_inv_def)
  have t: "tail d = (head d + num d) mod length (buf d)" "head d < length (buf d)" "num d \<le> length (buf d)"
    using assms(1) by (auto simp: deque_inv_def)
  obtain n where n: "num d = Suc n" using assms(2) by (cases "num d") (auto simp: deque_PopFront_def)
  have p: "d' = d\<lparr>buf := (buf d)[head d := z], head := Suc (head d) mod length (buf d), num := n\<rparr>" "x = buf d ! head d"
    using assms(2) k n by (auto simp: deque_PopFront_def Let_def mask_index_succ [of _ k])
  have "tail d = (Suc (head d) mod length (buf d) + n) mod length (buf d)" using n by (simp add: t mod_add_left_eq)
  moreover have "n < length (buf d)" "Suc (head d) mod length (buf d) < length (buf d)"
    using n t by (auto intro: mod_less_divisor)
  ultimately show ?thesis using k n window_pop_front [OF t(2), of n z]
    by (auto simp: p deque_inv_def deque_items_def)
qed

lemma deque_PopBack_law:
  assumes "deque_inv d" "deque_PopBack z d = Some (d', x)"
  shows "deque_inv d' \<and> deque_items d = deque_items d' @ [x]"
proof -
  obtain k where k: "length (buf d) = 2 ^ k" using assms(1) by (auto simp: deque_inv_def)
  have t: "tail d = (head d + num d) mod length (buf d)" "head d < length (buf d)" "num d \<le> length (buf d)"
    using assms(1) by (auto simp: deque_inv_def)
  obtain n where n: "num d = Suc n" using assms(2) by (cases "num d") (auto simp: deque_PopBack_def)
  define j where "j = (head d + n) mod length (buf d)"
  have pos: "0 < length (buf d)" using t by auto
  have "(tail d + length (buf d) - 1) mod length (buf d) = ((head d + num d) mod length (buf d) + (length (buf d) - 1)) mod length (buf d)"
    using pos by (simp only: t Nat.add_diff_assoc Suc_leI One_nat_def)
  also have "\<dots> = (head d + num d + (length (buf d) - 1)) mod length (buf d)" by (rule mod_add_left_eq)
  also have "head d + num d + (length (buf d) - 1) = head d + n + length (buf d)" using n pos by simp
  finally have "mask_index d (int (tail d) - 1) = j" using mask_index_pred [OF k, of "tail d"] by (simp add: j_def)
  then have p: "d' = d\<lparr>tail := j, buf := (buf d)[j := z], num := n\<rparr>" "x = buf d ! j"
    using assms(2) n by (auto simp: deque_PopBack_def Let_def)
  have "n < length (buf d)" using n t by auto
  then show ?thesis using k n t window_pop_back [of n "buf d" "head d" z]
    by (auto simp: p deque_inv_def deque_items_def j_def)
qed

lemma deque_New_law: "deque_inv (deque_New z c) \<and> deque_items (deque_New z c) = []"
proof -
  have "\<exists>k. (16 :: nat) = 2 ^ k" by (rule exI [of _ 4]) simp
  then show ?thesis by (auto simp: deque_New_def Let_def deque_inv_def deque_items_def)
qed

interpretation ring_deque: double_ended deque_items deque_inv "deque_PushBack z" "deque_PushFront z" "deque_PopBack z" "deque_PopFront z" for z
proof (unfold_locales, goal_cases)
  case (1 s x)
  then show ?case by (rule deque_PushBack_law)
next
  case (2 s x)
  then show ?case by (rule deque_PushFront_law)
next
  case (3 s)
  show ?case by (simp add: deque_PopBack_def deque_items_def Let_def)
next
  case (4 s s' x)
  then show ?case by (rule deque_PopBack_law)
next
  case (5 s)
  show ?case by (simp add: deque_PopFront_def deque_items_def Let_def)
next
  case (6 s s' x)
  then show ?case by (rule deque_PopFront_law)
qed

text \<open>The ring-buffer deque is a double-ended queue.  For every initial capacity and every sequence of
  \<^verbatim>\<open>PushBack\<close>, \<^verbatim>\<open>PushFront\<close>, \<^verbatim>\<open>PopBack\<close> and \<^verbatim>\<open>PopFront\<close>, through the wrap-around of the masked indices (also
  below 0) and through every doubling of the buffer, the pops return what they return on a plain list, and
  \<^verbatim>\<open>Len\<close> is the length of that list.
\<close>

lemma deque_correct:
  "(let (d, out) = run_dq (deque_PushBack z) (deque_PushFront z) (deque_PopBack z) (deque_PopFront z) ops (deque_New z c)
    in run_list ops [] = (deque_items d, out) \<and> deque_Len d = length (deque_items d) \<and> deque_Len d \<le> length (buf d))"
proof -
  obtain d out where r: "run_dq (deque_PushBack z) (deque_PushFront z) (deque_PopBack z) (deque_PopFront z) ops (deque_New z c) = (d, out)"
    by fastforce
  have "deque_inv d \<and> run_list ops [] = (deque_items d, out)"
    using ring_deque.run_refines [OF _ r] deque_New_law [of z c] by simp
  then show ?thesis by (simp add: r deque_Len_def deque_items_def deque_inv_def)
qed

section \<open>\<^verbatim>\<open>ring.Buffer\<close>\<close>

datatype ring_error = ErrBufferFull | ErrBufferEmpty

record 'a Buffer =
  rbuf :: "'a list"
  rhead :: nat
  rtail :: nat
  rcount :: nat
  rsize :: nat

definition ring_New :: "'a \<Rightarrow> int \<Rightarrow> 'a Buffer" where
  "ring_New zero sz =
     (let sz = (if sz \<le> 0 then 1 else nat sz)
      in \<lparr>rbuf = replicate sz zero, rhead = 0, rtail = 0, rcount = 0, rsize = sz\<rparr>)"

definition ring_put :: "'a Buffer \<Rightarrow> 'a \<Rightarrow> 'a Buffer" where
  "ring_put b item = b\<lparr>rbuf := (rbuf b)[rtail b := item], rtail := (rtail b + 1) mod rsize b, rcount := rcount b + 1\<rparr>"

definition ring_take :: "'a Buffer \<Rightarrow> 'a Buffer \<times> 'a" where
  "ring_take b = (b\<lparr>rhead := (rhead b + 1) mod rsize b, rcount := rcount b - 1\<rparr>, rbuf b ! rhead b)"

definition ring_Enqueue :: "'a Buffer \<Rightarrow> 'a \<Rightarrow> 'a Buffer option" where
  "ring_Enqueue b item = (if rcount b = rsize b then None else Some (ring_put b item))"

definition TryEnqueue :: "'a Buffer \<Rightarrow> 'a \<Rightarrow> ring_error + 'a Buffer" where
  "TryEnqueue b item = (if rcount b = rsize b then Inl ErrBufferFull else Inr (ring_put b item))"

definition ring_Dequeue :: "'a Buffer \<Rightarrow> ('a Buffer \<times> 'a) option" where
  "ring_Dequeue b = (if rcount b = 0 then None else Some (ring_take b))"

definition TryDequeue :: "'a Buffer \<Rightarrow> ring_error + ('a Buffer \<times> 'a)" where
  "TryDequeue b = (if rcount b = 0 then Inl ErrBufferEmpty else Inr (ring_take b))"

definition ring_Len :: "'a Buffer \<Rightarrow> nat" where
  "ring_Len b = rcount b"

definition ring_Cap :: "'a Buffer \<Rightarrow> nat" where
  "ring_Cap b = rsize b"

definition ring_inv :: "'a Buffer \<Rightarrow> bool" where
  "ring_inv b \<longleftrightarrow> length (rbuf b) = rsize b \<and> rhead b < rsize b \<and> rcount b \<le> rsize b \<and>
     rtail b = (rhead b + rcount b) mod rsize b"

definition ring_items :: "'a Buffer \<Rightarrow> 'a list" where
  "ring_items b = window (rbuf b) (rhead b) (rcount b)"

lemma ring_New_law: "ring_inv (ring_New z n) \<and> ring_items (ring_New z n) = []"
  by (simp add: ring_New_def ring_inv_def ring_items_def Let_def)

lemma ring_put_law:
  assumes "ring_inv b" "rcount b \<noteq> rsize b"
  shows "ring_inv (ring_put b x) \<and> ring_items (ring_put b x) = ring_items b @ [x]"
proof -
  have b: "length (rbuf b) = rsize b" "rhead b < rsize b" "rcount b < rsize b" "rtail b = (rhead b + rcount b) mod rsize b"
    using assms by (auto simp: ring_inv_def)
  show ?thesis using b window_push_back [of "rcount b" "rbuf b" "rhead b" x]
    by (simp add: ring_put_def ring_inv_def ring_items_def mod_Suc_eq)
qed

lemma ring_take_law:
  assumes "ring_inv b" "rcount b \<noteq> 0" "ring_take b = (b', x)"
  shows "ring_inv b' \<and> ring_items b = x # ring_items b'"
proof -
  have b: "length (rbuf b) = rsize b" "rhead b < rsize b" "rcount b \<le> rsize b" "rtail b = (rhead b + rcount b) mod rsize b"
    using assms by (auto simp: ring_inv_def)
  obtain n where n: "rcount b = Suc n" using assms(2) by (cases "rcount b") auto
  have t: "b' = b\<lparr>rhead := Suc (rhead b) mod rsize b, rcount := n\<rparr>" "x = rbuf b ! rhead b"
    using assms(3) n by (auto simp: ring_take_def)
  have "rtail b = (Suc (rhead b) mod rsize b + n) mod rsize b" using b n by (simp add: mod_add_left_eq)
  moreover have "Suc (rhead b) mod rsize b < rsize b" using b by (intro mod_less_divisor) auto
  ultimately show ?thesis using b n window_pop_front [of "rhead b" "rbuf b" n "rbuf b ! rhead b"]
    by (simp add: t ring_inv_def ring_items_def)
qed

interpretation bounded_ring: fifo ring_items ring_inv "\<lambda>b. ring_Len b = ring_Cap b" ring_Enqueue ring_Dequeue
proof (unfold_locales, goal_cases)
  case (1 s x)
  then show ?case by (simp add: ring_Enqueue_def ring_Len_def ring_Cap_def)
next
  case (2 s x s')
  then show ?case using ring_put_law [of s x] by (auto simp: ring_Enqueue_def split: if_splits)
next
  case (3 s)
  then show ?case by (simp add: ring_Dequeue_def ring_items_def)
next
  case (4 s s' x)
  then show ?case using ring_take_law [of s s' x] by (auto simp: ring_Dequeue_def split: if_splits)
qed

lemma run_fifo_size:
  "run_fifo ring_Enqueue ring_Dequeue ops b = (b', ins, outs) \<Longrightarrow> rsize b' = rsize b"
  by (induction ops arbitrary: b b' ins outs rule: list.induct, simp)
     (case_tac x1; auto simp: ring_Enqueue_def ring_Dequeue_def ring_put_def ring_take_def split: if_splits prod.splits)

text \<open>The bounded ring buffer is a FIFO of its capacity.  After any sequence of enqueues and dequeues on a new buffer
  (a blocked call has no effect) the accepted inputs are the outputs followed by the contents, in order;
  the contents never exceed the capacity (at least 1); the non-blocking forms fail exactly when the blocking ones block:
  \<^verbatim>\<open>TryEnqueue\<close> when the buffer holds \<^verbatim>\<open>Cap()\<close> items, \<^verbatim>\<open>TryDequeue\<close> when it holds none, and else do the same.
\<close>

lemma ring_correct:
  "(let (b, ins, outs) = run_fifo ring_Enqueue ring_Dequeue ops (ring_New z n)
    in ins = outs @ ring_items b \<and> ring_Len b = length (ring_items b) \<and> ring_Len b \<le> ring_Cap b \<and>
       ring_Cap b = max 1 (nat n) \<and>
       TryEnqueue b x = (if length (ring_items b) = ring_Cap b then Inl ErrBufferFull else Inr (the (ring_Enqueue b x))) \<and>
       TryDequeue b = (if ring_items b = [] then Inl ErrBufferEmpty else Inr (the (ring_Dequeue b))))"
proof -
  obtain b ins outs where r: "run_fifo ring_Enqueue ring_Dequeue ops (ring_New z n) = (b, ins, outs)"
    by (metis prod_cases3)
  have i: "ring_inv b \<and> ins = outs @ ring_items b"
    using bounded_ring.fifo_order [OF _ r] ring_New_law [of z n] by simp
  have "rsize b = max 1 (nat n)" using run_fifo_size [OF r] by (simp add: ring_New_def Let_def)
  then show ?thesis using i
    by (simp add: r ring_Len_def ring_Cap_def ring_items_def ring_inv_def TryEnqueue_def TryDequeue_def ring_Enqueue_def ring_Dequeue_def)
qed

section \<open>\<^verbatim>\<open>set.Set\<close>\<close>

text \<open>A set is the list of its members in some order, without repetition: Go's map iteration order is arbitrary.\<close>

type_synonym 'a Set = "'a list"

definition set_Add :: "'a Set \<Rightarrow> 'a \<Rightarrow> 'a Set" where
  "set_Add s item = List.insert item s"

definition set_New :: "'a list \<Rightarrow> 'a Set" where
  "set_New items = foldl set_Add [] items"

definition set_Remove :: "'a Set \<Rightarrow> 'a \<Rightarrow> 'a Set" where
  "set_Remove s item = removeAll item s"

definition set_Contains :: "'a Set \<Rightarrow> 'a \<Rightarrow> bool" where
  "set_Contains s item \<longleftrightarrow> item \<in> set s"

definition set_Len :: "'a Set \<Rightarrow> nat" where
  "set_Len s = length s"

definition set_List :: "'a Set \<Rightarrow> 'a list" where
  "set_List s = s"

definition set_Union :: "'a Set \<Rightarrow> 'a Set \<Rightarrow> 'a Set" where
  "set_Union s other = foldl set_Add (foldl set_Add (set_New []) s) other"

definition set_Intersection :: "'a Set \<Rightarrow> 'a Set \<Rightarrow> 'a Set" where
  "set_Intersection s other = foldl (\<lambda>result k. if set_Contains other k then set_Add result k else result) (set_New []) s"

lemma set_Add_fold: "distinct s \<Longrightarrow> distinct (foldl set_Add s xs) \<and> set (foldl set_Add s xs) = set s \<union> set xs"
  by (induction xs arbitrary: s) (auto simp: set_Add_def)

lemma set_Union_law: "distinct (set_Union s t) \<and> set (set_Union s t) = set s \<union> set t"
  using set_Add_fold [of "[]" s] set_Add_fold [of "foldl set_Add [] s" t]
  by (simp add: set_Union_def set_New_def)

lemma set_Intersection_law: "distinct (set_Intersection s t) \<and> set (set_Intersection s t) = set s \<inter> set t"
proof -
  have "distinct r \<Longrightarrow>
    distinct (foldl (\<lambda>result k. if set_Contains t k then set_Add result k else result) r s) \<and>
    set (foldl (\<lambda>result k. if set_Contains t k then set_Add result k else result) r s) = set r \<union> (set s \<inter> set t)" for r
    by (induction s arbitrary: r) (auto simp: set_Add_def set_Contains_def)
  from this [of "[]"] show ?thesis by (simp add: set_Intersection_def set_New_def)
qed

lemma set_Len_card: "distinct s \<Longrightarrow> set_Len s = card (set (set_List s))"
  by (simp add: set_Len_def set_List_def distinct_card)

end
