(* ===== verification/Cache_Spec.thy ===== *)
theory Cache_Spec
  imports Prelude
begin

text \<open>
  The contract of the bounded in-memory caches: \<^verbatim>\<open>Get\<close> does not change what is stored, \<^verbatim>\<open>Set\<close> stores its
  value and may evict other keys, and no more keys than the capacity are stored.  The client lemma: a lookup never returns a value
  that is not the one set last.
\<close>

datatype ('k, 'v) cache_op = CGet 'k | CSet 'k 'v

fun run_cache ::
  "('s \<Rightarrow> 'k \<Rightarrow> 's \<times> 'v option) \<Rightarrow> ('s \<Rightarrow> 'k \<Rightarrow> 'v \<Rightarrow> 's) \<Rightarrow> ('k, 'v) cache_op list \<Rightarrow> 's \<Rightarrow> 's \<times> 'v option list" where
  "run_cache get put [] s = (s, [])"
| "run_cache get put (CGet k # ops) s =
     (let (s, r) = get s k; (s, rs) = run_cache get put ops s in (s, r # rs))"
| "run_cache get put (CSet k v # ops) s = run_cache get put ops (put s k v)"

text \<open>The ideal answers: a map that never evicts.\<close>

fun ideal_gets :: "('k, 'v) cache_op list \<Rightarrow> ('k \<rightharpoonup> 'v) \<Rightarrow> 'v option list" where
  "ideal_gets [] m = []"
| "ideal_gets (CGet k # ops) m = m k # ideal_gets ops m"
| "ideal_gets (CSet k v # ops) m = ideal_gets ops (m(k \<mapsto> v))"

fun writes :: "('k, 'v) cache_op list \<Rightarrow> ('k \<rightharpoonup> 'v) \<Rightarrow> ('k \<rightharpoonup> 'v)" where
  "writes [] m = m"
| "writes (CGet k # ops) m = writes ops m"
| "writes (CSet k v # ops) m = writes ops (m(k \<mapsto> v))"

abbreviation hit_or_miss :: "'v option list \<Rightarrow> 'v option list \<Rightarrow> bool" where
  "hit_or_miss \<equiv> list_all2 (\<lambda>r e. r = None \<or> r = e)"

locale bounded_cache =
  fixes look :: "'s \<Rightarrow> 'k \<rightharpoonup> 'v"
    and inv :: "'s \<Rightarrow> bool"
    and cap :: "'s \<Rightarrow> nat"
    and get :: "'s \<Rightarrow> 'k \<Rightarrow> 's \<times> 'v option"
    and put :: "'s \<Rightarrow> 'k \<Rightarrow> 'v \<Rightarrow> 's"
  assumes get_law: "inv s \<Longrightarrow> get s k = (s', r) \<Longrightarrow> inv s' \<and> cap s' = cap s \<and> look s' = look s \<and> r = look s k"
    and put_law: "inv s \<Longrightarrow> inv (put s k v) \<and> cap (put s k v) = cap s \<and> look (put s k v) k = Some v \<and>
                    look (put s k v) \<subseteq>\<^sub>m (look s)(k \<mapsto> v)"
    and bound: "inv s \<Longrightarrow> card (dom (look s)) \<le> cap s"
begin

lemma run_fresh:
  "inv s \<Longrightarrow> look s \<subseteq>\<^sub>m m \<Longrightarrow> run_cache get put ops s = (s', rs) \<Longrightarrow>
   inv s' \<and> cap s' = cap s \<and> look s' \<subseteq>\<^sub>m writes ops m \<and> hit_or_miss rs (ideal_gets ops m)"
proof (induction ops arbitrary: s m s' rs)
  case (Cons c ops)
  show ?case
  proof (cases c)
    case (CGet k)
    obtain s1 r where g: "get s k = (s1, r)" by fastforce
    obtain s2 rs' where r: "run_cache get put ops s1 = (s2, rs')" by fastforce
    note l = get_law [OF Cons.prems(1) g]
    have "look s k = None \<or> look s k = m k" using Cons.prems(2) by (auto simp: map_le_def dom_def)
    then show ?thesis using Cons.IH [OF _ _ r, of m] l Cons.prems CGet g r by auto
  next
    case (CSet k v)
    note l = put_law [OF Cons.prems(1), of k v]
    have "look (put s k v) \<subseteq>\<^sub>m m(k \<mapsto> v)"
      using l Cons.prems(2) by (metis map_le_trans map_le_upd)
    from Cons.IH [OF _ this, of s' rs] show ?thesis using l Cons.prems CSet by (simp del: fun_upd_apply)
  qed
qed simp

end

text \<open>Refinement: the code's cache and an abstract one give the same answers.\<close>

locale cache_refinement =
  fixes rel :: "'s \<Rightarrow> 'a \<Rightarrow> bool"
    and cap :: "'s \<Rightarrow> nat"
    and get :: "'s \<Rightarrow> 'k \<Rightarrow> 's \<times> 'v option"
    and put :: "'s \<Rightarrow> 'k \<Rightarrow> 'v \<Rightarrow> 's"
    and aget :: "'a \<Rightarrow> 'k \<Rightarrow> 'a \<times> 'v option"
    and aput :: "nat \<Rightarrow> 'a \<Rightarrow> 'k \<Rightarrow> 'v \<Rightarrow> 'a"
  assumes get_refines: "rel c l \<Longrightarrow> \<exists>c'. get c k = (c', snd (aget l k)) \<and> rel c' (fst (aget l k)) \<and> cap c' = cap c"
    and put_refines: "rel c l \<Longrightarrow> rel (put c k v) (aput (cap c) l k v) \<and> cap (put c k v) = cap c"
begin

lemma run_refines:
  "rel c l \<Longrightarrow> run_cache get put ops c = (c', rs) \<Longrightarrow>
   \<exists>l'. run_cache aget (aput (cap c)) ops l = (l', rs) \<and> rel c' l' \<and> cap c' = cap c"
proof (induction ops arbitrary: c l c' rs)
  case (Cons x ops)
  show ?case
  proof (cases x)
    case (CGet k)
    obtain c1 where g: "get c k = (c1, snd (aget l k))" "rel c1 (fst (aget l k))" "cap c1 = cap c"
      using get_refines [OF Cons.prems(1), of k] by auto
    obtain c2 rs' where r: "run_cache get put ops c1 = (c2, rs')" by fastforce
    show ?thesis using Cons.IH [OF g(2) r] Cons.prems(2) CGet g r by (auto simp: split_beta)
  next
    case (CSet k v)
    note s = put_refines [OF Cons.prems(1), of k v]
    show ?thesis using Cons.IH [of "put c k v" "aput (cap c) l k v" c' rs] Cons.prems(2) CSet s by auto
  qed
qed auto

end

end
