(* ===== verification/Lru.thy ===== *)
theory Lru
  imports Cache_Spec
begin

text \<open>
  \<^verbatim>\<open>pkg/datastructures/lru\<close>: the least-recently-used cache.  The entries live in a store from addresses to
  entries with \<^verbatim>\<open>prev\<close> and \<^verbatim>\<open>next\<close> pointers (\<open>None\<close> is nil), as in the source; the invariant says that the
  store holds a doubly linked chain from \<^verbatim>\<open>head\<close> to \<^verbatim>\<open>tail\<close>, and the refinement relates that chain to a plain list in recency order.
\<close>

section \<open>The code\<close>

type_synonym addr = nat

record ('k, 'v) entry =
  key :: 'k
  val :: 'v
  prev :: "addr option"
  "next" :: "addr option"

record ('k, 'v) Cache =
  capacity :: nat
  items :: "'k \<rightharpoonup> addr"
  chead :: "addr option"
  ctail :: "addr option"
  csize :: nat
  store :: "addr \<rightharpoonup> ('k, 'v) entry"
  fresh :: addr

type_synonym ('k, 'v) store = "addr \<rightharpoonup> ('k, 'v) entry"

abbreviation deref :: "('k, 'v) store \<Rightarrow> addr \<Rightarrow> ('k, 'v) entry" where
  "deref st a \<equiv> the (st a)"

definition set_prev :: "addr \<Rightarrow> addr option \<Rightarrow> ('k, 'v) store \<Rightarrow> ('k, 'v) store" where
  "set_prev a p st = st(a \<mapsto> (deref st a)\<lparr>prev := p\<rparr>)"

definition set_next :: "addr \<Rightarrow> addr option \<Rightarrow> ('k, 'v) store \<Rightarrow> ('k, 'v) store" where
  "set_next a p st = st(a \<mapsto> (deref st a)\<lparr>next := p\<rparr>)"

text \<open>\<^verbatim>\<open>if q != nil { q.f = x }\<close>\<close>

definition if_some :: "addr option \<Rightarrow> (addr \<Rightarrow> 's \<Rightarrow> 's) \<Rightarrow> 's \<Rightarrow> 's" where
  "if_some q f s = (case q of None \<Rightarrow> s | Some a \<Rightarrow> f a s)"

definition lru_New :: "int \<Rightarrow> ('k, 'v) Cache" where
  "lru_New cap = \<lparr>capacity = (if cap \<le> 0 then 1 else nat cap), items = Map.empty, chead = None, ctail = None,
     csize = 0, store = Map.empty, fresh = 0\<rparr>"

definition pushFront :: "('k, 'v) Cache \<Rightarrow> addr \<Rightarrow> ('k, 'v) Cache" where
  "pushFront c e =
     (let c =
        (case chead c of
           None \<Rightarrow> c\<lparr>chead := Some e, ctail := Some e, store := set_next e None (set_prev e None (store c))\<rparr>
         | Some h \<Rightarrow> c\<lparr>store := set_prev h (Some e) (set_prev e None (set_next e (Some h) (store c))), chead := Some e\<rparr>)
      in c\<lparr>csize := csize c + 1\<rparr>)"

definition moveToFront :: "('k, 'v) Cache \<Rightarrow> addr \<Rightarrow> ('k, 'v) Cache" where
  "moveToFront c e =
     (if chead c = Some e then c
      else
        (let st = store c;
             st = if_some (prev (deref st e)) (\<lambda>p. set_next p (next (deref st e))) st;
             st = if_some (next (deref st e)) (\<lambda>n. set_prev n (prev (deref st e))) st;
             t = (if Some e = ctail c then prev (deref st e) else ctail c);
             st = set_prev e None (set_next e (chead c) st);
             st = if_some (chead c) (\<lambda>h. set_prev h (Some e)) st
         in c\<lparr>store := st, ctail := t, chead := Some e\<rparr>))"

definition lru_remove :: "('k, 'v) Cache \<Rightarrow> addr \<Rightarrow> ('k, 'v) Cache" where
  "lru_remove c e =
     (let c = (case prev (deref (store c) e) of
                 Some p \<Rightarrow> c\<lparr>store := set_next p (next (deref (store c) e)) (store c)\<rparr>
               | None \<Rightarrow> c\<lparr>chead := next (deref (store c) e)\<rparr>);
          c = (case next (deref (store c) e) of
                 Some n \<Rightarrow> c\<lparr>store := set_prev n (prev (deref (store c) e)) (store c)\<rparr>
               | None \<Rightarrow> c\<lparr>ctail := prev (deref (store c) e)\<rparr>)
      in c\<lparr>store := set_prev e None (set_next e None (store c)), csize := csize c - 1\<rparr>)"

definition removeOldest :: "('k, 'v) Cache \<Rightarrow> ('k, 'v) Cache" where
  "removeOldest c =
     (case ctail c of
        None \<Rightarrow> c
      | Some e \<Rightarrow> (let c = lru_remove c e in c\<lparr>items := (items c)(key (deref (store c) e) := None)\<rparr>))"

definition lru_Get :: "('k, 'v) Cache \<Rightarrow> 'k \<Rightarrow> ('k, 'v) Cache \<times> 'v option" where
  "lru_Get c k =
     (case items c k of
        Some e \<Rightarrow> (let c = moveToFront c e in (c, Some (val (deref (store c) e))))
      | None \<Rightarrow> (c, None))"

definition lru_Set :: "('k, 'v) Cache \<Rightarrow> 'k \<Rightarrow> 'v \<Rightarrow> ('k, 'v) Cache" where
  "lru_Set c k v =
     (case items c k of
        Some e \<Rightarrow>
          (let c = moveToFront c e in c\<lparr>store := (store c)(e \<mapsto> (deref (store c) e)\<lparr>val := v\<rparr>)\<rparr>)
      | None \<Rightarrow>
          (let e = fresh c;
               c = c\<lparr>store := (store c)(e \<mapsto> \<lparr>key = k, val = v, prev = None, next = None\<rparr>), fresh := e + 1\<rparr>;
               c = pushFront c e;
               c = c\<lparr>items := (items c)(k \<mapsto> e)\<rparr>
           in if capacity c < csize c then removeOldest c else c))"

definition lru_Len :: "('k, 'v) Cache \<Rightarrow> nat" where
  "lru_Len c = csize c"

definition lru_Clear :: "('k, 'v) Cache \<Rightarrow> ('k, 'v) Cache" where
  "lru_Clear c = c\<lparr>chead := None, ctail := None, csize := 0, items := Map.empty\<rparr>"

section \<open>Linked chains\<close>

definition first :: "addr list \<Rightarrow> addr option \<Rightarrow> addr option" where
  "first as n = (case as of [] \<Rightarrow> n | a # _ \<Rightarrow> Some a)"

definition final :: "addr list \<Rightarrow> addr option \<Rightarrow> addr option" where
  "final as p = (if as = [] then p else Some (last as))"

lemma first_simps [simp]: "first [] n = n" "first (a # as) n = Some a" "first (as @ bs) n = first as (first bs n)"
  by (auto simp: first_def split: list.splits)

lemma final_simps [simp]: "final [] p = p" "final (a # as) p = final as (Some a)" "final (as @ bs) p = final bs (final as p)"
  by (auto simp: final_def)

fun chain :: "('k, 'v) store \<Rightarrow> addr option \<Rightarrow> addr list \<Rightarrow> addr option \<Rightarrow> bool" where
  "chain st p [] n \<longleftrightarrow> True"
| "chain st p (a # as) n \<longleftrightarrow> st a \<noteq> None \<and> prev (deref st a) = p \<and> next (deref st a) = first as n \<and> chain st (Some a) as n"

lemma chain_append [simp]: "chain st p (as @ bs) n \<longleftrightarrow> chain st p as (first bs n) \<and> chain st (final as p) bs n"
  by (induction as arbitrary: p) auto

lemma chain_frame: "(\<And>a. a \<in> set as \<Longrightarrow> st' a = st a) \<Longrightarrow> chain st' p as n = chain st p as n"
  by (induction as arbitrary: p) auto

lemma set_prev_other [simp]: "b \<noteq> a \<Longrightarrow> set_prev a p st b = st b" and set_next_other [simp]: "b \<noteq> a \<Longrightarrow> set_next a p st b = st b"
  by (simp_all add: set_prev_def set_next_def)

lemma set_prev_same [simp]: "set_prev a p st a = Some ((deref st a)\<lparr>prev := p\<rparr>)"
  and set_next_same [simp]: "set_next a p st a = Some ((deref st a)\<lparr>next := p\<rparr>)"
  by (simp_all add: set_prev_def set_next_def)

lemma chain_set_prev_out [simp]: "a \<notin> set as \<Longrightarrow> chain (set_prev a q st) p as n = chain st p as n"
  and chain_set_next_out [simp]: "a \<notin> set as \<Longrightarrow> chain (set_next a q st) p as n = chain st p as n"
  by (rule chain_frame, metis set_prev_other) (rule chain_frame, metis set_next_other)

text \<open>Relinking the first and the last entry of a chain.\<close>

lemma chain_set_first: "distinct as \<Longrightarrow> chain st p as n \<Longrightarrow> chain (if_some (first as None) (\<lambda>a. set_prev a q) st) q as n"
  by (cases as) (auto simp: if_some_def)

lemma chain_set_last: "distinct as \<Longrightarrow> chain st p as n \<Longrightarrow> chain (if_some (final as None) (\<lambda>a. set_next a q) st) p as q"
  by (cases as rule: rev_cases) (auto simp: if_some_def)

lemma final_in: "final as p = Some a \<Longrightarrow> p \<noteq> Some a \<Longrightarrow> a \<in> set as"
  by (auto simp: final_def split: if_splits)

lemma first_in: "first as n = Some a \<Longrightarrow> n \<noteq> Some a \<Longrightarrow> a \<in> set as"
  by (auto simp: first_def split: list.splits)

lemma final_None [simp]: "final as p = None \<longleftrightarrow> as = [] \<and> p = None"
  by (auto simp: final_def)

lemma first_None [simp]: "first as n = None \<longleftrightarrow> as = [] \<and> n = None"
  by (auto simp: first_def split: list.splits)

lemma chain_out: "(\<And>a. q = Some a \<Longrightarrow> a \<notin> set as) \<Longrightarrow>
   chain (if_some q (\<lambda>a. set_prev a x) st) p as n = chain st p as n \<and>
   chain (if_some q (\<lambda>a. set_next a x) st) p as n = chain st p as n"
  by (cases q) (auto simp: if_some_def)

lemma if_some_other: "q \<noteq> Some b \<Longrightarrow>
   if_some q (\<lambda>a. set_prev a x) st b = st b \<and> if_some q (\<lambda>a. set_next a x) st b = st b"
  by (cases q) (auto simp: if_some_def)

text \<open>Unlinking an entry from the middle, as \<^verbatim>\<open>moveToFront\<close> and \<^verbatim>\<open>remove\<close> both do.\<close>

definition unlink :: "addr \<Rightarrow> ('k, 'v) store \<Rightarrow> ('k, 'v) store" where
  "unlink e st =
     (let st = if_some (prev (deref st e)) (\<lambda>p. set_next p (next (deref st e))) st
      in if_some (next (deref st e)) (\<lambda>n. set_prev n (prev (deref st e))) st)"

lemma unlink_chain:
  assumes c: "chain st None (xs @ e # ys) None" and d: "distinct (xs @ e # ys)"
  shows "chain (unlink e st) None (xs @ ys) None" and "unlink e st e = st e"
    and "prev (deref st e) = final xs None" and "next (deref st e) = first ys None"
proof -
  show p: "prev (deref st e) = final xs None" and n: "next (deref st e) = first ys None" using c by auto
  define st1 where "st1 = if_some (final xs None) (\<lambda>p. set_next p (first ys None)) st"
  have e: "final xs None \<noteq> Some e" "first ys None \<noteq> Some e" using d final_in [of xs None e] first_in [of ys None e] by auto
  have st1e: "st1 e = st e" using e if_some_other by (metis st1_def)
  have u: "unlink e st = if_some (first ys None) (\<lambda>n. set_prev n (final xs None)) st1"
    using p n st1e by (simp add: unlink_def st1_def)
  show "unlink e st e = st e" using u st1e e if_some_other by metis
  have "chain st1 None xs (first ys None)" using chain_set_last [of xs st None "Some e" "first ys None"] c d by (simp add: st1_def)
  moreover have "chain st1 (Some e) ys None"
    using chain_out [of "final xs None" ys "first ys None" st "Some e" None] c d final_in [of xs None] by (force simp: st1_def)
  ultimately have "chain (unlink e st) None xs (first ys None)" "chain (unlink e st) (final xs None) ys None"
    using chain_out [of "first ys None" xs "final xs None" st1 None "first ys None"]
      chain_set_first [of ys st1 "Some e" None "final xs None"] d first_in [of ys None] by (force simp: u)+
  then show "chain (unlink e st) None (xs @ ys) None" by simp
qed

text \<open>Linking an entry at the front.\<close>

lemma link_chain:
  assumes "chain st None as None" "distinct (e # as)"
  shows "chain (if_some (first as None) (\<lambda>h. set_prev h (Some e)) (set_prev e None (set_next e (first as None) st))) None (e # as) None"
proof -
  define st1 where "st1 = set_prev e None (set_next e (first as None) st)"
  have "chain st1 None as None" using assms by (simp add: st1_def)
  then have "chain (if_some (first as None) (\<lambda>h. set_prev h (Some e)) st1) (Some e) as None"
    using chain_set_first [of as st1 None None "Some e"] assms by simp
  moreover have "if_some (first as None) (\<lambda>h. set_prev h (Some e)) st1 e = st1 e"
    using if_some_other [of "first as None" e] first_in [of as None e] assms(2) by auto
  ultimately show ?thesis by (simp add: st1_def [symmetric]) (simp add: st1_def)
qed

text \<open>The updates above change only the pointers.\<close>

definition same_data :: "('k, 'v) store \<Rightarrow> ('k, 'v) store \<Rightarrow> bool" where
  "same_data st st' \<longleftrightarrow> (\<forall>a. key (deref st' a) = key (deref st a) \<and> val (deref st' a) = val (deref st a))"

lemma same_data_refl [simp, intro]: "same_data st st"
  and same_data_prev [intro]: "same_data st0 st \<Longrightarrow> same_data st0 (set_prev a p st)"
  and same_data_next [intro]: "same_data st0 st \<Longrightarrow> same_data st0 (set_next a p st)"
  by (auto simp: same_data_def set_prev_def set_next_def)

lemma same_data_if_some [intro]:
  "same_data st0 st \<Longrightarrow> same_data st0 (if_some q (\<lambda>a. set_prev a p) st)"
  "same_data st0 st \<Longrightarrow> same_data st0 (if_some q (\<lambda>a. set_next a p) st)"
  by (auto simp: if_some_def split: option.splits)

section \<open>Refinement to a list in recency order\<close>

abbreviation pair_at :: "('k, 'v) Cache \<Rightarrow> addr \<Rightarrow> 'k \<times> 'v" where
  "pair_at c a \<equiv> (key (deref (store c) a), val (deref (store c) a))"

definition lru_at :: "('k, 'v) Cache \<Rightarrow> addr list \<Rightarrow> bool" where
  "lru_at c as \<longleftrightarrow> chain (store c) None as None \<and> distinct as \<and> chead c = first as None \<and> ctail c = final as None \<and>
     csize c = length as \<and> (\<forall>a \<in> set as. a < fresh c) \<and>
     (\<forall>k a. items c k = Some a \<longleftrightarrow> a \<in> set as \<and> key (deref (store c) a) = k)"

lemma lru_atD:
  assumes "lru_at c as"
  shows "chain (store c) None as None" "distinct as" "chead c = first as None" "ctail c = final as None"
    "csize c = length as" "\<And>a. a \<in> set as \<Longrightarrow> a < fresh c"
    "\<And>k a. items c k = Some a \<longleftrightarrow> a \<in> set as \<and> key (deref (store c) a) = k"
  using assms by (auto simp: lru_at_def)

lemma lru_keys_inj: "lru_at c as \<Longrightarrow> inj_on (\<lambda>a. key (deref (store c) a)) (set as)"
  by (rule inj_onI) (metis lru_atD(7) option.inject)

lemma lru_filter:
  assumes "lru_at c (xs @ e # ys)"
  shows "filter (\<lambda>p. fst p \<noteq> key (deref (store c) e)) (map (pair_at c) (xs @ e # ys)) = map (pair_at c) (xs @ ys)"
proof -
  have "key (deref (store c) a) \<noteq> key (deref (store c) e)" if "a \<in> set xs \<union> set ys" for a
    using that inj_onD [OF lru_keys_inj [OF assms], of a e] lru_atD(2) [OF assms] by auto
  then show ?thesis by (auto simp: filter_map comp_def filter_id_conv)
qed

lemma moveToFront_at:
  assumes at: "lru_at c (xs @ e # ys)"
  shows "lru_at (moveToFront c e) (e # xs @ ys)" and "same_data (store c) (store (moveToFront c e))"
    and "items (moveToFront c e) = items c" and "capacity (moveToFront c e) = capacity c" and "fresh (moveToFront c e) = fresh c"
proof -
  note d = lru_atD [OF at]
  note u = unlink_chain [OF d(1,2)]
  have "lru_at (moveToFront c e) (e # xs @ ys) \<and> same_data (store c) (store (moveToFront c e)) \<and>
     items (moveToFront c e) = items c \<and> capacity (moveToFront c e) = capacity c \<and> fresh (moveToFront c e) = fresh c"
  proof (cases "chead c = Some e")
    case True
    then have "xs = []" using d(2,3) by (cases xs) auto
    then show ?thesis using True at by (simp add: moveToFront_def)
  next
    case False
    then have xs: "xs \<noteq> []" using d(3) by (cases xs) auto
    then have h: "chead c = first (xs @ ys) None" using d(3) by (cases xs) auto
    define st where "st = if_some (first (xs @ ys) None) (\<lambda>h. set_prev h (Some e)) (set_prev e None (set_next e (first (xs @ ys) None) (unlink e (store c))))"
    define t where "t = (if Some e = ctail c then final xs None else ctail c)"
    have e1: "if_some (prev (deref (store c) e)) (\<lambda>p. set_next p (next (deref (store c) e))) (store c) e = store c e"
      using if_some_other [of "final xs None" e] u(3) final_in [of xs None e] d(2) by auto
    have mv: "moveToFront c e = c\<lparr>store := st, ctail := t, chead := Some e\<rparr>"
      using False u(2,3) e1 by (simp add: moveToFront_def unlink_def st_def t_def h Let_def)
    have "t = final (xs @ ys) None"
      using d(2,4) xs by (cases ys rule: rev_cases) (auto simp: t_def final_def)
    then have "t = final (e # xs @ ys) None" using xs by (simp add: final_def)
    moreover have "same_data (store c) st" unfolding st_def unlink_def Let_def by (intro same_data_if_some same_data_prev same_data_next same_data_refl)
    moreover have "chain st None (e # xs @ ys) None" unfolding st_def using u(1) d(2) by (intro link_chain) auto
    ultimately show ?thesis using d xs by (simp add: mv lru_at_def same_data_def)
  qed
  then show "lru_at (moveToFront c e) (e # xs @ ys)" "same_data (store c) (store (moveToFront c e))"
    "items (moveToFront c e) = items c" "capacity (moveToFront c e) = capacity c" "fresh (moveToFront c e) = fresh c" by auto
qed

lemma remove_last_at:
  assumes at: "lru_at c (xs @ [e])"
  shows "lru_at (removeOldest c) xs" and "same_data (store c) (store (removeOldest c))"
    and "capacity (removeOldest c) = capacity c"
proof -
  note d = lru_atD [OF at]
  have p: "prev (deref (store c) e) = final xs None" "next (deref (store c) e) = None" using d(1) by auto
  define st where "st = set_prev e None (set_next e None (if_some (final xs None) (\<lambda>p. set_next p None) (store c)))"
  define h where "h = (if xs = [] then None else chead c)"
  have ctail: "ctail c = Some e" using d(4) by simp
  have e: "final xs None \<noteq> Some e" using final_in [of xs None e] d(2) by auto
  have rm: "lru_remove c e = c\<lparr>store := st, chead := h, ctail := final xs None, csize := csize c - 1\<rparr>"
  proof (cases "final xs None")
    case None
    then show ?thesis using p by (simp add: lru_remove_def st_def h_def if_some_def)
  next
    case (Some q)
    then show ?thesis using p e by (auto simp: lru_remove_def st_def h_def if_some_def)
  qed
  have sd: "same_data (store c) st" unfolding st_def by (intro same_data_if_some same_data_prev same_data_next same_data_refl)
  have ro: "removeOldest c = c\<lparr>store := st, chead := h, ctail := final xs None, csize := csize c - 1,
      items := (items c)(key (deref (store c) e) := None)\<rparr>"
    using sd by (simp add: removeOldest_def ctail rm same_data_def)
  have "chain st None xs None"
    using chain_set_last [of xs "store c" None "Some e" None] d(1,2) by (simp add: st_def)
  moreover have "h = first xs None" using d(3) by (cases xs) (auto simp: h_def)
  moreover have "((items c)(key (deref (store c) e) := None)) k = Some a \<longleftrightarrow> a \<in> set xs \<and> key (deref st a) = k" for k a
    using d(2) d(7) [of k a] inj_onD [OF lru_keys_inj [OF at], of a e] sd by (auto simp: same_data_def)
  ultimately show "lru_at (removeOldest c) xs" "same_data (store c) (store (removeOldest c))" "capacity (removeOldest c) = capacity c"
    using d sd by (simp_all add: lru_at_def ro)
qed

lemma push_fresh_at:
  fixes c :: "('k, 'v) Cache" and v :: 'v
  assumes at: "lru_at c as" and k: "items c k = None"
  defines "c' \<equiv> c\<lparr>store := (store c)(fresh c \<mapsto> \<lparr>key = k, val = v, prev = None, next = None\<rparr>), fresh := fresh c + 1\<rparr>"
  defines "c2 \<equiv> (pushFront c' (fresh c))\<lparr>items := (items c)(k \<mapsto> fresh c)\<rparr>"
  shows "lru_at c2 (fresh c # as)" and "map (pair_at c2) (fresh c # as) = (k, v) # map (pair_at c) as" and "capacity c2 = capacity c"
proof -
  note d = lru_atD [OF at]
  let ?e = "fresh c"
  have e: "?e \<notin> set as" using d(6) by blast
  define st0 where "st0 = (store c)(?e \<mapsto> \<lparr>key = k, val = v, prev = None, next = None\<rparr>)"
  define st where "st = if_some (first as None) (\<lambda>h. set_prev h (Some ?e)) (set_prev ?e None (set_next ?e (first as None) st0))"
  have "chain st0 None as None = chain (store c) None as None" using e by (intro chain_frame) (auto simp: st0_def)
  then have "chain st0 None as None" using d(1) by simp
  then have ch: "chain st None (?e # as) None" unfolding st_def using e d(2) by (intro link_chain) auto
  have sd: "same_data st0 st" unfolding st_def by (intro same_data_if_some same_data_prev same_data_next same_data_refl)
  have c2: "c2 = c\<lparr>store := st, chead := Some ?e, ctail := final (?e # as) None, csize := csize c + 1,
      items := (items c)(k \<mapsto> ?e), fresh := ?e + 1\<rparr>"
  proof (cases as)
    case Nil
    then show ?thesis using d(3,4) by (simp add: c2_def c'_def pushFront_def st_def if_some_def st0_def set_prev_def set_next_def)
  next
    case (Cons h t)
    then show ?thesis using d(3,4) by (simp add: c2_def c'_def pushFront_def st_def if_some_def st0_def final_def)
  qed
  have data: "key (deref st ?e) = k" "val (deref st ?e) = v"
    "\<And>a. a \<in> set as \<Longrightarrow> key (deref st a) = key (deref (store c) a) \<and> val (deref st a) = val (deref (store c) a)"
    using sd e by (auto simp: same_data_def st0_def)
  have nk: "key (deref (store c) a) \<noteq> k" if "a \<in> set as" for a using d(7) [of k a] k that by auto
  have "((items c)(k \<mapsto> ?e)) k' = Some a \<longleftrightarrow> a \<in> set (?e # as) \<and> key (deref st a) = k'" for k' a
    using d(7) [of k' a] data nk e by auto
  moreover have "a < fresh c + 1" if "a \<in> set (?e # as)" for a using d(6) [of a] that by auto
  ultimately show "lru_at c2 (?e # as)" using ch d(2,5) e by (simp add: lru_at_def c2 del: chain.simps final_simps fun_upd_apply)
  show "map (pair_at c2) (?e # as) = (k, v) # map (pair_at c) as" using data by (simp add: c2)
  show "capacity c2 = capacity c" by (simp add: c2)
qed

text \<open>The abstract cache: keys and values, most recently used first.\<close>

definition spec_get :: "('k \<times> 'v) list \<Rightarrow> 'k \<Rightarrow> ('k \<times> 'v) list \<times> 'v option" where
  "spec_get l k = (case map_of l k of None \<Rightarrow> (l, None) | Some v \<Rightarrow> ((k, v) # filter (\<lambda>p. fst p \<noteq> k) l, Some v))"

definition spec_set :: "nat \<Rightarrow> ('k \<times> 'v) list \<Rightarrow> 'k \<Rightarrow> 'v \<Rightarrow> ('k \<times> 'v) list" where
  "spec_set cap l k v = take cap ((k, v) # filter (\<lambda>p. fst p \<noteq> k) l)"

definition lru_rel :: "('k, 'v) Cache \<Rightarrow> ('k \<times> 'v) list \<Rightarrow> bool" where
  "lru_rel c l \<longleftrightarrow> (\<exists>as. lru_at c as \<and> l = map (pair_at c) as \<and> length as \<le> capacity c \<and> 0 < capacity c)"

lemma lru_map_of:
  assumes "lru_at c as"
  shows "map_of (map (pair_at c) as) k = map_option (\<lambda>a. val (deref (store c) a)) (items c k)"
proof (cases "items c k")
  case None
  then have "a \<in> set as \<Longrightarrow> key (deref (store c) a) \<noteq> k" for a using lru_atD(7) [OF assms, of k a] by auto
  then have "k \<notin> fst ` set (map (pair_at c) as)" by force
  then show ?thesis using None by (simp add: map_of_eq_None_iff)
next
  case (Some a)
  have "distinct (map fst (map (pair_at c) as))"
    using lru_atD(2) [OF assms] lru_keys_inj [OF assms] by (simp add: distinct_map comp_def)
  moreover have "(k, val (deref (store c) a)) \<in> set (map (pair_at c) as)" using lru_atD(7) [OF assms, of k a] Some by force
  ultimately show ?thesis using Some by (simp add: map_of_is_SomeI)
qed

lemma same_data_pairs: "same_data (store c) (store c') \<Longrightarrow> pair_at c' = pair_at c"
  by (auto simp: same_data_def)

lemma lru_Get_refines:
  assumes "lru_rel c l"
  shows "\<exists>c'. lru_Get c k = (c', snd (spec_get l k)) \<and> lru_rel c' (fst (spec_get l k)) \<and> capacity c' = capacity c"
proof -
  obtain as where at: "lru_at c as" and l: "l = map (pair_at c) as" "length as \<le> capacity c" "0 < capacity c"
    using assms by (auto simp: lru_rel_def)
  show ?thesis
  proof (cases "items c k")
    case None
    then show ?thesis using assms lru_map_of [OF at, of k] l by (auto simp: lru_Get_def spec_get_def)
  next
    case (Some e)
    then have e: "e \<in> set as" "key (deref (store c) e) = k" using lru_atD(7) [OF at] by auto
    then obtain xs ys where as: "as = xs @ e # ys" by (meson split_list)
    note m = moveToFront_at [OF at [unfolded as]]
    have "lru_Get c k = (moveToFront c e, Some (val (deref (store c) e)))"
      using Some m(2) by (simp add: lru_Get_def same_data_def)
    moreover have "spec_get l k = (map (pair_at c) (e # xs @ ys), Some (val (deref (store c) e)))"
      using lru_map_of [OF at, of k] lru_filter [OF at [unfolded as]] Some e l as by (simp add: spec_get_def)
    moreover have "lru_rel (moveToFront c e) (map (pair_at c) (e # xs @ ys))"
      using m(1,4) l as same_data_pairs [OF m(2)] unfolding lru_rel_def by (intro exI [of _ "e # xs @ ys"]) simp
    ultimately show ?thesis using m(4) by simp
  qed
qed

lemma chain_val: "chain (st(e \<mapsto> (deref st e)\<lparr>val := v\<rparr>)) p as n \<longleftrightarrow> chain st p as n" if "st e \<noteq> None" for st :: "('k, 'v) store"
  using that by (induction as arbitrary: p) auto

lemma lru_Set_hit:
  assumes at: "lru_at c as" and k: "items c k = Some e"
  shows "\<exists>bs. lru_at (lru_Set c k v) bs \<and> map (pair_at (lru_Set c k v)) bs = (k, v) # filter (\<lambda>p. fst p \<noteq> k) (map (pair_at c) as) \<and>
    length bs = length as \<and> capacity (lru_Set c k v) = capacity c"
proof -
  have e: "e \<in> set as" "key (deref (store c) e) = k" using lru_atD(7) [OF at] k by auto
  then obtain xs ys where as: "as = xs @ e # ys" by (meson split_list)
  note m = moveToFront_at [OF at [unfolded as]]
  define c1 where "c1 = moveToFront c e"
  have s: "lru_Set c k v = c1\<lparr>store := (store c1)(e \<mapsto> (deref (store c1) e)\<lparr>val := v\<rparr>)\<rparr>"
    using k by (simp add: lru_Set_def c1_def Let_def)
  have at1: "lru_at c1 (e # xs @ ys)" using m(1) by (simp add: c1_def)
  then have "store c1 e \<noteq> None" by (simp add: lru_at_def)
  then have at2: "lru_at (lru_Set c k v) (e # xs @ ys)" using at1 chain_val [of "store c1" e v] by (simp add: lru_at_def s)
  have pairs: "pair_at c1 a = pair_at c a" for a using same_data_pairs [OF m(2)] by (metis c1_def)
  have "e \<notin> set (xs @ ys)" using lru_atD(2) [OF at1] by simp
  then have "map (pair_at (lru_Set c k v)) (e # xs @ ys) = (k, v) # map (pair_at c) (xs @ ys)"
    using pairs e by (auto simp: s)
  then show ?thesis using at2 lru_filter [OF at [unfolded as]] e as m(4) by (intro exI [of _ "e # xs @ ys"]) (simp add: s c1_def)
qed

lemma lru_Set_refines:
  assumes "lru_rel c l"
  shows "lru_rel (lru_Set c k v) (spec_set (capacity c) l k v) \<and> capacity (lru_Set c k v) = capacity c"
proof -
  obtain as where at: "lru_at c as" and l: "l = map (pair_at c) as" "length as \<le> capacity c" "0 < capacity c"
    using assms by (auto simp: lru_rel_def)
  show ?thesis
  proof (cases "items c k")
    case (Some e)
    then obtain bs where b: "lru_at (lru_Set c k v) bs" "length bs = length as" "capacity (lru_Set c k v) = capacity c"
      "map (pair_at (lru_Set c k v)) bs = (k, v) # filter (\<lambda>p. fst p \<noteq> k) l"
      using lru_Set_hit [OF at Some, of v] l by auto
    have "length (map (pair_at (lru_Set c k v)) bs) \<le> capacity c" using b(2) l by simp
    then have "length ((k, v) # filter (\<lambda>p. fst p \<noteq> k) l) \<le> capacity c" by (simp only: b(4))
    then show ?thesis using b l unfolding lru_rel_def spec_set_def by (intro conjI exI [of _ bs]) simp_all
  next
    case None
    define c' where "c' = c\<lparr>store := (store c)(fresh c \<mapsto> \<lparr>key = k, val = v, prev = None, next = None\<rparr>), fresh := fresh c + 1\<rparr>"
    define c2 where "c2 = (pushFront c' (fresh c))\<lparr>items := (items c)(k \<mapsto> fresh c)\<rparr>"
    note p = push_fresh_at [OF at None, of v, folded c'_def, folded c2_def]
    have "map_of l k = None" using lru_map_of [OF at, of k] None l by simp
    then have f: "filter (\<lambda>p. fst p \<noteq> k) l = l" by (auto simp: map_of_eq_None_iff filter_id_conv)
    have i: "items (pushFront c' (fresh c)) = items c" by (simp add: pushFront_def c'_def Let_def split: option.splits)
    have s: "lru_Set c k v = (if capacity c2 < csize c2 then removeOldest c2 else c2)"
      by (simp only: lru_Set_def None option.case Let_def c2_def c'_def [symmetric] i)
    have sz: "csize c2 = Suc (length as)" using lru_atD(5) [OF p(1)] by simp
    show ?thesis
    proof (cases "length as < capacity c")
      case True
      then show ?thesis using s sz p l f unfolding lru_rel_def spec_set_def by (intro conjI exI [of _ "fresh c # as"]) simp_all
    next
      case False
      then have len: "length as = capacity c" using l by simp
      define xs e where "xs = butlast (fresh c # as)" and "e = last (fresh c # as)"
      have xe: "fresh c # as = xs @ [e]" by (simp add: xs_def e_def)
      note r = remove_last_at [OF p(1) [unfolded xe]]
      have "length xs = capacity c" using len l(3) by (auto simp: xs_def)
      moreover have "map (pair_at (removeOldest c2)) xs = take (capacity c) ((k, v) # l)"
      proof -
        have "take (capacity c) ((k, v) # l) = take (length xs) (map (pair_at c2) (xs @ [e]))"
          using p(2) l(1) xe \<open>length xs = capacity c\<close> by metis
        then show ?thesis using same_data_pairs [OF r(2)] by simp
      qed
      ultimately show ?thesis using s sz p l f r len unfolding lru_rel_def spec_set_def by (intro conjI exI [of _ xs]) simp_all
    qed
  qed
qed

lemma lru_New_rel: "lru_rel (lru_New n) []"
  by (auto simp: lru_rel_def lru_at_def lru_New_def)

lemma lru_New_inv: "\<exists>l. lru_rel (lru_New n) l"
  using lru_New_rel by blast

lemma lru_Clear_rel: "lru_rel c l \<Longrightarrow> lru_rel (lru_Clear c) []"
  by (auto simp: lru_rel_def lru_at_def lru_Clear_def)

lemma lru_rel_Len: "lru_rel c l \<Longrightarrow> lru_Len c = length l \<and> length l \<le> capacity c"
  by (auto simp: lru_rel_def lru_at_def lru_Len_def)

definition lru_look :: "('k, 'v) Cache \<Rightarrow> 'k \<rightharpoonup> 'v" where
  "lru_look c k = map_option (\<lambda>e. val (deref (store c) e)) (items c k)"

lemma lru_rel_look: "lru_rel c l \<Longrightarrow> lru_look c = map_of l"
  using lru_map_of by (force simp: lru_rel_def lru_look_def)

lemma map_of_filter_key: "map_of ((k, v) # filter (\<lambda>p. fst p \<noteq> k) l) = (map_of l)(k \<mapsto> v)"
proof (rule ext)
  fix j
  have "j \<noteq> k \<Longrightarrow> map_of (filter (\<lambda>p. fst p \<noteq> k) l) j = map_of l j" by (induction l) auto
  then show "map_of ((k, v) # filter (\<lambda>p. fst p \<noteq> k) l) j = ((map_of l)(k \<mapsto> v)) j" by simp
qed

lemma spec_get_look: "snd (spec_get l k) = map_of l k" "map_of (fst (spec_get l k)) = map_of l"
  by (auto simp: spec_get_def map_of_filter_key fun_upd_triv simp del: map_of.simps split: option.splits)

lemma spec_set_look: "0 < cap \<Longrightarrow> map_of (spec_set cap l k v) k = Some v"
  by (cases cap) (auto simp: spec_set_def)

lemma map_of_take: "distinct (map fst l) \<Longrightarrow> map_of (take n l) \<subseteq>\<^sub>m map_of l"
  by (auto simp: map_le_def) (metis in_set_takeD map_of_SomeD map_of_is_SomeI)

interpretation lru_refines: cache_refinement lru_rel capacity lru_Get lru_Set spec_get spec_set
  by unfold_locales (rule lru_Get_refines, assumption, rule lru_Set_refines)

lemma lru_rel_distinct: "lru_rel c l \<Longrightarrow> distinct (map fst l)"
proof -
  assume "lru_rel c l"
  then obtain as where as: "lru_at c as" "map fst l = map (\<lambda>a. key (deref (store c) a)) as" by (auto simp: lru_rel_def)
  then show ?thesis by (simp add: distinct_map lru_keys_inj lru_atD(2))
qed

lemma spec_set_map_le: "distinct (map fst l) \<Longrightarrow> map_of (spec_set cap l k v) \<subseteq>\<^sub>m (map_of l)(k \<mapsto> v)"
proof -
  assume d: "distinct (map fst l)"
  have "(map_of l)(k \<mapsto> v) = map_of ((k, v) # filter (\<lambda>p. fst p \<noteq> k) l)"
    by (rule map_of_filter_key [symmetric])
  moreover have "distinct (map fst ((k, v) # filter (\<lambda>p. fst p \<noteq> k) l))"
    using d by (auto simp: distinct_map_filter)
  ultimately show ?thesis using map_of_take [of "(k, v) # filter (\<lambda>p. fst p \<noteq> k) l" cap] by (simp only: spec_set_def)
qed

interpretation lru_cache: bounded_cache lru_look "\<lambda>c. \<exists>l. lru_rel c l" capacity lru_Get lru_Set
proof (unfold_locales, goal_cases)
  case (1 c k c' r)
  then obtain l where l: "lru_rel c l" by blast
  obtain c1 where g: "lru_Get c k = (c1, snd (spec_get l k))" "lru_rel c1 (fst (spec_get l k))" "capacity c1 = capacity c"
    using lru_Get_refines [OF l, of k] by auto
  then show ?case using 1(2) lru_rel_look [OF l] lru_rel_look [OF g(2)] spec_get_look [of l k] by auto
next
  case (2 c k v)
  then obtain l where l: "lru_rel c l" by blast
  note s = lru_Set_refines [OF l, of k v]
  have "0 < capacity c" using l by (auto simp: lru_rel_def)
  then show ?case
    using s lru_rel_look [OF l] lru_rel_look [OF conjunct1 [OF s]] spec_set_look spec_set_map_le [OF lru_rel_distinct [OF l]] by auto
next
  case (3 c)
  then obtain l where l: "lru_rel c l" by blast
  have "card (dom (lru_look c)) \<le> length l" using lru_rel_look [OF l] by (metis card_length dom_map_of_conv_image_fst length_map set_map)
  then show ?case using lru_rel_Len [OF l] by simp
qed

text \<open>
  C33: The pointer-linked LRU cache is the least-recently-used cache.  For every capacity and every sequence of \<^verbatim>\<open>Get\<close>s
  and \<^verbatim>\<open>Set\<close>s the answers are those of a list of pairs in recency order, where a hit moves the pair to the front and a \<^verbatim>\<open>Set\<close> puts the
  pair in front and cuts the list at the capacity, so exactly the least recently used key is evicted; \<^verbatim>\<open>Len\<close> is the
  length of that list and never exceeds the capacity; and no answer is a stale value.
\<close>

theorem lru_correct:
  "(let (c, rs) = run_cache lru_Get lru_Set ops (lru_New n);
        (l, rs') = run_cache spec_get (spec_set (max 1 (nat n))) ops []
    in rs = rs' \<and> lru_look c = map_of l \<and> lru_Len c = length l \<and> lru_Len c \<le> max 1 (nat n) \<and>
       hit_or_miss rs (ideal_gets ops Map.empty))"
proof -
  obtain c rs where r: "run_cache lru_Get lru_Set ops (lru_New n) = (c, rs)" by fastforce
  have cap: "capacity (lru_New n) = max 1 (nat n)" by (auto simp: lru_New_def)
  obtain l where l: "run_cache spec_get (spec_set (max 1 (nat n))) ops [] = (l, rs)" "lru_rel c l" "capacity c = max 1 (nat n)"
    using lru_refines.run_refines [OF lru_New_rel r] by (auto simp: cap)
  have "hit_or_miss rs (ideal_gets ops Map.empty)"
    using lru_cache.run_fresh [OF lru_New_inv _ r, of Map.empty] by (simp add: lru_rel_look [OF lru_New_rel])
  then show ?thesis using l lru_rel_look [OF l(2)] lru_rel_Len [OF l(2)] by (simp add: r)
qed

end
