(* ===== verification/Lfu.thy ===== *)
theory Lfu
  imports Cache_Spec
begin

text \<open>
  \<^verbatim>\<open>pkg/datastructures/lfu\<close>: the least-frequently-used cache with one list per frequency.  A list element is
  identified by the key of its entry, which is stored once; the library lists of the source
  (\<^verbatim>\<open>container/list\<close>) are lists of keys, front first.
\<close>

section \<open>The code\<close>

record 'v lfu_entry =
  evalue :: 'v
  freq :: nat

record ('k, 'v) LfuCache =
  lcapacity :: nat
  litems :: "('k \<times> 'v lfu_entry) list"
  freqs :: "nat \<rightharpoonup> 'k list"
  minFreq :: nat

definition lfu_New :: "int \<Rightarrow> ('k, 'v) LfuCache" where
  "lfu_New capacity = \<lparr>lcapacity = (if capacity \<le> 0 then 1 else nat capacity), litems = [], freqs = Map.empty, minFreq = 0\<rparr>"

definition list_or_new :: "(nat \<rightharpoonup> 'k list) \<Rightarrow> nat \<Rightarrow> 'k list" where
  "list_or_new fs f = (case fs f of None \<Rightarrow> [] | Some l \<Rightarrow> l)"

definition incrementFreq :: "('k, 'v) LfuCache \<Rightarrow> 'k \<Rightarrow> 'v lfu_entry \<Rightarrow> ('k, 'v) LfuCache" where
  "incrementFreq c k e =
     (let oldFreq = freq e;
          e = e\<lparr>freq := freq e + 1\<rparr>;
          l = remove1 k (the (freqs c oldFreq));
          c = c\<lparr>freqs := (freqs c)(oldFreq \<mapsto> l)\<rparr>;
          c = (if length l = 0
               then (let c = c\<lparr>freqs := (freqs c)(oldFreq := None)\<rparr>
                     in if minFreq c = oldFreq then c\<lparr>minFreq := minFreq c + 1\<rparr> else c)
               else c);
          c = c\<lparr>freqs := (freqs c)(freq e \<mapsto> k # list_or_new (freqs c) (freq e))\<rparr>
      in c\<lparr>litems := AList.update k e (litems c)\<rparr>)"

definition lfu_evict :: "('k, 'v) LfuCache \<Rightarrow> ('k, 'v) LfuCache" where
  "lfu_evict c =
     (case freqs c (minFreq c) of
        None \<Rightarrow> c
      | Some l \<Rightarrow>
          if l = [] then c
          else (let k = last l;
                    l = remove1 k l;
                    c = c\<lparr>freqs := (freqs c)(minFreq c \<mapsto> l), litems := AList.delete k (litems c)\<rparr>
                in if length l = 0 then c\<lparr>freqs := (freqs c)(minFreq c := None)\<rparr> else c))"

definition lfu_Get :: "('k, 'v) LfuCache \<Rightarrow> 'k \<Rightarrow> ('k, 'v) LfuCache \<times> 'v option" where
  "lfu_Get c k =
     (case map_of (litems c) k of
        Some e \<Rightarrow> (incrementFreq c k e, Some (evalue e))
      | None \<Rightarrow> (c, None))"

definition lfu_Set :: "('k, 'v) LfuCache \<Rightarrow> 'k \<Rightarrow> 'v \<Rightarrow> ('k, 'v) LfuCache" where
  "lfu_Set c k v =
     (case map_of (litems c) k of
        Some e \<Rightarrow> incrementFreq c k (e\<lparr>evalue := v\<rparr>)
      | None \<Rightarrow>
          (let c = (if lcapacity c \<le> length (litems c) then lfu_evict c else c)
           in c\<lparr>freqs := (freqs c)(1 \<mapsto> k # list_or_new (freqs c) 1),
                litems := AList.update k \<lparr>evalue = v, freq = 1\<rparr> (litems c), minFreq := 1\<rparr>))"

definition lfu_Len :: "('k, 'v) LfuCache \<Rightarrow> nat" where
  "lfu_Len c = length (litems c)"

section \<open>Refinement to one list in recency order\<close>

text \<open>The abstract state: key, value and use count, the most recently used first.\<close>

type_synonym ('k, 'v) uses = "('k \<times> 'v \<times> nat) list"

abbreviation cnt :: "'k \<times> 'v \<times> nat \<Rightarrow> nat" where
  "cnt p \<equiv> snd (snd p)"

definition others :: "'k \<Rightarrow> ('k \<times> 'b) list \<Rightarrow> ('k \<times> 'b) list" where
  "others k l = filter (\<lambda>p. fst p \<noteq> k) l"

definition uses_get :: "('k, 'v) uses \<Rightarrow> 'k \<Rightarrow> ('k, 'v) uses \<times> 'v option" where
  "uses_get l k = (case map_of l k of None \<Rightarrow> (l, None) | Some (v, f) \<Rightarrow> ((k, v, Suc f) # others k l, Some v))"

text \<open>Evict, among the keys with the least use count, the one used longest ago.\<close>

definition uses_evict :: "('k, 'v) uses \<Rightarrow> ('k, 'v) uses" where
  "uses_evict l = others (fst (last (filter (\<lambda>p. cnt p = Min (cnt ` set l)) l))) l"

definition uses_set :: "nat \<Rightarrow> ('k, 'v) uses \<Rightarrow> 'k \<Rightarrow> 'v \<Rightarrow> ('k, 'v) uses" where
  "uses_set cap l k v =
     (case map_of l k of
        Some (_, f) \<Rightarrow> (k, v, Suc f) # others k l
      | None \<Rightarrow> (k, v, 1) # (if cap \<le> length l then uses_evict l else l))"

text \<open>The frequency lists are the sublists of one use count.\<close>

definition bucket :: "('k, 'v) uses \<Rightarrow> nat \<rightharpoonup> 'k list" where
  "bucket l f = (let b = filter (\<lambda>p. cnt p = f) l in if b = [] then None else Some (map fst b))"

definition is_min :: "nat \<Rightarrow> ('k, 'v) uses \<Rightarrow> bool" where
  "is_min m l \<longleftrightarrow> (\<exists>p \<in> set l. cnt p = m) \<and> (\<forall>p \<in> set l. m \<le> cnt p)"

definition lfu_rel :: "('k, 'v) LfuCache \<Rightarrow> ('k, 'v) uses \<Rightarrow> bool" where
  "lfu_rel c l \<longleftrightarrow> distinct (map fst l) \<and> distinct (map fst (litems c)) \<and> length (litems c) = length l \<and>
     (\<forall>k. map_of (litems c) k = map_option (\<lambda>(v, f). \<lparr>evalue = v, freq = f\<rparr>) (map_of l k)) \<and>
     freqs c = bucket l \<and> (l \<noteq> [] \<longrightarrow> is_min (minFreq c) l) \<and> (\<forall>p \<in> set l. 1 \<le> cnt p) \<and>
     length l \<le> lcapacity c \<and> 0 < lcapacity c"

lemma lfu_relD:
  assumes "lfu_rel c l"
  shows "distinct (map fst l)" "distinct (map fst (litems c))" "length (litems c) = length l"
    "map_of (litems c) k = map_option (\<lambda>(v, f). \<lparr>evalue = v, freq = f\<rparr>) (map_of l k)"
    "freqs c = bucket l" "l \<noteq> [] \<Longrightarrow> is_min (minFreq c) l" "p \<in> set l \<Longrightarrow> 1 \<le> cnt p"
    "length l \<le> lcapacity c" "0 < lcapacity c"
  using assms by (auto simp: lfu_rel_def)

lemma list_or_new_bucket: "list_or_new (bucket l) f = map fst (filter (\<lambda>p. cnt p = f) l)"
  by (simp add: list_or_new_def bucket_def Let_def)

lemma bucket_Cons: "bucket ((k, v, f) # l) = (bucket l)(f \<mapsto> k # list_or_new (bucket l) f)"
  by (auto simp: fun_eq_iff list_or_new_bucket) (auto simp: bucket_def)

lemma others_notin: "k \<notin> fst ` set l \<Longrightarrow> others k l = l"
  by (auto simp: others_def filter_id_conv image_iff)

lemma remove1_others:
  "distinct (map fst l) \<Longrightarrow> remove1 k (map fst (filter P l)) = map fst (filter P (others k l))"
proof (induction l)
  case (Cons p l)
  show ?case
  proof (cases "fst p = k")
    case True
    then have "k \<notin> fst ` set l" using Cons.prems by auto
    then have "k \<notin> set (map fst (filter P l))" "others k (p # l) = l" using True others_notin [of k l] by (auto simp: others_def)
    then show ?thesis using True by (simp add: remove1_idem)
  next
    case False
    then show ?thesis using Cons by (simp add: others_def)
  qed
qed (simp add: others_def)

lemma bucket_others_other: "distinct (map fst l) \<Longrightarrow> (k, v, f) \<in> set l \<Longrightarrow> g \<noteq> f \<Longrightarrow> bucket (others k l) g = bucket l g"
proof -
  assume a: "distinct (map fst l)" "(k, v, f) \<in> set l" "g \<noteq> f"
  have "fst p \<noteq> k" if "p \<in> set l" "cnt p = g" for p
    using that a by (metis (no_types, lifting) eq_key_imp_eq_value prod.collapse snd_conv)
  then have "filter (\<lambda>p. cnt p = g) (others k l) = filter (\<lambda>p. cnt p = g) l"
    by (auto simp: others_def intro!: filter_cong)
  then show ?thesis by (simp add: bucket_def)
qed

lemma bucket_remove:
  assumes "distinct (map fst l)" "(k, v, f) \<in> set l"
  shows "bucket (others k l) = (let b = remove1 k (the (bucket l f)) in if b = [] then (bucket l)(f := None) else (bucket l)(f \<mapsto> b))"
proof (rule ext)
  fix g
  have "filter (\<lambda>p. cnt p = f) l \<noteq> []" using assms(2) by (force simp: filter_empty_conv)
  then have b: "the (bucket l f) = map fst (filter (\<lambda>p. cnt p = f) l)" by (auto simp: bucket_def)
  show "bucket (others k l) g = (let b = remove1 k (the (bucket l f)) in if b = [] then (bucket l)(f := None) else (bucket l)(f \<mapsto> b)) g"
    using bucket_others_other [OF assms, of g] remove1_others [OF assms(1), of k "\<lambda>p. cnt p = f"]
    by (cases "g = f") (auto simp: b Let_def bucket_def [of "others k l" f])
qed

lemma distinct_others: "distinct (map fst l) \<Longrightarrow> distinct (map fst (others k l))"
  by (simp add: others_def distinct_map_filter)

lemma map_of_others: "map_of (others k l) j = (if j = k then None else map_of l j)"
  by (induction l) (auto simp: others_def)

lemma length_others:
  "distinct (map fst l) \<Longrightarrow> map_of l k = Some x \<Longrightarrow> Suc (length (others k l)) = length l"
proof (induction l)
  case (Cons p l)
  show ?case
  proof (cases "fst p = k")
    case True
    then have "others k l = l" using Cons.prems(1) by (intro others_notin) auto
    then show ?thesis using True by (simp add: others_def)
  next
    case False
    then show ?thesis using Cons by (cases p) (auto simp: others_def)
  qed
qed simp

lemma length_alist_update: "length (AList.update k v al) = (if map_of al k = None then Suc (length al) else length al)"
  by (induction al) auto

lemma length_alist_delete:
  "distinct (map fst al) \<Longrightarrow> map_of al k = Some x \<Longrightarrow> Suc (length (AList.delete k al)) = length al"
proof -
  assume "distinct (map fst al)" "map_of al k = Some x"
  moreover have "AList.delete k al = others k al" by (auto simp: others_def AList.delete_eq intro!: filter_cong)
  ultimately show ?thesis using length_others [of al k x] by simp
qed

lemma is_min_Min: "is_min m l \<Longrightarrow> Min (cnt ` set l) = m"
  by (auto simp: is_min_def intro!: Min_eqI)

text \<open>One use more: the least count moves up only when its last key does.\<close>

lemma is_min_touch:
  assumes d: "distinct (map fst l)" and k: "(k, v, f) \<in> set l" and m: "is_min m l"
  shows "is_min (if bucket (others k l) f = None \<and> m = f then m + 1 else m) ((k, w, Suc f) # others k l)"
proof -
  have o: "p \<in> set (others k l) \<longleftrightarrow> p \<in> set l \<and> fst p \<noteq> k" for p by (auto simp: others_def)
  have uniq: "p = (k, v, f)" if "p \<in> set l" "fst p = k" for p
    using that d k by (metis eq_key_imp_eq_value prod.collapse)
  obtain q where q: "q \<in> set l" "cnt q = m" and le: "\<And>p. p \<in> set l \<Longrightarrow> m \<le> cnt p" using m by (auto simp: is_min_def)
  have mf: "m \<le> f" using le [OF k] by simp
  have none: "bucket (others k l) f = None \<longleftrightarrow> (\<forall>p \<in> set (others k l). cnt p \<noteq> f)"
    by (auto simp: bucket_def Let_def filter_empty_conv)
  show ?thesis
  proof (cases "bucket (others k l) f = None \<and> m = f")
    case True
    then have "Suc f \<le> cnt p" if "p \<in> set (others k l)" for p
      using that le [of p] none o by (metis le_neq_implies_less Suc_leI)
    then show ?thesis using True by (auto simp: is_min_def)
  next
    case False
    have "\<exists>p \<in> set (others k l). cnt p = m"
    proof (cases "m = f")
      case True
      then show ?thesis using False none by auto
    next
      case False
      then have "q \<in> set (others k l)" using q uniq o by fastforce
      then show ?thesis using q by blast
    qed
    then show ?thesis using False le o mf by (auto simp: is_min_def)
  qed
qed

lemma incrementFreq_refines:
  assumes r: "lfu_rel c l" and k: "map_of l k = Some (v, f)"
  shows "lfu_rel (incrementFreq c k \<lparr>evalue = w, freq = f\<rparr>) ((k, w, Suc f) # others k l) \<and>
    lcapacity (incrementFreq c k \<lparr>evalue = w, freq = f\<rparr>) = lcapacity c"
proof -
  note d = lfu_relD [OF r]
  have kl: "(k, v, f) \<in> set l" using k by (rule map_of_SomeD)
  then have ne: "l \<noteq> []" by auto
  define mf where "mf = (if bucket (others k l) f = None \<and> minFreq c = f then minFreq c + 1 else minFreq c)"
  have b: "bucket (others k l) = (if remove1 k (the (freqs c f)) = [] then (freqs c)(f := None) else (freqs c)(f \<mapsto> remove1 k (the (freqs c f))))"
    using bucket_remove [OF d(1) kl] d(5) by (simp add: Let_def)
  have "incrementFreq c k \<lparr>evalue = w, freq = f\<rparr> = c\<lparr>freqs := bucket ((k, w, Suc f) # others k l), minFreq := mf,
      litems := AList.update k \<lparr>evalue = w, freq = Suc f\<rparr> (litems c)\<rparr>"
    unfolding bucket_Cons by (simp add: incrementFreq_def Let_def b mf_def)
  moreover have "is_min mf ((k, w, Suc f) # others k l)"
    unfolding mf_def by (rule is_min_touch [OF d(1) kl d(6) [OF ne]])
  moreover have "length (AList.update k \<lparr>evalue = w, freq = Suc f\<rparr> (litems c)) = length ((k, w, Suc f) # others k l)"
    using d(3) d(4) [of k] k length_others [OF d(1) k] by (simp add: length_alist_update)
  moreover have "distinct (map fst ((k, w, Suc f) # others k l))" using distinct_others [OF d(1), of k] by (auto simp: others_def)
  moreover have "\<forall>p \<in> set ((k, w, Suc f) # others k l). 1 \<le> cnt p" using d(7) by (auto simp: others_def)
  ultimately show ?thesis using d(2,8,9) d(4) length_others [OF d(1) k] distinct_update [OF d(2)]
    by (simp add: lfu_rel_def update_conv' map_of_others)
qed

lemma lfu_evict_refines:
  assumes r: "lfu_rel c l" and ne: "l \<noteq> []"
  shows "freqs (lfu_evict c) = bucket (uses_evict l) \<and> lcapacity (lfu_evict c) = lcapacity c \<and>
    Suc (length (litems (lfu_evict c))) = length l \<and> Suc (length (uses_evict l)) = length l \<and>
    distinct (map fst (litems (lfu_evict c))) \<and> distinct (map fst (uses_evict l)) \<and> set (uses_evict l) \<subseteq> set l \<and>
    (\<forall>j. map_of (litems (lfu_evict c)) j = map_option (\<lambda>(v, f). \<lparr>evalue = v, freq = f\<rparr>) (map_of (uses_evict l) j))"
proof -
  note d = lfu_relD [OF r]
  let ?m = "minFreq c" and ?b = "filter (\<lambda>p. cnt p = minFreq c) l"
  have m: "is_min ?m l" by (rule d(6) [OF ne])
  then have b: "?b \<noteq> []" by (auto simp: is_min_def filter_empty_conv)
  define x where "x = last ?b"
  have "x \<in> set ?b" unfolding x_def using b by (rule last_in_set)
  then have "x \<in> set l" "cnt x = ?m" by auto
  then obtain k v where x: "x = (k, v, ?m)" "(k, v, ?m) \<in> set l" by (metis prod.collapse)
  have fb: "freqs c ?m = Some (map fst ?b)" using b d(5) by (simp add: bucket_def)
  have k: "last (map fst ?b) = k" using x b by (simp add: last_map x_def)
  have u: "uses_evict l = others k l" using is_min_Min [OF m] x by (simp add: uses_evict_def x_def)
  have ml: "map_of l k = Some (v, ?m)" using x(2) d(1) by simp
  have e: "lfu_evict c = c\<lparr>freqs := bucket (others k l), litems := AList.delete k (litems c)\<rparr>"
    using bucket_remove [OF d(1) x(2)] fb b k d(5) by (simp add: lfu_evict_def Let_def)
  have "Suc (length (AList.delete k (litems c))) = length l"
    using length_alist_delete [OF d(2), of k] d(3) d(4) [of k] ml by auto
  moreover have "set (others k l) \<subseteq> set l" by (auto simp: others_def)
  moreover have "map_of (AList.delete k (litems c)) j = map_option (\<lambda>(v, f). \<lparr>evalue = v, freq = f\<rparr>) (map_of (others k l) j)" for j
    using d(4) [of j] by (simp add: map_of_others delete_conv')
  ultimately show ?thesis using length_others [OF d(1) ml] distinct_others [OF d(1)] distinct_delete [OF d(2)]
    by (simp add: e u)
qed

lemma lfu_Set_refines:
  assumes r: "lfu_rel c l"
  shows "lfu_rel (lfu_Set c k v) (uses_set (lcapacity c) l k v) \<and> lcapacity (lfu_Set c k v) = lcapacity c"
proof (cases "map_of l k")
  case (Some x)
  then obtain w f where x: "map_of l k = Some (w, f)" by (cases x) auto
  have "lfu_Set c k v = incrementFreq c k \<lparr>evalue = v, freq = f\<rparr>"
    using lfu_relD(4) [OF r, of k] x by (simp add: lfu_Set_def)
  then show ?thesis using incrementFreq_refines [OF r x, of v] x by (simp add: uses_set_def)
next
  case None
  note d = lfu_relD [OF r]
  define c1 where "c1 = (if lcapacity c \<le> length l then lfu_evict c else c)"
  define l1 where "l1 = (if lcapacity c \<le> length l then uses_evict l else l)"
  have ne: "l \<noteq> []" if "lcapacity c \<le> length l" using that d(9) by auto
  have c1: "freqs c1 = bucket l1" "lcapacity c1 = lcapacity c" "length (litems c1) = length l1" "length l1 < lcapacity c"
    "distinct (map fst (litems c1))" "distinct (map fst l1)" "set l1 \<subseteq> set l"
    "\<And>j. map_of (litems c1) j = map_option (\<lambda>(v, f). \<lparr>evalue = v, freq = f\<rparr>) (map_of l1 j)"
    using lfu_evict_refines [OF r ne] d by (auto simp: c1_def l1_def)
  have kn: "k \<notin> fst ` set l1" using None c1(7) by (auto simp: map_of_eq_None_iff)
  then have m1: "map_of l1 k = None" by (simp add: map_of_eq_None_iff)
  have s: "lfu_Set c k v = c1\<lparr>freqs := bucket ((k, v, 1) # l1), litems := AList.update k \<lparr>evalue = v, freq = 1\<rparr> (litems c1), minFreq := 1\<rparr>"
    using None d(3) d(4) [of k] c1(1) by (simp add: lfu_Set_def c1_def Let_def bucket_Cons)
  have u: "uses_set (lcapacity c) l k v = (k, v, 1) # l1" using None by (simp add: uses_set_def l1_def)
  have "length (AList.update k \<lparr>evalue = v, freq = 1\<rparr> (litems c1)) = Suc (length l1)"
    using c1(3) c1(8) [of k] m1 by (simp add: length_alist_update)
  moreover have "is_min 1 ((k, v, 1) # l1)" "\<forall>p \<in> set ((k, v, 1) # l1). 1 \<le> cnt p" using d(7) c1(7) by (auto simp: is_min_def)
  moreover have "distinct (map fst ((k, v, 1) # l1))" using c1(6) kn by simp
  ultimately show ?thesis using c1(2,4,8) d(9) distinct_update [OF c1(5)] unfolding u s
    by (simp add: lfu_rel_def update_conv')
qed

lemma lfu_Get_refines:
  assumes r: "lfu_rel c l"
  shows "\<exists>c'. lfu_Get c k = (c', snd (uses_get l k)) \<and> lfu_rel c' (fst (uses_get l k)) \<and> lcapacity c' = lcapacity c"
proof (cases "map_of l k")
  case (Some x)
  then obtain w f where x: "map_of l k = Some (w, f)" by (cases x) auto
  show ?thesis using lfu_relD(4) [OF r, of k] x incrementFreq_refines [OF r x, of w] by (simp add: lfu_Get_def uses_get_def)
next
  case None
  then show ?thesis using r lfu_relD(4) [OF r, of k] by (simp add: lfu_Get_def uses_get_def)
qed

lemma lfu_New_rel: "lfu_rel (lfu_New n) []"
  by (auto simp: lfu_rel_def lfu_New_def bucket_def)

lemma lfu_New_inv: "\<exists>l. lfu_rel (lfu_New n) l"
  using lfu_New_rel by blast

definition lfu_look :: "('k, 'v) LfuCache \<Rightarrow> 'k \<rightharpoonup> 'v" where
  "lfu_look c k = map_option evalue (map_of (litems c) k)"

lemma lfu_rel_look: "lfu_rel c l \<Longrightarrow> lfu_look c k = map_option fst (map_of l k)"
  using lfu_relD(4) [of c l k] by (cases "map_of l k") (auto simp: lfu_look_def)

lemma uses_get_look: "snd (uses_get l k) = map_option fst (map_of l k)"
  "map_option fst (map_of (fst (uses_get l k)) j) = map_option fst (map_of l j)"
  by (auto simp: uses_get_def map_of_others split: option.splits)

lemma uses_set_look:
  "map_option fst (map_of (uses_set cap l k v) j) = (if j = k then Some v else map_option fst (map_of l j)) \<or>
   j \<noteq> k \<and> map_of (uses_set cap l k v) j = None"
  by (auto simp: uses_set_def uses_evict_def map_of_others split: option.splits if_splits)

interpretation lfu_cache: bounded_cache lfu_look "\<lambda>c. \<exists>l. lfu_rel c l" lcapacity lfu_Get lfu_Set
proof (unfold_locales, goal_cases)
  case (1 c k c' r)
  then obtain l where l: "lfu_rel c l" by blast
  obtain c1 where g: "lfu_Get c k = (c1, snd (uses_get l k))" "lfu_rel c1 (fst (uses_get l k))" "lcapacity c1 = lcapacity c"
    using lfu_Get_refines [OF l, of k] by auto
  then show ?case using 1(2) lfu_rel_look [OF l] lfu_rel_look [OF g(2)] uses_get_look [of l k] by (auto simp: fun_eq_iff)
next
  case (2 c k v)
  then obtain l where l: "lfu_rel c l" by blast
  note s = lfu_Set_refines [OF l, of k v]
  have look: "lfu_look (lfu_Set c k v) j = map_option fst (map_of (uses_set (lcapacity c) l k v) j)" for j
    using lfu_rel_look [OF conjunct1 [OF s]] by blast
  have "lfu_look (lfu_Set c k v) j = ((lfu_look c)(k \<mapsto> v)) j" if "j \<in> dom (lfu_look (lfu_Set c k v))" for j
    using that uses_set_look [of "lcapacity c" l k v j] by (auto simp: look lfu_rel_look [OF l] split: if_splits)
  then have "lfu_look (lfu_Set c k v) \<subseteq>\<^sub>m (lfu_look c)(k \<mapsto> v)" by (simp add: map_le_def)
  moreover have "lfu_look (lfu_Set c k v) k = Some v" using uses_set_look [of "lcapacity c" l k v k] by (simp add: look)
  ultimately show ?case using s by blast
next
  case (3 c)
  then obtain l where l: "lfu_rel c l" by blast
  have "dom (lfu_look c) = fst ` set l" using lfu_rel_look [OF l] by (force simp: dom_def map_of_eq_None_iff)
  then have "card (dom (lfu_look c)) \<le> length l" by (metis card_length length_map set_map)
  then show ?case using lfu_relD(8) [OF l] by simp
qed

interpretation lfu_refines: cache_refinement lfu_rel lcapacity lfu_Get lfu_Set uses_get uses_set
  by unfold_locales (rule lfu_Get_refines, assumption, rule lfu_Set_refines)

text \<open>The frequency-list cache is the least-frequently-used cache.  For every capacity and every sequence of
  \<^verbatim>\<open>Get\<close>s and \<^verbatim>\<open>Set\<close>s the answers are those of one list of keys with use counts in recency order, where a full cache evicts, among
  the keys with the least use count, the one used longest ago: the frequency lists and \<^verbatim>\<open>minFreq\<close> always
  find that key.  \<^verbatim>\<open>Len\<close> never exceeds the capacity and no answer is a stale value.
\<close>

lemma lfu_correct:
  "(let (c, rs) = run_cache lfu_Get lfu_Set ops (lfu_New n);
        (l, rs') = run_cache uses_get (uses_set (max 1 (nat n))) ops []
    in rs = rs' \<and> (\<forall>k. lfu_look c k = map_option fst (map_of l k)) \<and> lfu_Len c = length l \<and> lfu_Len c \<le> max 1 (nat n) \<and>
       hit_or_miss rs (ideal_gets ops Map.empty))"
proof -
  obtain c rs where r: "run_cache lfu_Get lfu_Set ops (lfu_New n) = (c, rs)" by fastforce
  have cap: "lcapacity (lfu_New n) = max 1 (nat n)" by (auto simp: lfu_New_def)
  obtain l where l: "run_cache uses_get (uses_set (max 1 (nat n))) ops [] = (l, rs)" "lfu_rel c l" "lcapacity c = max 1 (nat n)"
    using lfu_refines.run_refines [OF lfu_New_rel r] by (auto simp: cap)
  have "hit_or_miss rs (ideal_gets ops Map.empty)"
    using lfu_cache.run_fresh [OF lfu_New_inv _ r, of Map.empty] by (simp add: lfu_rel_look [OF lfu_New_rel] map_le_def dom_def)
  then show ?thesis using l lfu_rel_look [OF l(2)] lfu_relD(3,8) [OF l(2)] by (simp add: r lfu_Len_def)
qed

end
