(* ===== verification/Arc_Cache.thy ===== *)
theory Arc_Cache
  imports Cache_Spec
begin

text \<open>
  \<^verbatim>\<open>pkg/datastructures/arc\<close>: the adaptive replacement cache.  The four library lists of the source, \<^verbatim>\<open>t1\<close>, \<^verbatim>\<open>t2\<close>
  (cached) and \<^verbatim>\<open>b1\<close>, \<^verbatim>\<open>b2\<close> (ghosts), are lists of keys indexed by their name, front first; a list element is
  identified by the key of its entry.  The zero value written into ghosts is an argument.
\<close>

section \<open>The code\<close>

datatype list_id = T1 | T2 | B1 | B2

record 'v arc_entry =
  avalue :: 'v
  isGhost :: bool
  listID :: list_id

record ('k, 'v) ArcCache =
  acapacity :: nat
  target :: int
  lists :: "list_id \<Rightarrow> 'k list"
  aitems :: "'k \<rightharpoonup> 'v arc_entry"

abbreviation len :: "('k, 'v) ArcCache \<Rightarrow> list_id \<Rightarrow> nat" where
  "len c i \<equiv> length (lists c i)"

definition arc_New :: "int \<Rightarrow> ('k, 'v) ArcCache" where
  "arc_New capacity = \<lparr>acapacity = (if capacity \<le> 0 then 1 else nat capacity), target = 0, lists = (\<lambda>_. []), aitems = Map.empty\<rparr>"

definition list_remove :: "('k, 'v) ArcCache \<Rightarrow> list_id \<Rightarrow> 'k \<Rightarrow> ('k, 'v) ArcCache" where
  "list_remove c i k = c\<lparr>lists := (lists c)(i := remove1 k (lists c i))\<rparr>"

definition list_pushFront :: "('k, 'v) ArcCache \<Rightarrow> list_id \<Rightarrow> 'k \<Rightarrow> ('k, 'v) ArcCache" where
  "list_pushFront c i k = c\<lparr>lists := (lists c)(i := k # lists c i)\<rparr>"

definition arc_remove :: "('k, 'v) ArcCache \<Rightarrow> 'k \<Rightarrow> 'v arc_entry \<Rightarrow> ('k, 'v) ArcCache" where
  "arc_remove c k e = list_remove c (listID e) k"

text \<open>Move an entry to the front of a list, with its value and ghost flag: the statements that follow each \<^verbatim>\<open>remove\<close>.\<close>

definition relocate :: "('k, 'v) ArcCache \<Rightarrow> 'k \<Rightarrow> 'v \<Rightarrow> bool \<Rightarrow> list_id \<Rightarrow> ('k, 'v) ArcCache" where
  "relocate c k v ghost i =
     (let e = the (aitems c k);
          c = arc_remove c k e;
          c = list_pushFront c i k
      in c\<lparr>aitems := (aitems c)(k \<mapsto> e\<lparr>avalue := v, isGhost := ghost, listID := i\<rparr>)\<rparr>)"

definition arc_replace :: "'v \<Rightarrow> ('k, 'v) ArcCache \<Rightarrow> 'v arc_entry option \<Rightarrow> ('k, 'v) ArcCache" where
  "arc_replace zero c current =
     (if 0 < len c T1 \<and> (target c < int (len c T1) \<or>
          (case current of None \<Rightarrow> False | Some e \<Rightarrow> listID e = B2 \<and> int (len c T1) = target c))
      then relocate c (last (lists c T1)) zero True B1
      else if lists c T2 = [] then c
      else relocate c (last (lists c T2)) zero True B2)"

definition evictLRU :: "('k, 'v) ArcCache \<Rightarrow> list_id \<Rightarrow> ('k, 'v) ArcCache" where
  "evictLRU c i =
     (if len c i = 0 then c
      else (let k = last (lists c i); c = list_remove c i k in c\<lparr>aitems := (aitems c)(k := None)\<rparr>))"

definition arc_Get :: "('k, 'v) ArcCache \<Rightarrow> 'k \<Rightarrow> ('k, 'v) ArcCache \<times> 'v option" where
  "arc_Get c k =
     (case aitems c k of
        None \<Rightarrow> (c, None)
      | Some e \<Rightarrow> if isGhost e then (c, None) else (relocate c k (avalue e) False T2, Some (avalue e)))"

definition arc_make_room :: "'v \<Rightarrow> ('k, 'v) ArcCache \<Rightarrow> ('k, 'v) ArcCache" where
  "arc_make_room zero c =
     (if len c T1 + len c B1 = acapacity c
      then if len c T1 < acapacity c then arc_replace zero (evictLRU c B1) None else evictLRU c T1
      else if len c T1 + len c B1 < acapacity c
      then if acapacity c \<le> len c T1 + len c T2 + len c B1 + len c B2
           then let c = (if len c T1 + len c T2 + len c B1 + len c B2 = 2 * acapacity c then evictLRU c B2 else c)
                in arc_replace zero c None
           else c
      else c)"

definition arc_Set :: "'v \<Rightarrow> ('k, 'v) ArcCache \<Rightarrow> 'k \<Rightarrow> 'v \<Rightarrow> ('k, 'v) ArcCache" where
  "arc_Set zero c k v =
     (case aitems c k of
        Some e \<Rightarrow>
          if \<not> isGhost e then relocate c k v False T2
          else if listID e = B1
          then let delta = (if len c B1 < len c B2 then len c B2 div len c B1 else 1);
                   c = c\<lparr>target := min (target c + int delta) (int (acapacity c))\<rparr>;
                   c = arc_replace zero c (Some e)
               in relocate c k v False T2
          else let delta = (if len c B2 < len c B1 then len c B1 div len c B2 else 1);
                   c = c\<lparr>target := max (target c - int delta) 0\<rparr>;
                   c = arc_replace zero c (Some e)
               in relocate c k v False T2
      | None \<Rightarrow>
          (let c = arc_make_room zero c; c = list_pushFront c T1 k
           in c\<lparr>aitems := (aitems c)(k \<mapsto> \<lparr>avalue = v, isGhost = False, listID = T1\<rparr>)\<rparr>))"

section \<open>Structure: each entry is in the one list it names\<close>

definition arc_struct :: "('k, 'v) ArcCache \<Rightarrow> bool" where
  "arc_struct c \<longleftrightarrow> (\<forall>i. distinct (lists c i)) \<and>
     (\<forall>i k. k \<in> set (lists c i) \<longleftrightarrow> (\<exists>e. aitems c k = Some e \<and> listID e = i)) \<and>
     (\<forall>k e. aitems c k = Some e \<longrightarrow> (isGhost e \<longleftrightarrow> listID e \<in> {B1, B2}))"

definition arc_look :: "('k, 'v) ArcCache \<Rightarrow> 'k \<rightharpoonup> 'v" where
  "arc_look c k = (case aitems c k of None \<Rightarrow> None | Some e \<Rightarrow> if isGhost e then None else Some (avalue e))"

lemma arc_structD:
  assumes "arc_struct c"
  shows "distinct (lists c i)" "k \<in> set (lists c i) \<longleftrightarrow> (\<exists>e. aitems c k = Some e \<and> listID e = i)"
    "aitems c k = Some e \<Longrightarrow> isGhost e \<longleftrightarrow> listID e \<in> {B1, B2}"
  using assms by (auto simp: arc_struct_def)

lemma relocate_struct:
  assumes s: "arc_struct c" and k: "aitems c k = Some e" and g: "ghost \<longleftrightarrow> j \<in> {B1, B2}"
  shows "arc_struct (relocate c k v ghost j)"
    and "arc_look (relocate c k v ghost j) = (arc_look c)(k := (if ghost then None else Some v))"
    and "len (relocate c k v ghost j) i + (if i = listID e then 1 else 0) = len c i + (if i = j then 1 else 0)"
    and "acapacity (relocate c k v ghost j) = acapacity c" and "target (relocate c k v ghost j) = target c"
    and "h \<noteq> k \<Longrightarrow> aitems (relocate c k v ghost j) h = aitems c h"
proof -
  define c' where "c' = relocate c k v ghost j"
  define L where "L = (lists c)(listID e := remove1 k (lists c (listID e)))"
  have c': "c' = c\<lparr>lists := L(j := k # L j), aitems := (aitems c)(k \<mapsto> e\<lparr>avalue := v, isGhost := ghost, listID := j\<rparr>)\<rparr>"
    using k by (simp add: c'_def relocate_def arc_remove_def list_remove_def list_pushFront_def L_def)
  note d = arc_structD [OF s]
  have kin: "k \<in> set (lists c i) \<longleftrightarrow> i = listID e" for i using d(2) [of k i] k by auto
  have L: "distinct (L i)" "k \<notin> set (L i)" "set (L i) = set (lists c i) - {k}" for i
    using d(1) [of i] kin [of i] by (auto simp: L_def)
  have Ln: "length (L i) + (if i = listID e then 1 else 0) = length (lists c i)" for i
    using kin [of i] length_pos_if_in_set [of k "lists c i"] by (auto simp: L_def length_remove1)
  have mem: "h \<in> set (lists c' i) \<longleftrightarrow> (\<exists>e. aitems c' h = Some e \<and> listID e = i)" for h i
    using d(2) [of h i] L by (auto simp: c')
  show "arc_struct (relocate c k v ghost j)"
    unfolding c'_def [symmetric] arc_struct_def using mem L d(3) g by (auto simp: c')
  show "arc_look (relocate c k v ghost j) = (arc_look c)(k := (if ghost then None else Some v))"
    unfolding c'_def [symmetric] by (auto simp: c' arc_look_def fun_eq_iff)
  show "len (relocate c k v ghost j) i + (if i = listID e then 1 else 0) = len c i + (if i = j then 1 else 0)"
    unfolding c'_def [symmetric] using Ln [of i] Ln [of j] by (auto simp: c')
  show "acapacity (relocate c k v ghost j) = acapacity c" "target (relocate c k v ghost j) = target c"
    "h \<noteq> k \<Longrightarrow> aitems (relocate c k v ghost j) h = aitems c h"
    unfolding c'_def [symmetric] by (simp_all add: c')
qed

lemma map_le_del: "m \<subseteq>\<^sub>m m' \<Longrightarrow> m(k := None) \<subseteq>\<^sub>m m'"
  by (auto simp: map_le_def)

lemma evictLRU_struct:
  assumes s: "arc_struct c"
  shows "arc_struct (evictLRU c i)" and "arc_look (evictLRU c i) \<subseteq>\<^sub>m arc_look c"
    and "len (evictLRU c i) j = len c j - (if j = i then 1 else 0)"
    and "acapacity (evictLRU c i) = acapacity c" and "target (evictLRU c i) = target c"
    and "aitems c h = None \<Longrightarrow> aitems (evictLRU c i) h = None"
proof -
  define k where "k = last (lists c i)"
  note d = arc_structD [OF s]
  have k: "k \<in> set (lists c j) \<longleftrightarrow> j = i" if "lists c i \<noteq> []" for j
    using that last_in_set [of "lists c i"] d(2) [of k i] d(2) [of k j] by (auto simp: k_def)
  have e: "evictLRU c i = (if lists c i = [] then c else c\<lparr>lists := (lists c)(i := remove1 k (lists c i)), aitems := (aitems c)(k := None)\<rparr>)"
    by (simp add: evictLRU_def list_remove_def k_def Let_def)
  show "arc_struct (evictLRU c i)"
    using d k by (auto simp: e arc_struct_def)
  show "arc_look (evictLRU c i) \<subseteq>\<^sub>m arc_look c" by (auto simp: e arc_look_def map_le_def split: if_splits)
  show "len (evictLRU c i) j = len c j - (if j = i then 1 else 0)" using k [of i] by (auto simp: e length_remove1)
  show "acapacity (evictLRU c i) = acapacity c" "target (evictLRU c i) = target c"
    "aitems c h = None \<Longrightarrow> aitems (evictLRU c i) h = None" by (auto simp: e)
qed

text \<open>What \<^verbatim>\<open>replace\<close> does to the sizes.\<close>

definition replace_T1 :: "('k, 'v) ArcCache \<Rightarrow> 'v arc_entry option \<Rightarrow> bool" where
  "replace_T1 c current \<longleftrightarrow> 0 < len c T1 \<and> (target c < int (len c T1) \<or>
     (case current of None \<Rightarrow> False | Some e \<Rightarrow> listID e = B2 \<and> int (len c T1) = target c))"

lemma arc_replace_struct:
  fixes c :: "('k, 'v) ArcCache" and zero :: 'v and current :: "'v arc_entry option"
  assumes s: "arc_struct c"
  defines "c' \<equiv> arc_replace zero c current"
  shows "arc_struct c'" and "arc_look c' \<subseteq>\<^sub>m arc_look c"
    and "acapacity c' = acapacity c" and "target c' = target c"
    and "len c' i = (if replace_T1 c current then (if i = T1 then len c i - 1 else if i = B1 then len c i + 1 else len c i)
           else if lists c T2 = [] then len c i
           else (if i = T2 then len c i - 1 else if i = B2 then len c i + 1 else len c i))"
    and "h \<notin> set (lists c T1) \<union> set (lists c T2) \<Longrightarrow> aitems c' h = aitems c h"
proof -
  have r: "c' = (if replace_T1 c current then relocate c (last (lists c T1)) zero True B1
      else if lists c T2 = [] then c else relocate c (last (lists c T2)) zero True B2)"
    by (simp add: c'_def arc_replace_def replace_T1_def)
  have last: "\<exists>e. aitems c (last (lists c j)) = Some e \<and> listID e = j" if "lists c j \<noteq> []" for j
    using last_in_set [OF that] arc_structD(2) [OF s, of "last (lists c j)" j] by blast
  have hl: "h \<notin> set (lists c j) \<Longrightarrow> h \<noteq> last (lists c j)" if "lists c j \<noteq> []" for j using last_in_set [OF that] by metis
  consider (T1) e where "replace_T1 c current" "lists c T1 \<noteq> []" "aitems c (last (lists c T1)) = Some e" "listID e = T1" "c' = relocate c (last (lists c T1)) zero True B1"
    | (same) "\<not> replace_T1 c current" "lists c T2 = []" "c' = c"
    | (T2) e where "\<not> replace_T1 c current" "lists c T2 \<noteq> []" "aitems c (last (lists c T2)) = Some e" "listID e = T2" "c' = relocate c (last (lists c T2)) zero True B2"
    using r last [of T1] last [of T2] by (auto simp: replace_T1_def split: if_splits)
  then have "arc_struct c' \<and> arc_look c' \<subseteq>\<^sub>m arc_look c \<and> acapacity c' = acapacity c \<and> target c' = target c \<and>
     len c' i = (if replace_T1 c current then (if i = T1 then len c i - 1 else if i = B1 then len c i + 1 else len c i)
           else if lists c T2 = [] then len c i
           else (if i = T2 then len c i - 1 else if i = B2 then len c i + 1 else len c i)) \<and>
     (h \<notin> set (lists c T1) \<union> set (lists c T2) \<longrightarrow> aitems c' h = aitems c h)"
  proof cases
    case T1
    note q = relocate_struct [OF s T1(3), where ghost = True and j = B1 and v = zero]
    show ?thesis using q(1,2,4,5) q(3) [of i] q(6) [of h] T1 hl [OF T1(2)] by (auto simp: map_le_del)
  next
    case same
    then show ?thesis using s by simp
  next
    case T2
    note q = relocate_struct [OF s T2(3), where ghost = True and j = B2 and v = zero]
    show ?thesis using q(1,2,4,5) q(3) [of i] q(6) [of h] T2 hl [OF T2(2)] by (auto simp: map_le_del)
  qed
  then show "arc_struct c'" "arc_look c' \<subseteq>\<^sub>m arc_look c" "acapacity c' = acapacity c" "target c' = target c"
    "len c' i = (if replace_T1 c current then (if i = T1 then len c i - 1 else if i = B1 then len c i + 1 else len c i)
           else if lists c T2 = [] then len c i
           else (if i = T2 then len c i - 1 else if i = B2 then len c i + 1 else len c i))"
    "h \<notin> set (lists c T1) \<union> set (lists c T2) \<Longrightarrow> aitems c' h = aitems c h" by auto
qed

section \<open>Sizes\<close>

definition arc_sizes :: "nat \<Rightarrow> int \<Rightarrow> nat \<Rightarrow> nat \<Rightarrow> nat \<Rightarrow> nat \<Rightarrow> bool" where
  "arc_sizes n p t1 t2 b1 b2 \<longleftrightarrow> t1 + t2 \<le> n \<and> t1 + b1 \<le> n \<and> t1 + t2 + b1 + b2 \<le> 2 * n \<and>
     (0 < b1 + b2 \<longrightarrow> t1 + t2 = n) \<and> 0 \<le> p \<and> p \<le> int n \<and> 0 < n"

definition arc_inv :: "('k, 'v) ArcCache \<Rightarrow> bool" where
  "arc_inv c \<longleftrightarrow> arc_struct c \<and> arc_sizes (acapacity c) (target c) (len c T1) (len c T2) (len c B1) (len c B2)"

lemma arc_invD:
  assumes "arc_inv c"
  shows "arc_struct c" "arc_sizes (acapacity c) (target c) (len c T1) (len c T2) (len c B1) (len c B2)"
  using assms by (auto simp: arc_inv_def)

lemma arc_hit:
  assumes inv: "arc_inv c" and e: "aitems c k = Some e" "\<not> isGhost e"
  shows "arc_inv (relocate c k v False T2)" and "arc_look (relocate c k v False T2) = (arc_look c)(k \<mapsto> v)"
    and "acapacity (relocate c k v False T2) = acapacity c"
proof -
  note s = arc_invD(1) [OF inv]
  note q = relocate_struct [OF s e(1), where ghost = False and j = T2 and v = v]
  have "listID e = T1 \<or> listID e = T2" using arc_structD(3) [OF s e(1)] e(2) by (cases "listID e") auto
  then have "arc_sizes (acapacity c) (target c) (len (relocate c k v False T2) T1) (len (relocate c k v False T2) T2)
     (len (relocate c k v False T2) B1) (len (relocate c k v False T2) B2)"
    using q(3) [of T1] q(3) [of T2] q(3) [of B1] q(3) [of B2] arc_invD(2) [OF inv] by (auto simp: arc_sizes_def)
  then show "arc_inv (relocate c k v False T2)" using q(1,4,5) by (simp add: arc_inv_def)
  show "arc_look (relocate c k v False T2) = (arc_look c)(k \<mapsto> v)" "acapacity (relocate c k v False T2) = acapacity c"
    using q(2,4) by simp_all
qed

text \<open>A ghost hit: \<^verbatim>\<open>replace\<close> frees one place, and the ghost moves there.\<close>

lemma arc_ghost_hit:
  fixes c :: "('k, 'v) ArcCache" and p :: int and zero v :: 'v
  assumes inv: "arc_inv c" and e: "aitems c k = Some e" "isGhost e"
    and p: "0 \<le> p" "p \<le> int (acapacity c)" "listID e = B2 \<Longrightarrow> p < int (acapacity c)"
  defines "c' \<equiv> relocate (arc_replace zero (c\<lparr>target := p\<rparr>) (Some e)) k v False T2"
  shows "arc_inv c'" and "arc_look c' k = Some v" and "arc_look c' \<subseteq>\<^sub>m (arc_look c)(k \<mapsto> v)" and "acapacity c' = acapacity c"
proof -
  note s = arc_invD(1) [OF inv]
  define c0 where "c0 = c\<lparr>target := p\<rparr>"
  have c0: "arc_struct c0" "arc_look c0 = arc_look c" "\<And>i. len c0 i = len c i" "acapacity c0 = acapacity c" "target c0 = p"
    "aitems c0 k = Some e"
    using s e(1) by (simp_all add: c0_def arc_struct_def arc_look_def fun_eq_iff)
  have g: "listID e = B1 \<or> listID e = B2" using arc_structD(3) [OF s e(1)] e(2) by auto
  then have "k \<notin> set (lists c0 T1) \<union> set (lists c0 T2)" using arc_structD(2) [OF c0(1), of k] c0(6) by auto
  note r = arc_replace_struct [OF c0(1), where zero = zero and current = "Some e"]
  define c1 where "c1 = arc_replace zero c0 (Some e)"
  have k1: "aitems c1 k = Some e" using r(6) [of k] c0(6) \<open>k \<notin> _\<close> by (simp add: c1_def)
  note q = relocate_struct [OF r(1) [folded c1_def] k1, where ghost = False and j = T2 and v = v]
  have c': "c' = relocate c1 k v False T2" by (simp add: c'_def c1_def c0_def)
  have pos: "0 < len c (listID e)" using arc_structD(2) [OF s, of k "listID e"] e(1) by (auto intro: length_pos_if_in_set)
  have nil: "lists c0 T2 = [] \<longleftrightarrow> len c T2 = 0" by (simp add: c0_def)
  have "arc_sizes (acapacity c') (target c') (len c' T1) (len c' T2) (len c' B1) (len c' B2)"
    using q(3) [of T1] q(3) [of T2] q(3) [of B1] q(3) [of B2] r(5) [of T1] r(5) [of T2] r(5) [of B1] r(5) [of B2]
      g p pos arc_invD(2) [OF inv] q(4,5) r(3,4)
    by (auto simp: c' c1_def [symmetric] c0(3,4,5) nil arc_sizes_def replace_T1_def simp del: length_greater_0_conv length_0_conv split: if_splits)
  then show "arc_inv c'" using q(1) by (simp add: arc_inv_def c')
  show "arc_look c' k = Some v" using q(2) by (simp add: c')
  show "arc_look c' \<subseteq>\<^sub>m (arc_look c)(k \<mapsto> v)" using q(2) r(2) by (simp add: c' c1_def [symmetric] c0(2) map_le_upd)
  show "acapacity c' = acapacity c" using q(4) r(3) by (simp add: c' c1_def [symmetric] c0(4))
qed

text \<open>A complete miss: \<^verbatim>\<open>Set\<close> makes room for one entry in \<^verbatim>\<open>t1\<close>.\<close>

lemma arc_replace_absent:
  assumes "arc_struct c" "aitems c h = None"
  shows "aitems (arc_replace zero c current) h = None"
proof -
  have "h \<notin> set (lists c T1) \<union> set (lists c T2)" using arc_structD(2) [OF assms(1), of h] assms(2) by auto
  then show ?thesis using arc_replace_struct(6) [OF assms(1)] assms(2) by simp
qed

lemma room_cases:
  "arc_sizes n p t1 t2 b1 b2 \<Longrightarrow>
   t1 + b1 = n \<and> t1 < n \<or> t1 = n \<and> b1 = 0 \<or> t1 + b1 < n \<and> t1 + t2 + b1 + b2 = 2 * n \<or>
   t1 + b1 < n \<and> n \<le> t1 + t2 + b1 + b2 \<and> t1 + t2 + b1 + b2 < 2 * n \<or> t1 + t2 + b1 + b2 < n"
  unfolding arc_sizes_def by linarith

lemma replace_sizes:
  fixes c :: "('k, 'v) ArcCache" and zero :: 'v
  assumes s: "arc_struct c" and t2: "0 < len c T2"
  defines "c' \<equiv> arc_replace zero c None"
  shows "0 < len c T1 \<and> len c T1 = Suc (len c' T1) \<and> len c' T2 = len c T2 \<and> len c' B1 = Suc (len c B1) \<and> len c' B2 = len c B2 \<or>
    len c' T1 = len c T1 \<and> len c T2 = Suc (len c' T2) \<and> len c' B1 = len c B1 \<and> len c' B2 = Suc (len c B2)"
proof -
  note r = arc_replace_struct(5) [OF s, where zero = zero and current = None, folded c'_def]
  have ne: "lists c T2 \<noteq> []" using t2 by auto
  show ?thesis
  proof (cases "replace_T1 c None")
    case True
    then have "0 < len c T1" by (simp add: replace_T1_def)
    then show ?thesis using True r [of T1] r [of T2] r [of B1] r [of B2] by simp
  next
    case False
    then show ?thesis using ne t2 r [of T1] r [of T2] r [of B1] r [of B2] by simp
  qed
qed

lemma arc_make_room_ok:
  fixes c :: "('k, 'v) ArcCache" and zero :: 'v
  assumes inv: "arc_inv c" and h: "aitems c h = None"
  defines "c' \<equiv> arc_make_room zero c"
  shows "arc_struct c' \<and> arc_look c' \<subseteq>\<^sub>m arc_look c \<and> acapacity c' = acapacity c \<and> target c' = target c \<and> aitems c' h = None \<and>
    arc_sizes (acapacity c) (target c) (Suc (len c' T1)) (len c' T2) (len c' B1) (len c' B2)"
proof -
  note s = arc_invD(1) [OF inv] and z = arc_invD(2) [OF inv, unfolded arc_sizes_def]
  have nil: "lists d i = [] \<longleftrightarrow> len d i = 0" for d :: "('k, 'v) ArcCache" and i by simp
  consider (b1) "len c T1 + len c B1 = acapacity c" "len c T1 < acapacity c" "c' = arc_replace zero (evictLRU c B1) None"
    | (t1) "len c T1 = acapacity c" "len c B1 = 0" "c' = evictLRU c T1"
    | (b2) "len c T1 + len c B1 < acapacity c" "len c T1 + len c T2 + len c B1 + len c B2 = 2 * acapacity c"
        "c' = arc_replace zero (evictLRU c B2) None"
    | (full) "len c T1 + len c B1 < acapacity c" "acapacity c \<le> len c T1 + len c T2 + len c B1 + len c B2"
        "len c T1 + len c T2 + len c B1 + len c B2 < 2 * acapacity c" "c' = arc_replace zero c None"
    | (room) "len c T1 + len c T2 + len c B1 + len c B2 < acapacity c" "c' = c"
    using room_cases [OF arc_invD(2) [OF inv]]
    by (elim disjE) (simp_all add: c'_def arc_make_room_def del: length_greater_0_conv length_0_conv)
  then show ?thesis
  proof cases
    case b1
    note e = evictLRU_struct [OF s, where i = B1]
    note r = arc_replace_struct [OF e(1), where zero = zero and current = None]
    have "0 < len (evictLRU c B1) T2" using b1(1,2) z unfolding e(3) by auto
    from replace_sizes [OF e(1) this, of zero, folded b1(3)]
    have "arc_sizes (acapacity c) (target c) (Suc (len c' T1)) (len c' T2) (len c' B1) (len c' B2)"
      using b1(1,2) z unfolding e(3) arc_sizes_def by auto
    then show ?thesis using e(4,5) r(1,3,4) arc_replace_absent [OF e(1) e(6) [OF h], of zero None] map_le_trans [OF r(2) e(2)]
      by (simp add: b1(3))
  next
    case t1
    note e = evictLRU_struct [OF s, where i = T1]
    show ?thesis using e z t1(1,2) h by (auto simp: t1(3) arc_sizes_def)
  next
    case b2
    note e = evictLRU_struct [OF s, where i = B2]
    note r = arc_replace_struct [OF e(1), where zero = zero and current = None]
    have "0 < len (evictLRU c B2) T2" using b2(1,2) z unfolding e(3) by auto
    from replace_sizes [OF e(1) this, of zero, folded b2(3)]
    have "arc_sizes (acapacity c) (target c) (Suc (len c' T1)) (len c' T2) (len c' B1) (len c' B2)"
      using b2(1,2) z unfolding e(3) arc_sizes_def by auto
    then show ?thesis using e(4,5) r(1,3,4) arc_replace_absent [OF e(1) e(6) [OF h], of zero None] map_le_trans [OF r(2) e(2)]
      by (simp add: b2(3))
  next
    case full
    note r = arc_replace_struct [OF s, where zero = zero and current = None]
    have "0 < len c T2" using full(1,2) z by auto
    from replace_sizes [OF s this, of zero, folded full(4)]
    have "arc_sizes (acapacity c) (target c) (Suc (len c' T1)) (len c' T2) (len c' B1) (len c' B2)"
      using full(1,2,3) z unfolding arc_sizes_def by auto
    then show ?thesis using r(1-4) arc_replace_absent [OF s h, of zero None] by (simp add: full(4))
  next
    case room
    then show ?thesis using s z h by (auto simp: arc_sizes_def)
  qed
qed

lemma arc_insert:
  fixes c :: "('k, 'v) ArcCache" and v :: 'v
  assumes s: "arc_struct c" and k: "aitems c k = None"
  defines "c' \<equiv> (list_pushFront c T1 k)\<lparr>aitems := (aitems c)(k \<mapsto> \<lparr>avalue = v, isGhost = False, listID = T1\<rparr>)\<rparr>"
  shows "arc_struct c'" and "arc_look c' = (arc_look c)(k \<mapsto> v)"
proof -
  note d = arc_structD [OF s]
  have kn: "k \<notin> set (lists c i)" for i using d(2) [of k i] k by auto
  have "h \<in> set (lists c' i) \<longleftrightarrow> (\<exists>e. aitems c' h = Some e \<and> listID e = i)" for h i
    using d(2) [of h i] kn [of i] by (auto simp: c'_def list_pushFront_def)
  then show "arc_struct c'" using d kn by (auto simp: arc_struct_def c'_def list_pushFront_def)
  show "arc_look c' = (arc_look c)(k \<mapsto> v)" by (auto simp: arc_look_def fun_eq_iff c'_def)
qed

lemma arc_ghost_pos:
  assumes "arc_struct c" "aitems c k = Some e"
  shows "0 < len c (listID e)"
  using arc_structD(2) [OF assms(1), of k "listID e"] assms(2) by (auto intro: length_pos_if_in_set)

lemma arc_Set_law:
  assumes inv: "arc_inv c"
  shows "arc_inv (arc_Set zero c k v) \<and> acapacity (arc_Set zero c k v) = acapacity c \<and>
    arc_look (arc_Set zero c k v) k = Some v \<and> arc_look (arc_Set zero c k v) \<subseteq>\<^sub>m (arc_look c)(k \<mapsto> v)"
proof -
  note s = arc_invD(1) [OF inv] and z = arc_invD(2) [OF inv, unfolded arc_sizes_def]
  consider (new) "aitems c k = None" | (hit) e where "aitems c k = Some e" "\<not> isGhost e"
    | (B1) e where "aitems c k = Some e" "isGhost e" "listID e = B1" | (B2) e where "aitems c k = Some e" "isGhost e" "listID e = B2"
    using arc_structD(3) [OF s, of k] by (cases "aitems c k") auto
  then show ?thesis
  proof cases
    case new
    note m = arc_make_room_ok [OF inv new, of zero]
    note i = arc_insert [OF conjunct1 [OF m], of k v]
    show ?thesis using m i new
      by (simp add: arc_Set_def arc_inv_def Let_def list_pushFront_def map_le_upd)
  next
    case hit
    then show ?thesis using arc_hit [OF inv hit, of v] by (simp add: arc_Set_def)
  next
    case B1
    define p where "p = min (target c + int (if len c B1 < len c B2 then len c B2 div len c B1 else 1)) (int (acapacity c))"
    have "0 \<le> p" "p \<le> int (acapacity c)" using z by (auto simp: p_def)
    then show ?thesis using arc_ghost_hit [OF inv B1(1,2), of p zero v] B1 by (simp add: arc_Set_def Let_def p_def)
  next
    case B2
    define d where "d = (if len c B2 < len c B1 then len c B1 div len c B2 else 1)"
    have "0 < len c B2" using arc_ghost_pos [OF s B2(1)] B2(3) by simp
    then have d: "1 \<le> d" by (auto simp: d_def div_greater_zero_iff Suc_le_eq)
    define p where "p = max (target c - int d) 0"
    have "0 \<le> p" "p \<le> int (acapacity c)" "p < int (acapacity c)" using z d by (auto simp: p_def)
    then show ?thesis using arc_ghost_hit [OF inv B2(1,2), of p zero v] B2 by (simp add: arc_Set_def Let_def p_def d_def)
  qed
qed

lemma arc_Get_law:
  assumes inv: "arc_inv c" and g: "arc_Get c k = (c', r)"
  shows "arc_inv c' \<and> acapacity c' = acapacity c \<and> arc_look c' = arc_look c \<and> r = arc_look c k"
proof (cases "aitems c k")
  case None
  then show ?thesis using inv g by (auto simp: arc_Get_def arc_look_def)
next
  case (Some e)
  show ?thesis
  proof (cases "isGhost e")
    case True
    then show ?thesis using Some inv g by (auto simp: arc_Get_def arc_look_def)
  next
    case False
    have l: "arc_look c k = Some (avalue e)" using Some False by (simp add: arc_look_def)
    then have "(arc_look c)(k \<mapsto> avalue e) = arc_look c" by (simp add: fun_upd_idem_iff)
    then show ?thesis using arc_hit [OF inv Some False, of "avalue e"] Some False g l by (auto simp: arc_Get_def)
  qed
qed

lemma arc_bound: "arc_inv c \<Longrightarrow> card (dom (arc_look c)) \<le> acapacity c"
proof -
  assume inv: "arc_inv c"
  note s = arc_invD(1) [OF inv]
  have "dom (arc_look c) \<subseteq> set (lists c T1 @ lists c T2)"
  proof
    fix k assume "k \<in> dom (arc_look c)"
    then obtain e where e: "aitems c k = Some e" "\<not> isGhost e" by (auto simp: arc_look_def split: option.splits if_splits)
    then have "listID e = T1 \<or> listID e = T2" using arc_structD(3) [OF s e(1)] by (cases "listID e") auto
    then show "k \<in> set (lists c T1 @ lists c T2)" using e arc_structD(2) [OF s, of k] by auto
  qed
  then have "card (dom (arc_look c)) \<le> length (lists c T1 @ lists c T2)" by (meson List.finite_set card_length card_mono le_trans)
  then show ?thesis using arc_invD(2) [OF inv] by (simp add: arc_sizes_def)
qed

interpretation arc_cache: bounded_cache arc_look arc_inv acapacity arc_Get "arc_Set zero" for zero
  by unfold_locales (rule arc_Get_law, assumption+, rule arc_Set_law, assumption, rule arc_bound)

lemma arc_New_inv: "arc_inv (arc_New n)"
  by (auto simp: arc_inv_def arc_struct_def arc_sizes_def arc_New_def)

lemma arc_New_look: "arc_look (arc_New n) = Map.empty"
  by (auto simp: arc_look_def arc_New_def)

text \<open>
  C34: The adaptive replacement cache keeps its size contract.  After any sequence of \<^verbatim>\<open>Get\<close>s and \<^verbatim>\<open>Set\<close>s on a new
  cache of capacity \<open>n\<close>: at most \<open>n\<close> keys are cached (\<^verbatim>\<open>t1\<close> and \<^verbatim>\<open>t2\<close> together), \<^verbatim>\<open>t1\<close> and its ghosts \<^verbatim>\<open>b1\<close> hold at most \<open>n\<close>, all four lists at most
  \<open>2n\<close>, the target \<^verbatim>\<open>p\<close> stays between 0 and \<open>n\<close>; every answer is the value set last or a miss; and a \<^verbatim>\<open>Get\<close> right
  after a \<^verbatim>\<open>Set\<close> hits.
\<close>

theorem arc_correct:
  "(let (c, rs) = run_cache arc_Get (arc_Set z) ops (arc_New n); cap = max 1 (nat n)
    in card (dom (arc_look c)) \<le> cap \<and> len c T1 + len c T2 \<le> cap \<and> len c T1 + len c B1 \<le> cap \<and>
       len c T1 + len c T2 + len c B1 + len c B2 \<le> 2 * cap \<and> 0 \<le> target c \<and> target c \<le> int cap \<and>
       hit_or_miss rs (ideal_gets ops Map.empty) \<and> snd (arc_Get (arc_Set z c k v) k) = Some v)"
proof -
  obtain c rs where r: "run_cache arc_Get (arc_Set z) ops (arc_New n) = (c, rs)" by fastforce
  have cap: "acapacity (arc_New n) = max 1 (nat n)" by (auto simp: arc_New_def)
  have f: "arc_inv c \<and> acapacity c = max 1 (nat n) \<and> hit_or_miss rs (ideal_gets ops Map.empty)"
    using arc_cache.run_fresh [OF arc_New_inv _ r, of Map.empty] by (simp add: arc_New_look cap)
  then have "snd (arc_Get (arc_Set z c k v) k) = Some v"
    using arc_Set_law [of c z k v] arc_Get_law [of "arc_Set z c k v" k] by (metis prod.collapse)
  then show ?thesis using f arc_bound [of c] arc_invD(2) [of c] by (simp add: r arc_sizes_def)
qed

end
