(* ===== verification/Crdt.thy ===== *)
theory Crdt
  imports Prelude
begin

text \<open>
  \<^verbatim>\<open>pkg/datastructures/crdt\<close>: the grow-only and positive-negative counters, the grow-only set and the
  last-writer-wins register.  The interface \<open>mergeable\<close> says that merging is a join on what a replica's state
  means; its client lemma is convergence.  A counter map is an association list in arbitrary order; a missing
  entry reads as 0, Go's zero value.
\<close>

section \<open>Convergence\<close>

locale mergeable =
  fixes meaning :: "'s \<Rightarrow> 'a"
    and inv :: "'s \<Rightarrow> bool"
    and merge :: "'s \<Rightarrow> 's \<Rightarrow> 's"
    and join :: "'a \<Rightarrow> 'a \<Rightarrow> 'a"
  assumes merge_law: "inv a \<Longrightarrow> inv b \<Longrightarrow> inv (merge a b) \<and> meaning (merge a b) = join (meaning a) (meaning b)"
    and join_assoc: "join (join x y) z = join x (join y z)"
    and join_commute: "join x y = join y x"
    and join_idem: "join x x = x"
begin

lemma join_left_commute: "join x (join y z) = join y (join x z)"
  by (metis join_assoc join_commute)

lemma foldl_merge:
  "inv s \<Longrightarrow> list_all inv xs \<Longrightarrow>
   inv (foldl merge s xs) \<and> meaning (foldl merge s xs) = foldr join (map meaning xs) (meaning s)"
proof (induction xs arbitrary: s)
  case (Cons x xs)
  have "foldr join ys (join a b) = join b (foldr join ys a)" for ys a b
    by (induction ys) (auto simp: join_commute join_left_commute)
  then show ?case using Cons merge_law [of s x] by auto
qed simp

lemma foldr_join_absorb: "x \<in> set xs \<Longrightarrow> join x (foldr join xs s) = foldr join xs s"
  by (induction xs) (auto simp: join_left_commute, metis join_assoc join_idem)

lemma foldr_join_set: "set xs = set ys \<Longrightarrow> foldr join xs s = foldr join ys s"
proof -
  have absorb: "set xs \<subseteq> set ys \<Longrightarrow> foldr join xs (foldr join ys s) = foldr join ys s" for xs ys
    by (induction xs) (auto simp: foldr_join_absorb)
  have swap: "foldr join xs (foldr join ys s) = foldr join ys (foldr join xs s)" for xs ys s
  proof (induction xs)
    case (Cons x xs)
    have "join x (foldr join ys t) = foldr join ys (join x t)" for t
      by (induction ys) (auto simp: join_left_commute)
    then show ?case using Cons by simp
  qed simp
  assume "set xs = set ys"
  then show ?thesis using absorb [of xs ys] absorb [of ys xs] swap [of xs ys s] by simp
qed

text \<open>Replicas that start alike and merge the same states, in any order and any number of times, agree.\<close>

lemma converges:
  "inv s \<Longrightarrow> list_all inv xs \<Longrightarrow> list_all inv ys \<Longrightarrow> set xs = set ys \<Longrightarrow>
   meaning (foldl merge s xs) = meaning (foldl merge s ys)"
  using foldl_merge foldr_join_set [of "map meaning xs" "map meaning ys"] by simp

lemma join_upper: "join (join x y) x = join x y"
  by (metis join_assoc join_commute join_idem)

end

section \<open>\<^verbatim>\<open>GCounter\<close> and \<^verbatim>\<open>PNCounter\<close>\<close>

record GCounter =
  gid :: string
  counts :: "(string \<times> u64) list"

definition NewGCounter :: "string \<Rightarrow> GCounter" where
  "NewGCounter i = \<lparr>gid = i, counts = []\<rparr>"

definition entry_of :: "(string \<times> u64) list \<Rightarrow> string \<Rightarrow> u64" where
  "entry_of m i = (case map_of m i of None \<Rightarrow> 0 | Some v \<Rightarrow> v)"

definition g_Inc :: "GCounter \<Rightarrow> u64 \<Rightarrow> GCounter" where
  "g_Inc c delta = c\<lparr>counts := AList.update (gid c) (entry_of (counts c) (gid c) + delta) (counts c)\<rparr>"

definition g_Count :: "GCounter \<Rightarrow> u64" where
  "g_Count c = foldl (\<lambda>total p. total + snd p) 0 (counts c)"

definition merge_entry :: "(string \<times> u64) list \<Rightarrow> string \<times> u64 \<Rightarrow> (string \<times> u64) list" where
  "merge_entry m p = (if snd p > entry_of m (fst p) then AList.update (fst p) (snd p) m else m)"

definition g_Merge :: "GCounter \<Rightarrow> GCounter \<Rightarrow> GCounter" where
  "g_Merge c other =
     c\<lparr>counts := foldl merge_entry (counts c) (counts other)\<rparr>"

record PNCounter =
  pos :: GCounter
  neg :: GCounter

definition NewPNCounter :: "string \<Rightarrow> PNCounter" where
  "NewPNCounter i = \<lparr>pos = NewGCounter i, neg = NewGCounter i\<rparr>"

definition pn_Inc :: "PNCounter \<Rightarrow> u64 \<Rightarrow> PNCounter" where
  "pn_Inc c delta = c\<lparr>pos := g_Inc (pos c) delta\<rparr>"

definition pn_Dec :: "PNCounter \<Rightarrow> u64 \<Rightarrow> PNCounter" where
  "pn_Dec c delta = c\<lparr>neg := g_Inc (neg c) delta\<rparr>"

definition pn_Count :: "PNCounter \<Rightarrow> i64" where
  "pn_Count c = g_Count (pos c) - g_Count (neg c)"

definition pn_Merge :: "PNCounter \<Rightarrow> PNCounter \<Rightarrow> PNCounter" where
  "pn_Merge c other = \<lparr>pos = g_Merge (pos c) (pos other), neg = g_Merge (neg c) (neg other)\<rparr>"

definition g_inv :: "GCounter \<Rightarrow> bool" where
  "g_inv c \<longleftrightarrow> distinct (map fst (counts c))"

lemma entry_of_update: "entry_of (AList.update i v m) j = (if j = i then v else entry_of m j)"
  by (simp add: entry_of_def update_conv')

lemma entry_of_notin: "i \<notin> fst ` set m \<Longrightarrow> entry_of m i = 0"
  by (metis entry_of_def map_of_eq_None_iff option.simps(4))

lemma g_Merge_fold:
  "distinct (map fst m) \<Longrightarrow> distinct (map fst b) \<Longrightarrow>
   (let r = foldl merge_entry m b
    in distinct (map fst r) \<and> set (map fst r) \<subseteq> set (map fst m) \<union> set (map fst b) \<and>
       (\<forall>i. entry_of r i = max (entry_of m i) (entry_of b i)))"
proof (induction b arbitrary: m)
  case Nil
  then show ?case by (simp add: entry_of_def)
next
  case (Cons p b)
  obtain i v where p: "p = (i, v)" by fastforce
  define m' where "m' = (if v > entry_of m i then AList.update i v m else m)"
  have d: "distinct (map fst m')" "set (map fst m') \<subseteq> insert i (set (map fst m))"
    using Cons.prems(1) set_alist_update [of i v m] by (auto simp: m'_def distinct_update)
  have e: "entry_of m' j = (if j = i then max (entry_of m i) v else entry_of m j)" for j
    by (auto simp: m'_def entry_of_update max_def)
  have "i \<notin> set (map fst b)" using Cons.prems(2) p by simp
  then have "map_of b i = None" by (simp add: map_of_eq_None_iff)
  then have "entry_of (p # b) j = (if j = i then v else entry_of b j)" "entry_of b i = 0" for j
    by (auto simp: entry_of_def p)
  note el = this
  define r where "r = foldl merge_entry m' b"
  have r: "distinct (map fst r)" "set (map fst r) \<subseteq> set (map fst m') \<union> set (map fst b)" "\<And>j. entry_of r j = max (entry_of m' j) (entry_of b j)"
    using Cons.IH [OF d(1)] Cons.prems(2) by (auto simp: Let_def r_def)
  have "foldl merge_entry m (p # b) = r" by (simp add: r_def m'_def merge_entry_def p)
  moreover have "set (map fst r) \<subseteq> set (map fst m) \<union> set (map fst (p # b))" using r(2) d(2) p by auto
  moreover have "entry_of r j = max (entry_of m j) (entry_of (p # b) j)" for j using r(3) [of j] by (simp add: e el(1) el(2))
  ultimately show ?case using r(1) by (simp add: Let_def)
qed

lemma g_Merge_law:
  assumes "g_inv c" "g_inv d"
  shows "g_inv (g_Merge c d)" and "entry_of (counts (g_Merge c d)) i = max (entry_of (counts c) i) (entry_of (counts d) i)"
    and "fst ` set (counts (g_Merge c d)) \<subseteq> fst ` set (counts c) \<union> fst ` set (counts d)" and "gid (g_Merge c d) = gid c"
  using g_Merge_fold [of "counts c" "counts d"] assms by (auto simp: g_inv_def g_Merge_def Let_def)

lemma g_Inc_law:
  assumes "g_inv c"
  shows "g_inv (g_Inc c d)" and "entry_of (counts (g_Inc c d)) i = entry_of (counts c) i + (if i = gid c then d else 0)"
    and "fst ` set (counts (g_Inc c d)) \<subseteq> insert (gid c) (fst ` set (counts c))" and "gid (g_Inc c d) = gid c"
  using assms set_alist_update [of "gid c" "entry_of (counts c) (gid c) + d" "counts c"]
  by (auto simp: g_inv_def g_Inc_def distinct_update entry_of_update)

text \<open>The count is the sum of the entries, over any set of ids that includes the map's.\<close>

lemma g_Count_sum:
  assumes "g_inv c" "finite S" "fst ` set (counts c) \<subseteq> S"
  shows "g_Count c = (\<Sum>i \<in> S. entry_of (counts c) i)"
proof -
  have fold: "foldl (\<lambda>total p. total + snd p) t m = t + (\<Sum>p \<leftarrow> m. snd p)" for t and m :: "(string \<times> u64) list"
    by (induction m arbitrary: t) (auto simp: add.assoc)
  have "(\<Sum>p \<leftarrow> counts c. snd p) = (\<Sum>p \<in> set (counts c). snd p)"
    using assms(1) by (simp add: g_inv_def distinct_map sum_list_distinct_conv_sum_set)
  also have "\<dots> = (\<Sum>i \<in> fst ` set (counts c). entry_of (counts c) i)"
    using assms(1) by (subst sum.reindex) (auto simp: g_inv_def distinct_map entry_of_def intro!: sum.cong)
  also have "\<dots> = (\<Sum>i \<in> S. entry_of (counts c) i)"
    using assms(2,3) by (intro sum.mono_neutral_left) (auto simp: entry_of_notin)
  finally show ?thesis by (simp add: g_Count_def fold)
qed

definition pn_inv :: "PNCounter \<Rightarrow> bool" where
  "pn_inv c \<longleftrightarrow> g_inv (pos c) \<and> g_inv (neg c)"

definition pn_meaning :: "PNCounter \<Rightarrow> (string \<Rightarrow> u64) \<times> (string \<Rightarrow> u64)" where
  "pn_meaning c = (entry_of (counts (pos c)), entry_of (counts (neg c)))"

interpretation pn_merge: mergeable pn_meaning pn_inv pn_Merge "\<lambda>x y. ((\<lambda>i. max (fst x i) (fst y i)), (\<lambda>i. max (snd x i) (snd y i)))"
  by unfold_locales (auto simp: pn_inv_def pn_Merge_def pn_meaning_def g_Merge_law fun_eq_iff max.assoc max.commute max.left_commute)

section \<open>A network of counters loses no update\<close>

datatype net_op = NInc nat u64 | NDec nat u64 | NMerge nat nat

fun net_step :: "PNCounter list \<Rightarrow> net_op \<Rightarrow> PNCounter list" where
  "net_step net (NInc i d) = (if i < length net then net[i := pn_Inc (net ! i) d] else net)"
| "net_step net (NDec i d) = (if i < length net then net[i := pn_Dec (net ! i) d] else net)"
| "net_step net (NMerge i j) = (if i < length net \<and> j < length net then net[i := pn_Merge (net ! i) (net ! j)] else net)"

fun incs :: "net_op list \<Rightarrow> nat \<Rightarrow> nat" where
  "incs [] i = 0"
| "incs (NInc j d # ops) i = (if i = j then unat d else 0) + incs ops i"
| "incs (_ # ops) i = incs ops i"

fun decs :: "net_op list \<Rightarrow> nat \<Rightarrow> nat" where
  "decs [] i = 0"
| "decs (NDec j d # ops) i = (if i = j then unat d else 0) + decs ops i"
| "decs (_ # ops) i = decs ops i"

lemma incs_append: "incs (xs @ ys) i = incs xs i + incs ys i" and decs_append: "decs (xs @ ys) i = decs xs i + decs ys i"
  by (induction xs rule: list.induct, simp_all) (case_tac [!] x1, auto)

text \<open>Each replica's own entry is the authority for what it counted, and no replica is ahead of it.\<close>

definition g_net :: "string list \<Rightarrow> (nat \<Rightarrow> nat) \<Rightarrow> GCounter list \<Rightarrow> bool" where
  "g_net ids tot gs \<longleftrightarrow> length gs = length ids \<and>
     (\<forall>i < length ids. g_inv (gs ! i) \<and> gid (gs ! i) = ids ! i \<and> fst ` set (counts (gs ! i)) \<subseteq> set ids \<and>
        unat (entry_of (counts (gs ! i)) (ids ! i)) = tot i) \<and>
     (\<forall>i < length ids. \<forall>j < length ids. entry_of (counts (gs ! i)) (ids ! j) \<le> entry_of (counts (gs ! j)) (ids ! j))"

lemma g_netD:
  assumes "g_net ids tot gs" "i < length ids"
  shows "length gs = length ids" "g_inv (gs ! i)" "gid (gs ! i) = ids ! i" "fst ` set (counts (gs ! i)) \<subseteq> set ids"
    "unat (entry_of (counts (gs ! i)) (ids ! i)) = tot i"
    "j < length ids \<Longrightarrow> entry_of (counts (gs ! i)) (ids ! j) \<le> entry_of (counts (gs ! j)) (ids ! j)"
  using assms by (auto simp: g_net_def)

lemma g_net_inc:
  assumes net: "g_net ids tot gs" and ids: "distinct ids" and i: "i < length ids" and ov: "tot i + unat d < 2 ^ 64"
  shows "g_net ids (tot(i := tot i + unat d)) (gs[i := g_Inc (gs ! i) d])"
proof -
  note D = g_netD [OF net]
  have len: "length gs = length ids" using D(1) [OF i] .
  let ?e = "\<lambda>k j. entry_of (counts (gs[i := g_Inc (gs ! i) d] ! k)) (ids ! j)"
  have e: "?e k j = entry_of (counts (gs ! k)) (ids ! j) + (if k = i \<and> j = i then d else 0)" if "k < length ids" "j < length ids" for k j
    using that len i g_Inc_law(2) [OF D(2) [OF i], of d "ids ! j"] D(3) [OF i] nth_eq_iff_index_eq [OF ids, of j i] by (auto simp: nth_list_update)
  have grow: "entry_of (counts (gs ! i)) (ids ! i) \<le> entry_of (counts (gs ! i)) (ids ! i) + d"
    and sum: "unat (entry_of (counts (gs ! i)) (ids ! i) + d) = tot i + unat d"
    using ov D(5) [OF i] by (auto simp: word_le_nat_alt unat_word_ariths take_bit_nat_eq_self_iff)
  have "?e k j \<le> ?e j j" if "k < length ids" "j < length ids" for k j
    using e [OF that] e [OF that(2) that(2)] D(6) [OF that] grow by (cases "j = i") (auto intro: order_trans)
  moreover have sub: "fst ` set (counts (g_Inc (gs ! i) d)) \<subseteq> set ids"
    using D(3,4) [OF i] nth_mem [OF i] by (intro order_trans [OF g_Inc_law(3) [OF D(2) [OF i]]]) simp
  moreover have "g_inv (gs[i := g_Inc (gs ! i) d] ! k) \<and> gid (gs[i := g_Inc (gs ! i) d] ! k) = ids ! k \<and>
      fst ` set (counts (gs[i := g_Inc (gs ! i) d] ! k)) \<subseteq> set ids \<and> unat (?e k k) = (tot(i := tot i + unat d)) k" if k: "k < length ids" for k
    using len i k D(2,3,4,5) [OF k] g_Inc_law(1,4) [OF D(2) [OF i], of d] D(3) [OF i] e [OF k k] sum sub by (cases "k = i") simp_all
  ultimately show ?thesis using len by (simp add: g_net_def)
qed

lemma g_net_merge:
  assumes net: "g_net ids tot gs" and ij: "i < length ids" "j < length ids"
  shows "g_net ids tot (gs[i := g_Merge (gs ! i) (gs ! j)])"
proof -
  note D = g_netD [OF net]
  have len: "length gs = length ids" using D(1) [OF ij(1)] .
  let ?gs = "gs[i := g_Merge (gs ! i) (gs ! j)]"
  note m = g_Merge_law [OF D(2) [OF ij(1)] D(2) [OF ij(2)]]
  have e: "entry_of (counts (?gs ! k)) (ids ! l) =
      (if k = i then max (entry_of (counts (gs ! i)) (ids ! l)) (entry_of (counts (gs ! j)) (ids ! l)) else entry_of (counts (gs ! k)) (ids ! l))"
    if "k < length ids" for k l using that len ij m(2) by (auto simp: nth_list_update)
  have own: "entry_of (counts (?gs ! k)) (ids ! k) = entry_of (counts (gs ! k)) (ids ! k)" if "k < length ids" for k
    using e [OF that, of k] D(6) [OF ij(2) ij(1)] by (auto simp: max_def)
  have "entry_of (counts (?gs ! k)) (ids ! l) \<le> entry_of (counts (?gs ! l)) (ids ! l)" if "k < length ids" "l < length ids" for k l
    using e [OF that(1), of l] own [OF that(2)] D(6) [OF that] D(6) [OF ij(1) that(2)] D(6) [OF ij(2) that(2)] by auto
  moreover have "g_inv (?gs ! k) \<and> gid (?gs ! k) = ids ! k \<and> fst ` set (counts (?gs ! k)) \<subseteq> set ids" if k: "k < length ids" for k
    using len ij k D(2,3,4) [OF k] m(1,4) D(3) [OF ij(1)] order_trans [OF m(3) Un_least [OF D(4) [OF ij(1)] D(4) [OF ij(2)]]]
    by (cases "k = i") simp_all
  ultimately show ?thesis using len own D(5) by (simp add: g_net_def)
qed

lemma g_net_New: "distinct ids \<Longrightarrow> g_net ids (\<lambda>_. 0) (map NewGCounter ids)"
  by (simp add: g_net_def NewGCounter_def g_inv_def entry_of_def)

lemma g_net_cong: "g_net ids tot gs \<Longrightarrow> (\<And>i. i < length ids \<Longrightarrow> tot' i = tot i) \<Longrightarrow> g_net ids tot' gs"
  by (simp add: g_net_def)

lemma net_run_inv:
  assumes ids: "distinct ids" and "\<forall>j. incs ops j < 2 ^ 64 \<and> decs ops j < 2 ^ 64"
  defines "net \<equiv> foldl net_step (map NewPNCounter ids) ops"
  shows "g_net ids (incs ops) (map pos net) \<and> g_net ids (decs ops) (map neg net)"
  using assms(2) unfolding net_def
proof (induction ops rule: rev_induct)
  case Nil
  then show ?case using g_net_New [OF ids] by (simp add: NewPNCounter_def comp_def)
next
  case (snoc c ops)
  define m where "m = foldl net_step (map NewPNCounter ids) ops"
  have b: "incs ops j + incs [c] j < 2 ^ 64" "decs ops j + decs [c] j < 2 ^ 64" for j
    using snoc.prems by (auto simp: incs_append decs_append)
  have IH: "g_net ids (incs ops) (map pos m)" "g_net ids (decs ops) (map neg m)"
    using snoc.IH b unfolding m_def by (meson add_lessD1)+
  then have len: "length m = length ids" by (simp add: g_net_def)
  have same: "(map f m)[k := f (m ! k)] = map f m" for f k by (metis list_update_id map_update)
  show ?case
  proof (cases c)
    case (NInc i d)
    have "incs (ops @ [c]) = (\<lambda>j. incs ops j + (if j = i then unat d else 0))" "decs (ops @ [c]) = decs ops"
      using NInc by (auto simp: incs_append decs_append fun_eq_iff)
    then show ?thesis using NInc IH len g_net_inc [OF IH(1) ids, of i d] b(1) [of i]
      by (auto simp: m_def [symmetric] pn_Inc_def map_update same elim!: g_net_cong)
  next
    case (NDec i d)
    have "decs (ops @ [c]) = (\<lambda>j. decs ops j + (if j = i then unat d else 0))" "incs (ops @ [c]) = incs ops"
      using NDec by (auto simp: incs_append decs_append fun_eq_iff)
    then show ?thesis using NDec IH len g_net_inc [OF IH(2) ids, of i d] b(2) [of i]
      by (auto simp: m_def [symmetric] pn_Dec_def map_update same elim!: g_net_cong)
  next
    case (NMerge i j)
    have "incs (ops @ [c]) = incs ops" "decs (ops @ [c]) = decs ops"
      using NMerge by (auto simp: incs_append decs_append fun_eq_iff)
    then show ?thesis using NMerge IH len g_net_merge [OF IH(1), of i j] g_net_merge [OF IH(2), of i j]
      by (simp add: m_def [symmetric] pn_Merge_def map_update)
  qed
qed

lemma foldl_max: "(\<And>y. y \<in> set (x # xs) \<Longrightarrow> y \<le> a) \<Longrightarrow> a \<in> set (x # xs) \<Longrightarrow> foldl max x xs = (a :: 'a :: linorder)"
proof (induction xs arbitrary: x)
  case (Cons y xs)
  have le: "y \<le> a" "x \<le> a" "\<And>z. z \<in> set xs \<Longrightarrow> z \<le> a" using Cons.prems(1) by auto
  have "foldl max (max x y) xs = a"
  proof (rule Cons.IH)
    show "z \<le> a" if "z \<in> set (max x y # xs)" for z using that le by auto
    show "a \<in> set (max x y # xs)" using Cons.prems(2) le(1,2) by (auto simp: max_def)
  qed
  then show ?case by simp
qed auto

lemma foldl_g_Merge:
  "g_inv c \<Longrightarrow> list_all g_inv xs \<Longrightarrow> fst ` set (counts c) \<subseteq> S \<Longrightarrow> (\<And>x. x \<in> set xs \<Longrightarrow> fst ` set (counts x) \<subseteq> S) \<Longrightarrow>
   g_inv (foldl g_Merge c xs) \<and> fst ` set (counts (foldl g_Merge c xs)) \<subseteq> S \<and>
   entry_of (counts (foldl g_Merge c xs)) i = foldl max (entry_of (counts c) i) (map (\<lambda>x. entry_of (counts x) i) xs)"
proof (induction xs arbitrary: c)
  case (Cons x xs)
  have "g_inv c" "g_inv x" using Cons.prems(1,2) by auto
  note m = g_Merge_law [OF this]
  have "fst ` set (counts x) \<subseteq> S" using Cons.prems(4) by simp
  then have "fst ` set (counts (g_Merge c x)) \<subseteq> S" using m(3) Cons.prems(3) by (meson Un_least order_trans)
  then show ?case using Cons.IH [of "g_Merge c x"] Cons.prems m by simp
qed simp

lemma g_net_total:
  assumes net: "g_net ids tot gs" and ids: "distinct ids" and i: "i < length ids"
  shows "g_Count (foldl g_Merge (gs ! i) gs) = of_nat (\<Sum>j < length ids. tot j)"
proof -
  note D = g_netD [OF net]
  have len: "length gs = length ids" using D(1) [OF i] .
  have mem: "x \<in> set gs \<longleftrightarrow> (\<exists>j < length ids. x = gs ! j)" for x using len by (auto simp: in_set_conv_nth)
  have pre: "g_inv (gs ! i)" "list_all g_inv gs" "fst ` set (counts (gs ! i)) \<subseteq> set ids"
    "\<And>x. x \<in> set gs \<Longrightarrow> fst ` set (counts x) \<subseteq> set ids"
    using D(2,4) i by (auto simp: mem list_all_iff)
  define c where "c = foldl g_Merge (gs ! i) gs"
  note f = foldl_g_Merge [OF pre, folded c_def]
  have e: "entry_of (counts c) (ids ! j) = of_nat (tot j)" if j: "j < length ids" for j
  proof -
    have "foldl max (entry_of (counts (gs ! i)) (ids ! j)) (map (\<lambda>x. entry_of (counts x) (ids ! j)) gs) = entry_of (counts (gs ! j)) (ids ! j)"
    proof (rule foldl_max)
      show "y \<le> entry_of (counts (gs ! j)) (ids ! j)"
        if "y \<in> set (entry_of (counts (gs ! i)) (ids ! j) # map (\<lambda>x. entry_of (counts x) (ids ! j)) gs)" for y
        using that D(6) [OF _ j] i by (auto simp: mem)
      have "gs ! j \<in> set gs" using len j by simp
      then show "entry_of (counts (gs ! j)) (ids ! j) \<in> set (entry_of (counts (gs ! i)) (ids ! j) # map (\<lambda>x. entry_of (counts x) (ids ! j)) gs)"
        by simp
    qed
    then show ?thesis using f [of "ids ! j"] by (simp flip: D(5) [OF j])
  qed
  have "g_Count c = (\<Sum>k \<in> set ids. entry_of (counts c) k)" using f by (intro g_Count_sum) auto
  also have "\<dots> = (\<Sum>j < length ids. entry_of (counts c) (ids ! j))"
    by (rule sum.reindex_bij_betw [symmetric]) (rule bij_betw_nth [OF ids refl refl])
  also have "\<dots> = of_nat (\<Sum>j < length ids. tot j)" using e by simp
  finally show ?thesis by (simp add: c_def)
qed

lemma foldl_pn_Merge:
  "pos (foldl pn_Merge c xs) = foldl g_Merge (pos c) (map pos xs) \<and> neg (foldl pn_Merge c xs) = foldl g_Merge (neg c) (map neg xs)"
  by (induction xs arbitrary: c) (auto simp: pn_Merge_def)

text \<open>A network of positive-negative counters loses no update.  Replicas with different ids increment, decrement and merge
  in any order, as often as they like; as long as no replica counts past 64 bits, a replica that has then merged the
  states of all replicas reports exactly the sum of all increments minus the sum of all decrements.
\<close>

lemma pn_no_lost_update:
  assumes "distinct ids" "\<forall>j. incs ops j < 2 ^ 64 \<and> decs ops j < 2 ^ 64" "i < length ids"
  shows "(let net = foldl net_step (map NewPNCounter ids) ops
    in pn_Count (foldl pn_Merge (net ! i) net) = of_nat (\<Sum>j < length ids. incs ops j) - of_nat (\<Sum>j < length ids. decs ops j))"
proof -
  define net where "net = foldl net_step (map NewPNCounter ids) ops"
  have n: "g_net ids (incs ops) (map pos net)" "g_net ids (decs ops) (map neg net)"
    using net_run_inv [OF assms(1,2)] by (auto simp: net_def)
  then have "length net = length ids" by (simp add: g_net_def)
  then show ?thesis using g_net_total [OF n(1) assms(1,3)] g_net_total [OF n(2) assms(1,3)] assms(3)
    unfolding net_def [symmetric] by (simp add: pn_Count_def foldl_pn_Merge)
qed

section \<open>\<^verbatim>\<open>GSet\<close> and \<^verbatim>\<open>LWWRegister\<close>\<close>

text \<open>A grow-only set is the list of its members in arbitrary order.\<close>

type_synonym 'a GSet = "'a list"

definition NewGSet :: "'a GSet" where
  "NewGSet = []"

definition gset_Add :: "'a GSet \<Rightarrow> 'a \<Rightarrow> 'a GSet" where
  "gset_Add s item = List.insert item s"

definition gset_Contains :: "'a GSet \<Rightarrow> 'a \<Rightarrow> bool" where
  "gset_Contains s item \<longleftrightarrow> item \<in> set s"

definition gset_Size :: "'a GSet \<Rightarrow> nat" where
  "gset_Size s = length s"

definition gset_Elements :: "'a GSet \<Rightarrow> 'a list" where
  "gset_Elements s = s"

definition gset_Merge :: "'a GSet \<Rightarrow> 'a GSet \<Rightarrow> 'a GSet" where
  "gset_Merge s other = foldl gset_Add s other"

lemma gset_Merge_law: "distinct s \<Longrightarrow> distinct (gset_Merge s t) \<and> set (gset_Merge s t) = set s \<union> set t"
  unfolding gset_Merge_def by (induction t arbitrary: s) (auto simp: gset_Add_def)

interpretation gset_merge: mergeable set distinct gset_Merge "(\<union>)"
  by unfold_locales (auto simp: gset_Merge_law)

lemma gset_Size_card: "distinct s \<Longrightarrow> gset_Size (gset_Merge s t) = card (set s \<union> set t)"
  using gset_Merge_law [of s t] by (metis distinct_card gset_Size_def)

text \<open>The clock of \<^verbatim>\<open>NewLWWRegister\<close> is an argument; timestamps are the integers of \<^verbatim>\<open>int64\<close>.\<close>

record 'a LWWRegister =
  rvalue :: 'a
  timestamp :: int
  rid :: string

definition NewLWWRegister :: "int \<Rightarrow> string \<Rightarrow> 'a \<Rightarrow> 'a LWWRegister" where
  "NewLWWRegister now i initial = \<lparr>rvalue = initial, timestamp = now, rid = i\<rparr>"

definition lww_Set :: "'a LWWRegister \<Rightarrow> 'a \<Rightarrow> int \<Rightarrow> 'a LWWRegister" where
  "lww_Set r v ts = (if ts > timestamp r then r\<lparr>rvalue := v, timestamp := ts\<rparr> else r)"

definition lww_Get :: "'a LWWRegister \<Rightarrow> 'a" where
  "lww_Get r = rvalue r"

definition lww_Merge :: "'a LWWRegister \<Rightarrow> 'a LWWRegister \<Rightarrow> 'a LWWRegister" where
  "lww_Merge r other =
     (if timestamp other > timestamp r then r\<lparr>rvalue := rvalue other, timestamp := timestamp other\<rparr> else r)"

text \<open>Registers converge when a timestamp determines the value written at it; on a tie between different values they do not.\<close>

interpretation lww_merge: mergeable timestamp "\<lambda>r. rvalue r = w (timestamp r)" lww_Merge max for w
  by unfold_locales (auto simp: lww_Merge_def max_def)

lemma lww_converges:
  assumes "list_all (\<lambda>r. rvalue r = w (timestamp r)) (s # xs @ ys)" "set xs = set ys"
  shows "lww_Get (foldl lww_Merge s xs) = lww_Get (foldl lww_Merge s ys)"
proof -
  have a: "rvalue s = w (timestamp s)" "list_all (\<lambda>r. rvalue r = w (timestamp r)) xs" "list_all (\<lambda>r. rvalue r = w (timestamp r)) ys"
    using assms(1) by auto
  show ?thesis using lww_merge.converges [OF a assms(2)] lww_merge.foldl_merge [OF a(1,2)] lww_merge.foldl_merge [OF a(1,3)]
    by (simp add: lww_Get_def)
qed

lemma lww_tie_diverges:
  "(let a = NewLWWRegister 7 ''a'' (1 :: nat); b = NewLWWRegister 7 ''b'' 2
    in lww_Get (lww_Merge a b) \<noteq> lww_Get (lww_Merge b a))"
  by (simp add: NewLWWRegister_def lww_Merge_def lww_Get_def)

end
