(* ===== verification/Vector_Clock.thy ===== *)
theory Vector_Clock
  imports Crdt
begin

text \<open>
  \<^verbatim>\<open>pkg/datastructures/vectorclock\<close>: vector clocks as maps from node to \<^verbatim>\<open>uint64\<close>, iterated in arbitrary
  order.  A node that is missing from a clock counts less than any time of it, as \<^verbatim>\<open>Compare\<close> has it.
  The gob encoding of \<^verbatim>\<open>Bytes\<close> and \<^verbatim>\<open>FromBytes\<close> is not modelled.
\<close>

section \<open>The code\<close>

type_synonym Clock = "(string \<times> u64) list"

datatype Ordering = Equal | Before | After | Concurrent

definition vc_New :: Clock where
  "vc_New = []"

definition vc_Increment :: "Clock \<Rightarrow> string \<Rightarrow> Clock" where
  "vc_Increment vc node = AList.update node (entry_of vc node + 1) vc"

definition vc_merge_entry :: "Clock \<Rightarrow> string \<times> u64 \<Rightarrow> Clock" where
  "vc_merge_entry vc p = (if entry_of vc (fst p) < snd p then AList.update (fst p) (snd p) vc else vc)"

definition vc_Merge :: "Clock \<Rightarrow> Clock \<Rightarrow> Clock" where
  "vc_Merge vc other = foldl vc_merge_entry vc other"

definition vc_Copy :: "Clock \<Rightarrow> Clock" where
  "vc_Copy vc = foldl (\<lambda>newVC p. AList.update (fst p) (snd p) newVC) [] vc"

definition vc_Compare :: "Clock \<Rightarrow> Clock \<Rightarrow> Ordering" where
  "vc_Compare vc other =
     (let isAfter = list_ex (\<lambda>(node, time). case map_of other node of None \<Rightarrow> True | Some otherTime \<Rightarrow> time > otherTime) vc;
          isBefore = list_ex (\<lambda>(node, time). case map_of other node of None \<Rightarrow> False | Some otherTime \<Rightarrow> time < otherTime) vc \<or>
            list_ex (\<lambda>(node, _). map_of vc node = None) other
      in if isBefore \<and> isAfter then Concurrent
         else if isBefore then Before
         else if isAfter then After
         else Equal)"

record ThreadSafeClock =
  tclock :: Clock

definition NewThreadSafe :: ThreadSafeClock where
  "NewThreadSafe = \<lparr>tclock = vc_New\<rparr>"

definition ts_Increment :: "ThreadSafeClock \<Rightarrow> string \<Rightarrow> ThreadSafeClock" where
  "ts_Increment ts node = ts\<lparr>tclock := vc_Increment (tclock ts) node\<rparr>"

definition ts_Merge :: "ThreadSafeClock \<Rightarrow> Clock \<Rightarrow> ThreadSafeClock" where
  "ts_Merge ts other = ts\<lparr>tclock := vc_Merge (tclock ts) other\<rparr>"

definition ts_Compare :: "ThreadSafeClock \<Rightarrow> Clock \<Rightarrow> Ordering" where
  "ts_Compare ts other = vc_Compare (tclock ts) other"

definition ts_Snapshot :: "ThreadSafeClock \<Rightarrow> Clock" where
  "ts_Snapshot ts = vc_Copy (tclock ts)"

section \<open>Clocks as count functions\<close>

definition vc_inv :: "Clock \<Rightarrow> bool" where
  "vc_inv vc \<longleftrightarrow> distinct (map fst vc) \<and> (\<forall>n. map_of vc n \<noteq> Some 0)"

lemma vc_invD:
  assumes "vc_inv vc"
  shows "distinct (map fst vc)" "map_of vc n = (if entry_of vc n = 0 then None else Some (entry_of vc n))"
  using assms by (auto simp: vc_inv_def entry_of_def split: option.splits)

lemma vc_New_inv [simp]: "vc_inv vc_New" "entry_of vc_New n = 0"
  by (auto simp: vc_inv_def vc_New_def entry_of_def)

lemma vc_Increment_law:
  assumes "vc_inv vc" "entry_of vc n + 1 \<noteq> 0"
  shows "vc_inv (vc_Increment vc n)" and "entry_of (vc_Increment vc n) m = entry_of vc m + (if m = n then 1 else 0)"
  using assms by (auto simp: vc_inv_def vc_Increment_def distinct_update update_conv' entry_of_update)

lemma vc_Merge_law:
  assumes "vc_inv a" "vc_inv b"
  shows "vc_inv (vc_Merge a b)" and "entry_of (vc_Merge a b) n = max (entry_of a n) (entry_of b n)"
proof -
  have eq: "vc_merge_entry = merge_entry" by (auto simp: fun_eq_iff vc_merge_entry_def merge_entry_def)
  have f: "distinct (map fst (vc_Merge a b))" "\<And>n. entry_of (vc_Merge a b) n = max (entry_of a n) (entry_of b n)"
    using g_Merge_fold [of a b] vc_invD(1) [OF assms(1)] vc_invD(1) [OF assms(2)] by (auto simp: Let_def vc_Merge_def eq)
  have "map_of (foldl merge_entry m b) n \<noteq> Some 0" if "\<forall>n. map_of m n \<noteq> Some 0" for m n
    using that
  proof (induction b arbitrary: m)
    case (Cons p b)
    have "\<forall>n. map_of (merge_entry m p) n \<noteq> Some 0" using Cons.prems by (auto simp: merge_entry_def update_conv')
    then show ?case using Cons.IH by simp
  qed simp
  then show "vc_inv (vc_Merge a b)" using assms(1) f(1) unfolding vc_inv_def vc_Merge_def eq by blast
  show "entry_of (vc_Merge a b) n = max (entry_of a n) (entry_of b n)" by (rule f(2))
qed

lemma vc_Copy_law:
  assumes "vc_inv vc"
  shows "vc_inv (vc_Copy vc)" and "entry_of (vc_Copy vc) n = entry_of vc n"
proof -
  have "distinct (map fst (m @ vc)) \<Longrightarrow> foldl (\<lambda>newVC p. AList.update (fst p) (snd p) newVC) m vc = m @ vc" for m vc :: Clock
  proof (induction vc arbitrary: m)
    case (Cons p vc)
    have "AList.update (fst p) (snd p) m = m @ [p]" using Cons.prems by (simp add: alist_update_notin)
    then show ?case using Cons by simp
  qed simp
  then have "vc_Copy vc = vc" using vc_invD(1) [OF assms] by (simp add: vc_Copy_def)
  then show "vc_inv (vc_Copy vc)" "entry_of (vc_Copy vc) n = entry_of vc n" using assms by simp_all
qed

lemma vc_Compare_law:
  assumes "vc_inv a" "vc_inv b"
  shows "vc_Compare a b =
    (let before = (\<exists>n. entry_of a n < entry_of b n); after = (\<exists>n. entry_of a n > entry_of b n)
     in if before \<and> after then Concurrent else if before then Before else if after then After else Equal)"
proof -
  note A = vc_invD [OF assms(1)] and B = vc_invD [OF assms(2)]
  have mem: "(n, t) \<in> set c \<longleftrightarrow> t \<noteq> 0 \<and> entry_of c n = t" if "vc_inv c" for n t c
    using vc_invD(2) [OF that, of n] map_of_eq_Some_iff [OF vc_invD(1) [OF that], of n t] by (auto split: if_splits)
  have gt: "entry_of c n > entry_of d n \<Longrightarrow> (n, entry_of c n) \<in> set c" if "vc_inv c" for c d n
    using mem [OF that] by (metis word_not_simps(1))
  have "(case map_of b n of None \<Rightarrow> True | Some o' \<Rightarrow> t > o') \<longleftrightarrow> t > entry_of b n" if "(n, t) \<in> set a" for n t
    using that by (simp add: B(2) mem [OF assms(1)] word_gt_0)
  then have after: "list_ex (\<lambda>(node, time). case map_of b node of None \<Rightarrow> True | Some otherTime \<Rightarrow> time > otherTime) a \<longleftrightarrow> (\<exists>n. entry_of a n > entry_of b n)"
    using gt [OF assms(1), of b] mem [OF assms(1)] by (fastforce simp: list_ex_iff)
  have "(case map_of b n of None \<Rightarrow> False | Some o' \<Rightarrow> t < o') \<longleftrightarrow> t < entry_of b n" if "(n, t) \<in> set a" for n t
    using that by (simp add: B(2))
  then have "list_ex (\<lambda>(node, time). case map_of b node of None \<Rightarrow> False | Some otherTime \<Rightarrow> time < otherTime) a \<longleftrightarrow>
      (\<exists>n. entry_of a n \<noteq> 0 \<and> entry_of a n < entry_of b n)"
    using mem [OF assms(1)] by (fastforce simp: list_ex_iff)
  moreover have "list_ex (\<lambda>(node, _). map_of a node = None) b \<longleftrightarrow> (\<exists>n t. (n, t) \<in> set b \<and> entry_of a n = 0)"
    by (auto simp: list_ex_iff A(2) split: if_splits intro: rev_bexI)
  then have "list_ex (\<lambda>(node, _). map_of a node = None) b \<longleftrightarrow> (\<exists>n. entry_of a n = 0 \<and> entry_of a n < entry_of b n)"
    by (auto simp: mem [OF assms(2)] word_gt_0)
  ultimately have before: "list_ex (\<lambda>(node, time). case map_of b node of None \<Rightarrow> False | Some otherTime \<Rightarrow> time < otherTime) a \<or>
      list_ex (\<lambda>(node, _). map_of a node = None) b \<longleftrightarrow> (\<exists>n. entry_of a n < entry_of b n)"
    by blast
  show ?thesis unfolding vc_Compare_def after before Let_def ..
qed

section \<open>Vector clocks decide causality\<close>

text \<open>
  A run of nodes with clocks: an event of a node is local or receives the message that an earlier event sent; the node
  merges the clock the message carries and increments its own entry; the event's clock is a snapshot.
\<close>

type_synonym event = "string \<times> nat option"

definition vstep :: "(string \<Rightarrow> ThreadSafeClock) \<times> Clock list \<Rightarrow> event \<Rightarrow> (string \<Rightarrow> ThreadSafeClock) \<times> Clock list" where
  "vstep st ev =
     (let (cur, stamps) = st; (n, src) = ev;
          ts = (case src of None \<Rightarrow> cur n | Some e \<Rightarrow> ts_Merge (cur n) (stamps ! e));
          ts = ts_Increment ts n
      in (cur(n := ts), stamps @ [ts_Snapshot ts]))"

definition vrun :: "event list \<Rightarrow> (string \<Rightarrow> ThreadSafeClock) \<times> Clock list" where
  "vrun evs = foldl vstep (\<lambda>_. NewThreadSafe, []) evs"

definition stamps :: "event list \<Rightarrow> Clock list" where
  "stamps evs = snd (vrun evs)"

text \<open>A message is received after it was sent.\<close>

definition well_ordered :: "event list \<Rightarrow> bool" where
  "well_ordered evs \<longleftrightarrow> list_all (\<lambda>k. case snd (evs ! k) of None \<Rightarrow> True | Some e \<Rightarrow> e < k) [0..<length evs]"

text \<open>Happened-before: the events of one node in their order, a send before its receive, and what follows from these.\<close>

definition edge :: "event list \<Rightarrow> nat \<Rightarrow> nat \<Rightarrow> bool" where
  "edge evs e f \<longleftrightarrow> e < f \<and> f < length evs \<and> (fst (evs ! e) = fst (evs ! f) \<or> snd (evs ! f) = Some e)"

abbreviation hb :: "event list \<Rightarrow> nat \<Rightarrow> nat \<Rightarrow> bool" where
  "hb evs \<equiv> (edge evs)\<^sup>+\<^sup>+"

definition past :: "event list \<Rightarrow> nat \<Rightarrow> nat set" where
  "past evs f = {e. (edge evs)\<^sup>*\<^sup>* e f}"

definition past_of :: "event list \<Rightarrow> nat \<Rightarrow> string \<Rightarrow> nat set" where
  "past_of evs f n = {e \<in> past evs f. fst (evs ! e) = n}"

lemma hb_less: "hb evs e f \<Longrightarrow> e < f \<and> f < length evs"
  by (induction rule: tranclp_induct) (auto simp: edge_def)

lemma past_le: "e \<in> past evs f \<Longrightarrow> e \<le> f"
  unfolding past_def by (auto simp: rtranclp_into_tranclp1 dest!: rtranclpD hb_less)

lemma finite_past [simp]: "finite (past evs f)" "finite (past_of evs f n)"
proof -
  have "past evs f \<subseteq> {..f}" using past_le by auto
  then show "finite (past evs f)" by (rule finite_subset) simp
  then show "finite (past_of evs f n)" by (simp add: past_of_def)
qed

lemma past_trans: "e \<in> past evs f \<Longrightarrow> f \<in> past evs g \<Longrightarrow> e \<in> past evs g"
  by (auto simp: past_def)

lemma past_self [simp]: "f \<in> past evs f"
  by (simp add: past_def)

lemma past_step: "past evs f = insert f (\<Union>g \<in> {g. edge evs g f}. past evs g)"
  unfolding past_def by (auto elim: rtranclp.cases intro: rtranclp.rtrancl_into_rtrancl)

lemma past_of_down: "e \<in> past_of evs f n \<Longrightarrow> d \<le> e \<Longrightarrow> fst (evs ! d) = n \<Longrightarrow> e < length evs \<Longrightarrow> d \<in> past_of evs f n"
proof (cases "d = e")
  case False
  assume a: "e \<in> past_of evs f n" "d \<le> e" "fst (evs ! d) = n" "e < length evs"
  then have "edge evs d e" using False by (auto simp: edge_def past_of_def)
  then show ?thesis using a by (auto simp: past_of_def past_def intro: converse_rtranclp_into_rtranclp)
qed simp

lemma past_length: "e \<in> past evs f \<Longrightarrow> f < length evs \<Longrightarrow> e < length evs"
  using past_le by fastforce

text \<open>Two pasts see comparable prefixes of each node's events.\<close>

lemma past_of_linear:
  assumes "f < length evs" "g < length evs"
  shows "past_of evs f n \<subseteq> past_of evs g n \<or> past_of evs g n \<subseteq> past_of evs f n"
proof (rule ccontr)
  assume "\<not> ?thesis"
  then obtain a b where ab: "a \<in> past_of evs f n" "a \<notin> past_of evs g n" "b \<in> past_of evs g n" "b \<notin> past_of evs f n" by blast
  then have "a < length evs" "b < length evs" "fst (evs ! a) = n" "fst (evs ! b) = n"
    using assms past_length by (auto simp: past_of_def)
  then show False using ab past_of_down [of a evs f n b] past_of_down [of b evs g n a] by (cases "a \<le> b") auto
qed

lemma card_past_Un:
  assumes "f < length evs" "g < length evs"
  shows "card (past_of evs f n \<union> past_of evs g n) = max (card (past_of evs f n)) (card (past_of evs g n))"
  using past_of_linear [OF assms, of n] by (auto simp: Un_absorb1 Un_absorb2 max_def card_mono intro: antisym)

lemma card_past_less: "f < length evs \<Longrightarrow> card (past_of evs f n) \<le> length evs"
proof -
  assume "f < length evs"
  then have "past_of evs f n \<subseteq> {..<length evs}" using past_length by (auto simp: past_of_def)
  then show ?thesis using card_mono [of "{..<length evs}"] by fastforce
qed

text \<open>What a node has seen before event \<open>k\<close>: the past of its last event.\<close>

definition seen :: "event list \<Rightarrow> nat \<Rightarrow> string \<Rightarrow> string \<Rightarrow> nat set" where
  "seen evs k m n = (\<Union>i \<in> {i. i < k \<and> fst (evs ! i) = m}. past_of evs i n)"

lemma seen_cases:
  assumes "k \<le> length evs"
  obtains (none) "\<And>n. seen evs k m n = {}" | (last) j where "j < k" "\<And>n. seen evs k m n = past_of evs j n"
proof (cases "{i. i < k \<and> fst (evs ! i) = m} = {}")
  case True
  then have "seen evs k m n = {}" for n by (auto simp: seen_def)
  then show ?thesis by (rule none)
next
  case False
  define j where "j = Max {i. i < k \<and> fst (evs ! i) = m}"
  have fin: "finite {i. i < k \<and> fst (evs ! i) = m}" by simp
  have j: "j < k" "fst (evs ! j) = m" using Max_in [OF fin False] by (auto simp: j_def)
  have "past_of evs i n \<subseteq> past_of evs j n" if "i < k" "fst (evs ! i) = m" for i n
  proof (cases "i = j")
    case False
    have "i \<le> j" using that fin by (simp add: j_def)
    then have "edge evs i j" using False that j assms by (auto simp: edge_def)
    then have "i \<in> past evs j" by (auto simp: past_def)
    then show ?thesis by (auto simp: past_of_def intro: past_trans)
  qed simp
  then have "seen evs k m n = past_of evs j n" for n using j by (auto simp: seen_def)
  then show ?thesis using last [OF j(1)] by blast
qed

lemma past_of_event:
  assumes "k < length evs" "\<And>e. snd (evs ! k) = Some e \<Longrightarrow> e < k"
  shows "past_of evs k n = (if n = fst (evs ! k) then {k} else {}) \<union> seen evs k (fst (evs ! k)) n \<union>
    (case snd (evs ! k) of None \<Rightarrow> {} | Some e \<Rightarrow> past_of evs e n)"
  using assms(1) by (auto simp: past_of_def past_step [of evs k] seen_def edge_def dest: assms(2) split: option.splits)

lemma seen_Suc: "k < length evs \<Longrightarrow> (\<And>e. snd (evs ! k) = Some e \<Longrightarrow> e < k) \<Longrightarrow>
   seen evs (Suc k) m n = (if m = fst (evs ! k) then past_of evs k n else seen evs k m n)"
  using past_of_event [of k evs n] by (auto simp: seen_def less_Suc_eq)

lemma max_of_nat: "a < 2 ^ 64 \<Longrightarrow> b < 2 ^ 64 \<Longrightarrow> max (of_nat a) (of_nat b :: u64) = of_nat (max a b)"
  by (auto simp: max_def word_le_nat_alt unat_of_nat take_bit_nat_eq_self)

definition counts_past :: "event list \<Rightarrow> Clock \<Rightarrow> (string \<Rightarrow> nat set) \<Rightarrow> bool" where
  "counts_past evs c P \<longleftrightarrow> vc_inv c \<and> (\<forall>n. entry_of c n = of_nat (card (P n)) \<and> card (P n) \<le> length evs)"

lemma vrun_counts:
  assumes w: "well_ordered evs" and N: "length evs < 2 ^ 64" and "k \<le> length evs"
  shows "case foldl vstep (\<lambda>_. NewThreadSafe, []) (take k evs) of (cur, out) \<Rightarrow>
    length out = k \<and> (\<forall>i < k. counts_past evs (out ! i) (past_of evs i)) \<and> (\<forall>m. counts_past evs (tclock (cur m)) (seen evs k m))"
  using assms(3)
proof (induction k)
  case 0
  then show ?case by (simp add: NewThreadSafe_def counts_past_def seen_def)
next
  case (Suc k)
  obtain cur out where st: "foldl vstep (\<lambda>_. NewThreadSafe, []) (take k evs) = (cur, out)" by fastforce
  have IH: "length out = k" "\<And>i. i < k \<Longrightarrow> counts_past evs (out ! i) (past_of evs i)" "\<And>m. counts_past evs (tclock (cur m)) (seen evs k m)"
    using Suc st by auto
  obtain n src where ev: "evs ! k = (n, src)" by fastforce
  have "case snd (evs ! k) of None \<Rightarrow> True | Some e \<Rightarrow> e < k" using Suc.prems w unfolding well_ordered_def list_all_iff by simp
  then have k: "k < length evs" "\<And>e. snd (evs ! k) = Some e \<Longrightarrow> e < k" using Suc.prems by auto
  define ts where "ts = (case src of None \<Rightarrow> cur n | Some e \<Rightarrow> ts_Merge (cur n) (out ! e))"
  define S where "S m = seen evs k n m \<union> (case src of None \<Rightarrow> {} | Some e \<Rightarrow> past_of evs e m)" for m
  have ts: "counts_past evs (tclock ts) S"
  proof (cases src)
    case None
    then show ?thesis using IH(3) [of n] by (simp add: ts_def S_def counts_past_def)
  next
    case (Some e)
    have e: "e < k" using k(2) [of e] ev Some by simp
    have "card (seen evs k n m \<union> past_of evs e m) = max (card (seen evs k n m)) (card (past_of evs e m))" for m
    proof (rule seen_cases [OF less_imp_le [OF k(1)], of n])
      fix j assume "j < k" "\<And>m. seen evs k n m = past_of evs j m"
      then show ?thesis using card_past_Un [of j evs e m] k(1) e by simp
    qed simp
    moreover have "max (of_nat (card (seen evs k n m))) (of_nat (card (past_of evs e m)) :: u64) = of_nat (max (card (seen evs k n m)) (card (past_of evs e m)))" for m
      using IH(2) [OF e] IH(3) [of n] N by (intro max_of_nat) (meson counts_past_def le_less_trans)+
    ultimately show ?thesis using IH(2) [OF e] IH(3) [of n] Some
      by (simp add: ts_def S_def counts_past_def ts_Merge_def vc_Merge_law)
  qed
  have P: "past_of evs k m = (if m = n then insert k (S m) else S m)" for m
    using past_of_event [OF k, of m] ev by (auto simp: S_def)
  have kS: "k \<notin> S m" for m
    using k(2) ev by (auto simp: S_def seen_def past_of_def dest!: past_le split: option.splits)
  have fin: "finite (S m)" for m using finite_past(2) [of evs k m] P [of m] by (auto split: if_splits)
  have cS: "Suc (card (S n)) \<le> length evs" using card_past_less [OF k(1), of n] P [of n] kS [of n] fin [of n] by simp
  have inc: "counts_past evs (tclock (ts_Increment ts n)) (past_of evs k)"
  proof -
    have "entry_of (tclock ts) n + 1 = of_nat (Suc (card (S n)))" using ts by (simp add: counts_past_def add.commute)
    moreover have "unat (of_nat (Suc (card (S n))) :: u64) = Suc (card (S n))"
      using cS N by (simp only: unat_of_nat) (simp add: take_bit_nat_eq_self)
    then have "of_nat (Suc (card (S n))) \<noteq> (0 :: u64)" by (metis Zero_not_Suc unat_0)
    ultimately have "entry_of (tclock ts) n + 1 \<noteq> 0" by metis
    from vc_Increment_law [OF _ this] ts kS fin cS show ?thesis
      by (auto simp: counts_past_def ts_Increment_def P)
  qed
  have "counts_past evs (ts_Snapshot (ts_Increment ts n)) (past_of evs k)"
    using inc by (simp add: counts_past_def ts_Snapshot_def vc_Copy_law)
  moreover have "foldl vstep (\<lambda>_. NewThreadSafe, []) (take (Suc k) evs) =
      (cur(n := ts_Increment ts n), out @ [ts_Snapshot (ts_Increment ts n)])"
    using k(1) st ev by (simp add: take_Suc_conv_app_nth vstep_def ts_def Let_def)
  ultimately show ?case using IH inc seen_Suc [OF k] ev by (auto simp: nth_append less_Suc_eq counts_past_def)
qed

lemma stamps_counts:
  assumes "well_ordered evs" "length evs < 2 ^ 64" "e < length evs"
  shows "counts_past evs (stamps evs ! e) (past_of evs e)"
  using vrun_counts [OF assms(1,2) order_refl] assms(3) by (auto simp: stamps_def vrun_def split: prod.splits)

lemma past_subset_iff:
  assumes "e < length evs" "f < length evs"
  shows "e \<in> past evs f \<longleftrightarrow> (\<forall>n. card (past_of evs e n) \<le> card (past_of evs f n))"
proof
  assume "e \<in> past evs f"
  then have "past_of evs e n \<subseteq> past_of evs f n" for n by (auto simp: past_of_def intro: past_trans)
  then show "\<forall>n. card (past_of evs e n) \<le> card (past_of evs f n)" by (simp add: card_mono)
next
  assume le: "\<forall>n. card (past_of evs e n) \<le> card (past_of evs f n)"
  let ?n = "fst (evs ! e)"
  have "past_of evs e ?n \<subseteq> past_of evs f ?n"
    using past_of_linear [OF assms, of ?n] card_seteq [OF finite_past(2) [of evs e ?n], of "past_of evs f ?n"] le by auto
  moreover have "e \<in> past_of evs e ?n" by (simp add: past_of_def)
  ultimately have "e \<in> past_of evs f ?n" by blast
  then show "e \<in> past evs f" by (simp add: past_of_def)
qed

lemma past_iff_hb: "e \<in> past evs f \<longleftrightarrow> e = f \<or> hb evs e f"
  by (auto simp: past_def dest: rtranclpD intro: tranclp_into_rtranclp)

text \<open>
  C13: \<^verbatim>\<open>Compare\<close> decides causality.  In every run of nodes that increment their entry at each event and merge the
  clocks of the messages they receive (fewer than \<open>2 ^ 64\<close> events, so that no entry wraps around), comparing the clocks of two
  events returns \<^verbatim>\<open>Before\<close> exactly when the first happened before the second, \<^verbatim>\<open>After\<close> exactly for the converse,
  \<^verbatim>\<open>Equal\<close> only for the same event and \<^verbatim>\<open>Concurrent\<close> exactly for causally unrelated events.
\<close>

theorem vector_clock_causality:
  assumes "well_ordered evs" "length evs < 2 ^ 64" "e < length evs" "f < length evs"
  shows "vc_Compare (stamps evs ! e) (stamps evs ! f) =
    (if e = f then Equal else if hb evs e f then Before else if hb evs f e then After else Concurrent)"
proof -
  note E = stamps_counts [OF assms(1,2,3), unfolded counts_past_def] and F = stamps_counts [OF assms(1,2,4), unfolded counts_past_def]
  have lt: "of_nat (card (past_of evs i n)) < (of_nat (card (past_of evs j n)) :: u64) \<longleftrightarrow> card (past_of evs i n) < card (past_of evs j n)"
    if "i < length evs" "j < length evs" for i j n
    using card_past_less [OF that(1), of n] card_past_less [OF that(2), of n] assms(2)
    by (simp add: word_less_nat_alt unat_of_nat take_bit_nat_eq_self)
  have "vc_Compare (stamps evs ! e) (stamps evs ! f) =
    (let before = f \<notin> past evs e; after = e \<notin> past evs f
     in if before \<and> after then Concurrent else if before then Before else if after then After else Equal)"
    using vc_Compare_law [of "stamps evs ! e" "stamps evs ! f"] E F lt assms(3,4)
    by (simp add: past_subset_iff [OF assms(4,3)] past_subset_iff [OF assms(3,4)] not_le)
  then show ?thesis using hb_less [of evs e f] hb_less [of evs f e] by (auto simp: past_iff_hb Let_def)
qed

theorem vector_clock_causality_witness:
  "(let evs = [(''a'', None), (''b'', Some 0), (''a'', None)]
    in vc_Compare (stamps evs ! 0) (stamps evs ! 1) = Before \<and> vc_Compare (stamps evs ! 1) (stamps evs ! 2) = Concurrent)"
proof -
  let ?evs = "[(''a'', None), (''b'', Some 0), (''a'', None)]"
  have w: "well_ordered ?evs" "length ?evs < 2 ^ 64" "0 < length ?evs" "1 < length ?evs" "2 < length ?evs"
    by (simp_all add: well_ordered_def upt_rec)
  have "edge ?evs 0 1" by (simp add: edge_def)
  then have b: "hb ?evs 0 1" by blast
  have no: "\<not> edge ?evs 1 2" by (simp add: edge_def)
  have "\<not> hb ?evs 1 2"
  proof
    assume "hb ?evs 1 2"
    then show False
    proof (cases rule: tranclp.cases)
      case r_into_trancl
      then show ?thesis using no by blast
    next
      case (trancl_into_trancl z)
      then have "1 < z" "z < 2" using hb_less [of ?evs 1 z] by (auto simp: edge_def)
      then show ?thesis by simp
    qed
  qed
  moreover have "\<not> hb ?evs 2 1" using hb_less [of ?evs 2 1] by auto
  ultimately have "vc_Compare (stamps ?evs ! 1) (stamps ?evs ! 2) = Concurrent" using vector_clock_causality [OF w(1,2,4,5)] by auto
  moreover have "vc_Compare (stamps ?evs ! 0) (stamps ?evs ! 1) = Before" using vector_clock_causality [OF w(1,2,3,4)] b by auto
  ultimately show ?thesis by (simp only: Let_def)
qed

end
