(* ===== verification/Breaker.thy ===== *)
theory Breaker
  imports Prelude
begin

text \<open>
  \<^verbatim>\<open>pkg/resilience\<close>: the circuit breaker, and \<^verbatim>\<open>pkg/servicemesh/circuitbreaker\<close>, the facade over it.
  Times are nanoseconds and an argument of the calls; the time of the last failure is kept in milliseconds, as
  the code does.  What the protected function returns is an argument: \<open>None\<close> is nil.  The state-change
  callback is a log of the changes.  Each method is one atomic step; \<^verbatim>\<open>Execute\<close> is the admission step and,
  when admitted, the recording step.
\<close>

section \<open>\<^verbatim>\<open>CircuitBreaker\<close>\<close>

datatype cbState = StateClosed | StateOpen | StateHalfOpen

datatype 'e cb_error = ErrCircuitOpen | ErrTooManyRequests | ExecErr 'e

record CircuitBreakerConfig =
  FailureThreshold :: int
  SuccessThreshold :: int
  Timeout :: int
  MaxRequests :: int

record CircuitBreaker =
  config :: CircuitBreakerConfig
  cb_state :: cbState
  failures :: int
  successes :: int
  lastFailure :: int
  halfOpenCount :: int
  changes :: "(cbState \<times> cbState) list"

abbreviation millisecond :: int where
  "millisecond \<equiv> 1000000"

definition NewCircuitBreaker :: "CircuitBreakerConfig \<Rightarrow> CircuitBreaker" where
  "NewCircuitBreaker cfg =
     (let cfg = (if FailureThreshold cfg = 0 then cfg\<lparr>FailureThreshold := 5\<rparr> else cfg);
          cfg = (if SuccessThreshold cfg = 0 then cfg\<lparr>SuccessThreshold := 2\<rparr> else cfg);
          cfg = (if Timeout cfg = 0 then cfg\<lparr>Timeout := 30 * 1000000000\<rparr> else cfg)
      in \<lparr>config = cfg, cb_state = StateClosed, failures = 0, successes = 0, lastFailure = 0, halfOpenCount = 0, changes = []\<rparr>)"

definition setState :: "CircuitBreaker \<Rightarrow> cbState \<Rightarrow> CircuitBreaker" where
  "setState cb newState =
     (if cb_state cb \<noteq> newState then cb\<lparr>cb_state := newState, changes := changes cb @ [(cb_state cb, newState)]\<rparr> else cb)"

definition cb_Reset :: "CircuitBreaker \<Rightarrow> CircuitBreaker" where
  "cb_Reset cb = (setState cb StateClosed)\<lparr>failures := 0, successes := 0, halfOpenCount := 0\<rparr>"

definition ForceOpen :: "CircuitBreaker \<Rightarrow> int \<Rightarrow> CircuitBreaker" where
  "ForceOpen cb now = setState (cb\<lparr>lastFailure := now div millisecond, halfOpenCount := 0\<rparr>) StateOpen"

definition ForceClose :: "CircuitBreaker \<Rightarrow> CircuitBreaker" where
  "ForceClose cb = cb_Reset cb"

definition reserveHalfOpen :: "CircuitBreaker \<Rightarrow> CircuitBreaker \<times> 'e cb_error option" where
  "reserveHalfOpen cb =
     (if MaxRequests (config cb) \<le> 0 then (cb, None)
      else if halfOpenCount cb \<ge> MaxRequests (config cb) then (cb, Some ErrTooManyRequests)
      else (cb\<lparr>halfOpenCount := halfOpenCount cb + 1\<rparr>, None))"

definition allowRequest :: "CircuitBreaker \<Rightarrow> int \<Rightarrow> CircuitBreaker \<times> 'e cb_error option" where
  "allowRequest cb now =
     (case cb_state cb of
        StateClosed \<Rightarrow> (cb, None)
      | StateOpen \<Rightarrow>
          if now - lastFailure cb * millisecond > Timeout (config cb)
          then reserveHalfOpen ((setState cb StateHalfOpen)\<lparr>successes := 0, halfOpenCount := 0\<rparr>)
          else (cb, Some ErrCircuitOpen)
      | StateHalfOpen \<Rightarrow> reserveHalfOpen cb)"

definition recordSuccess :: "CircuitBreaker \<Rightarrow> CircuitBreaker" where
  "recordSuccess cb =
     (case cb_state cb of
        StateClosed \<Rightarrow> cb\<lparr>failures := 0\<rparr>
      | StateHalfOpen \<Rightarrow>
          (let cb = cb\<lparr>successes := successes cb + 1\<rparr>
           in if successes cb \<ge> SuccessThreshold (config cb)
              then (setState cb StateClosed)\<lparr>failures := 0, halfOpenCount := 0\<rparr>
              else cb)
      | StateOpen \<Rightarrow> cb)"

definition recordFailure :: "CircuitBreaker \<Rightarrow> int \<Rightarrow> CircuitBreaker" where
  "recordFailure cb now =
     (let cb = cb\<lparr>lastFailure := now div millisecond\<rparr>
      in case cb_state cb of
           StateClosed \<Rightarrow>
             (let cb = cb\<lparr>failures := failures cb + 1\<rparr>
              in if failures cb \<ge> FailureThreshold (config cb) then setState cb StateOpen else cb)
         | StateHalfOpen \<Rightarrow> (setState cb StateOpen)\<lparr>halfOpenCount := 0\<rparr>
         | StateOpen \<Rightarrow> cb)"

text \<open>\<^verbatim>\<open>Execute\<close>: admitted at \<open>t1\<close>, the function returns \<open>res\<close> at \<open>t2\<close>.\<close>

definition cb_Execute :: "CircuitBreaker \<Rightarrow> int \<times> 'e option \<times> int \<Rightarrow> CircuitBreaker \<times> 'e cb_error option" where
  "cb_Execute cb call =
     (let (t1, res, t2) = call; (cb, reject) = allowRequest cb t1
      in case reject of
           Some e \<Rightarrow> (cb, Some e)
         | None \<Rightarrow> (case res of
             Some err \<Rightarrow> (recordFailure cb t2, Some (ExecErr err))
           | None \<Rightarrow> (recordSuccess cb, None)))"

record CircuitBreakerMetrics =
  m_State :: cbState
  m_Failures :: int
  m_Successes :: int
  m_LastFailure :: int

definition cb_Metrics :: "CircuitBreaker \<Rightarrow> CircuitBreakerMetrics" where
  "cb_Metrics cb = \<lparr>m_State = cb_state cb, m_Failures = failures cb, m_Successes = successes cb, m_LastFailure = lastFailure cb\<rparr>"

fun cb_run :: "CircuitBreaker \<Rightarrow> (int \<times> 'e option \<times> int) list \<Rightarrow> CircuitBreaker \<times> 'e cb_error option list" where
  "cb_run cb [] = (cb, [])"
| "cb_run cb (c # cs) = (let (cb, r) = cb_Execute cb c; (cb, rs) = cb_run cb cs in (cb, r # rs))"

lemma fst_cb_run_Cons: "fst (cb_run cb (c # cs)) = fst (cb_run (fst (cb_Execute cb c)) cs)"
  by (simp add: split_beta)

section \<open>Tripping\<close>

text \<open>What the callers see: their own results, until \<open>ft\<close> failures in a row; then only rejections.\<close>

fun tripping :: "int \<Rightarrow> int \<Rightarrow> 'e option list \<Rightarrow> 'e cb_error option list" where
  "tripping ft n [] = []"
| "tripping ft n (None # rs) = None # tripping ft 0 rs"
| "tripping ft n (Some e # rs) =
     Some (ExecErr e) # (if n + 1 \<ge> ft then map (\<lambda>_. Some ErrCircuitOpen) rs else tripping ft (n + 1) rs)"

definition within :: "int \<Rightarrow> int \<Rightarrow> (int \<times> 'e option \<times> int) list \<Rightarrow> bool" where
  "within base timeout calls \<longleftrightarrow>
     list_all (\<lambda>(t1, _, t2). base \<le> t2 div millisecond \<and> t1 \<le> base * millisecond + timeout) calls"

lemma cb_run_open:
  "cb_state cb = StateOpen \<Longrightarrow> base \<le> lastFailure cb \<Longrightarrow> within base (Timeout (config cb)) calls \<Longrightarrow>
   snd (cb_run cb calls) = map (\<lambda>_. Some ErrCircuitOpen) calls"
proof (induction calls)
  case (Cons c cs)
  obtain t1 r t2 where c: "c = (t1, r, t2)" by (metis prod_cases3)
  have "t1 \<le> base * millisecond + Timeout (config cb)" using Cons.prems c by (simp add: within_def)
  then have "\<not> t1 - lastFailure cb * millisecond > Timeout (config cb)" using Cons.prems(2) by simp
  then have "cb_Execute cb c = (cb, Some ErrCircuitOpen)"
    using Cons.prems(1) by (simp add: cb_Execute_def c allowRequest_def)
  then show ?case using Cons by (simp add: within_def split_beta)
qed simp

lemma cb_run_closed:
  "cb_state cb = StateClosed \<Longrightarrow> within base (Timeout (config cb)) calls \<Longrightarrow>
   snd (cb_run cb calls) = tripping (FailureThreshold (config cb)) (failures cb) (map (fst \<circ> snd) calls)"
proof (induction calls arbitrary: cb)
  case (Cons c cs)
  obtain t1 r t2 where c: "c = (t1, r, t2)" by (metis prod_cases3)
  have w: "within base (Timeout (config cb)) cs" "base \<le> t2 div millisecond" using Cons.prems c by (auto simp: within_def)
  show ?case
  proof (cases r)
    case None
    then have "cb_Execute cb c = (cb\<lparr>failures := 0\<rparr>, None)"
      using Cons.prems(1) by (simp add: cb_Execute_def c allowRequest_def recordSuccess_def)
    then show ?thesis using Cons.IH [of "cb\<lparr>failures := 0\<rparr>"] Cons.prems(1) w(1) c None by (simp add: split_beta)
  next
    case (Some e)
    define cb1 where "cb1 = cb\<lparr>lastFailure := t2 div millisecond, failures := failures cb + 1\<rparr>"
    have x: "cb_Execute cb c = (if failures cb + 1 \<ge> FailureThreshold (config cb) then setState cb1 StateOpen else cb1, Some (ExecErr e))"
      using Cons.prems(1) Some by (simp add: cb_Execute_def c allowRequest_def recordFailure_def cb1_def)
    have o: "cb_state (setState cb1 StateOpen) = StateOpen" "base \<le> lastFailure (setState cb1 StateOpen)" "config (setState cb1 StateOpen) = config cb"
      using w(2) by (auto simp: setState_def cb1_def)
    have c1: "cb_state cb1 = StateClosed" "config cb1 = config cb" "failures cb1 = failures cb + 1"
      using Cons.prems(1) by (auto simp: cb1_def)
    show ?thesis
      using x Some c cb_run_open [OF o(1,2), of cs] Cons.IH [OF c1(1)] w(1) by (simp add: o(3) c1(2,3) split_beta comp_def)
  qed
qed simp

text \<open>The circuit breaker trips exactly at the failure threshold.  On a new breaker, for calls that all happen within the
  open timeout, every caller gets the result of its own function until the threshold of consecutive failures is reached (a
  success resets the count); from then on every call is rejected with \<^verbatim>\<open>ErrCircuitOpen\<close> and its function does not run.
\<close>

lemma cb_trips:
  assumes "within base (Timeout (config (NewCircuitBreaker cfg))) calls"
  shows "snd (cb_run (NewCircuitBreaker cfg) calls) =
    tripping (if FailureThreshold cfg = 0 then 5 else FailureThreshold cfg) 0 (map (fst \<circ> snd) calls)"
  using cb_run_closed [of "NewCircuitBreaker cfg" base calls] assms by (simp add: NewCircuitBreaker_def Let_def)

section \<open>Recovery\<close>

abbreviation succeed :: "(int \<times> int) list \<Rightarrow> (int \<times> 'e option \<times> int) list" where
  "succeed ts \<equiv> map (\<lambda>(t1, t2). (t1, None, t2)) ts"

lemma cb_run_stuck:
  "cb_state cb = StateHalfOpen \<Longrightarrow> 0 < MaxRequests (config cb) \<Longrightarrow> MaxRequests (config cb) \<le> halfOpenCount cb \<Longrightarrow>
   cb_run cb calls = (cb, map (\<lambda>_. Some ErrTooManyRequests) calls)"
  by (induction calls) (auto simp: cb_Execute_def allowRequest_def reserveHalfOpen_def)

lemma cb_run_closed_ok: "cb_state cb = StateClosed \<Longrightarrow> cb_state (fst (cb_run cb (succeed ts))) = StateClosed"
  by (induction ts arbitrary: cb) (auto simp: cb_Execute_def allowRequest_def recordSuccess_def split_beta)

lemma half_open_success:
  assumes "cb_state cb = StateHalfOpen" "MaxRequests (config cb) \<le> 0 \<or> halfOpenCount cb < MaxRequests (config cb)"
  defines "h \<equiv> (if MaxRequests (config cb) \<le> 0 then halfOpenCount cb else halfOpenCount cb + 1)"
  shows "cb_Execute cb (t1, None, t2) =
    (let cb = cb\<lparr>halfOpenCount := h, successes := successes cb + 1\<rparr>
     in if successes cb \<ge> SuccessThreshold (config cb)
        then (setState cb StateClosed)\<lparr>failures := 0, halfOpenCount := 0\<rparr> else cb, None)"
  using assms by (auto simp: cb_Execute_def allowRequest_def reserveHalfOpen_def recordSuccess_def Let_def)

lemma cb_run_half:
  "cb_state cb = StateHalfOpen \<Longrightarrow> successes cb < SuccessThreshold (config cb) \<Longrightarrow>
   (0 < MaxRequests (config cb) \<Longrightarrow> halfOpenCount cb = successes cb \<and> successes cb \<le> MaxRequests (config cb)) \<Longrightarrow>
   SuccessThreshold (config cb) \<le> successes cb + int (length ts) \<Longrightarrow>
   cb_state (fst (cb_run cb (succeed ts :: (int \<times> 'e option \<times> int) list))) =
     (if MaxRequests (config cb) \<le> 0 \<or> SuccessThreshold (config cb) \<le> MaxRequests (config cb) then StateClosed else StateHalfOpen)"
proof (induction ts arbitrary: cb)
  case (Cons t ts)
  obtain t1 t2 where t: "t = (t1, t2)" by fastforce
  define h where "h = (if MaxRequests (config cb) \<le> 0 then halfOpenCount cb else halfOpenCount cb + 1)"
  define cb1 where "cb1 = cb\<lparr>halfOpenCount := h, successes := successes cb + 1\<rparr>"
  show ?case
  proof (cases "MaxRequests (config cb) \<le> 0 \<or> halfOpenCount cb < MaxRequests (config cb)")
    case False
    then show ?thesis using Cons.prems cb_run_stuck [OF Cons.prems(1), of "succeed (t # ts) :: (int \<times> 'e option \<times> int) list"] by (simp del: list.map cb_run.simps)
  next
    case True
    note x = half_open_success [OF Cons.prems(1) True, of t1 t2, folded h_def, unfolded Let_def, folded cb1_def]
    show ?thesis
    proof (cases "successes cb + 1 \<ge> SuccessThreshold (config cb)")
      case closes: True
      have "cb_state ((setState cb1 StateClosed)\<lparr>failures := 0, halfOpenCount := 0\<rparr>) = StateClosed" by (simp add: setState_def)
      moreover have "MaxRequests (config cb) \<le> 0 \<or> SuccessThreshold (config cb) \<le> MaxRequests (config cb)" using True closes Cons.prems by (cases "0 < MaxRequests (config cb)") auto
      ultimately show ?thesis using closes
        by (simp add: t fst_cb_run_Cons x cb1_def cb_run_closed_ok del: cb_run.simps)
    next
      case False
      have "cb_state (fst (cb_run cb1 (succeed ts :: (int \<times> 'e option \<times> int) list))) =
        (if MaxRequests (config cb1) \<le> 0 \<or> SuccessThreshold (config cb1) \<le> MaxRequests (config cb1) then StateClosed else StateHalfOpen)"
        using Cons.prems False True by (intro Cons.IH) (auto simp: cb1_def h_def)
      then show ?thesis using False by (simp add: t fst_cb_run_Cons x cb1_def del: cb_run.simps)
    qed
  qed
qed simp

text \<open>Recovery of an open breaker.  When the open timeout has passed and the service answers every call from then on, a
  number of calls that reaches the success threshold closes the breaker if half-open probes are unlimited
  (\<^verbatim>\<open>MaxRequests\<close> at most 0) or at least as many as the success threshold; otherwise the breaker stays half-open, however many calls are
  made: the probe count is never given back.
\<close>

lemma cb_recovery:
  assumes "cb_state cb = StateOpen" "ts \<noteq> []" "fst (hd ts) - lastFailure cb * millisecond > Timeout (config cb)"
    "0 < SuccessThreshold (config cb)" "SuccessThreshold (config cb) \<le> int (length ts)"
  shows "cb_state (fst (cb_run cb (succeed ts :: (int \<times> 'e option \<times> int) list))) =
    (if MaxRequests (config cb) \<le> 0 \<or> SuccessThreshold (config cb) \<le> MaxRequests (config cb) then StateClosed else StateHalfOpen)"
proof -
  obtain t1 t2 us where ts: "ts = (t1, t2) # us" using assms(2) by (cases ts) auto
  define cb1 where "cb1 = (setState cb StateHalfOpen)\<lparr>successes := 0, halfOpenCount := 0\<rparr>"
  have c1: "cb_state cb1 = StateHalfOpen" "config cb1 = config cb" "successes cb1 = 0" "halfOpenCount cb1 = 0"
    using assms(1) by (auto simp: cb1_def setState_def)
  have "cb_Execute cb (t1, None :: 'e option, t2) = cb_Execute cb1 (t1, None, t2)"
    using assms(1,3) c1(1) ts by (simp add: cb_Execute_def allowRequest_def cb1_def)
  then have "cb_run cb (succeed ts :: (int \<times> 'e option \<times> int) list) = cb_run cb1 (succeed ts)" by (simp add: ts)
  then show ?thesis using cb_run_half [OF c1(1), of ts] assms(4,5) by (simp add: c1(2,3,4))
qed

section \<open>The service-mesh facade\<close>

datatype mesh_State = MeshClosed | MeshOpen | MeshHalfOpen

datatype 'e mesh_error = MeshErrCircuitOpen | MeshErrTooManyRequests | MeshErr 'e

record Options =
  o_FailureThreshold :: int
  o_SuccessThreshold :: int
  o_Timeout :: int
  o_MaxRequests :: int

record MeshBreaker =
  m_name :: string
  m_opts :: Options
  m_inner :: CircuitBreaker

definition mesh_New :: "string \<Rightarrow> Options \<Rightarrow> MeshBreaker" where
  "mesh_New name opts =
     (let opts = (if o_FailureThreshold opts \<le> 0 then opts\<lparr>o_FailureThreshold := 5\<rparr> else opts);
          opts = (if o_SuccessThreshold opts \<le> 0 then opts\<lparr>o_SuccessThreshold := 2\<rparr> else opts);
          opts = (if o_Timeout opts \<le> 0 then opts\<lparr>o_Timeout := 30 * 1000000000\<rparr> else opts);
          opts = (if o_MaxRequests opts \<le> 0 then opts\<lparr>o_MaxRequests := 1\<rparr> else opts)
      in \<lparr>m_name = name, m_opts = opts,
          m_inner = NewCircuitBreaker \<lparr>FailureThreshold = o_FailureThreshold opts, SuccessThreshold = o_SuccessThreshold opts,
                                       Timeout = o_Timeout opts, MaxRequests = o_MaxRequests opts\<rparr>\<rparr>)"

fun mapState :: "cbState \<Rightarrow> mesh_State" where
  "mapState StateClosed = MeshClosed"
| "mapState StateOpen = MeshOpen"
| "mapState StateHalfOpen = MeshHalfOpen"

fun mapError :: "'e cb_error option \<Rightarrow> 'e mesh_error option" where
  "mapError None = None"
| "mapError (Some ErrTooManyRequests) = Some MeshErrTooManyRequests"
| "mapError (Some ErrCircuitOpen) = Some MeshErrCircuitOpen"
| "mapError (Some (ExecErr e)) = Some (MeshErr e)"

text \<open>\<^verbatim>\<open>Execute\<close> of the facade: the function's value is returned when it ran, else the zero value (\<open>None\<close>).\<close>

definition mesh_Execute :: "MeshBreaker \<Rightarrow> int \<times> ('a \<times> 'e option) \<times> int \<Rightarrow> MeshBreaker \<times> 'a option \<times> 'e mesh_error option" where
  "mesh_Execute cb call =
     (let (t1, (v, err), t2) = call; (inner, r) = cb_Execute (m_inner cb) (t1, err, t2);
          result = (if r = Some ErrCircuitOpen \<or> r = Some ErrTooManyRequests then None else Some v)
      in (cb\<lparr>m_inner := inner\<rparr>, result, mapError r))"

definition mesh_GetState :: "MeshBreaker \<Rightarrow> mesh_State" where
  "mesh_GetState cb = mapState (cb_state (m_inner cb))"

definition mesh_Name :: "MeshBreaker \<Rightarrow> string" where
  "mesh_Name cb = m_name cb"

definition mesh_ForceOpen :: "MeshBreaker \<Rightarrow> int \<Rightarrow> MeshBreaker" where
  "mesh_ForceOpen cb now = cb\<lparr>m_inner := ForceOpen (m_inner cb) now\<rparr>"

definition mesh_ForceClose :: "MeshBreaker \<Rightarrow> MeshBreaker" where
  "mesh_ForceClose cb = cb\<lparr>m_inner := ForceClose (m_inner cb)\<rparr>"

fun mesh_run :: "MeshBreaker \<Rightarrow> (int \<times> ('a \<times> 'e option) \<times> int) list \<Rightarrow> MeshBreaker \<times> ('a option \<times> 'e mesh_error option) list" where
  "mesh_run cb [] = (cb, [])"
| "mesh_run cb (c # cs) = (let (cb, r) = mesh_Execute cb c; (cb, rs) = mesh_run cb cs in (cb, r # rs))"

lemma mesh_run_stuck:
  "cb_state (m_inner cb) = StateHalfOpen \<Longrightarrow> 0 < MaxRequests (config (m_inner cb)) \<Longrightarrow>
   MaxRequests (config (m_inner cb)) \<le> halfOpenCount (m_inner cb) \<Longrightarrow>
   mesh_run cb calls = (cb, map (\<lambda>_. (None, Some MeshErrTooManyRequests)) calls)"
  by (induction calls) (auto simp: mesh_Execute_def cb_Execute_def allowRequest_def reserveHalfOpen_def)

text \<open>A service-mesh breaker made with the default options, as the package documentation makes it, never closes again once it was open.
  After it opened (here by \<^verbatim>\<open>ForceOpen\<close> at \<open>t0\<close>) and the timeout has passed, the first probe succeeds, and then every
  call, at any time and whatever the service would answer, is rejected with \<^verbatim>\<open>ErrTooManyRequests\<close>; the state stays half-open.
\<close>

lemma mesh_default_stuck:
  fixes calls :: "(int \<times> ('a \<times> 'e option) \<times> int) list"
  shows "(let cb = mesh_ForceOpen (mesh_New name \<lparr>o_FailureThreshold = 5, o_SuccessThreshold = 0, o_Timeout = 30 * 1000000000, o_MaxRequests = 0\<rparr>) t0;
        (cb, rs) = mesh_run cb ((t0 + 31 * 1000000000, (v, None), t) # calls)
    in rs = (Some v, None) # map (\<lambda>_. (None, Some MeshErrTooManyRequests)) calls \<and> mesh_GetState cb = MeshHalfOpen)"
proof -
  define cb where "cb = mesh_ForceOpen (mesh_New name \<lparr>o_FailureThreshold = 5, o_SuccessThreshold = 0, o_Timeout = 30 * 1000000000, o_MaxRequests = 0\<rparr>) t0"
  define cb1 where "cb1 = fst (mesh_Execute cb (t0 + 31 * 1000000000, (v, None :: 'e option), t))"
  have ms: "t0 - t0 div millisecond * millisecond = t0 mod millisecond" by (simp add: minus_div_mult_eq_mod)
  have "0 \<le> t0 mod millisecond" by simp
  then have late: "30 * 1000000000 < t0 + 31 * 1000000000 - t0 div millisecond * millisecond" using ms by linarith
  have x: "snd (mesh_Execute cb (t0 + 31 * 1000000000, (v, None :: 'e option), t)) = (Some v, None)"
    and c1: "cb_state (m_inner cb1) = StateHalfOpen" "MaxRequests (config (m_inner cb1)) = 1" "halfOpenCount (m_inner cb1) = 1"
    using late by (simp_all add: cb1_def cb_def mesh_Execute_def mesh_ForceOpen_def mesh_New_def ForceOpen_def NewCircuitBreaker_def
        cb_Execute_def allowRequest_def reserveHalfOpen_def recordSuccess_def setState_def)
  have "mesh_run cb1 calls = (cb1, map (\<lambda>_. (None, Some MeshErrTooManyRequests)) calls)"
    using c1 by (intro mesh_run_stuck) auto
  moreover have "mesh_Execute cb (t0 + 31 * 1000000000, (v, None :: 'e option), t) = (cb1, Some v, None)"
    using x by (simp add: cb1_def prod_eq_iff)
  ultimately show ?thesis using c1(1) unfolding cb_def [symmetric] by (simp add: mesh_GetState_def)
qed

end
