(* ===== verification/Retry.thy ===== *)
theory Retry
  imports Breaker
begin

text \<open>
  \<^verbatim>\<open>pkg/resilience\<close>: \<^verbatim>\<open>Retry\<close>, its composition with the circuit breaker, and \<^verbatim>\<open>Fallback\<close>.
  The executed function changes an environment and returns an error or nil (\<open>None\<close>).  The context is two
  predicates on the attempt number: it is cancelled before the attempt, or it ends the sleep after it.  The floating-point products of
  the backoff are arguments: \<open>grow\<close> multiplies by the multiplier, \<open>jitter\<close> gives the sleep of an attempt.
\<close>

type_synonym ('s, 'e) Executor = "'s \<Rightarrow> 's \<times> 'e option"

datatype 'e retry_result = RetryOk | RetryErr 'e | RetryCtx

record 'e RetryConfig =
  MaxAttempts :: int
  InitialBackoff :: int
  MaxBackoff :: int
  RetryIf :: "('e \<Rightarrow> bool) option"

text \<open>A nil \<^verbatim>\<open>RetryIf\<close> retries every error.\<close>

definition retry_if :: "'e RetryConfig \<Rightarrow> 'e \<Rightarrow> bool" where
  "retry_if cfg err = (case RetryIf cfg of None \<Rightarrow> True | Some f \<Rightarrow> f err)"

record retry_env =
  cancelled :: "nat \<Rightarrow> bool"
  interrupted :: "nat \<Rightarrow> bool"
  grow :: "int \<Rightarrow> int"
  jitter :: "nat \<Rightarrow> int \<Rightarrow> int"

text \<open>The loop from attempt \<open>a\<close> on, \<open>k\<close> attempts left; it also returns the sleeps.\<close>

fun retry_loop ::
  "retry_env \<Rightarrow> 'e RetryConfig \<Rightarrow> ('s, 'e) Executor \<Rightarrow> nat \<Rightarrow> nat \<Rightarrow> int \<Rightarrow> 'e option \<Rightarrow> 's \<Rightarrow> 's \<times> 'e retry_result \<times> int list" where
  "retry_loop env cfg fn 0 a backoff lastErr s = (s, (case lastErr of None \<Rightarrow> RetryOk | Some e \<Rightarrow> RetryErr e), [])"
| "retry_loop env cfg fn (Suc k) a backoff lastErr s =
     (if cancelled env a then (s, RetryCtx, [])
      else case fn s of
        (s, None) \<Rightarrow> (s, RetryOk, [])
      | (s, Some err) \<Rightarrow>
          if \<not> retry_if cfg err then (s, RetryErr err, [])
          else if k = 0 then (s, RetryErr err, [])
          else
            (let sleepDuration = jitter env a backoff
             in if interrupted env a then (s, RetryCtx, [sleepDuration])
                else
                  (let backoff = grow env backoff;
                       backoff = (if backoff > MaxBackoff cfg then MaxBackoff cfg else backoff);
                       (s, r, sleeps) = retry_loop env cfg fn k (Suc a) backoff (Some err) s
                   in (s, r, sleepDuration # sleeps))))"

definition Retry :: "retry_env \<Rightarrow> 'e RetryConfig \<Rightarrow> ('s, 'e) Executor \<Rightarrow> 's \<Rightarrow> 's \<times> 'e retry_result \<times> int list" where
  "Retry env cfg fn s =
     (let cfg = (if MaxAttempts cfg \<le> 0 then cfg\<lparr>MaxAttempts := 1\<rparr> else cfg);
          cfg = (if InitialBackoff cfg \<le> 0 then cfg\<lparr>InitialBackoff := 100 * millisecond\<rparr> else cfg);
          cfg = (if MaxBackoff cfg \<le> 0 then cfg\<lparr>MaxBackoff := 30000 * millisecond\<rparr> else cfg)
      in retry_loop env cfg fn (nat (MaxAttempts cfg)) 0 (InitialBackoff cfg) None s)"

definition Fallback :: "('s, 'e) Executor option \<Rightarrow> ('s, 'e) Executor option \<Rightarrow> ('s, 'e) Executor" where
  "Fallback primary secondary s =
     (case primary of
        None \<Rightarrow> (case secondary of None \<Rightarrow> (s, None) | Some g \<Rightarrow> g s)
      | Some f \<Rightarrow>
          (case f s of
             (s, Some err) \<Rightarrow> (case secondary of None \<Rightarrow> (s, Some err) | Some g \<Rightarrow> g s)
           | (s, None) \<Rightarrow> (s, None)))"

text \<open>The state after the loop.\<close>

lemma retry_loop_state:
  "fst (retry_loop env cfg fn (Suc k) a b le s) =
   (if cancelled env a then s
    else if snd (fn s) = None \<or> \<not> retry_if cfg (the (snd (fn s))) \<or> k = 0 \<or> interrupted env a then fst (fn s)
    else fst (retry_loop env cfg fn k (Suc a) (if grow env b > MaxBackoff cfg then MaxBackoff cfg else grow env b) (snd (fn s)) (fst (fn s))))"
  by (cases "fn s"; cases "snd (fn s)") (auto simp: Let_def split_beta)

section \<open>What \<^verbatim>\<open>Retry\<close> does\<close>

text \<open>The specification: run the function again and again; stop at the first result that is nil or not retryable.\<close>

fun runs :: "('s, 'e) Executor \<Rightarrow> nat \<Rightarrow> 's \<Rightarrow> ('s \<times> 'e option) list" where
  "runs fn 0 s = []"
| "runs fn (Suc k) s = fn s # runs fn k (fst (fn s))"

definition stops :: "'e RetryConfig \<Rightarrow> 's \<times> 'e option \<Rightarrow> bool" where
  "stops cfg r \<longleftrightarrow> (case snd r of None \<Rightarrow> True | Some e \<Rightarrow> \<not> retry_if cfg e)"

fun to_result :: "'e option \<Rightarrow> 'e retry_result" where
  "to_result None = RetryOk"
| "to_result (Some e) = RetryErr e"

definition executed :: "'e RetryConfig \<Rightarrow> ('s \<times> 'e option) list \<Rightarrow> ('s \<times> 'e option) list" where
  "executed cfg rs = takeWhile (\<lambda>r. \<not> stops cfg r) rs @ take 1 (dropWhile (\<lambda>r. \<not> stops cfg r) rs)"

lemma retry_loop_spec:
  "(\<And>i. \<not> cancelled env i \<and> \<not> interrupted env i) \<Longrightarrow>
   retry_loop env cfg fn (Suc k) a backoff lastErr s = (s', r, sleeps) \<Longrightarrow>
   (let ex = executed cfg (runs fn (Suc k) s)
    in (s', r) = (fst (last ex), to_result (snd (last ex))) \<and> length ex = Suc (length sleeps))"
proof (induction k arbitrary: a backoff lastErr s s' r sleeps)
  case 0
  then show ?case by (cases "fn s"; cases "snd (fn s)") (auto simp: executed_def stops_def split: if_splits)
next
  case (Suc k)
  obtain s1 e where f: "fn s = (s1, e)" by fastforce
  show ?case
  proof (cases "stops cfg (s1, e)")
    case True
    then show ?thesis using Suc.prems f by (cases e) (auto simp: executed_def stops_def)
  next
    case False
    then obtain err where e: "e = Some err" "retry_if cfg err" by (cases e) (auto simp: stops_def)
    define b where "b = (if grow env backoff > MaxBackoff cfg then MaxBackoff cfg else grow env backoff)"
    obtain s2 r2 sl where l: "retry_loop env cfg fn (Suc k) (Suc a) b (Some err) s1 = (s2, r2, sl)" by (metis prod_cases3)
    have "(s', r, sleeps) = (s2, r2, jitter env a backoff # sl)"
      using Suc.prems f e l by (simp add: b_def Let_def del: retry_loop.simps(2)) (simp add: f e Let_def b_def)
    moreover have "executed cfg (runs fn (Suc (Suc k)) s) = fn s # executed cfg (runs fn (Suc k) s1)"
      using False f by (simp add: executed_def)
    moreover have "executed cfg (runs fn (Suc k) s1) \<noteq> []" by (simp add: executed_def split: if_splits)
    ultimately show ?thesis using Suc.IH [OF Suc.prems(1) l] by (simp add: Let_def)
  qed
qed

lemma executed_cong:
  fixes rs :: "('s \<times> 'e option) list"
  shows "RetryIf c = RetryIf d \<Longrightarrow> executed c rs = executed d rs"
proof -
  assume "RetryIf c = RetryIf d"
  then have "stops c r = stops d r" for r :: "'s \<times> 'e option" by (simp add: stops_def retry_if_def split: option.split)
  then show ?thesis by (simp add: executed_def)
qed

lemma length_executed: "length (executed cfg rs) \<le> length rs"
  by (induction rs) (auto simp: executed_def)

lemma length_runs [simp]: "length (runs fn k s) = k"
  by (induction k arbitrary: s) auto

text \<open>\<^verbatim>\<open>Retry\<close> under a context that is not cancelled: the function is run until the first result that is nil or that
  \<^verbatim>\<open>RetryIf\<close> refuses, at most \<^verbatim>\<open>MaxAttempts\<close> times and at least once; the result and the state are those of the last run, and between
  two runs there is exactly one sleep.
\<close>

lemma retry_correct:
  "(let n = max 1 (nat (MaxAttempts cfg));
        (s', r, sleeps) = Retry \<lparr>cancelled = (\<lambda>_. False), interrupted = (\<lambda>_. False), grow = g, jitter = j\<rparr> cfg fn s;
        ex = executed cfg (runs fn n s)
    in s' = fst (last ex) \<and> r = to_result (snd (last ex)) \<and> length ex = Suc (length sleeps) \<and> length ex \<le> n)"
proof -
  let ?env = "\<lparr>cancelled = (\<lambda>_. False), interrupted = (\<lambda>_. False), grow = g, jitter = j\<rparr>"
  define c1 where "c1 = (if MaxAttempts cfg \<le> 0 then cfg\<lparr>MaxAttempts := 1\<rparr> else cfg)"
  define c2 where "c2 = (if InitialBackoff c1 \<le> 0 then c1\<lparr>InitialBackoff := 100 * millisecond\<rparr> else c1)"
  define c3 where "c3 = (if MaxBackoff c2 \<le> 0 then c2\<lparr>MaxBackoff := 30000 * millisecond\<rparr> else c2)"
  define n where "n = max 1 (nat (MaxAttempts cfg))"
  have c3: "RetryIf c3 = RetryIf cfg" "nat (MaxAttempts c3) = n" by (auto simp: c3_def c2_def c1_def n_def)
  note ex = executed_cong [OF c3(1)]
  obtain k where k: "n = Suc k" by (cases n) (auto simp: n_def)
  obtain s' r sleeps where l: "retry_loop ?env c3 fn (Suc k) 0 (InitialBackoff c3) None s = (s', r, sleeps)" by (metis prod_cases3)
  have "Retry ?env cfg fn s = (s', r, sleeps)"
    using l c3(2) k by (simp add: Retry_def c1_def [symmetric] c2_def [symmetric] c3_def [symmetric])
  moreover have "(s', r) = (fst (last (executed cfg (runs fn n s))), to_result (snd (last (executed cfg (runs fn n s))))) \<and>
      length (executed cfg (runs fn n s)) = Suc (length sleeps)"
    using retry_loop_spec [OF _ l] k by (simp add: Let_def ex)
  moreover have "length (executed cfg (runs fn n s)) \<le> n" using length_executed [of cfg "runs fn n s"] by simp
  ultimately show ?thesis by (simp add: n_def)
qed

section \<open>\<^verbatim>\<open>RetryWithCircuitBreaker\<close>\<close>

text \<open>\<^verbatim>\<open>Execute\<close> with the effects of the function; the \<open>i\<close>-th call is admitted and recorded at the times \<open>clock i\<close>.\<close>

definition cb_ExecuteS :: "(nat \<Rightarrow> int \<times> int) \<Rightarrow> ('s, 'e) Executor \<Rightarrow> (nat \<times> CircuitBreaker \<times> 's, 'e cb_error) Executor" where
  "cb_ExecuteS clock fn st =
     (let (i, cb, s) = st; (cb, reject) = allowRequest cb (fst (clock i))
      in case reject of
           Some e \<Rightarrow> ((Suc i, cb, s), Some e)
         | None \<Rightarrow> (case fn s of
             (s, Some err) \<Rightarrow> ((Suc i, recordFailure cb (snd (clock i)), s), Some (ExecErr err))
           | (s, None) \<Rightarrow> ((Suc i, recordSuccess cb, s), None)))"

lemma cb_ExecuteS_Execute:
  "cb_Execute cb (fst (clock i), snd (fn s), snd (clock i)) =
   (fst (snd (fst (cb_ExecuteS clock fn (i, cb, s)))), snd (cb_ExecuteS clock fn (i, cb, s)))"
  by (auto simp: cb_Execute_def cb_ExecuteS_def Let_def split: option.splits prod.splits)

definition RetryWithCircuitBreaker ::
  "retry_env \<Rightarrow> (nat \<Rightarrow> int \<times> int) \<Rightarrow> 'e cb_error RetryConfig \<Rightarrow> ('s, 'e) Executor \<Rightarrow> CircuitBreaker \<times> 's \<Rightarrow>
   (CircuitBreaker \<times> 's) \<times> 'e cb_error retry_result" where
  "RetryWithCircuitBreaker env clock cfg fn st =
     (let ((_, cb, s), r, _) = Retry env cfg (cb_ExecuteS clock fn) (0, st) in ((cb, s), r))"

text \<open>Count the runs of a function.\<close>

definition counted :: "('s, 'e) Executor \<Rightarrow> (nat \<times> 's, 'e) Executor" where
  "counted fn st = (let (s, r) = fn (snd st) in ((Suc (fst st), s), r))"

lemma retry_open:
  assumes clock: "\<And>i. fst (clock i) \<le> base * millisecond + Timeout (config cb)"
  shows "cb_state cb = StateOpen \<Longrightarrow> base \<le> lastFailure cb \<Longrightarrow>
    \<exists>i'. fst (retry_loop env cfg (cb_ExecuteS clock fn) k a b le (i, cb, s)) = (i', cb, s)"
proof (induction k arbitrary: a b le i)
  case (Suc k)
  have "\<not> fst (clock i) - lastFailure cb * millisecond > Timeout (config cb)" using Suc.prems(2) clock [of i] by simp
  then have "cb_ExecuteS clock fn (i, cb, s) = ((Suc i, cb, s), Some ErrCircuitOpen)"
    using Suc.prems by (simp add: cb_ExecuteS_def allowRequest_def)
  then show ?case using Suc.IH [OF Suc.prems] by (simp add: retry_loop_state del: retry_loop.simps)
qed simp

lemma retry_closed:
  assumes t1: "\<And>i. fst (clock i) \<le> base * millisecond + timeout" and t2: "\<And>i. base \<le> snd (clock i) div millisecond"
  shows "cb_state cb = StateClosed \<Longrightarrow> Timeout (config cb) = timeout \<Longrightarrow> failures cb < FailureThreshold (config cb) \<Longrightarrow>
    int (fst (snd (snd (fst (retry_loop env cfg (cb_ExecuteS clock (counted fn)) k a b le (i, cb, n, s)))))) \<le>
      int n + min (int k) (FailureThreshold (config cb) - failures cb)"
proof (induction k arbitrary: a b le i cb n s)
  case (Suc k)
  obtain s1 e where f: "fn s = (s1, e)" by fastforce
  have adm: "allowRequest cb t = (cb, None)" for t using Suc.prems(1) by (simp add: allowRequest_def)
  show ?case
  proof (cases e)
    case None
    then have x: "cb_ExecuteS clock (counted fn) (i, cb, n, s) = ((Suc i, recordSuccess cb, Suc n, s1), None)"
      by (simp add: cb_ExecuteS_def adm counted_def f)
    show ?thesis using Suc.prems(3) by (simp add: retry_loop_state x del: retry_loop.simps)
  next
    case (Some err)
    define cb1 where "cb1 = recordFailure cb (snd (clock i))"
    have x: "cb_ExecuteS clock (counted fn) (i, cb, n, s) = ((Suc i, cb1, Suc n, s1), Some (ExecErr err))"
      using Some by (simp add: cb_ExecuteS_def adm counted_def f cb1_def)
    define F where "F = FailureThreshold (config cb) - failures cb"
    have next_le: "int (fst (snd (snd (fst (retry_loop env cfg (cb_ExecuteS clock (counted fn)) k a' b' le' (Suc i, cb1, Suc n, s1)))))) \<le>
        int n + min (int (Suc k)) F" for a' b' le'
    proof (cases "failures cb + 1 \<ge> FailureThreshold (config cb)")
      case True
      then have o: "cb_state cb1 = StateOpen" "config cb1 = config cb" "base \<le> lastFailure cb1"
        using Suc.prems(1) t2 [of i] by (auto simp: cb1_def recordFailure_def setState_def Let_def)
      have "\<And>i. fst (clock i) \<le> base * millisecond + Timeout (config cb1)" using t1 Suc.prems(2) o(2) by simp
      from retry_open [where clock = clock, OF this o(1,3), where env = env and cfg = cfg and fn = "counted fn" and k = k and a = a' and b = b' and le = le' and i = "Suc i" and s = "(Suc n, s1)"]
      show ?thesis using Suc.prems(3) by (auto simp: F_def)
    next
      case False
      then have c: "cb_state cb1 = StateClosed" "config cb1 = config cb" "failures cb1 = failures cb + 1"
        using Suc.prems(1) by (auto simp: cb1_def recordFailure_def Let_def)
      then show ?thesis using Suc.IH [OF c(1), of a' b' le' "Suc i" "Suc n" s1] Suc.prems(2) False by (auto simp: F_def)
    qed
    have "int (Suc n) \<le> int n + min (int (Suc k)) F" using Suc.prems(3) by (simp add: F_def)
    then show ?thesis using next_le unfolding F_def [symmetric] by (simp add: retry_loop_state x del: retry_loop.simps)
  qed
qed simp

text \<open>Retrying through a circuit breaker protects the service.  On a new breaker, for calls within its open timeout, whatever the function and the
  retry policy do, one \<^verbatim>\<open>RetryWithCircuitBreaker\<close> runs the function at most \<^verbatim>\<open>MaxAttempts\<close> times and at most \<^verbatim>\<open>FailureThreshold\<close>
  times: once the breaker is open, the remaining attempts do not reach the service.
\<close>

lemma retry_breaker_bound:
  assumes "\<forall>i. fst (clock i) \<le> base * millisecond + Timeout (config (NewCircuitBreaker bcfg)) \<and> base \<le> snd (clock i) div millisecond"
    "0 < FailureThreshold bcfg"
  shows "int (fst (snd (fst (RetryWithCircuitBreaker env clock cfg (counted fn) (NewCircuitBreaker bcfg, 0, s))))) \<le>
    min (max 1 (MaxAttempts cfg)) (FailureThreshold bcfg)"
proof -
  define cb where "cb = NewCircuitBreaker bcfg"
  have cb: "cb_state cb = StateClosed" "failures cb = 0" "FailureThreshold (config cb) = FailureThreshold bcfg"
    using assms(2) by (auto simp: cb_def NewCircuitBreaker_def Let_def)
  define c1 where "c1 = (if MaxAttempts cfg \<le> 0 then cfg\<lparr>MaxAttempts := 1\<rparr> else cfg)"
  define c2 where "c2 = (if InitialBackoff c1 \<le> 0 then c1\<lparr>InitialBackoff := 100 * millisecond\<rparr> else c1)"
  define c3 where "c3 = (if MaxBackoff c2 \<le> 0 then c2\<lparr>MaxBackoff := 30000 * millisecond\<rparr> else c2)"
  have c3: "int (nat (MaxAttempts c3)) = max 1 (MaxAttempts cfg)" by (auto simp: c3_def c2_def c1_def)
  have "int (fst (snd (snd (fst (retry_loop env c3 (cb_ExecuteS clock (counted fn)) (nat (MaxAttempts c3)) 0 (InitialBackoff c3) None (0, cb, 0, s)))))) \<le>
      int 0 + min (int (nat (MaxAttempts c3))) (FailureThreshold (config cb) - failures cb)"
    using assms cb by (intro retry_closed [where base = base]) (auto simp: cb_def [symmetric])
  then have "int (fst (snd (snd (fst (retry_loop env c3 (cb_ExecuteS clock (counted fn)) (nat (MaxAttempts c3)) 0 (InitialBackoff c3) None (0, cb, 0, s)))))) \<le>
      min (max 1 (MaxAttempts cfg)) (FailureThreshold bcfg)"
    by (simp only: c3 cb(2,3) of_nat_0 add_0 diff_0_right)
  then show ?thesis unfolding RetryWithCircuitBreaker_def Retry_def cb_def [symmetric]
    by (simp add: c1_def [symmetric] c2_def [symmetric] c3_def [symmetric] split_beta)
qed

end
