(* ===== verification/Semaphore.thy ===== *)
theory Semaphore
  imports Prelude
begin

text \<open>
  \<^verbatim>\<open>pkg/concurrency/semaphore.go\<close>: the weighted semaphore with its queue of waiters, and
  \<^verbatim>\<open>pkg/resilience/bulkhead.go\<close> on top of it.  A waiter is identified by a number (its address); the waiters whose channel is
  closed are the list \<open>ready\<close>.  \<^verbatim>\<open>Acquire\<close> is cut at its \<^verbatim>\<open>select\<close>: it enters, and later it wakes or is cancelled.
\<close>

section \<open>The semaphore\<close>

type_synonym waiter = "nat \<times> int"

record Semaphore =
  sem_size :: int
  cur :: int
  waiters :: "waiter list"
  ready :: "nat list"

definition NewSemaphore :: "int \<Rightarrow> Semaphore" where
  "NewSemaphore limit = \<lparr>sem_size = limit, cur = 0, waiters = [], ready = []\<rparr>"

function notifyWaiters :: "Semaphore \<Rightarrow> Semaphore" where
  "notifyWaiters s =
     (case waiters s of
        [] \<Rightarrow> s
      | w # ws \<Rightarrow>
          if sem_size s - cur s \<ge> snd w
          then notifyWaiters (s\<lparr>cur := cur s + snd w, waiters := ws, ready := fst w # ready s\<rparr>)
          else s)"
  by auto
termination by (relation "measure (\<lambda>s. length (waiters s))") auto

declare notifyWaiters.simps [simp del]

text \<open>Entering \<^verbatim>\<open>Acquire\<close>: granted at once, or queued with a new channel \<open>w\<close>.\<close>

definition Acquire :: "Semaphore \<Rightarrow> nat \<Rightarrow> int \<Rightarrow> Semaphore \<times> bool" where
  "Acquire s w n =
     (if sem_size s - cur s \<ge> n \<and> length (waiters s) = 0 then (s\<lparr>cur := cur s + n\<rparr>, True)
      else (s\<lparr>waiters := waiters s @ [(w, n)]\<rparr>, False))"

fun remove_waiter :: "nat \<Rightarrow> waiter list \<Rightarrow> waiter list" where
  "remove_waiter w [] = []"
| "remove_waiter w (x # xs) = (if fst x = w then xs else x # remove_waiter w xs)"

text \<open>The branch of \<^verbatim>\<open>Acquire\<close> for a context that ends while waiting.\<close>

definition Acquire_cancel :: "Semaphore \<Rightarrow> nat \<Rightarrow> int \<Rightarrow> Semaphore" where
  "Acquire_cancel s w n =
     (let s = s\<lparr>waiters := remove_waiter w (waiters s)\<rparr>
      in if w \<in> set (ready s) then notifyWaiters (s\<lparr>cur := cur s - n\<rparr>) else s)"

definition TryAcquire :: "Semaphore \<Rightarrow> int \<Rightarrow> Semaphore \<times> bool" where
  "TryAcquire s n =
     (if sem_size s - cur s \<ge> n \<and> length (waiters s) = 0 then (s\<lparr>cur := cur s + n\<rparr>, True) else (s, False))"

text \<open>\<open>False\<close> is the panic: more was released than is held.\<close>

definition Release :: "Semaphore \<Rightarrow> int \<Rightarrow> Semaphore \<times> bool" where
  "Release s n =
     (let s = s\<lparr>cur := cur s - n\<rparr> in if cur s < 0 then (s, False) else (notifyWaiters s, True))"

section \<open>Callers\<close>

text \<open>
  The callers of one semaphore: the weights held, and the callers that are in the \<^verbatim>\<open>select\<close> of \<^verbatim>\<open>Acquire\<close>, in the
  order they came.  An action that its caller cannot take is \<open>None\<close>.
\<close>

record system =
  sem :: Semaphore
  holders :: "int list"
  pending :: "waiter list"

datatype action = AAcquire nat int | AWake nat | ACancel nat | ATry int | ARelease int

definition ids :: "waiter list \<Rightarrow> nat set" where
  "ids ws = set (map fst ws)"

definition leave :: "nat \<Rightarrow> system \<Rightarrow> system" where
  "leave w y = y\<lparr>pending := remove_waiter w (pending y)\<rparr>"

fun sem_step :: "action \<Rightarrow> system \<Rightarrow> system option" where
  "sem_step (AAcquire w n) y =
     (if w \<in> ids (pending y) \<union> set (ready (sem y)) then None
      else (let (s, now) = Acquire (sem y) w n
            in Some (if now then y\<lparr>sem := s, holders := n # holders y\<rparr> else y\<lparr>sem := s, pending := pending y @ [(w, n)]\<rparr>)))"
| "sem_step (AWake w) y =
     (case map_of (pending y) w of
        None \<Rightarrow> None
      | Some n \<Rightarrow> if w \<in> set (ready (sem y)) then Some (leave w (y\<lparr>holders := n # holders y\<rparr>)) else None)"
| "sem_step (ACancel w) y =
     (case map_of (pending y) w of
        None \<Rightarrow> None
      | Some n \<Rightarrow> Some (leave w (y\<lparr>sem := Acquire_cancel (sem y) w n\<rparr>)))"
| "sem_step (ATry n) y =
     (let (s, ok) = TryAcquire (sem y) n in Some (if ok then y\<lparr>sem := s, holders := n # holders y\<rparr> else y))"
| "sem_step (ARelease n) y =
     (if n \<in> set (holders y)
      then (let (s, ok) = Release (sem y) n in if ok then Some (y\<lparr>sem := s, holders := remove1 n (holders y)\<rparr>) else None)
      else None)"

fun sem_run :: "action list \<Rightarrow> system \<Rightarrow> system option" where
  "sem_run [] y = Some y"
| "sem_run (a # as) y = (case sem_step a y of None \<Rightarrow> None | Some y \<Rightarrow> sem_run as y)"

fun weight_ok :: "action \<Rightarrow> bool" where
  "weight_ok (AAcquire w n) = (0 \<le> n)"
| "weight_ok (ATry n) = (0 \<le> n)"
| "weight_ok a = True"

definition start :: "Semaphore \<Rightarrow> system" where
  "start s = \<lparr>sem = s, holders = [], pending = []\<rparr>"

section \<open>The invariant\<close>

definition dist :: "waiter list \<Rightarrow> bool" where
  "dist ws \<longleftrightarrow> distinct (map fst ws)"

lemma ids_simps [simp]: "ids [] = {}" "ids (p # ws) = insert (fst p) (ids ws)" "ids (vs @ ws) = ids vs \<union> ids ws"
  "set (map fst ws) = ids ws" "fst ` set ws = ids ws"
  by (auto simp: ids_def)

lemma dist_simps [simp]: "dist []" "dist (p # ws) \<longleftrightarrow> fst p \<notin> ids ws \<and> dist ws"
  "dist (vs @ ws) \<longleftrightarrow> dist vs \<and> dist ws \<and> ids vs \<inter> ids ws = {}"
  by (auto simp: dist_def)

lemma map_of_ids: "map_of ws w = None \<longleftrightarrow> w \<notin> ids ws"
  by (simp add: map_of_eq_None_iff)

text \<open>The callers in \<^verbatim>\<open>select\<close> are first those granted (\<open>A\<close>), then the waiters of the semaphore.\<close>

definition sem_inv :: "int \<Rightarrow> system \<Rightarrow> waiter list \<Rightarrow> bool" where
  "sem_inv limit y A \<longleftrightarrow>
     sem_size (sem y) = limit \<and> cur (sem y) \<le> limit \<and> cur (sem y) = sum_list (holders y) + sum_list (map snd A) \<and>
     pending y = A @ waiters (sem y) \<and> dist (pending y) \<and>
     ids A \<subseteq> set (ready (sem y)) \<and> ids (waiters (sem y)) \<inter> set (ready (sem y)) = {} \<and>
     (\<forall>n \<in> set (holders y). 0 \<le> n) \<and> (\<forall>p \<in> set (pending y). 0 \<le> snd p)"

text \<open>\<^verbatim>\<open>notifyWaiters\<close> grants a prefix of the queue and stops at the first waiter that does not fit.\<close>

lemma notifyWaiters_spec:
  "\<exists>G W. waiters s = G @ W \<and> notifyWaiters s = s\<lparr>cur := cur s + sum_list (map snd G), waiters := W, ready := rev (map fst G) @ ready s\<rparr> \<and>
     (cur s \<le> sem_size s \<longrightarrow> cur (notifyWaiters s) \<le> sem_size s) \<and>
     (W \<noteq> [] \<longrightarrow> sem_size s - cur (notifyWaiters s) < snd (hd W))"
proof (induction s rule: notifyWaiters.induct)
  case (1 s)
  show ?case
  proof (cases "waiters s")
    case Nil
    then show ?thesis by (simp add: notifyWaiters.simps [of s])
  next
    case (Cons w ws)
    show ?thesis
    proof (cases "sem_size s - cur s \<ge> snd w")
      case True
      define s1 where "s1 = s\<lparr>cur := cur s + snd w, waiters := ws, ready := fst w # ready s\<rparr>"
      have n: "notifyWaiters s = notifyWaiters s1" using Cons True by (simp add: notifyWaiters.simps [of s] s1_def)
      from 1 [OF Cons True] obtain G W where
        "waiters s1 = G @ W" "notifyWaiters s1 = s1\<lparr>cur := cur s1 + sum_list (map snd G), waiters := W, ready := rev (map fst G) @ ready s1\<rparr>"
        "cur s1 \<le> sem_size s1 \<longrightarrow> cur (notifyWaiters s1) \<le> sem_size s1" "W \<noteq> [] \<longrightarrow> sem_size s1 - cur (notifyWaiters s1) < snd (hd W)"
        unfolding s1_def [symmetric] by blast
      then show ?thesis using Cons True unfolding n by (intro exI [of _ "w # G"] exI [of _ W]) (auto simp: s1_def)
    next
      case False
      then show ?thesis using Cons by (auto simp: notifyWaiters.simps [of s] intro: exI [of _ "[]"])
    qed
  qed
qed

lemma remove_waiter_notin [simp]: "w \<notin> ids xs \<Longrightarrow> remove_waiter w xs = xs"
  by (induction xs) auto

lemma remove_waiter_split:
  "map_of xs w = Some n \<Longrightarrow> \<exists>ys zs. xs = ys @ (w, n) # zs \<and> remove_waiter w xs = ys @ zs \<and> w \<notin> ids ys"
proof (induction xs)
  case (Cons x xs)
  show ?case
  proof (cases "fst x = w")
    case True
    then show ?thesis using Cons.prems by (cases x) (auto intro: exI [of _ "[]"])
  next
    case False
    then obtain ys zs where "xs = ys @ (w, n) # zs" "remove_waiter w xs = ys @ zs" "w \<notin> ids ys"
      using Cons.IH Cons.prems by (cases x) auto
    then show ?thesis using False by (intro exI [of _ "x # ys"] exI [of _ zs]) auto
  qed
qed simp

lemma remove_waiter_append: "remove_waiter w (xs @ ys) = (if w \<in> ids xs then remove_waiter w xs @ ys else xs @ remove_waiter w ys)"
  by (induction xs) auto

lemma y_upd: "y\<lparr>holders := h, sem := s\<rparr> = y\<lparr>sem := s, holders := h\<rparr>"
  "y\<lparr>pending := p, sem := s\<rparr> = y\<lparr>sem := s, pending := p\<rparr>"
  by simp_all

lemma sem_inv_notify:
  assumes "sem_inv limit y A"
  shows "\<exists>A. sem_inv limit (y\<lparr>sem := notifyWaiters (sem y)\<rparr>) A"
proof -
  obtain G W where g: "waiters (sem y) = G @ W"
    "notifyWaiters (sem y) = (sem y)\<lparr>cur := cur (sem y) + sum_list (map snd G), waiters := W, ready := rev (map fst G) @ ready (sem y)\<rparr>"
    "cur (sem y) \<le> sem_size (sem y) \<longrightarrow> cur (notifyWaiters (sem y)) \<le> sem_size (sem y)"
    using notifyWaiters_spec [of "sem y"] by blast
  then have "sem_inv limit (y\<lparr>sem := notifyWaiters (sem y)\<rparr>) (A @ G)" using assms by (auto simp: sem_inv_def)
  then show ?thesis by blast
qed

lemma sum_list_remove1: "n \<in> set xs \<Longrightarrow> sum_list (remove1 n xs) = sum_list xs - (n :: int)"
  by (induction xs) auto

lemma sem_inv_held_le:
  assumes "sem_inv limit y A"
  shows "0 \<le> sum_list (map snd A)" "n \<in> set (holders y) \<Longrightarrow> n \<le> cur (sem y)"
proof -
  show a: "0 \<le> sum_list (map snd A)" using assms by (intro sum_list_nonneg) (auto simp: sem_inv_def)
  show "n \<in> set (holders y) \<Longrightarrow> n \<le> cur (sem y)"
    using a assms member_le_sum_list [of n "holders y"] by (auto simp: sem_inv_def)
qed

lemma sem_inv_release:
  assumes i: "sem_inv limit y A" and n: "n \<in> set (holders y)"
  shows "\<exists>s A. Release (sem y) n = (s, True) \<and> sem_inv limit (y\<lparr>sem := s, holders := remove1 n (holders y)\<rparr>) A"
proof -
  define s1 where "s1 = (sem y)\<lparr>cur := cur (sem y) - n\<rparr>"
  have "0 \<le> n" using i n by (auto simp: sem_inv_def)
  then have "sem_inv limit (y\<lparr>sem := s1, holders := remove1 n (holders y)\<rparr>) A"
    using i n by (auto simp: sem_inv_def s1_def sum_list_remove1 dest: notin_set_remove1)
  from sem_inv_notify [OF this] obtain A' where "sem_inv limit (y\<lparr>sem := notifyWaiters s1, holders := remove1 n (holders y)\<rparr>) A'"
    by (auto simp: y_upd)
  moreover have "Release (sem y) n = (notifyWaiters s1, True)"
    using sem_inv_held_le(2) [OF i n] by (simp add: Release_def s1_def Let_def)
  ultimately show ?thesis by blast
qed

lemma sem_inv_cancel:
  assumes i: "sem_inv limit y A" and p: "map_of (pending y) w = Some n"
  shows "\<exists>A. sem_inv limit (leave w (y\<lparr>sem := Acquire_cancel (sem y) w n\<rparr>)) A"
proof (cases "w \<in> set (ready (sem y))")
  case True
  define s1 where "s1 = (sem y)\<lparr>cur := cur (sem y) - n\<rparr>"
  have w: "w \<notin> ids (waiters (sem y))" using i True by (auto simp: sem_inv_def)
  then have "map_of A w = Some n" using i p by (auto simp: sem_inv_def map_add_def map_of_ids [symmetric] split: option.splits)
  from remove_waiter_split [OF this] obtain ys zs where a: "A = ys @ (w, n) # zs" "remove_waiter w A = ys @ zs" by blast
  have "0 \<le> n" using i a by (auto simp: sem_inv_def)
  then have "sem_inv limit (y\<lparr>sem := s1, pending := remove_waiter w (pending y)\<rparr>) (remove_waiter w A)"
    using i a by (auto simp: sem_inv_def s1_def remove_waiter_append)
  from sem_inv_notify [OF this] show ?thesis using True w by (auto simp: leave_def Acquire_cancel_def s1_def y_upd Let_def)
next
  case False
  then have w: "w \<notin> ids A" using i by (auto simp: sem_inv_def)
  then have "map_of (waiters (sem y)) w = Some n" using i p by (auto simp: sem_inv_def map_add_def map_of_ids [symmetric] split: option.splits)
  from remove_waiter_split [OF this] obtain ys zs where a: "waiters (sem y) = ys @ (w, n) # zs" "remove_waiter w (waiters (sem y)) = ys @ zs" by blast
  then have "sem_inv limit (leave w (y\<lparr>sem := Acquire_cancel (sem y) w n\<rparr>)) A"
    using i w False by (auto simp: sem_inv_def leave_def Acquire_cancel_def remove_waiter_append Let_def)
  then show ?thesis by blast
qed

lemma sem_inv_wake:
  assumes i: "sem_inv limit y A" and p: "map_of (pending y) w = Some n" and r: "w \<in> set (ready (sem y))"
  shows "\<exists>A. sem_inv limit (leave w (y\<lparr>holders := n # holders y\<rparr>)) A"
proof -
  have w: "w \<notin> ids (waiters (sem y))" using i r by (auto simp: sem_inv_def)
  then have "map_of A w = Some n" using i p by (auto simp: sem_inv_def map_add_def map_of_ids [symmetric] split: option.splits)
  from remove_waiter_split [OF this] obtain ys zs where a: "A = ys @ (w, n) # zs" "remove_waiter w A = ys @ zs" by blast
  then have "sem_inv limit (leave w (y\<lparr>holders := n # holders y\<rparr>)) (remove_waiter w A)"
    using i by (auto simp: sem_inv_def leave_def remove_waiter_append)
  then show ?thesis by blast
qed

lemma sem_inv_acquire:
  assumes i: "sem_inv limit y A" and w: "w \<notin> ids (pending y) \<union> set (ready (sem y))" and n: "0 \<le> n"
  shows "\<exists>A. sem_inv limit (the (sem_step (AAcquire w n) y)) A"
proof (cases "sem_size (sem y) - cur (sem y) \<ge> n \<and> waiters (sem y) = []")
  case True
  then have "sem_inv limit (the (sem_step (AAcquire w n) y)) A" using i w n by (auto simp: sem_inv_def Acquire_def)
  then show ?thesis by blast
next
  case False
  then have "Acquire (sem y) w n = ((sem y)\<lparr>waiters := waiters (sem y) @ [(w, n)]\<rparr>, False)" by (auto simp: Acquire_def)
  then have "sem_inv limit (the (sem_step (AAcquire w n) y)) A" using i w n by (auto simp: sem_inv_def)
  then show ?thesis by blast
qed

lemma sem_inv_step:
  assumes i: "sem_inv limit y A" and s: "sem_step a y = Some y'" and ok: "weight_ok a"
  shows "\<exists>A. sem_inv limit y' A"
proof (cases a)
  case (AAcquire w n)
  then show ?thesis using sem_inv_acquire [OF i, of w n] s ok by (auto split: if_splits)
next
  case (AWake w)
  then show ?thesis using sem_inv_wake [OF i, of w] s by (auto split: option.splits if_splits)
next
  case (ACancel w)
  then show ?thesis using sem_inv_cancel [OF i, of w] s by (auto split: option.splits)
next
  case (ATry n)
  then have "sem_inv limit y' A" using i s ok by (auto simp: TryAcquire_def sem_inv_def split: if_splits)
  then show ?thesis by blast
next
  case (ARelease n)
  then show ?thesis using sem_inv_release [OF i, of n] s by (auto split: if_splits)
qed

lemma sem_inv_run:
  "sem_inv limit y A \<Longrightarrow> sem_run as y = Some y' \<Longrightarrow> (\<And>a. a \<in> set as \<Longrightarrow> weight_ok a) \<Longrightarrow> \<exists>A. sem_inv limit y' A"
proof (induction as arbitrary: y A)
  case (Cons a as)
  then obtain y1 where y1: "sem_step a y = Some y1" "sem_run as y1 = Some y'" by (auto split: option.splits)
  then obtain A1 where "sem_inv limit y1 A1" using sem_inv_step [OF Cons.prems(1) y1(1)] Cons.prems(3) by auto
  then show ?case using Cons y1(2) by auto
qed auto

lemma sem_inv_start: "0 \<le> limit \<Longrightarrow> sem_inv limit (start (NewSemaphore limit)) []"
  by (simp add: sem_inv_def start_def NewSemaphore_def)



text \<open>
  A waiter that leaves from the head of the queue does not wake the next one, even if the next one fits: until some holder
  releases, that caller stays blocked.
\<close>

lemma sem_lost_wakeup:
  "sem_run [AAcquire 0 1, AAcquire 1 2, AAcquire 2 1, ACancel 1] (start (NewSemaphore 2)) =
     Some \<lparr>sem = \<lparr>sem_size = 2, cur = 1, waiters = [(2, 1)], ready = []\<rparr>, holders = [1], pending = [(2, 1)]\<rparr>"
  by (simp add: start_def NewSemaphore_def Acquire_def Acquire_cancel_def leave_def ids_def Let_def)

section \<open>The bulkhead\<close>

record BulkheadConfig =
  Name :: string
  MaxConcurrent :: int

record Bulkhead =
  bulk_name :: string
  bulk_sem :: Semaphore
  bulk_max :: int

definition NewBulkhead :: "BulkheadConfig \<Rightarrow> Bulkhead" where
  "NewBulkhead cfg =
     (let cfg = (if MaxConcurrent cfg \<le> 0 then cfg\<lparr>MaxConcurrent := 1\<rparr> else cfg)
      in \<lparr>bulk_name = Name cfg, bulk_sem = NewSemaphore (MaxConcurrent cfg), bulk_max = MaxConcurrent cfg\<rparr>)"

text \<open>
  The steps of its callers: \<^verbatim>\<open>Execute\<close> enters, is woken or gives up, and the function ends; \<^verbatim>\<open>TryExecute\<close> starts the function or
  returns \<^verbatim>\<open>ErrBulkheadFull\<close>.  The deferred release is the end of the function.
\<close>

datatype bulk_action = BExecute nat | BWake nat | BCancel nat | BTryExecute | BDone

fun bulk_step :: "bulk_action \<Rightarrow> action" where
  "bulk_step (BExecute w) = AAcquire w 1"
| "bulk_step (BWake w) = AWake w"
| "bulk_step (BCancel w) = ACancel w"
| "bulk_step BTryExecute = ATry 1"
| "bulk_step BDone = ARelease 1"

definition bulk_run :: "BulkheadConfig \<Rightarrow> bulk_action list \<Rightarrow> system option" where
  "bulk_run cfg as = sem_run (map bulk_step as) (start (bulk_sem (NewBulkhead cfg)))"

text \<open>With unit weights the semaphore never idles while somebody waits.\<close>

definition unit_inv :: "system \<Rightarrow> bool" where
  "unit_inv y \<longleftrightarrow> (\<forall>n \<in> set (holders y). n = 1) \<and> (\<forall>p \<in> set (pending y). snd p = 1) \<and>
     (\<forall>p \<in> set (waiters (sem y)). snd p = 1) \<and> (waiters (sem y) \<noteq> [] \<longrightarrow> cur (sem y) \<ge> sem_size (sem y))"

lemma set_remove_waiter: "set (remove_waiter w xs) \<subseteq> set xs"
  by (induction xs) auto

lemma notify_unit:
  assumes "\<forall>p \<in> set (waiters s). snd p = 1"
  shows "waiters (notifyWaiters s) \<noteq> [] \<longrightarrow> cur (notifyWaiters s) \<ge> sem_size (notifyWaiters s)"
    "set (waiters (notifyWaiters s)) \<subseteq> set (waiters s)"
proof -
  obtain G W where g: "waiters s = G @ W"
    "notifyWaiters s = s\<lparr>cur := cur s + sum_list (map snd G), waiters := W, ready := rev (map fst G) @ ready s\<rparr>"
    "W \<noteq> [] \<longrightarrow> sem_size s - cur (notifyWaiters s) < snd (hd W)"
    using notifyWaiters_spec [of s] by blast
  show "set (waiters (notifyWaiters s)) \<subseteq> set (waiters s)" using g by auto
  show "waiters (notifyWaiters s) \<noteq> [] \<longrightarrow> cur (notifyWaiters s) \<ge> sem_size (notifyWaiters s)"
    using g assms by (cases W) auto
qed

lemma unit_cancel:
  assumes "\<forall>p \<in> set (waiters s). snd p = 1" "waiters s \<noteq> [] \<longrightarrow> cur s \<ge> sem_size s"
  shows "waiters (Acquire_cancel s w n) \<noteq> [] \<longrightarrow> cur (Acquire_cancel s w n) \<ge> sem_size (Acquire_cancel s w n)"
    "\<forall>p \<in> set (waiters (Acquire_cancel s w n)). snd p = 1"
proof -
  define s1 where "s1 = s\<lparr>waiters := remove_waiter w (waiters s), cur := cur s - n\<rparr>"
  have u: "\<forall>p \<in> set (remove_waiter w (waiters s)). snd p = 1" using assms(1) set_remove_waiter by blast
  then have u1: "\<forall>p \<in> set (waiters s1). snd p = 1" by (simp add: s1_def)
  have e: "Acquire_cancel s w n = (if w \<in> set (ready s) then notifyWaiters s1 else s\<lparr>waiters := remove_waiter w (waiters s)\<rparr>)"
    by (simp add: Acquire_cancel_def s1_def Let_def)
  show "waiters (Acquire_cancel s w n) \<noteq> [] \<longrightarrow> cur (Acquire_cancel s w n) \<ge> sem_size (Acquire_cancel s w n)"
    using notify_unit(1) [OF u1] assms(2) by (cases "waiters s") (auto simp: e)
  show "\<forall>p \<in> set (waiters (Acquire_cancel s w n)). snd p = 1"
    using notify_unit(2) [OF u1] u u1 by (auto simp: e)
qed

lemma map_of_unit: "\<forall>p \<in> set ps. snd p = 1 \<Longrightarrow> map_of ps w = Some n \<Longrightarrow> n = 1"
  by (auto dest!: map_of_SomeD)

lemma unit_inv_step:
  assumes u: "unit_inv y" and s: "sem_step (bulk_step a) y = Some y'"
  shows "unit_inv y'"
proof (cases a)
  case (BExecute w)
  then show ?thesis using u s by (auto simp: unit_inv_def Acquire_def split: if_splits)
next
  case (BWake w)
  then show ?thesis using u s set_remove_waiter [of w "pending y"]
    by (auto simp: unit_inv_def leave_def split: option.splits if_splits dest: map_of_unit)
next
  case (BCancel w)
  then obtain n where y': "y' = leave w (y\<lparr>sem := Acquire_cancel (sem y) w n\<rparr>)" using s by (auto split: option.splits)
  show ?thesis using u unit_cancel [of "sem y" w n] set_remove_waiter [of w "pending y"]
    unfolding y' by (auto simp: unit_inv_def leave_def)
next
  case BTryExecute
  then show ?thesis using u s by (auto simp: unit_inv_def TryAcquire_def split: if_splits)
next
  case BDone
  define s1 where "s1 = (sem y)\<lparr>cur := cur (sem y) - 1\<rparr>"
  have y': "y' = y\<lparr>sem := notifyWaiters s1, holders := remove1 1 (holders y)\<rparr>"
    using s BDone by (auto simp: Release_def s1_def Let_def split: if_splits)
  have "\<forall>p \<in> set (waiters s1). snd p = 1" using u by (simp add: unit_inv_def s1_def)
  from this notify_unit [OF this] show ?thesis using u unfolding y'
    by (auto simp: unit_inv_def dest: notin_set_remove1)
qed

lemma unit_inv_run: "unit_inv y \<Longrightarrow> sem_run (map bulk_step as) y = Some y' \<Longrightarrow> unit_inv y'"
proof (induction as arbitrary: y)
  case (Cons a as)
  then show ?case using unit_inv_step [of y a] by (auto split: option.splits)
qed simp

lemma weight_ok_bulk: "weight_ok (bulk_step a)"
  by (cases a) auto

lemma sum_list_ones: "\<forall>n \<in> set xs. n = 1 \<Longrightarrow> sum_list xs = int (length xs)"
  by (induction xs) auto

text \<open>The bulkhead.  In every run of callers of a new bulkhead the number of functions running is at most the configured maximum (one when the
  configuration has no positive number); and no slot idles: while a caller waits ungranted, the running functions and the
  callers already granted use all slots, and a \<^verbatim>\<open>TryExecute\<close> is refused only then or when all slots are in use.
\<close>

lemma bulkhead_correct:
  assumes "bulk_run cfg as = Some y"
  shows "(let slots = bulk_max (NewBulkhead cfg); granted = length (pending y) - length (waiters (sem y))
    in slots = max 1 (MaxConcurrent cfg) \<and> int (length (holders y)) \<le> slots \<and>
       (waiters (sem y) \<noteq> [] \<longrightarrow> int (length (holders y) + granted) = slots) \<and>
       (snd (TryAcquire (sem y) 1) \<longleftrightarrow> int (length (holders y) + granted) < slots))"
proof -
  define m where "m = bulk_max (NewBulkhead cfg)"
  have m: "m = max 1 (MaxConcurrent cfg)" "bulk_sem (NewBulkhead cfg) = NewSemaphore m" "0 \<le> m"
    by (auto simp: m_def NewBulkhead_def Let_def)
  have r: "sem_run (map bulk_step as) (start (NewSemaphore m)) = Some y" using assms m(2) by (simp add: bulk_run_def)
  obtain A where i: "sem_inv m y A" using sem_inv_run [OF sem_inv_start [OF m(3)] r] weight_ok_bulk by auto
  have u: "unit_inv y" using unit_inv_run [OF _ r] by (simp add: unit_inv_def start_def NewSemaphore_def)
  have "\<forall>n \<in> set (map snd A). n = 1" using u i by (auto simp: unit_inv_def sem_inv_def)
  then have "cur (sem y) = int (length (holders y) + length A)"
    using u i sum_list_ones [of "holders y"] sum_list_ones [of "map snd A"] by (simp add: unit_inv_def sem_inv_def)
  moreover have "length (pending y) - length (waiters (sem y)) = length A" using i by (simp add: sem_inv_def)
  ultimately show ?thesis using u i m(1) by (auto simp: m_def [symmetric] unit_inv_def sem_inv_def TryAcquire_def Let_def)
qed

end
