(* ===== verification/Oauth.thy ===== *)
theory Oauth
  imports Prelude
begin

text \<open>
  \<^verbatim>\<open>pkg/auth/oauth2\<close> and its in-memory authorization server \<^verbatim>\<open>adapters/memory\<close>.  Instants and durations are nanoseconds;
  a request is handled at one instant \<open>now\<close>.  \<open>ended\<close> says that the context of the request has ended.
  The random part of a token is an argument of the request that draws it.  The password hasher, SHA-256 with base64, the
  password authenticator and the rounding of a duration to seconds are arguments (\<open>oauth_env\<close>).
\<close>

section \<open>Data\<close>

type_synonym GrantType = string

abbreviation "GrantAuthorizationCode \<equiv> ''authorization_code''"
abbreviation "GrantClientCredentials \<equiv> ''client_credentials''"
abbreviation "GrantRefreshToken \<equiv> ''refresh_token''"
abbreviation "GrantPassword \<equiv> ''password''"
abbreviation "ResponseTypeCode \<equiv> ''code''"

record Client =
  cl_ID :: string
  Secret :: string
  RedirectURIs :: "string list"
  GrantTypes :: "GrantType list"
  cl_Scopes :: "string list"

record oauth_Config =
  Issuer :: string
  AccessTokenTTL :: int
  RefreshTokenTTL :: int
  AuthCodeTTL :: int

record AuthorizeRequest =
  ar_ResponseType :: string
  ar_ClientID :: string
  ar_RedirectURI :: string
  ar_Scope :: "string list"
  ar_State :: string
  ar_Subject :: string
  ar_CodeChallenge :: string
  ar_CodeChallengeMethod :: string

record AuthorizeResponse =
  resp_Code :: string
  resp_State :: string
  resp_RedirectURI :: string

record TokenRequest =
  tr_GrantType :: GrantType
  tr_Code :: string
  tr_RedirectURI :: string
  tr_ClientID :: string
  tr_ClientSecret :: string
  tr_RefreshToken :: string
  tr_Scope :: "string list"
  tr_Username :: string
  tr_Password :: string
  tr_CodeVerifier :: string

record TokenResponse =
  AccessToken :: string
  TokenType :: string
  ExpiresIn :: int
  RefreshToken :: string
  resp_Scope :: string

record TokenClaims =
  tc_Subject :: string
  tc_ClientID :: string
  tc_Scopes :: "string list"
  tc_Issuer :: string
  tc_ExpiresAt :: int
  tc_IssuedAt :: int

record authCode =
  ac_ClientID :: string
  ac_RedirectURI :: string
  ac_Subject :: string
  ac_Scopes :: "string list"
  ac_ExpiresAt :: int
  CodeChallenge :: string
  CodeChallengeMethod :: string
  Used :: bool

record issuedToken =
  tk_Subject :: string
  tk_ClientID :: string
  tk_Scopes :: "string list"
  tk_ExpiresAt :: int
  tk_IssuedAt :: int
  Refresh :: bool
  Revoked :: bool

record oauth_Server =
  cfg :: oauth_Config
  clients :: "string \<rightharpoonup> Client"
  codes :: "string \<rightharpoonup> authCode"
  tokens :: "string \<rightharpoonup> issuedToken"

datatype oauth_error =
  ErrClientNotFound | ErrInvalidGrant | ErrInvalidClient | ErrUnsupportedGrant | ErrInvalidRequestMsg string |
  ErrInternal string | ErrUnauthorized string | ErrContext

record oauth_env =
  Hash :: "string \<Rightarrow> string option"
  Verify :: "string \<Rightarrow> string \<Rightarrow> bool option"
  sha256_base64 :: "string \<Rightarrow> string"
  Authenticate :: "(string \<Rightarrow> string \<Rightarrow> string option) option"
  seconds :: "int \<Rightarrow> int"

section \<open>Helpers\<close>

definition clientAllowsGrant :: "Client \<Rightarrow> GrantType \<Rightarrow> bool" where
  "clientAllowsGrant c g = list_ex (\<lambda>gt. gt = g) (GrantTypes c)"

definition redirectAllowed :: "Client \<Rightarrow> string \<Rightarrow> bool" where
  "redirectAllowed c uri = (if length (RedirectURIs c) = 0 then True else list_ex (\<lambda>r. r = uri) (RedirectURIs c))"

definition normalizeScopes :: "string list \<Rightarrow> string list \<Rightarrow> string list" where
  "normalizeScopes requested allowed =
     (if length requested = 0 then allowed
      else if length allowed = 0 then requested
      else filter (\<lambda>s. s \<in> set allowed) requested)"

definition verifyPKCE :: "oauth_env \<Rightarrow> string \<Rightarrow> string \<Rightarrow> string \<Rightarrow> bool" where
  "verifyPKCE env challenge method verifier =
     (if verifier = '''' then False
      else (let m = map lower_char method
            in if m = '''' \<or> m = ''plain'' then challenge = verifier
               else if m = ''s256'' then challenge = sha256_base64 env verifier
               else False))"

definition randomToken :: "string \<Rightarrow> string \<Rightarrow> string" where
  "randomToken prefix r = prefix @ ''_'' @ r"

fun join :: "string \<Rightarrow> string list \<Rightarrow> string" where
  "join sep [] = ''''"
| "join sep [x] = x"
| "join sep (x # y # xs) = x @ sep @ join sep (y # xs)"

section \<open>The server\<close>

definition oauth_New :: "oauth_Config \<Rightarrow> oauth_Server" where
  "oauth_New c =
     (let c = (if Issuer c = '''' then c\<lparr>Issuer := ''hyperforge-oauth2''\<rparr> else c);
          c = (if AccessTokenTTL c = 0 then c\<lparr>AccessTokenTTL := 3600000000000\<rparr> else c);
          c = (if RefreshTokenTTL c = 0 then c\<lparr>RefreshTokenTTL := 30 * 24 * 3600000000000\<rparr> else c);
          c = (if AuthCodeTTL c = 0 then c\<lparr>AuthCodeTTL := 600000000000\<rparr> else c)
      in \<lparr>cfg = c, clients = Map.empty, codes = Map.empty, tokens = Map.empty\<rparr>)"

definition RegisterClient :: "oauth_env \<Rightarrow> bool \<Rightarrow> Client \<Rightarrow> oauth_Server \<Rightarrow> oauth_Server \<times> (oauth_error + unit)" where
  "RegisterClient env ended client s =
     (if ended then (s, Inl ErrContext)
      else if cl_ID client = '''' then (s, Inl (ErrInvalidRequestMsg ''client id required''))
      else
        (let client = (if length (GrantTypes client) = 0
                       then client\<lparr>GrantTypes := [GrantAuthorizationCode, GrantRefreshToken]\<rparr> else client)
         in if Secret client \<noteq> ''''
            then (case Hash env (Secret client) of
                    None \<Rightarrow> (s, Inl (ErrInternal ''failed to hash client secret''))
                  | Some hashed \<Rightarrow> (s\<lparr>clients := (clients s)(cl_ID client \<mapsto> client\<lparr>Secret := hashed\<rparr>)\<rparr>, Inr ()))
            else (s\<lparr>clients := (clients s)(cl_ID client \<mapsto> client)\<rparr>, Inr ())))"

definition oauth_Authorize ::
  "bool \<Rightarrow> int \<Rightarrow> string \<Rightarrow> AuthorizeRequest \<Rightarrow> oauth_Server \<Rightarrow> oauth_Server \<times> (oauth_error + AuthorizeResponse)" where
  "oauth_Authorize ended now r req s =
     (if ended then (s, Inl ErrContext)
      else if ar_ResponseType req \<noteq> ResponseTypeCode \<and> ar_ResponseType req \<noteq> ''''
      then (s, Inl (ErrInvalidRequestMsg ''unsupported response_type''))
      else if ar_ClientID req = '''' \<or> ar_Subject req = '''' \<or> ar_RedirectURI req = ''''
      then (s, Inl (ErrInvalidRequestMsg ''client_id, subject, and redirect_uri are required''))
      else case clients s (ar_ClientID req) of
        None \<Rightarrow> (s, Inl ErrClientNotFound)
      | Some client \<Rightarrow>
          if \<not> clientAllowsGrant client GrantAuthorizationCode then (s, Inl ErrUnsupportedGrant)
          else if \<not> redirectAllowed client (ar_RedirectURI req)
          then (s, Inl (ErrInvalidRequestMsg ''redirect_uri not registered''))
          else
            (let code = randomToken ''code'' r
             in (s\<lparr>codes := (codes s)(code \<mapsto>
                   \<lparr>ac_ClientID = ar_ClientID req, ac_RedirectURI = ar_RedirectURI req, ac_Subject = ar_Subject req,
                    ac_Scopes = normalizeScopes (ar_Scope req) (cl_Scopes client), ac_ExpiresAt = now + AuthCodeTTL (cfg s),
                    CodeChallenge = ar_CodeChallenge req, CodeChallengeMethod = ar_CodeChallengeMethod req, Used = False\<rparr>)\<rparr>,
                 Inr \<lparr>resp_Code = code, resp_State = ar_State req, resp_RedirectURI = ar_RedirectURI req\<rparr>)))"

definition authenticateClientLocked :: "oauth_env \<Rightarrow> string \<Rightarrow> string \<Rightarrow> oauth_Server \<Rightarrow> oauth_error + Client" where
  "authenticateClientLocked env cid secret s =
     (case clients s cid of
        None \<Rightarrow> Inl ErrInvalidClient
      | Some client \<Rightarrow>
          if Secret client \<noteq> ''''
          then (case Verify env secret (Secret client) of
                  None \<Rightarrow> Inl ErrInvalidClient
                | Some ok \<Rightarrow> if ok then Inr client else Inl ErrInvalidClient)
          else Inr client)"

definition issueTokensLocked ::
  "oauth_env \<Rightarrow> int \<Rightarrow> string \<times> string \<Rightarrow> string \<Rightarrow> string \<Rightarrow> string list \<Rightarrow> bool \<Rightarrow> oauth_Server \<Rightarrow> oauth_Server \<times> TokenResponse" where
  "issueTokensLocked env now rs subject clientID scopes withRefresh s =
     (let access = randomToken ''atk'' (fst rs);
          tk = \<lparr>tk_Subject = subject, tk_ClientID = clientID, tk_Scopes = scopes, tk_ExpiresAt = now + AccessTokenTTL (cfg s),
                tk_IssuedAt = now, Refresh = False, Revoked = False\<rparr>;
          s = s\<lparr>tokens := (tokens s)(access \<mapsto> tk)\<rparr>;
          resp = \<lparr>AccessToken = access, TokenType = ''Bearer'', ExpiresIn = seconds env (AccessTokenTTL (cfg s)), RefreshToken = '''',
                  resp_Scope = join '' '' scopes\<rparr>
      in if withRefresh
         then (let refresh = randomToken ''rtk'' (snd rs)
               in (s\<lparr>tokens := (tokens s)(refresh \<mapsto> tk\<lparr>tk_ExpiresAt := now + RefreshTokenTTL (cfg s), Refresh := True\<rparr>)\<rparr>,
                   resp\<lparr>RefreshToken := refresh\<rparr>))
         else (s, resp))"

type_synonym token_result = "oauth_error + TokenResponse"

definition granted :: "oauth_Server \<times> TokenResponse \<Rightarrow> oauth_Server \<times> token_result" where
  "granted p = (fst p, Inr (snd p))"

definition tokenAuthCode ::
  "oauth_env \<Rightarrow> int \<Rightarrow> string \<times> string \<Rightarrow> TokenRequest \<Rightarrow> oauth_Server \<Rightarrow> oauth_Server \<times> token_result" where
  "tokenAuthCode env now rs req s =
     (case authenticateClientLocked env (tr_ClientID req) (tr_ClientSecret req) s of
        Inl err \<Rightarrow> (s, Inl err)
      | Inr client \<Rightarrow>
          if \<not> clientAllowsGrant client GrantAuthorizationCode then (s, Inl ErrUnsupportedGrant)
          else case codes s (tr_Code req) of
            None \<Rightarrow> (s, Inl ErrInvalidGrant)
          | Some ac \<Rightarrow>
              if Used ac \<or> now > ac_ExpiresAt ac then (s, Inl ErrInvalidGrant)
              else if ac_ClientID ac \<noteq> tr_ClientID req \<or> ac_RedirectURI ac \<noteq> tr_RedirectURI req then (s, Inl ErrInvalidGrant)
              else if CodeChallenge ac \<noteq> '''' \<and> \<not> verifyPKCE env (CodeChallenge ac) (CodeChallengeMethod ac) (tr_CodeVerifier req)
              then (s, Inl ErrInvalidGrant)
              else granted (issueTokensLocked env now rs (ac_Subject ac) (cl_ID client) (ac_Scopes ac) True
                     (s\<lparr>codes := (codes s)(tr_Code req \<mapsto> ac\<lparr>Used := True\<rparr>)\<rparr>)))"

definition tokenClientCredentials ::
  "oauth_env \<Rightarrow> int \<Rightarrow> string \<times> string \<Rightarrow> TokenRequest \<Rightarrow> oauth_Server \<Rightarrow> oauth_Server \<times> token_result" where
  "tokenClientCredentials env now rs req s =
     (case authenticateClientLocked env (tr_ClientID req) (tr_ClientSecret req) s of
        Inl err \<Rightarrow> (s, Inl err)
      | Inr client \<Rightarrow>
          if \<not> clientAllowsGrant client GrantClientCredentials then (s, Inl ErrUnsupportedGrant)
          else granted (issueTokensLocked env now rs (cl_ID client) (cl_ID client)
                 (normalizeScopes (tr_Scope req) (cl_Scopes client)) False s))"

definition tokenRefresh ::
  "oauth_env \<Rightarrow> int \<Rightarrow> string \<times> string \<Rightarrow> TokenRequest \<Rightarrow> oauth_Server \<Rightarrow> oauth_Server \<times> token_result" where
  "tokenRefresh env now rs req s =
     (case authenticateClientLocked env (tr_ClientID req) (tr_ClientSecret req) s of
        Inl err \<Rightarrow> (s, Inl err)
      | Inr client \<Rightarrow>
          if \<not> clientAllowsGrant client GrantRefreshToken then (s, Inl ErrUnsupportedGrant)
          else case tokens s (tr_RefreshToken req) of
            None \<Rightarrow> (s, Inl ErrInvalidGrant)
          | Some rt \<Rightarrow>
              if \<not> Refresh rt \<or> Revoked rt \<or> now > tk_ExpiresAt rt then (s, Inl ErrInvalidGrant)
              else if tk_ClientID rt \<noteq> cl_ID client then (s, Inl ErrInvalidGrant)
              else
                (let scopes = (if length (tr_Scope req) > 0 then normalizeScopes (tr_Scope req) (tk_Scopes rt) else tk_Scopes rt)
                 in granted (issueTokensLocked env now rs (tk_Subject rt) (cl_ID client) scopes True
                      (s\<lparr>tokens := (tokens s)(tr_RefreshToken req \<mapsto> rt\<lparr>Revoked := True\<rparr>)\<rparr>))))"

definition tokenPassword ::
  "oauth_env \<Rightarrow> int \<Rightarrow> string \<times> string \<Rightarrow> TokenRequest \<Rightarrow> oauth_Server \<Rightarrow> oauth_Server \<times> token_result" where
  "tokenPassword env now rs req s =
     (case Authenticate env of
        None \<Rightarrow> (s, Inl ErrUnsupportedGrant)
      | Some auth \<Rightarrow> (case auth (tr_Username req) (tr_Password req) of
            None \<Rightarrow> (s, Inl (ErrUnauthorized ''invalid credentials''))
          | Some subject \<Rightarrow> (case authenticateClientLocked env (tr_ClientID req) (tr_ClientSecret req) s of
                Inl err \<Rightarrow> (s, Inl err)
              | Inr client \<Rightarrow>
                  if \<not> clientAllowsGrant client GrantPassword then (s, Inl ErrUnsupportedGrant)
                  else granted (issueTokensLocked env now rs subject (cl_ID client)
                         (normalizeScopes (tr_Scope req) (cl_Scopes client)) True s))))"

definition oauth_Token ::
  "oauth_env \<Rightarrow> bool \<Rightarrow> int \<Rightarrow> string \<times> string \<Rightarrow> TokenRequest \<Rightarrow> oauth_Server \<Rightarrow> oauth_Server \<times> token_result" where
  "oauth_Token env ended now rs req s =
     (if ended then (s, Inl ErrContext)
      else if tr_GrantType req = GrantAuthorizationCode \<or> tr_GrantType req = '''' then tokenAuthCode env now rs req s
      else if tr_GrantType req = GrantClientCredentials then tokenClientCredentials env now rs req s
      else if tr_GrantType req = GrantRefreshToken then tokenRefresh env now rs req s
      else if tr_GrantType req = GrantPassword then tokenPassword env now rs req s
      else (s, Inl ErrUnsupportedGrant))"

definition IssueAccessToken ::
  "oauth_env \<Rightarrow> bool \<Rightarrow> int \<Rightarrow> string \<times> string \<Rightarrow> string \<Rightarrow> string \<Rightarrow> string list \<Rightarrow> oauth_Server \<Rightarrow> oauth_Server \<times> token_result" where
  "IssueAccessToken env ended now rs subject clientID scopes s =
     (if ended then (s, Inl ErrContext) else granted (issueTokensLocked env now rs subject clientID scopes True s))"

definition Revoke :: "bool \<Rightarrow> string \<Rightarrow> oauth_Server \<Rightarrow> oauth_Server \<times> (oauth_error + unit)" where
  "Revoke ended token s =
     (if ended then (s, Inl ErrContext)
      else (case tokens s token of
              None \<Rightarrow> (s, Inr ())
            | Some t \<Rightarrow> (s\<lparr>tokens := (tokens s)(token \<mapsto> t\<lparr>Revoked := True\<rparr>)\<rparr>, Inr ())))"

definition Introspect :: "bool \<Rightarrow> int \<Rightarrow> string \<Rightarrow> oauth_Server \<Rightarrow> oauth_error + TokenClaims" where
  "Introspect ended now token s =
     (if ended then Inl ErrContext
      else (case tokens s token of
              None \<Rightarrow> Inl (ErrUnauthorized ''invalid token'')
            | Some t \<Rightarrow>
                if Revoked t \<or> Refresh t \<or> now > tk_ExpiresAt t then Inl (ErrUnauthorized ''invalid token'')
                else Inr \<lparr>tc_Subject = tk_Subject t, tc_ClientID = tk_ClientID t, tc_Scopes = tk_Scopes t, tc_Issuer = Issuer (cfg s),
                          tc_ExpiresAt = tk_ExpiresAt t, tc_IssuedAt = tk_IssuedAt t\<rparr>))"

section \<open>Runs\<close>

text \<open>A request with the random strings it draws; the requests of a run come with their instants.\<close>

datatype oauth_request =
    RegisterReq Client
  | AuthorizeReq AuthorizeRequest string
  | TokenReq TokenRequest "string \<times> string"
  | IssueReq string string "string list" "string \<times> string"
  | RevokeReq string

datatype oauth_response = Failed oauth_error | Done | CodeResp AuthorizeResponse | TokenResp TokenResponse

fun oauth_step :: "oauth_env \<Rightarrow> int \<Rightarrow> bool \<Rightarrow> oauth_request \<Rightarrow> oauth_Server \<Rightarrow> oauth_Server \<times> oauth_response" where
  "oauth_step env now ended (RegisterReq c) s = map_prod id (case_sum Failed (\<lambda>_. Done)) (RegisterClient env ended c s)"
| "oauth_step env now ended (AuthorizeReq a r) s = map_prod id (case_sum Failed CodeResp) (oauth_Authorize ended now r a s)"
| "oauth_step env now ended (TokenReq t rs) s = map_prod id (case_sum Failed TokenResp) (oauth_Token env ended now rs t s)"
| "oauth_step env now ended (IssueReq sub c sc rs) s = map_prod id (case_sum Failed TokenResp) (IssueAccessToken env ended now rs sub c sc s)"
| "oauth_step env now ended (RevokeReq t) s = map_prod id (case_sum Failed (\<lambda>_. Done)) (Revoke ended t s)"

type_synonym oauth_event = "int \<times> bool \<times> oauth_request"

fun oauth_run :: "oauth_env \<Rightarrow> oauth_event list \<Rightarrow> oauth_Server \<Rightarrow> oauth_Server \<times> (oauth_event \<times> oauth_response) list" where
  "oauth_run env [] s = (s, [])"
| "oauth_run env ((now, ended, req) # es) s =
     (let (s1, resp) = oauth_step env now ended req s; (s2, log) = oauth_run env es s1 in (s2, ((now, ended, req), resp) # log))"

fun draws :: "oauth_request \<Rightarrow> string list" where
  "draws (AuthorizeReq a r) = [r]"
| "draws (TokenReq t rs) = [fst rs, snd rs]"
| "draws (IssueReq sub c sc rs) = [fst rs, snd rs]"
| "draws _ = []"

text \<open>The entry of a log is a successful exchange of the credential \<open>c\<close>: a code or a refresh token.\<close>

fun redeems :: "string \<Rightarrow> oauth_event \<times> oauth_response \<Rightarrow> bool" where
  "redeems c ((now, ended, TokenReq t rs), TokenResp resp) \<longleftrightarrow>
     (tr_GrantType t = GrantAuthorizationCode \<or> tr_GrantType t = '''') \<and> tr_Code t = c \<or>
     tr_GrantType t = GrantRefreshToken \<and> tr_RefreshToken t = c"
| "redeems c _ \<longleftrightarrow> False"

section \<open>How a request changes the store\<close>

text \<open>Outside the names it draws, a request only marks codes as used and tokens as revoked.\<close>

definition code_names :: "string set \<Rightarrow> string set" where
  "code_names D = randomToken ''code'' ` D"

definition token_names :: "string set \<Rightarrow> string set" where
  "token_names D = randomToken ''atk'' ` D \<union> randomToken ''rtk'' ` D"

definition evolves :: "string set \<Rightarrow> oauth_Server \<Rightarrow> oauth_Server \<Rightarrow> bool" where
  "evolves D s s' \<longleftrightarrow>
     (\<forall>k. k \<in> code_names D \<or> codes s' k = codes s k \<or> (\<exists>ac. codes s k = Some ac \<and> codes s' k = Some (ac\<lparr>Used := True\<rparr>))) \<and>
     (\<forall>k. k \<in> token_names D \<or> tokens s' k = tokens s k \<or> (\<exists>t. tokens s k = Some t \<and> tokens s' k = Some (t\<lparr>Revoked := True\<rparr>))) \<and>
     cfg s' = cfg s"

lemma randomToken_inj [simp]: "randomToken p r = randomToken p r' \<longleftrightarrow> r = r'"
  by (simp add: randomToken_def)

lemma names_disjoint: "k \<in> code_names D \<Longrightarrow> k \<notin> token_names D'"
  by (auto simp: code_names_def token_names_def randomToken_def)

lemma names_inter: "D \<inter> D' = {} \<Longrightarrow> k \<in> code_names D \<Longrightarrow> k \<notin> code_names D'" "D \<inter> D' = {} \<Longrightarrow> k \<in> token_names D \<Longrightarrow> k \<notin> token_names D'"
  by (auto simp: code_names_def token_names_def) (auto simp: randomToken_def)

lemma names_Un: "code_names (D \<union> D') = code_names D \<union> code_names D'" "token_names (D \<union> D') = token_names D \<union> token_names D'"
  by (auto simp: code_names_def token_names_def)

lemma evolves_refl: "evolves D s s"
  by (simp add: evolves_def)

lemma issue_evolves:
  "evolves D s s1 \<Longrightarrow> fst rs \<in> D \<Longrightarrow> snd rs \<in> D \<Longrightarrow> evolves D s (fst (issueTokensLocked env now rs sub c sc w s1))"
  unfolding evolves_def issueTokensLocked_def Let_def by (auto simp: token_names_def)

lemma issue_codes [simp]: "codes (fst (issueTokensLocked env now rs sub c sc w s)) = codes s"
  by (simp add: issueTokensLocked_def Let_def)

lemma issue_tokens:
  "k \<notin> token_names {fst rs, snd rs} \<Longrightarrow> tokens (fst (issueTokensLocked env now rs sub c sc w s)) k = tokens s k"
  by (simp add: issueTokensLocked_def token_names_def Let_def)

lemma evolves_use: "codes s k = Some ac \<Longrightarrow> evolves D s (s\<lparr>codes := (codes s)(k \<mapsto> ac\<lparr>Used := True\<rparr>)\<rparr>)"
  by (auto simp: evolves_def)

lemma evolves_revoke: "tokens s k = Some t \<Longrightarrow> evolves D s (s\<lparr>tokens := (tokens s)(k \<mapsto> t\<lparr>Revoked := True\<rparr>)\<rparr>)"
  by (auto simp: evolves_def)

lemmas evolves_rules = evolves_refl issue_evolves evolves_use evolves_revoke

text \<open>What a successful exchange says about the state before it.\<close>

lemma tokenAuthCode_evolves: "evolves {fst rs, snd rs} s (fst (tokenAuthCode env now rs req s))"
  unfolding tokenAuthCode_def by (auto simp: granted_def intro!: evolves_rules split: sum.split option.split)

lemma tokenRefresh_evolves: "evolves {fst rs, snd rs} s (fst (tokenRefresh env now rs req s))"
  unfolding tokenRefresh_def Let_def by (auto simp: granted_def intro!: evolves_rules split: sum.split option.split)

lemma tokenOther_evolves:
  "evolves {fst rs, snd rs} s (fst (tokenClientCredentials env now rs req s))"
  "evolves {fst rs, snd rs} s (fst (tokenPassword env now rs req s))"
  unfolding tokenClientCredentials_def tokenPassword_def by (auto simp: granted_def intro!: evolves_rules split: sum.split option.split)

lemma oauth_step_evolves: "evolves (set (draws req)) s (fst (oauth_step env now ended req s))"
proof (cases req)
  case (RegisterReq c)
  then show ?thesis by (auto simp: RegisterClient_def evolves_def Let_def split: option.split)
next
  case (AuthorizeReq a r)
  then show ?thesis by (auto simp: oauth_Authorize_def evolves_def code_names_def Let_def split: option.split)
next
  case (TokenReq t rs)
  then show ?thesis using tokenAuthCode_evolves tokenRefresh_evolves tokenOther_evolves evolves_refl by (simp add: oauth_Token_def)
next
  case (IssueReq sub c sc rs)
  then show ?thesis by (auto simp: IssueAccessToken_def granted_def intro!: evolves_rules)
next
  case (RevokeReq t)
  then show ?thesis by (auto simp: Revoke_def intro!: evolves_rules split: option.split)
qed

lemma tokenAuthCode_ok:
  assumes "tokenAuthCode env now rs req s = (s', Inr resp)"
  obtains client ac where "clients s (tr_ClientID req) = Some client" "clientAllowsGrant client GrantAuthorizationCode"
    "Secret client \<noteq> '''' \<longrightarrow> Verify env (tr_ClientSecret req) (Secret client) = Some True"
    "codes s (tr_Code req) = Some ac" "\<not> Used ac" "now \<le> ac_ExpiresAt ac"
    "ac_ClientID ac = tr_ClientID req" "ac_RedirectURI ac = tr_RedirectURI req"
    "CodeChallenge ac \<noteq> '''' \<longrightarrow> verifyPKCE env (CodeChallenge ac) (CodeChallengeMethod ac) (tr_CodeVerifier req)"
    "(s', resp) = issueTokensLocked env now rs (ac_Subject ac) (cl_ID client) (ac_Scopes ac) True
       (s\<lparr>codes := (codes s)(tr_Code req \<mapsto> ac\<lparr>Used := True\<rparr>)\<rparr>)"
  using assms that unfolding tokenAuthCode_def authenticateClientLocked_def granted_def
  by (auto split: option.splits if_splits)

lemma tokenRefresh_ok:
  assumes "tokenRefresh env now rs req s = (s', Inr resp)"
  obtains client rt where "clients s (tr_ClientID req) = Some client"
    "tokens s (tr_RefreshToken req) = Some rt" "Refresh rt" "\<not> Revoked rt" "now \<le> tk_ExpiresAt rt" "tk_ClientID rt = cl_ID client"
    "(s', resp) = issueTokensLocked env now rs (tk_Subject rt) (cl_ID client)
       (if length (tr_Scope req) > 0 then normalizeScopes (tr_Scope req) (tk_Scopes rt) else tk_Scopes rt) True
       (s\<lparr>tokens := (tokens s)(tr_RefreshToken req \<mapsto> rt\<lparr>Revoked := True\<rparr>)\<rparr>)"
  using assms that unfolding tokenRefresh_def authenticateClientLocked_def granted_def Let_def
  by (auto split: option.splits if_splits)

section \<open>Credentials are used once\<close>

text \<open>Every name in the store was drawn.\<close>

definition known :: "string set \<Rightarrow> oauth_Server \<Rightarrow> bool" where
  "known D s \<longleftrightarrow> dom (codes s) \<subseteq> code_names D \<and> dom (tokens s) \<subseteq> token_names D"

definition spent :: "string \<Rightarrow> oauth_Server \<Rightarrow> bool" where
  "spent c s \<longleftrightarrow> (\<exists>ac. codes s c = Some ac \<and> Used ac) \<or> (\<exists>t. tokens s c = Some t \<and> Revoked t)"

lemma known_step: "known D s \<Longrightarrow> evolves D' s s' \<Longrightarrow> known (D \<union> D') s'"
  unfolding known_def names_Un dom_def subset_iff evolves_def by fastforce

lemma known_used: "known D s \<Longrightarrow> codes s c = Some ac \<Longrightarrow> c \<in> code_names D" "known D s \<Longrightarrow> tokens s c = Some t \<Longrightarrow> c \<in> token_names D"
  by (auto simp: known_def)

lemma spent_step:
  assumes "known D s" "evolves D' s s'" "D \<inter> D' = {}" "spent c s"
  shows "spent c s'"
proof (cases "\<exists>ac. codes s c = Some ac \<and> Used ac")
  case True
  then have "c \<notin> code_names D'" using names_inter(1) [OF assms(3)] known_used(1) [OF assms(1)] by blast
  then show ?thesis using assms(2) True unfolding evolves_def spent_def by fastforce
next
  case False
  then obtain t where t: "tokens s c = Some t" "Revoked t" using assms(4) by (auto simp: spent_def)
  then have "c \<notin> token_names D'" using names_inter(2) [OF assms(3)] known_used(2) [OF assms(1)] by blast
  then show ?thesis using assms(2) t unfolding evolves_def spent_def by fastforce
qed

lemma redeem_step:
  assumes k: "known D s" and d: "D \<inter> set (draws req) = {}" and st: "oauth_step env now ended req s = (s', resp)"
    and r: "redeems c ((now, ended, req), resp)"
  shows "\<not> spent c s \<and> spent c s'"
proof -
  obtain t rs tr where req: "req = TokenReq t rs" "resp = TokenResp tr" using r by (cases "(c, ((now, ended, req), resp))" rule: redeems.cases) auto
  obtain x where x: "oauth_Token env ended now rs t s = (s', x)" "case_sum Failed TokenResp x = TokenResp tr"
    using st req by (cases "oauth_Token env ended now rs t s") auto
  then have tok: "oauth_Token env ended now rs t s = (s', Inr tr)" "\<not> ended" by (cases x; auto simp: oauth_Token_def)+
  show ?thesis
  proof (cases "tr_GrantType t = GrantRefreshToken")
    case True
    then have ok: "tokenRefresh env now rs t s = (s', Inr tr)" and c: "tr_RefreshToken t = c"
      using tok r req by (auto simp: oauth_Token_def)
    obtain client :: Client and rt where rt: "tokens s c = Some rt" "\<not> Revoked rt"
      and s': "(s', tr) = issueTokensLocked env now rs (tk_Subject rt) (cl_ID client)
        (if length (tr_Scope t) > 0 then normalizeScopes (tr_Scope t) (tk_Scopes rt) else tk_Scopes rt) True
        (s\<lparr>tokens := (tokens s)(c \<mapsto> rt\<lparr>Revoked := True\<rparr>)\<rparr>)"
      by (rule tokenRefresh_ok [OF ok, unfolded c]) (rule that; assumption)
    have "c \<in> token_names D" using known_used(2) [OF k rt(1)] .
    then have n: "c \<notin> token_names {fst rs, snd rs}" "c \<notin> code_names D" using names_inter(2) d req names_disjoint by auto
    have "tokens s' c = Some (rt\<lparr>Revoked := True\<rparr>)" using arg_cong [OF s', of fst] issue_tokens [OF n(1)] by simp
    then show ?thesis using rt n(2) known_used(1) [OF k] by (auto simp: spent_def)
  next
    case False
    then have ok: "tokenAuthCode env now rs t s = (s', Inr tr)" and c: "tr_Code t = c"
      using tok r req by (auto simp: oauth_Token_def)
    obtain client :: Client and ac where ac: "codes s c = Some ac" "\<not> Used ac"
      and s': "(s', tr) = issueTokensLocked env now rs (ac_Subject ac) (cl_ID client) (ac_Scopes ac) True (s\<lparr>codes := (codes s)(c \<mapsto> ac\<lparr>Used := True\<rparr>)\<rparr>)"
      by (rule tokenAuthCode_ok [OF ok, unfolded c]) (rule that; assumption)
    have "c \<notin> token_names D" using known_used(1) [OF k ac(1)] names_disjoint by blast
    moreover have "codes s' c = Some (ac\<lparr>Used := True\<rparr>)" using arg_cong [OF s', of fst] issue_codes by simp
    ultimately show ?thesis using ac known_used(2) [OF k] by (auto simp: spent_def)
  qed
qed

definition all_draws :: "oauth_event list \<Rightarrow> string list" where
  "all_draws es = concat (map (\<lambda>(now, ended, req). draws req) es)"

lemma all_draws_simps [simp]: "all_draws [] = []" "all_draws ((now, ended, req) # es) = draws req @ all_draws es"
  by (simp_all add: all_draws_def)

lemma redeem_bound:
  "known D s \<Longrightarrow> D \<inter> set (all_draws es) = {} \<Longrightarrow> distinct (all_draws es) \<Longrightarrow>
   length (filter (redeems c) (snd (oauth_run env es s))) \<le> (if spent c s then 0 else 1)"
proof (induction es arbitrary: s D)
  case (Cons e es)
  obtain now ended req where e: "e = (now, ended, req)" by (cases e)
  obtain s1 resp where st: "oauth_step env now ended req s = (s1, resp)" by fastforce
  have d: "D \<inter> set (draws req) = {}" "(D \<union> set (draws req)) \<inter> set (all_draws es) = {}"
    using Cons.prems(2,3) by (auto simp: e)
  have ev: "evolves (set (draws req)) s s1" using oauth_step_evolves [of req s env now ended] st by simp
  have IH: "length (filter (redeems c) (snd (oauth_run env es s1))) \<le> (if spent c s1 then 0 else 1)"
    using Cons.IH [OF known_step [OF Cons.prems(1) ev] d(2)] Cons.prems(3) by (simp add: e)
  have "oauth_run env (e # es) s = (fst (oauth_run env es s1), (e, resp) # snd (oauth_run env es s1))"
    by (simp add: e st split_beta)
  moreover have "redeems c (e, resp) \<Longrightarrow> \<not> spent c s \<and> spent c s1"
    using redeem_step [OF Cons.prems(1) d(1) st] by (simp add: e)
  moreover have "spent c s \<Longrightarrow> spent c s1" using spent_step [OF Cons.prems(1) ev d(1)] .
  ultimately show ?case using IH by (auto split: if_splits)
qed simp

text \<open>
  C17: Authorization codes and refresh tokens are used once.  In every run of a new server, whatever clients register, authorize, exchange, issue
  and revoke, and if the random strings drawn are distinct, at most one token request that presents a given code or refresh token succeeds.
\<close>

theorem oauth_single_use:
  assumes "distinct (all_draws es)"
  shows "length (filter (redeems c) (snd (oauth_run env es (oauth_New conf)))) \<le> 1"
proof -
  have "known {} (oauth_New conf)" "\<not> spent c (oauth_New conf)" by (auto simp: known_def spent_def oauth_New_def Let_def)
  then show ?thesis using redeem_bound [of "{}" "oauth_New conf" es c env] assms by simp
qed

definition demo_env :: oauth_env where
  "demo_env = \<lparr>Hash = Some, Verify = (\<lambda>a b. Some (a = b)), sha256_base64 = id, Authenticate = None, seconds = (\<lambda>d. d div 1000000000)\<rparr>"

definition demo_client :: Client where
  "demo_client = \<lparr>cl_ID = ''app'', Secret = ''pw'', RedirectURIs = [''uri''], GrantTypes = [], cl_Scopes = [''read'']\<rparr>"

definition demo_authorize :: "string list \<Rightarrow> AuthorizeRequest" where
  "demo_authorize scope = \<lparr>ar_ResponseType = ''code'', ar_ClientID = ''app'', ar_RedirectURI = ''uri'', ar_Scope = scope, ar_State = '''',
     ar_Subject = ''ann'', ar_CodeChallenge = ''v'', ar_CodeChallengeMethod = ''plain''\<rparr>"

definition demo_token :: "GrantType \<Rightarrow> string \<Rightarrow> string \<Rightarrow> string list \<Rightarrow> TokenRequest" where
  "demo_token g code refresh scope = \<lparr>tr_GrantType = g, tr_Code = code, tr_RedirectURI = ''uri'', tr_ClientID = ''app'', tr_ClientSecret = ''pw'',
     tr_RefreshToken = refresh, tr_Scope = scope, tr_Username = '''', tr_Password = '''', tr_CodeVerifier = ''v''\<rparr>"

definition demo_config :: oauth_Config where
  "demo_config = \<lparr>Issuer = '''', AccessTokenTTL = 0, RefreshTokenTTL = 0, AuthCodeTTL = 0\<rparr>"

definition demo_run :: "oauth_event list" where
  "demo_run = [(1, False, RegisterReq demo_client), (2, False, AuthorizeReq (demo_authorize [''read'']) ''1''),
     (3, False, TokenReq (demo_token '''' ''code_1'' '''' []) (''2'', ''3'')), (4, False, TokenReq (demo_token '''' ''code_1'' '''' []) (''4'', ''5''))]"

lemmas oauth_defs = oauth_New_def RegisterClient_def oauth_Authorize_def oauth_Token_def tokenAuthCode_def tokenRefresh_def granted_def
  issueTokensLocked_def authenticateClientLocked_def clientAllowsGrant_def redirectAllowed_def normalizeScopes_def verifyPKCE_def lower_char_def
  randomToken_def Introspect_def Let_def

lemmas demo_defs = demo_run_def demo_config_def demo_client_def demo_authorize_def demo_token_def demo_env_def

theorem oauth_single_use_witness:
  "length (filter (redeems ''code_1'') (snd (oauth_run demo_env demo_run (oauth_New demo_config)))) \<le> 1 \<and>
   snd (snd (oauth_run demo_env demo_run (oauth_New demo_config)) ! 3) = Failed ErrInvalidGrant"
proof -
  have "distinct (all_draws demo_run)" by (simp add: demo_run_def)
  then have "length (filter (redeems ''code_1'') (snd (oauth_run demo_env demo_run (oauth_New demo_config)))) \<le> 1"
    by (rule oauth_single_use)
  then show ?thesis by (simp add: demo_defs oauth_defs)
qed

section \<open>What a code stands for\<close>

text \<open>Every code in the store comes from an \<^verbatim>\<open>Authorize\<close> request of the log; clients are stored under their own name.\<close>

definition from_authorize :: "oauth_Config \<Rightarrow> (oauth_event \<times> oauth_response) list \<Rightarrow> string \<Rightarrow> authCode \<Rightarrow> int \<Rightarrow> AuthorizeRequest \<Rightarrow> bool" where
  "from_authorize c log k ac t0 a \<longleftrightarrow>
     (\<exists>r. ((t0, False, AuthorizeReq a r), CodeResp \<lparr>resp_Code = k, resp_State = ar_State a, resp_RedirectURI = ar_RedirectURI a\<rparr>) \<in> set log) \<and>
     ac_ClientID ac = ar_ClientID a \<and> ac_RedirectURI ac = ar_RedirectURI a \<and> ac_Subject ac = ar_Subject a \<and>
     ac_ExpiresAt ac = t0 + AuthCodeTTL c \<and> CodeChallenge ac = ar_CodeChallenge a \<and> CodeChallengeMethod ac = ar_CodeChallengeMethod a \<and>
     (ar_Scope a \<noteq> [] \<longrightarrow> set (ac_Scopes ac) \<subseteq> set (ar_Scope a))"

definition origin :: "oauth_Config \<Rightarrow> (oauth_event \<times> oauth_response) list \<Rightarrow> oauth_Server \<Rightarrow> bool" where
  "origin c log s \<longleftrightarrow> cfg s = c \<and> (\<forall>i cl. clients s i = Some cl \<longrightarrow> cl_ID cl = i) \<and>
     (\<forall>k ac. codes s k = Some ac \<longrightarrow> (\<exists>t0 a. from_authorize c log k ac t0 a))"

lemma from_authorize_mono: "from_authorize c log k ac t0 a \<Longrightarrow> set log \<subseteq> set log' \<Longrightarrow> from_authorize c log' k ac t0 a"
  unfolding from_authorize_def by blast

lemma from_authorize_used: "from_authorize c log k (ac\<lparr>Used := u\<rparr>) t0 a \<longleftrightarrow> from_authorize c log k ac t0 a"
  by (simp add: from_authorize_def)

lemma issue_clients [simp]: "clients (fst (issueTokensLocked env now rs sub c sc w s)) = clients s"
  by (simp add: issueTokensLocked_def Let_def)

text \<open>The codes and clients after a token request.\<close>

definition codes_kept :: "oauth_Server \<Rightarrow> oauth_Server \<Rightarrow> bool" where
  "codes_kept s s' \<longleftrightarrow> clients s' = clients s \<and>
     (\<forall>k. codes s' k = codes s k \<or> (\<exists>ac. codes s k = Some ac \<and> codes s' k = Some (ac\<lparr>Used := True\<rparr>)))"

lemma codes_kept_refl: "codes_kept s s"
  by (simp add: codes_kept_def)

lemma codes_kept_issue: "codes_kept s s1 \<Longrightarrow> codes_kept s (fst (issueTokensLocked env now rs sub c sc w s1))"
  by (simp add: codes_kept_def)

lemma codes_kept_upd:
  "codes s k = Some ac \<Longrightarrow> codes_kept s (s\<lparr>codes := (codes s)(k \<mapsto> ac\<lparr>Used := True\<rparr>)\<rparr>)" "codes_kept s (s\<lparr>tokens := m\<rparr>)"
  by (auto simp: codes_kept_def)

lemmas codes_kept_rules = codes_kept_refl codes_kept_issue codes_kept_upd

lemma tokenAuthCode_kept: "codes_kept s (fst (tokenAuthCode env now rs req s))"
  unfolding tokenAuthCode_def by (auto simp: granted_def intro!: codes_kept_rules split: sum.split option.split)

lemma tokenRefresh_kept: "codes_kept s (fst (tokenRefresh env now rs req s))"
  unfolding tokenRefresh_def Let_def by (auto simp: granted_def intro!: codes_kept_rules split: sum.split option.split)

lemma tokenOther_kept:
  "codes_kept s (fst (tokenClientCredentials env now rs req s))" "codes_kept s (fst (tokenPassword env now rs req s))"
  unfolding tokenClientCredentials_def tokenPassword_def by (auto simp: granted_def intro!: codes_kept_rules split: sum.split option.split)

lemma token_codes: "codes_kept s (fst (oauth_Token env ended now rs t s))"
  using tokenAuthCode_kept tokenRefresh_kept tokenOther_kept codes_kept_refl by (simp add: oauth_Token_def)

lemma origin_mono: "origin c log s \<Longrightarrow> set log \<subseteq> set log' \<Longrightarrow> origin c log' s"
  unfolding origin_def using from_authorize_mono by blast

lemma origin_same:
  assumes o: "origin c log s" and e: "\<And>k. codes s' k = codes s k \<or> (\<exists>ac. codes s k = Some ac \<and> codes s' k = Some (ac\<lparr>Used := True\<rparr>))"
    and cl: "\<And>i cl. clients s' i = Some cl \<Longrightarrow> clients s i = Some cl \<or> cl_ID cl = i" "cfg s' = cfg s"
  shows "origin c log s'"
  unfolding origin_def
proof (intro conjI allI impI)
  show "cfg s' = c" using o cl(2) by (simp add: origin_def)
  show "clients s' i = Some x \<Longrightarrow> cl_ID x = i" for i x using o cl(1) unfolding origin_def by blast
  fix k ac assume k: "codes s' k = Some ac"
  then have "codes s k = Some ac \<or> (\<exists>a0. codes s k = Some a0 \<and> ac = a0\<lparr>Used := True\<rparr>)" using e [of k] by auto
  then show "\<exists>t0 a. from_authorize c log k ac t0 a" using o from_authorize_used unfolding origin_def by blast
qed

lemma Authorize_origin:
  assumes o: "origin c log s" and st: "oauth_Authorize ended now r a s = (s', res)"
    and log: "set log \<subseteq> set log'" "((now, ended, AuthorizeReq a r), case_sum Failed CodeResp res) \<in> set log'"
  shows "origin c log' s'"
proof (cases res)
  case (Inl e)
  then have "s' = s" using st by (auto simp: oauth_Authorize_def Let_def split: option.splits if_splits)
  then show ?thesis using origin_mono [OF o log(1)] by simp
next
  case (Inr ar)
  define k where "k = randomToken ''code'' r"
  obtain sc where s': "s' = s\<lparr>codes := (codes s)(k \<mapsto> \<lparr>ac_ClientID = ar_ClientID a, ac_RedirectURI = ar_RedirectURI a, ac_Subject = ar_Subject a,
        ac_Scopes = normalizeScopes (ar_Scope a) sc, ac_ExpiresAt = now + AuthCodeTTL (cfg s),
        CodeChallenge = ar_CodeChallenge a, CodeChallengeMethod = ar_CodeChallengeMethod a, Used = False\<rparr>)\<rparr>"
    and ar: "ar = \<lparr>resp_Code = k, resp_State = ar_State a, resp_RedirectURI = ar_RedirectURI a\<rparr>" "\<not> ended"
    using st Inr by (auto simp: oauth_Authorize_def k_def Let_def split: option.splits if_splits)
  have c: "cfg s = c" using o by (simp add: origin_def)
  have "from_authorize c log' k (the (codes s' k)) now a"
    using log(2) ar Inr by (auto simp: from_authorize_def s' c normalizeScopes_def)
  then show ?thesis using origin_mono [OF o log(1)] unfolding origin_def s' by auto
qed

lemma origin_step:
  assumes o: "origin c log s" and st: "oauth_step env now ended req s = (s', resp)" and log: "set log \<subseteq> set log'" "((now, ended, req), resp) \<in> set log'"
  shows "origin c log' s'"
proof (cases req)
  case (AuthorizeReq a r)
  then show ?thesis using Authorize_origin [OF o _ log(1), of ended now r a s'] log(2) st by (cases "oauth_Authorize ended now r a s") auto
next
  case (RegisterReq cl)
  then have "s' = fst (RegisterClient env ended cl s)" using st by (cases "RegisterClient env ended cl s") auto
  then show ?thesis by (intro origin_same [OF origin_mono [OF o log(1)]])
    (auto simp: RegisterClient_def Let_def split: option.splits if_splits)
next
  case (TokenReq t rs)
  then have s': "s' = fst (oauth_Token env ended now rs t s)" using st by (cases "oauth_Token env ended now rs t s") auto
  have "cfg s' = cfg s" using oauth_step_evolves [of req s env now ended] st by (simp add: evolves_def)
  then show ?thesis using token_codes [of s env ended now rs t] unfolding s' codes_kept_def
    by (intro origin_same [OF origin_mono [OF o log(1)]]) auto
next
  case (IssueReq sub cl sc rs)
  then have "s' = fst (IssueAccessToken env ended now rs sub cl sc s)" using st by (cases "IssueAccessToken env ended now rs sub cl sc s") auto
  then show ?thesis by (intro origin_same [OF origin_mono [OF o log(1)]])
    (auto simp: IssueAccessToken_def granted_def issueTokensLocked_def Let_def split: if_splits)
next
  case (RevokeReq t)
  then have "s' = fst (Revoke ended t s)" using st by (cases "Revoke ended t s") auto
  then show ?thesis by (intro origin_same [OF origin_mono [OF o log(1)]]) (auto simp: Revoke_def split: option.splits if_splits)
qed

lemma origin_run: "origin c log s \<Longrightarrow> oauth_run env es s = (s', log') \<Longrightarrow> origin c (log @ log') s'"
proof (induction es arbitrary: s s' log log')
  case (Cons e es)
  obtain now ended req where e: "e = (now, ended, req)" by (cases e)
  obtain s1 resp where st: "oauth_step env now ended req s = (s1, resp)" by fastforce
  obtain s2 l2 where r: "oauth_run env es s1 = (s2, l2)" by fastforce
  have "origin c (log @ [(e, resp)]) s1" using origin_step [OF Cons.prems(1) st] by (simp add: e subset_insertI)
  from Cons.IH [OF this r] show ?case using Cons.prems(2) by (auto simp: e st r)
qed simp

lemma issue_introspect:
  assumes "(s', resp) = issueTokensLocked env now rs sub c sc w s" "t \<le> now + AccessTokenTTL (cfg s)"
  shows "Introspect False t (AccessToken resp) s' =
    Inr \<lparr>tc_Subject = sub, tc_ClientID = c, tc_Scopes = sc, tc_Issuer = Issuer (cfg s),
         tc_ExpiresAt = now + AccessTokenTTL (cfg s), tc_IssuedAt = now\<rparr>"
  using assms by (cases w) (auto simp: issueTokensLocked_def Introspect_def randomToken_def Let_def)



text \<open>Refreshing can widen the scopes of a token.  A client that may only have the scope \<open>read\<close> asks for \<open>write\<close>; its
  code and first tokens carry no scope, as they should.  But when the granted scopes are empty, \<^verbatim>\<open>normalizeScopes\<close> takes the allowed
  list as no restriction: a refresh that asks for \<open>admin\<close> gets an access token that introspects to the scope \<open>admin\<close>.
\<close>

lemma oauth_refresh_escalates:
  "let (s, log) = oauth_run demo_env [(1, False, RegisterReq demo_client), (2, False, AuthorizeReq (demo_authorize [''write'']) ''1''),
         (3, False, TokenReq (demo_token '''' ''code_1'' '''' []) (''2'', ''3'')),
         (4, False, TokenReq (demo_token GrantRefreshToken '''' ''rtk_3'' [''admin'']) (''4'', ''5''))] (oauth_New demo_config)
   in map_sum id tc_Scopes (Introspect False 5 ''atk_2'' s) = Inr [] \<and> map_sum id tc_Scopes (Introspect False 5 ''atk_4'' s) = Inr [''admin''] \<and>
      cl_Scopes demo_client = [''read'']"
  by (simp add: demo_defs oauth_defs)

text \<open>Otherwise the scopes only shrink.\<close>

lemma normalizeScopes_shrinks: "allowed \<noteq> [] \<Longrightarrow> set (normalizeScopes requested allowed) \<subseteq> set allowed"
  by (auto simp: normalizeScopes_def)

end
