(* ===== verification/Merkle.thy ===== *)
theory Merkle
  imports Prelude
begin

text \<open>
  \<^verbatim>\<open>pkg/datastructures/merkle/tree.go\<close>: the Merkle tree with parent pointers, its proofs and their verification.
  Nodes live in a store, a list that grows by allocation; an address is an index of it and \<^verbatim>\<open>nil\<close> is \<open>None\<close>.
  The hash (SHA-256) is an argument.  \<^verbatim>\<open>GetProof\<close> follows parent pointers with the size of the store as fuel, which is
  shown to be enough.
\<close>

section \<open>Nodes and trees\<close>

record merkleNode =
  nParent :: "nat option"
  nLeft :: "nat option"
  nRight :: "nat option"
  nHash :: bytes
  nData :: bytes
  IsLeaf :: bool

type_synonym store = "merkleNode list"

record Tree =
  Root :: nat
  Leaves :: "nat list"
  nodes :: store

definition alloc :: "merkleNode \<Rightarrow> store \<Rightarrow> nat \<times> store" where
  "alloc n st = (length st, st @ [n])"

definition set_parent :: "nat \<Rightarrow> nat \<Rightarrow> store \<Rightarrow> store" where
  "set_parent a p st = st[a := (st ! a)\<lparr>nParent := Some p\<rparr>]"

definition parent_node :: "(bytes \<Rightarrow> bytes) \<Rightarrow> nat \<Rightarrow> nat \<Rightarrow> store \<Rightarrow> merkleNode" where
  "parent_node h a b st =
     \<lparr>nParent = None, nLeft = Some a, nRight = Some b, nHash = h (nHash (st ! a) @ nHash (st ! b)), nData = [], IsLeaf = False\<rparr>"

text \<open>One round of \<^verbatim>\<open>buildTree\<close>: the parents of the nodes of a level, an odd last node paired with a copy of itself.\<close>

definition copy_node :: "nat \<Rightarrow> store \<Rightarrow> merkleNode" where
  "copy_node a st = \<lparr>nParent = None, nLeft = None, nRight = None, nHash = nHash (st ! a), nData = nData (st ! a), IsLeaf = IsLeaf (st ! a)\<rparr>"

definition join_nodes :: "(bytes \<Rightarrow> bytes) \<Rightarrow> nat \<Rightarrow> nat \<Rightarrow> store \<Rightarrow> nat \<times> store" where
  "join_nodes h a b st =
     (let (p, st) = alloc (parent_node h a b st) st in (p, set_parent b p (set_parent a p st)))"

fun build_level :: "(bytes \<Rightarrow> bytes) \<Rightarrow> nat list \<Rightarrow> store \<Rightarrow> nat list \<times> store" where
  "build_level h [] st = ([], st)"
| "build_level h [a] st =
     (let (b, st) = alloc (copy_node a st) st; (p, st) = join_nodes h a b st in ([p], st))"
| "build_level h (a # b # rest) st =
     (let (p, st) = join_nodes h a b st; (ps, st) = build_level h rest st in (p # ps, st))"

lemma length_build_level: "length (fst (build_level h ns st)) = (length ns + 1) div 2"
  by (induction h ns st rule: build_level.induct) (auto simp: Let_def split: prod.splits)

text \<open>The recursion of \<^verbatim>\<open>buildTree\<close>; on no node at all it would not end, which is \<open>None\<close>.\<close>

function buildTree :: "(bytes \<Rightarrow> bytes) \<Rightarrow> nat list \<Rightarrow> store \<Rightarrow> (nat \<times> store) option" where
  "buildTree h [] st = None"
| "buildTree h [a] st = Some (a, st)"
| "buildTree h (a # b # rest) st = (let (ps, st) = build_level h (a # b # rest) st in buildTree h ps st)"
  by pat_completeness auto
termination
proof (relation "measure (\<lambda>(h, ns, st). length ns)")
  fix h :: "bytes \<Rightarrow> bytes" and a b rest st x ps st'
  assume x: "x = build_level h (a # b # rest) st" "(ps, st') = x"
  have "ps = fst (build_level h (a # b # rest) st)" using x by (metis fst_conv)
  then have "length ps = (length rest + 3) div 2" by (simp add: length_build_level del: build_level.simps)
  then show "((h, ps, st'), h, a # b # rest, st) \<in> measure (\<lambda>(h, ns, st). length ns)" by simp
qed simp

definition leaf_node :: "(bytes \<Rightarrow> bytes) \<Rightarrow> bytes \<Rightarrow> merkleNode" where
  "leaf_node h d = \<lparr>nParent = None, nLeft = None, nRight = None, nHash = h d, nData = d, IsLeaf = True\<rparr>"

definition merkle_New :: "(bytes \<Rightarrow> bytes) \<Rightarrow> bytes list \<Rightarrow> Tree option" where
  "merkle_New h data =
     (if length data = 0 then None
      else
        (let leaves = [0..<length data]; st = map (leaf_node h) data
         in map_option (\<lambda>(root, st). \<lparr>Root = root, Leaves = leaves, nodes = st\<rparr>) (buildTree h leaves st)))"

definition VerifyProof :: "(bytes \<Rightarrow> bytes) \<Rightarrow> bytes \<Rightarrow> bytes \<Rightarrow> bytes list \<Rightarrow> int \<Rightarrow> bool" where
  "VerifyProof h rootHash data proof index =
     (let (hash, _) = foldl (\<lambda>(hash, index) p.
            (h (if index mod 2 = 0 then hash @ p else p @ hash), go_div index 2)) (h data, index) proof
      in hash = rootHash)"

fun climb :: "nat \<Rightarrow> store \<Rightarrow> nat \<Rightarrow> bytes list option" where
  "climb 0 st cur = None"
| "climb (Suc fuel) st cur =
     (case nParent (st ! cur) of
        None \<Rightarrow> Some []
      | Some parent \<Rightarrow>
          (let sibling = (if nLeft (st ! parent) = Some cur then nRight (st ! parent) else nLeft (st ! parent));
               p = (case sibling of Some s \<Rightarrow> nHash (st ! s) | None \<Rightarrow> nHash (st ! cur))
           in map_option ((#) p) (climb fuel st parent)))"

definition GetProof :: "Tree \<Rightarrow> int \<Rightarrow> bytes list option" where
  "GetProof t index =
     (if index < 0 \<or> index \<ge> int (length (Leaves t)) then None
      else climb (length (nodes t)) (nodes t) (Leaves t ! nat index))"

section \<open>Specification: levels of hashes\<close>

fun level_up :: "(bytes \<Rightarrow> bytes) \<Rightarrow> bytes list \<Rightarrow> bytes list" where
  "level_up h [] = []"
| "level_up h [x] = [h (x @ x)]"
| "level_up h (x # y # rest) = h (x @ y) # level_up h rest"

definition sibling_hash :: "bytes list \<Rightarrow> nat \<Rightarrow> bytes" where
  "sibling_hash hs i = (if even i then (if i + 1 < length hs then hs ! (i + 1) else hs ! i) else hs ! (i - 1))"

lemma length_level_up [simp]: "length (level_up h hs) = (length hs + 1) div 2"
  by (induction h hs rule: level_up.induct) auto

function root_hash :: "(bytes \<Rightarrow> bytes) \<Rightarrow> bytes list \<Rightarrow> bytes" where
  "root_hash h hs = (if length hs \<le> 1 then hd hs else root_hash h (level_up h hs))"
  by auto
termination by (relation "measure (\<lambda>(h, hs). length hs)") auto

function proof_path :: "(bytes \<Rightarrow> bytes) \<Rightarrow> bytes list \<Rightarrow> nat \<Rightarrow> bytes list" where
  "proof_path h hs i = (if length hs \<le> 1 then [] else sibling_hash hs i # proof_path h (level_up h hs) (i div 2))"
  by auto
termination by (relation "measure (\<lambda>(h, hs, i). length hs)") auto

declare root_hash.simps [simp del] proof_path.simps [simp del]

section \<open>The store implements it\<close>

definition ext :: "nat list \<Rightarrow> store \<Rightarrow> store \<Rightarrow> bool" where
  "ext ns st st' \<longleftrightarrow> length st \<le> length st' \<and>
     (\<forall>x < length st. nLeft (st' ! x) = nLeft (st ! x) \<and> nRight (st' ! x) = nRight (st ! x) \<and> nHash (st' ! x) = nHash (st ! x) \<and>
        (x \<notin> set ns \<longrightarrow> nParent (st' ! x) = nParent (st ! x)))"

definition hashes :: "store \<Rightarrow> nat list \<Rightarrow> bytes list" where
  "hashes st ns = map (\<lambda>a. nHash (st ! a)) ns"

lemma hashes_simps [simp]: "hashes st [] = []" "hashes st (a # ns) = nHash (st ! a) # hashes st ns"
  by (simp_all add: hashes_def)

text \<open>The nodes \<open>ns\<close> are paired under the parents \<open>ps\<close>.\<close>

fun linked :: "store \<Rightarrow> nat list \<Rightarrow> nat list \<Rightarrow> bool" where
  "linked st [] ps \<longleftrightarrow> ps = []"
| "linked st [a] ps \<longleftrightarrow> (\<exists>p b. ps = [p] \<and> nParent (st ! a) = Some p \<and> nLeft (st ! p) = Some a \<and> nRight (st ! p) = Some b \<and>
     nHash (st ! b) = nHash (st ! a) \<and> b < length st \<and> p < length st)"
| "linked st (a # b # rest) ps \<longleftrightarrow> (\<exists>p ps'. ps = p # ps' \<and> nParent (st ! a) = Some p \<and> nParent (st ! b) = Some p \<and>
     nLeft (st ! p) = Some a \<and> nRight (st ! p) = Some b \<and> p < length st \<and> linked st rest ps')"

definition level_ok :: "store \<Rightarrow> nat list \<Rightarrow> bool" where
  "level_ok st ns \<longleftrightarrow> distinct ns \<and> (\<forall>a \<in> set ns. a < length st \<and> nParent (st ! a) = None)"

lemma linked_ext:
  "linked st ns ps \<Longrightarrow> ext ms st st' \<Longrightarrow> set ns \<inter> set ms = {} \<Longrightarrow> \<forall>a \<in> set ns. a < length st \<Longrightarrow> linked st' ns ps"
proof (induction st ns ps rule: linked.induct)
  case (2 st a ps)
  then obtain p b where "ps = [p]" "nParent (st ! a) = Some p" "nLeft (st ! p) = Some a" "nRight (st ! p) = Some b"
     "nHash (st ! b) = nHash (st ! a)" "b < length st" "p < length st" by auto
  then show ?case using 2 unfolding ext_def by (auto intro!: exI [of _ b])
next
  case (3 st a b rest ps)
  then show ?case unfolding ext_def by auto
qed simp

lemma ext_trans: "ext ns st st1 \<Longrightarrow> ext ms st1 st2 \<Longrightarrow> set ms \<inter> {..<length st} \<subseteq> set ns \<Longrightarrow> ext ns st st2"
  unfolding ext_def
proof (intro conjI allI impI; elim conjE)
  fix x assume *: "set ms \<inter> {..<length st} \<subseteq> set ns" "length st \<le> length st1" "x < length st"
    "\<forall>x<length st1. nLeft (st2 ! x) = nLeft (st1 ! x) \<and> nRight (st2 ! x) = nRight (st1 ! x) \<and> nHash (st2 ! x) = nHash (st1 ! x) \<and>
        (x \<notin> set ms \<longrightarrow> nParent (st2 ! x) = nParent (st1 ! x))"
    "\<forall>x<length st. nLeft (st1 ! x) = nLeft (st ! x) \<and> nRight (st1 ! x) = nRight (st ! x) \<and> nHash (st1 ! x) = nHash (st ! x) \<and>
        (x \<notin> set ns \<longrightarrow> nParent (st1 ! x) = nParent (st ! x))"
  then have x: "x < length st1" "x \<notin> set ns \<Longrightarrow> x \<notin> set ms" by auto
  show "nLeft (st2 ! x) = nLeft (st ! x)" "nRight (st2 ! x) = nRight (st ! x)" "nHash (st2 ! x) = nHash (st ! x)"
    "x \<notin> set ns \<Longrightarrow> nParent (st2 ! x) = nParent (st ! x)" using * x by simp_all
qed simp

lemma ext_hashes: "ext ms st st' \<Longrightarrow> \<forall>a \<in> set ns. a < length st \<Longrightarrow> hashes st' ns = hashes st ns"
  by (auto simp: ext_def hashes_def)

text \<open>Joining two nodes.\<close>

lemma join_nodes_spec:
  assumes "a < length st" "b < length st" "a \<noteq> b" "join_nodes h a b st = (p, st')"
  shows "p = length st" "length st' = Suc (length st)" "ext [a, b] st st'" "nParent (st' ! p) = None" "nParent (st' ! a) = Some p" "nParent (st' ! b) = Some p"
    "nLeft (st' ! p) = Some a" "nRight (st' ! p) = Some b" "nHash (st' ! p) = h (nHash (st ! a) @ nHash (st ! b))"
  using assms by (auto simp: join_nodes_def alloc_def set_parent_def parent_node_def ext_def nth_append nth_list_update Let_def)

definition level_built :: "(bytes \<Rightarrow> bytes) \<Rightarrow> nat list \<Rightarrow> store \<Rightarrow> nat list \<Rightarrow> store \<Rightarrow> bool" where
  "level_built h ns st ps st' \<longleftrightarrow>
     ext ns st st' \<and> linked st' ns ps \<and> level_ok st' ps \<and> (\<forall>p \<in> set ps. length st \<le> p) \<and> hashes st' ps = level_up h (hashes st ns)"

lemma build_level_one:
  assumes "level_ok st [a]" "build_level h [a] st = (ps, st')"
  shows "level_built h [a] st ps st'"
proof -
  define b where "b = length st"
  define st1 where "st1 = st @ [copy_node a st]"
  obtain p where j: "join_nodes h a b st1 = (p, st')" and ps: "ps = [p]"
    using assms(2) by (auto simp: alloc_def b_def st1_def Let_def split: prod.splits)
  have a: "a < length st" using assms(1) by (simp add: level_ok_def)
  have "a < length st1" "b < length st1" "a \<noteq> b" using a by (auto simp: st1_def b_def)
  note sp = join_nodes_spec [OF this j]
  have h: "nHash (st1 ! b) = nHash (st ! a)" "nHash (st1 ! a) = nHash (st ! a)" using a by (auto simp: st1_def b_def copy_node_def nth_append)
  have "ext [] st st1" by (auto simp: ext_def st1_def nth_append)
  then have e: "ext [a] st st'" using sp(3) a by (auto simp: ext_def b_def)
  have "nHash (st' ! b) = nHash (st1 ! b)" "nHash (st' ! a) = nHash (st1 ! a)" using sp(3) a unfolding ext_def by (auto simp: st1_def b_def)
  then have hb: "nHash (st' ! b) = nHash (st' ! a)" using h by simp
  show ?thesis using e sp hb h ps by (auto simp: level_built_def level_ok_def hashes_def st1_def b_def)
qed

lemma build_level_two:
  assumes ok: "level_ok st (a # b # rest)" and j: "join_nodes h a b st = (p, st1)"
    and IH: "level_ok st1 rest \<Longrightarrow> level_built h rest st1 ps st'"
  shows "level_built h (a # b # rest) st (p # ps) st'"
proof -
  have ab: "a < length st" "b < length st" "a \<noteq> b" using ok by (auto simp: level_ok_def)
  note sp = join_nodes_spec [OF ab j]
  have ok1: "level_ok st1 rest" using ok sp(2,3) unfolding level_ok_def ext_def by auto
  note r = IH [OF ok1, unfolded level_built_def]
  have p: "p = length st" "p < length st1" "p \<notin> set rest" using sp(1,2) ok by (auto simp: level_ok_def)
  have keep: "nParent (st' ! x) = nParent (st1 ! x) \<and> nLeft (st' ! x) = nLeft (st1 ! x) \<and> nRight (st' ! x) = nRight (st1 ! x) \<and> nHash (st' ! x) = nHash (st1 ! x)"
    if "x = a \<or> x = b \<or> x = p" for x
    using r that ok p ab sp(2) by (auto simp: ext_def level_ok_def)
  have "ext (a # b # rest) st st'"
  proof (rule ext_trans [of _ _ st1 rest])
    show "ext (a # b # rest) st st1" using sp(3) by (auto simp: ext_def)
  qed (use r in auto)
  moreover have "linked st' (a # b # rest) (p # ps)" using r keep sp(5-8) p(2) by (auto simp: ext_def)
  moreover have "level_ok st' (p # ps)" "\<forall>q \<in> set (p # ps). length st \<le> q"
    using r keep sp(2,4) p by (auto simp: level_ok_def ext_def)
  moreover have "hashes st' (p # ps) = level_up h (hashes st (a # b # rest))"
    using r keep sp(9) ext_hashes [OF sp(3), of rest] ok by (simp add: level_ok_def)
  ultimately show ?thesis by (simp add: level_built_def)
qed

lemma build_level_built: "level_ok st ns \<Longrightarrow> build_level h ns st = (ps, st') \<Longrightarrow> level_built h ns st ps st'"
proof (induction h ns st arbitrary: ps st' rule: build_level.induct)
  case (1 h st)
  then show ?case by (auto simp: level_built_def ext_def level_ok_def hashes_def)
next
  case (2 h a st)
  then show ?case by (rule build_level_one)
next
  case (3 h a b rest st)
  obtain p st1 where j: "join_nodes h a b st = (p, st1)" by fastforce
  obtain qs st2 where r: "build_level h rest st1 = (qs, st2)" by fastforce
  have "(ps, st') = (p # qs, st2)" using 3(3) by (simp add: j r)
  then show ?case using build_level_two [OF 3(2) j 3(1) [OF j [symmetric] refl]] r by auto
qed

lemma linked_parent:
  "linked st ns ps \<Longrightarrow> distinct ns \<Longrightarrow> i < length ns \<Longrightarrow>
   i div 2 < length ps \<and> nParent (st ! (ns ! i)) = Some (ps ! (i div 2)) \<and>
   (\<exists>s. (if nLeft (st ! (ps ! (i div 2))) = Some (ns ! i) then nRight (st ! (ps ! (i div 2))) else nLeft (st ! (ps ! (i div 2)))) = Some s \<and>
        nHash (st ! s) = sibling_hash (hashes st ns) i)"
proof (induction st ns ps arbitrary: i rule: linked.induct)
  case (3 st a b rest ps)
  then obtain p ps' where l: "ps = p # ps'" "nParent (st ! a) = Some p" "nParent (st ! b) = Some p" "nLeft (st ! p) = Some a" "nRight (st ! p) = Some b"
    "linked st rest ps'" by auto
  show ?case
  proof (cases "i < 2")
    case True
    then have "i = 0 \<or> i = 1" by auto
    then show ?thesis using l 3(3) by (auto simp: sibling_hash_def hashes_def)
  next
    case False
    then have j: "i = Suc (Suc (i - 2))" by simp
    then obtain j where j: "i = Suc (Suc j)" by blast
    have "sibling_hash (hashes st (a # b # rest)) i = sibling_hash (hashes st rest) j"
      using 3(4) j by (cases j) (auto simp: sibling_hash_def hashes_def)
    then show ?thesis using 3(1) [OF l(6), of j] 3(3,4) l j by (simp split: if_splits)
  qed
qed (auto simp: sibling_hash_def hashes_def)

text \<open>The tree built over a level: its root hash, and the climb from each of its nodes.\<close>

definition tree_built :: "(bytes \<Rightarrow> bytes) \<Rightarrow> nat list \<Rightarrow> store \<Rightarrow> nat \<Rightarrow> store \<Rightarrow> bool" where
  "tree_built h ns st r st' \<longleftrightarrow> ext ns st st' \<and> nHash (st' ! r) = root_hash h (hashes st ns) \<and>
     (\<forall>i fuel. i < length ns \<longrightarrow> length st' \<le> fuel + ns ! i \<longrightarrow> climb fuel st' (ns ! i) = Some (proof_path h (hashes st ns) i))"

lemma length_hashes [simp]: "length (hashes st ns) = length ns"
  by (simp add: hashes_def)

lemma climb_linked:
  assumes l: "linked st' ns ps" "distinct ns" "i < length ns" "2 \<le> length ns" and hs: "hashes st' ns = hs"
    and up: "climb fuel st' (ps ! (i div 2)) = Some (proof_path h (level_up h hs) (i div 2))"
  shows "climb (Suc fuel) st' (ns ! i) = Some (proof_path h hs i)"
proof -
  have "length hs = length ns" using hs by auto
  then show ?thesis using linked_parent [OF l(1-3)] up hs l(4)
    by (auto simp: proof_path.simps [of h hs i] Let_def split: if_splits)
qed

lemma buildTree_built:
  "level_ok st ns \<Longrightarrow> ns \<noteq> [] \<Longrightarrow> \<exists>r st'. buildTree h ns st = Some (r, st') \<and> tree_built h ns st r st'"
proof (induction h ns st rule: buildTree.induct)
  case (2 h a st)
  have "climb fuel st a = Some (proof_path h (hashes st [a]) 0)" if "length st \<le> fuel + a" for fuel
    using that 2 by (cases fuel) (auto simp: level_ok_def proof_path.simps)
  then show ?case by (simp add: tree_built_def ext_def root_hash.simps)
next
  case (3 h a b rest st)
  let ?ns = "a # b # rest"
  obtain ps st1 where b: "build_level h ?ns st = (ps, st1)" by fastforce
  note lb = build_level_built [OF 3(2) b, unfolded level_built_def]
  have len: "length ps = length (level_up h (hashes st ?ns))" using lb by (metis length_hashes)
  then have "ps \<noteq> []" by auto
  then obtain r st' where r: "buildTree h ps st1 = Some (r, st')" and t: "tree_built h ps st1 r st'"
    using 3(1) [OF b [symmetric] refl] lb by blast
  have fresh: "\<forall>x \<in> set ?ns. x < length st" "\<forall>p \<in> set ps. length st \<le> p" using 3(2) lb by (auto simp: level_ok_def)
  have e: "ext ?ns st st'" by (rule ext_trans [of _ _ st1 ps]) (use lb t fresh in \<open>auto simp: tree_built_def\<close>)
  have le: "length st \<le> length st1" using lb by (simp add: ext_def)
  have l: "linked st' ?ns ps" by (rule linked_ext [of st1 _ _ ps]) (use lb t fresh le in \<open>force simp: tree_built_def\<close>)+
  have hs: "hashes st' ?ns = hashes st ?ns" using ext_hashes [OF e fresh(1)] .
  have climb: "climb fuel st' (?ns ! i) = Some (proof_path h (hashes st ?ns) i)" if i: "i < length ?ns" and f: "length st' \<le> fuel + ?ns ! i" for i fuel
  proof -
    have d: "distinct ?ns" using 3(2) by (simp add: level_ok_def)
    have p: "i div 2 < length ps" using linked_parent [OF l d i] by blast
    have lt: "?ns ! i < length st" "length st \<le> ps ! (i div 2)" using fresh i p nth_mem by blast+
    have "length st \<le> length st'" using e by (simp add: ext_def)
    with f lt obtain f1 where f1: "fuel = Suc f1" by (cases fuel) auto
    then have "length st' \<le> f1 + ps ! (i div 2)" using f lt by simp
    then have "climb f1 st' (ps ! (i div 2)) = Some (proof_path h (level_up h (hashes st ?ns)) (i div 2))"
      using t p lb by (simp add: tree_built_def)
    then show ?thesis unfolding f1 by (intro climb_linked [OF l d i _ hs]) auto
  qed
  have "nHash (st' ! r) = root_hash h (hashes st ?ns)" using t lb by (simp add: tree_built_def root_hash.simps [of h "nHash (st ! a) # nHash (st ! b) # hashes st rest"])
  then have "tree_built h ?ns st r st'" using e climb unfolding tree_built_def by blast
  then show ?case using r b by simp
qed simp

section \<open>Proofs\<close>

fun recompute :: "(bytes \<Rightarrow> bytes) \<Rightarrow> bytes \<Rightarrow> bytes list \<Rightarrow> nat \<Rightarrow> bytes" where
  "recompute h x [] i = x"
| "recompute h x (p # ps) i = recompute h (h (if even i then x @ p else p @ x)) ps (i div 2)"

lemma VerifyProof_recompute: "VerifyProof h root d ps (int i) \<longleftrightarrow> recompute h (h d) ps i = root"
proof -
  have "fst (foldl (\<lambda>(hash, index) p. (h (if index mod 2 = 0 then hash @ p else p @ hash), go_div index 2)) (x, int i) ps) = recompute h x ps i" for x
  proof (induction ps arbitrary: x i)
    case (Cons p ps)
    have "go_div (int i) 2 = int (i div 2)" by (simp add: go_div_nonneg zdiv_int)
    moreover have "int i mod 2 = 0 \<longleftrightarrow> even i" by presburger
    ultimately show ?case using Cons by simp
  qed simp
  then show ?thesis by (simp add: VerifyProof_def split_beta)
qed

text \<open>The strings hashed when the inner nodes over a level are built, and when a proof is checked.\<close>

fun level_args :: "bytes list \<Rightarrow> bytes list" where
  "level_args [] = []"
| "level_args [x] = [x @ x]"
| "level_args (x # y # rest) = (x @ y) # level_args rest"

lemma level_up_args: "level_up h hs = map h (level_args hs)"
  by (induction h hs rule: level_up.induct) auto

function tree_args :: "(bytes \<Rightarrow> bytes) \<Rightarrow> bytes list \<Rightarrow> bytes list" where
  "tree_args h hs = (if length hs \<le> 1 then [] else level_args hs @ tree_args h (level_up h hs))"
  by auto
termination by (relation "measure (\<lambda>(h, hs). length hs)") auto

declare tree_args.simps [simp del]

fun verify_args :: "(bytes \<Rightarrow> bytes) \<Rightarrow> bytes \<Rightarrow> bytes list \<Rightarrow> nat \<Rightarrow> bytes list" where
  "verify_args h x [] i = []"
| "verify_args h x (p # ps) i = (let y = if even i then x @ p else p @ x in y # verify_args h (h y) ps (i div 2))"

lemma nth_level_args:
  "i < length hs \<Longrightarrow> level_args hs ! (i div 2) = (if even i then hs ! i @ sibling_hash hs i else sibling_hash hs i @ hs ! i) \<and> i div 2 < length (level_args hs)"
proof (induction hs arbitrary: i rule: level_args.induct)
  case (3 x y rest)
  show ?case
  proof (cases "i < 2")
    case True
    then have "i = 0 \<or> i = 1" by auto
    then show ?thesis by (auto simp: sibling_hash_def)
  next
    case False
    then obtain j where j: "i = Suc (Suc j)" by (metis add_2_eq_Suc le_add_diff_inverse not_less)
    have "sibling_hash (x # y # rest) i = sibling_hash rest j" using 3(2) j by (cases j) (auto simp: sibling_hash_def)
    then show ?thesis using 3(1) [of j] 3(2) j by simp
  qed
qed (auto simp: sibling_hash_def)

lemma nth_level_up:
  "i < length hs \<Longrightarrow> level_up h hs ! (i div 2) = h (if even i then hs ! i @ sibling_hash hs i else sibling_hash hs i @ hs ! i)"
  using nth_level_args [of i hs] by (simp add: level_up_args)

lemma recompute_path: "i < length hs \<Longrightarrow> recompute h (hs ! i) (proof_path h hs i) i = root_hash h hs"
proof (induction h hs i rule: proof_path.induct)
  case (1 h hs i)
  show ?case
  proof (cases "length hs \<le> 1")
    case True
    then have "i = 0" "hs ! 0 = hd hs" using 1(2) by (cases hs; auto)+
    then show ?thesis using True by (simp add: proof_path.simps root_hash.simps)
  next
    case False
    have "i div 2 < length (level_up h hs)" using 1(2) by auto
    from 1(1) [OF False this] show ?thesis using False nth_level_up [OF 1(2), of h]
      by (simp add: proof_path.simps [of h hs i] root_hash.simps [of h hs])
  qed
qed

lemma recompute_sound:
  assumes len: "\<And>x. length (h x) = n"
  shows "i < length hs \<Longrightarrow> \<forall>x \<in> set hs. length x = n \<Longrightarrow> length x = n \<Longrightarrow> length ps = length (proof_path h hs i) \<Longrightarrow>
    recompute h x ps i = root_hash h hs \<Longrightarrow> \<forall>y \<in> set (verify_args h x ps i). \<forall>z \<in> set (tree_args h hs). h y = h z \<longrightarrow> y = z \<Longrightarrow>
    x = hs ! i"
proof (induction h' \<equiv> h hs i arbitrary: x ps rule: proof_path.induct)
  case (1 hs i)
  show ?case
  proof (cases "length hs \<le> 1")
    case True
    then have "i = 0" "hs ! 0 = hd hs" using 1(2) by (cases hs; auto)+
    then show ?thesis using True 1(5,6) by (simp add: proof_path.simps root_hash.simps)
  next
    case False
    then obtain p qs where ps: "ps = p # qs" "length qs = length (proof_path h (level_up h hs) (i div 2))"
      using 1(5) by (cases ps) (auto simp: proof_path.simps [of h hs i])
    define y where "y = (if even i then x @ p else p @ x)"
    define z where "z = (if even i then hs ! i @ sibling_hash hs i else sibling_hash hs i @ hs ! i)"
    have args: "verify_args h x ps i = y # verify_args h (h y) qs (i div 2)" "tree_args h hs = level_args hs @ tree_args h (level_up h hs)"
      using False by (simp_all add: ps y_def tree_args.simps [of h hs] Let_def)
    have "\<forall>x \<in> set (level_up h hs). length x = n" using len by (auto simp: level_up_args)
    moreover have "recompute h (h y) qs (i div 2) = root_hash h (level_up h hs)"
      using 1(6) False by (simp add: ps y_def root_hash.simps [of h hs])
    moreover have "i div 2 < length (level_up h hs)" using 1(2) by auto
    moreover have "\<forall>y \<in> set (verify_args h (h y) qs (i div 2)). \<forall>z \<in> set (tree_args h (level_up h hs)). h y = h z \<longrightarrow> y = z"
      using 1(7) by (simp add: args)
    ultimately have "h y = level_up h hs ! (i div 2)" using 1(1) [OF False, of "h y" qs] len ps(2) by blast
    moreover have "z = level_args hs ! (i div 2)" "z \<in> set (level_args hs)" using nth_level_args [OF 1(2)] by (simp_all add: z_def) (metis nth_mem)
    ultimately have "h y = h z" "z \<in> set (tree_args h hs)" using nth_level_args [OF 1(2)] by (auto simp: level_up_args args)
    then have "y = z" using 1(7) by (simp add: args)
    moreover have "length (hs ! i) = n" using 1(2,3) by simp
    ultimately show ?thesis using 1(4) by (auto simp: y_def z_def split: if_splits)
  qed
qed

lemma New_built:
  assumes "data \<noteq> []"
  obtains r st where "merkle_New h data = Some \<lparr>Root = r, Leaves = [0..<length data], nodes = st\<rparr>"
    "tree_built h [0..<length data] (map (leaf_node h) data) r st" "hashes (map (leaf_node h) data) [0..<length data] = map h data"
proof -
  have "level_ok (map (leaf_node h) data) [0..<length data]" by (auto simp: level_ok_def leaf_node_def)
  moreover have "hashes (map (leaf_node h) data) [0..<length data] = map h data" by (auto simp: hashes_def leaf_node_def intro: nth_equalityI)
  ultimately show ?thesis using buildTree_built [of "map (leaf_node h) data" "[0..<length data]" h] that assms by (auto simp: merkle_New_def)
qed

lemma GetProof_New:
  assumes "data \<noteq> []" "merkle_New h data = Some t"
  shows "GetProof t i = (if 0 \<le> i \<and> i < int (length data) then Some (proof_path h (map h data) (nat i)) else None)"
    "nHash (nodes t ! Root t) = root_hash h (map h data)"
proof -
  obtain r st where t: "merkle_New h data = Some \<lparr>Root = r, Leaves = [0..<length data], nodes = st\<rparr>"
    and b: "tree_built h [0..<length data] (map (leaf_node h) data) r st" and hs: "hashes (map (leaf_node h) data) [0..<length data] = map h data"
    using New_built [OF assms(1)] by blast
  show "nHash (nodes t ! Root t) = root_hash h (map h data)" using t assms(2) b hs by (simp add: tree_built_def)
  show "GetProof t i = (if 0 \<le> i \<and> i < int (length data) then Some (proof_path h (map h data) (nat i)) else None)"
    using t assms(2) b hs by (auto simp: tree_built_def GetProof_def nat_less_iff)
qed

text \<open>
  C20: Merkle proofs round-trip.  From every non-empty list of blocks \<^verbatim>\<open>New\<close> builds a tree (the recursion ends), \<^verbatim>\<open>GetProof\<close> answers
  every index of a block, following parent pointers, with a proof that \<^verbatim>\<open>VerifyProof\<close> accepts for this block, this index and the root
  hash, and it answers no other index.  This holds for every hash function.
\<close>

theorem merkle_roundtrip:
  assumes "data \<noteq> []"
  shows "\<exists>t. merkle_New h data = Some t \<and>
    (\<forall>i. case GetProof t i of
           None \<Rightarrow> i < 0 \<or> int (length data) \<le> i
         | Some ps \<Rightarrow> 0 \<le> i \<and> i < int (length data) \<and> VerifyProof h (nHash (nodes t ! Root t)) (data ! nat i) ps i)"
proof -
  obtain t where t: "merkle_New h data = Some t" using New_built [OF assms] by blast
  have "VerifyProof h (nHash (nodes t ! Root t)) (data ! nat i) (proof_path h (map h data) (nat i)) i" if "0 \<le> i" "i < int (length data)" for i
    using that VerifyProof_recompute [of h _ _ _ "nat i"] recompute_path [of "nat i" "map h data" h] GetProof_New(2) [OF assms t]
    by (simp add: nat_less_iff)
  then show ?thesis using t GetProof_New(1) [OF assms t] by auto
qed

theorem merkle_roundtrip_witness:
  "\<exists>t ps. merkle_New (\<lambda>d. take 1 (rev d)) [[1], [2], [3]] = Some t \<and> GetProof t 2 = Some ps \<and>
     VerifyProof (\<lambda>d. take 1 (rev d)) (nHash (nodes t ! Root t)) [3] ps 2"
proof -
  obtain t where t: "merkle_New (\<lambda>d. take 1 (rev d)) [[1], [2], [3]] = Some t"
    and all: "\<forall>i. case GetProof t i of None \<Rightarrow> i < 0 \<or> int (length [[1], [2], [3 :: 8 word]]) \<le> i
      | Some ps \<Rightarrow> 0 \<le> i \<and> i < int (length [[1], [2], [3 :: 8 word]]) \<and>
          VerifyProof (\<lambda>d. take 1 (rev d)) (nHash (nodes t ! Root t)) ([[1], [2], [3]] ! nat i) ps i"
    using merkle_roundtrip [of "[[1], [2], [3]]" "\<lambda>d. take 1 (rev d)"] by blast
  show ?thesis using t all [THEN spec, of 2] by (auto split: option.splits)
qed

text \<open>
  C22: Merkle proofs are sound.  For a hash with outputs of one length (SHA-256 has 32 bytes), a proof that \<^verbatim>\<open>VerifyProof\<close> accepts against
  the root of a tree, at the index of a block and of the length that \<^verbatim>\<open>GetProof\<close> gives there, shows that block, provided that no
  string hashed by the verification collides with a different string hashed when the tree was built.
\<close>

theorem merkle_sound:
  assumes "merkle_New h data = Some t" "\<forall>x. length (h x) = n"
    and "GetProof t i = Some qs" "length ps = length qs" "VerifyProof h (nHash (nodes t ! Root t)) d ps i"
    and "\<forall>y \<in> set (d # verify_args h (h d) ps (nat i)). \<forall>z \<in> set (data @ tree_args h (map h data)). h y = h z \<longrightarrow> y = z"
  shows "d = data ! nat i"
proof -
  have ne: "data \<noteq> []" using assms(1) by (auto simp: merkle_New_def)
  note g = GetProof_New [OF ne assms(1)]
  have i: "0 \<le> i" "nat i < length (map h data)" "qs = proof_path h (map h data) (nat i)"
    using g(1) [of i] assms(3) by (auto split: if_splits)
  have "recompute h (h d) ps (nat i) = root_hash h (map h data)"
    using assms(5) VerifyProof_recompute [of h _ d ps "nat i"] i(1) g(2) by simp
  then have "h d = map h data ! nat i"
    using assms(2,4,6) i by (intro recompute_sound [where ps = ps and n = n]) auto
  then show ?thesis using i(2) assms(6) by auto
qed

definition demo_hash :: "bytes \<Rightarrow> bytes" where
  "demo_hash d = [of_nat (length d), case d of [] \<Rightarrow> 0 | x # _ \<Rightarrow> x]"

theorem merkle_sound_witness:
  "\<exists>t qs. merkle_New demo_hash [[5], [6]] = Some t \<and> GetProof t 1 = Some qs \<and>
     VerifyProof demo_hash (nHash (nodes t ! Root t)) [6] [[1, 5]] 1 \<and> [6] = [[5], [6 :: 8 word]] ! nat 1"
proof -
  obtain t where t: "merkle_New demo_hash [[5], [6]] = Some t"
    by (simp add: merkle_New_def upt_rec alloc_def join_nodes_def Let_def)
  note g = GetProof_New [OF _ t]
  have p: "GetProof t 1 = Some [[1, 5]]" using g(1) [of 1]
    by (simp add: proof_path.simps [of demo_hash] sibling_hash_def demo_hash_def)
  have v: "VerifyProof demo_hash (nHash (nodes t ! Root t)) [6] [[1, 5]] 1"
    using g(2) by (simp add: VerifyProof_def root_hash.simps [of demo_hash] demo_hash_def)
  have c: "\<forall>y \<in> set ([6] # verify_args demo_hash (demo_hash [6]) [[1, 5]] (nat 1)).
      \<forall>z \<in> set ([[5], [6]] @ tree_args demo_hash (map demo_hash [[5], [6]])). demo_hash y = demo_hash z \<longrightarrow> y = z"
    by (simp add: tree_args.simps [of demo_hash] demo_hash_def Let_def)
  have "[6] = [[5], [6 :: 8 word]] ! nat 1" by (rule merkle_sound [OF t _ p _ v c, of 2]) (auto simp: demo_hash_def)
  then show ?thesis using t p v by blast
qed

text \<open>
  Both conditions matter.  A proof of another length can pass an inner node off as a block, since leaves and inner nodes are hashed alike;
  and an odd last block can be repeated without changing the root.
\<close>

lemma merkle_inner_as_block:
  assumes "merkle_New h [a, b] = Some t"
  shows "VerifyProof h (nHash (nodes t ! Root t)) (h a @ h b) [] 0"
  using GetProof_New(2) [OF _ assms] by (simp add: VerifyProof_def root_hash.simps [of h])

lemma merkle_repeated_block:
  assumes "merkle_New h [a, b, c] = Some t" "merkle_New h [a, b, c, c] = Some t'"
  shows "nHash (nodes t ! Root t) = nHash (nodes t' ! Root t')"
  using GetProof_New(2) [OF _ assms(1)] GetProof_New(2) [OF _ assms(2)] by (simp add: root_hash.simps [of h])

end
