(* ===== verification/Dag.thy ===== *)
theory Dag
  imports Prelude
begin

text \<open>
  \<^verbatim>\<open>pkg/datastructures/graph/dag/dag.go\<close>: the directed acyclic graph, its cycle check by depth-first search, and Kahn's
  topological sort.  The maps that are iterated (nodes, outgoing edges) are lists in some order; a run may reorder them at any time, since Go leaves the
  order open.  The depth-first search recurses with the number of known names as fuel, the sort loop with the number of nodes; both are
  shown to be enough, so \<open>None\<close> (no result) does not occur.
\<close>

section \<open>The graph\<close>

record 'v dag_node =
  nvalue :: 'v
  nin :: "string list"
  nout :: "string list"

type_synonym 'v DAG = "(string \<times> 'v dag_node) list"

datatype dag_error = ErrCycleDetected | ErrNodeNotFound

definition dag_New :: "'v DAG" where
  "dag_New = []"

definition AddNode :: "'v DAG \<Rightarrow> string \<Rightarrow> 'v \<Rightarrow> 'v DAG" where
  "AddNode g i v = (case map_of g i of None \<Rightarrow> AList.update i \<lparr>nvalue = v, nin = [], nout = []\<rparr> g | Some _ \<Rightarrow> g)"

text \<open>\<^verbatim>\<open>m[k] = struct{}{}\<close> and \<^verbatim>\<open>delete(m, k)\<close> on a map used as a set.\<close>

definition set_add :: "string \<Rightarrow> string list \<Rightarrow> string list" where
  "set_add x xs = (if x \<in> set xs then xs else xs @ [x])"

definition set_del :: "string \<Rightarrow> string list \<Rightarrow> string list" where
  "set_del x xs = filter (\<lambda>y. y \<noteq> x) xs"

definition upd_out :: "(string list \<Rightarrow> string list) \<Rightarrow> string \<Rightarrow> 'v DAG \<Rightarrow> 'v DAG" where
  "upd_out f i g = map (\<lambda>(k, n). (k, if k = i then n\<lparr>nout := f (nout n)\<rparr> else n)) g"

definition upd_in :: "(string list \<Rightarrow> string list) \<Rightarrow> string \<Rightarrow> 'v DAG \<Rightarrow> 'v DAG" where
  "upd_in f i g = map (\<lambda>(k, n). (k, if k = i then n\<lparr>nin := f (nin n)\<rparr> else n)) g"

section \<open>The cycle check\<close>

record dfs =
  visited :: "string \<Rightarrow> bool"
  recursionStack :: "string \<Rightarrow> bool"
  hasCycle :: bool

text \<open>\<open>visit_out\<close> is the loop of \<open>visit\<close> over the neighbours; it also says whether it returned from within.\<close>

function visit :: "'v DAG \<Rightarrow> nat \<Rightarrow> string \<Rightarrow> dfs \<Rightarrow> dfs option"
  and visit_out :: "'v DAG \<Rightarrow> nat \<Rightarrow> string list \<Rightarrow> dfs \<Rightarrow> (dfs \<times> bool) option" where
  "visit g 0 i st = None"
| "visit g (Suc fuel) i st =
     (if hasCycle st then Some st
      else
        (let st = st\<lparr>visited := (visited st)(i := True), recursionStack := (recursionStack st)(i := True)\<rparr>
         in case map_of g i of
              None \<Rightarrow> Some (st\<lparr>recursionStack := (recursionStack st)(i := False)\<rparr>)
            | Some n \<Rightarrow> (case visit_out g fuel (nout n) st of
                None \<Rightarrow> None
              | Some (st, returned) \<Rightarrow>
                  Some (if returned then st else st\<lparr>recursionStack := (recursionStack st)(i := False)\<rparr>))))"
| "visit_out g fuel [] st = Some (st, False)"
| "visit_out g fuel (neighbor # rest) st =
     (if \<not> visited st neighbor
      then (case visit g fuel neighbor st of None \<Rightarrow> None | Some st \<Rightarrow> visit_out g fuel rest st)
      else if recursionStack st neighbor then Some (st\<lparr>hasCycle := True\<rparr>, True)
      else visit_out g fuel rest st)"
  by pat_completeness auto
termination
  by (relation "measures [\<lambda>x. case x of Inl (g, f, i, st) \<Rightarrow> 2 * f | Inr (g, f, ns, st) \<Rightarrow> 2 * f + 1,
       \<lambda>x. case x of Inl (g, f, i, st) \<Rightarrow> 0 | Inr (g, f, ns, st) \<Rightarrow> length ns]") auto

fun visit_all :: "'v DAG \<Rightarrow> nat \<Rightarrow> string list \<Rightarrow> dfs \<Rightarrow> bool option" where
  "visit_all g fuel [] st = Some False"
| "visit_all g fuel (i # ids) st =
     (if \<not> visited st i
      then (case visit g fuel i st of
              None \<Rightarrow> None
            | Some st \<Rightarrow> if hasCycle st then Some True else visit_all g fuel ids st)
      else visit_all g fuel ids st)"

definition names :: "'v DAG \<Rightarrow> string list" where
  "names g = map fst g @ concat (map (\<lambda>(k, n). nout n) g)"

definition detectCycle :: "'v DAG \<Rightarrow> bool option" where
  "detectCycle g = visit_all g (length (names g)) (map fst g)
     \<lparr>visited = (\<lambda>_. False), recursionStack = (\<lambda>_. False), hasCycle = False\<rparr>"

definition AddEdge :: "'v DAG \<Rightarrow> string \<Rightarrow> string \<Rightarrow> ('v DAG \<times> dag_error option) option" where
  "AddEdge g src dst =
     (if map_of g src = None \<or> map_of g dst = None then Some (g, Some ErrNodeNotFound)
      else if src = dst then Some (g, Some ErrCycleDetected)
      else
        (let g = upd_in (set_add src) dst (upd_out (set_add dst) src g)
         in case detectCycle g of
              None \<Rightarrow> None
            | Some True \<Rightarrow> Some (upd_in (set_del src) dst (upd_out (set_del dst) src g), Some ErrCycleDetected)
            | Some False \<Rightarrow> Some (g, None)))"

section \<open>The topological sort\<close>

fun relax :: "string list \<Rightarrow> (string \<Rightarrow> int) \<times> string list \<Rightarrow> (string \<Rightarrow> int) \<times> string list" where
  "relax [] (deg, queue) = (deg, queue)"
| "relax (neighbor # rest) (deg, queue) =
     (let deg = deg(neighbor := deg neighbor - 1)
      in relax rest (deg, if deg neighbor = 0 then queue @ [neighbor] else queue))"

fun kahn :: "'v DAG \<Rightarrow> nat \<Rightarrow> (string \<Rightarrow> int) \<Rightarrow> string list \<Rightarrow> string list \<Rightarrow> string list option" where
  "kahn g fuel deg [] result = Some result"
| "kahn g 0 deg (c # queue) result = None"
| "kahn g (Suc fuel) deg (c # queue) result =
     (case map_of g c of
        None \<Rightarrow> None
      | Some n \<Rightarrow> (let (deg, queue) = relax (nout n) (deg, queue) in kahn g fuel deg queue (result @ [c])))"

definition TopologicalSort :: "'v DAG \<Rightarrow> (dag_error + string list) option" where
  "TopologicalSort g =
     (let inDegree = (\<lambda>i. case map_of g i of None \<Rightarrow> 0 | Some n \<Rightarrow> int (length (nin n)));
          queue = filter (\<lambda>i. inDegree i = 0) (map fst g)
      in map_option (\<lambda>result. if length result \<noteq> length g then Inl ErrCycleDetected else Inr result)
           (kahn g (length g) inDegree queue []))"

section \<open>The cycle check is exact\<close>

definition edges :: "'v DAG \<Rightarrow> (string \<times> string) set" where
  "edges g = {(a, b). \<exists>n. map_of g a = Some n \<and> b \<in> set (nout n)}"

definition black :: "dfs \<Rightarrow> string \<Rightarrow> bool" where
  "black st x \<longleftrightarrow> visited st x \<and> \<not> recursionStack st x"

text \<open>Finished names are closed under edges and on no cycle.\<close>

definition sane :: "'v DAG \<Rightarrow> dfs \<Rightarrow> bool" where
  "sane g st \<longleftrightarrow> (\<forall>x y. black st x \<longrightarrow> (x, y) \<in> edges g \<longrightarrow> black st y) \<and> (\<forall>x. black st x \<longrightarrow> (x, x) \<notin> (edges g)\<^sup>+) \<and>
     (\<forall>x. recursionStack st x \<longrightarrow> visited st x)"

definition grows :: "dfs \<Rightarrow> dfs \<Rightarrow> bool" where
  "grows st st' \<longleftrightarrow> recursionStack st' = recursionStack st \<and> (\<forall>x. visited st x \<longrightarrow> visited st' x)"

lemma black_closed: "(x, y) \<in> (edges g)\<^sup>* \<Longrightarrow> sane g st \<Longrightarrow> black st x \<Longrightarrow> black st y"
  by (induction rule: rtrancl_induct) (auto simp: sane_def)

lemma black_grows: "black st x \<Longrightarrow> grows st st' \<Longrightarrow> black st' x"
  by (simp add: black_def grows_def)

definition enter :: "string \<Rightarrow> dfs \<Rightarrow> dfs" where
  "enter i st = st\<lparr>visited := (visited st)(i := True), recursionStack := (recursionStack st)(i := True)\<rparr>"

definition exit :: "string \<Rightarrow> dfs \<Rightarrow> dfs" where
  "exit i st = st\<lparr>recursionStack := (recursionStack st)(i := False)\<rparr>"

lemma hasCycle_simps [simp]: "hasCycle (enter i st) = hasCycle st" "hasCycle (exit i st) = hasCycle st"
  by (simp_all add: enter_def exit_def)

lemma sane_enter:
  assumes "sane g st" "\<not> visited st i"
  shows "sane g (enter i st)"
proof -
  have "black (enter i st) x \<longleftrightarrow> black st x" for x using assms(2) by (simp add: black_def enter_def)
  then show ?thesis using assms(1) by (simp add: sane_def enter_def)
qed

lemma leave_node:
  assumes s: "sane g st2" and m: "grows (enter i st) st2" and st: "sane g st" "\<not> visited st i"
    and out: "\<And>y. (i, y) \<in> edges g \<Longrightarrow> black st2 y"
  shows "sane g (exit i st2) \<and> grows st (exit i st2) \<and> black (exit i st2) i"
proof -
  have i: "visited st2 i" "recursionStack st2 i" using m by (auto simp: grows_def enter_def)
  have b: "black (exit i st2) x \<longleftrightarrow> black st2 x \<or> x = i" for x using i by (auto simp: black_def exit_def)
  have "(i, i) \<notin> (edges g)\<^sup>+"
  proof
    assume "(i, i) \<in> (edges g)\<^sup>+"
    then obtain y where "(i, y) \<in> edges g" "(y, i) \<in> (edges g)\<^sup>*" by (meson tranclD)
    then have "black st2 i" using out black_closed s by blast
    then show False using i by (simp add: black_def)
  qed
  then have "sane g (exit i st2)" using s out unfolding sane_def b by (auto simp: exit_def)
  moreover have "\<not> recursionStack st i" using st by (auto simp: sane_def)
  then have "grows st (exit i st2)" using m by (auto simp: grows_def enter_def exit_def fun_eq_iff)
  ultimately show ?thesis by (simp add: b)
qed

lemma visit_unfold:
  "visit g (Suc fuel) i st =
     (if hasCycle st then Some st
      else case map_of g i of
             None \<Rightarrow> Some (exit i (enter i st))
           | Some n \<Rightarrow> (case visit_out g fuel (nout n) (enter i st) of
               None \<Rightarrow> None
             | Some (st, returned) \<Rightarrow> Some (if returned then st else exit i st)))"
  by (simp add: enter_def exit_def Let_def split: option.split)

definition visit_ok :: "'v DAG \<Rightarrow> string \<Rightarrow> dfs \<Rightarrow> dfs \<Rightarrow> bool" where
  "visit_ok g i st st' \<longleftrightarrow> (hasCycle st \<longrightarrow> st' = st) \<and>
     (\<not> hasCycle st \<longrightarrow> sane g st \<longrightarrow> \<not> visited st i \<longrightarrow> (\<forall>s. recursionStack st s \<longrightarrow> (s, i) \<in> (edges g)\<^sup>*) \<longrightarrow>
       (if hasCycle st' then \<not> acyclic (edges g) else sane g st' \<and> grows st st' \<and> black st' i))"

definition visit_out_ok :: "'v DAG \<Rightarrow> string list \<Rightarrow> dfs \<Rightarrow> dfs \<times> bool \<Rightarrow> bool" where
  "visit_out_ok g ns st r \<longleftrightarrow> (hasCycle st \<longrightarrow> hasCycle (fst r)) \<and>
     (\<not> hasCycle st \<longrightarrow> sane g st \<longrightarrow> (\<forall>nb \<in> set ns. \<forall>s. recursionStack st s \<longrightarrow> (s, nb) \<in> (edges g)\<^sup>+) \<longrightarrow>
       (if hasCycle (fst r) then \<not> acyclic (edges g) else \<not> snd r \<and> sane g (fst r) \<and> grows st (fst r) \<and> (\<forall>nb \<in> set ns. black (fst r) nb)))"

lemma visit_step:
  assumes "map_of g i = Some n" "visit_out g fuel (nout n) (enter i st) = Some (st2, ret)" "visit_out_ok g (nout n) (enter i st) (st2, ret)" "\<not> hasCycle st"
  shows "visit_ok g i st (if ret then st2 else exit i st2)"
proof -
  have e: "(i, y) \<in> edges g \<longleftrightarrow> y \<in> set (nout n)" for y using assms(1) by (simp add: edges_def)
  have "if hasCycle st2 then \<not> acyclic (edges g) else sane g (exit i st2) \<and> grows st (exit i st2) \<and> black (exit i st2) i \<and> \<not> ret"
    if s: "sane g st" "\<not> visited st i" and r: "\<forall>s. recursionStack st s \<longrightarrow> (s, i) \<in> (edges g)\<^sup>*"
  proof -
    have "\<forall>nb \<in> set (nout n). \<forall>s. recursionStack (enter i st) s \<longrightarrow> (s, nb) \<in> (edges g)\<^sup>+"
      using r e by (auto simp: enter_def intro: rtrancl_into_trancl1)
    then have "if hasCycle st2 then \<not> acyclic (edges g) else \<not> ret \<and> sane g st2 \<and> grows (enter i st) st2 \<and> (\<forall>nb \<in> set (nout n). black st2 nb)"
      using assms(3,4) sane_enter [OF s] by (simp add: visit_out_ok_def split: if_splits)
    then show ?thesis using leave_node [OF _ _ s] e by (auto split: if_splits)
  qed
  then show ?thesis using assms(4) by (auto simp: visit_ok_def)
qed

lemma visit_out_step:
  assumes "visit_ok g nb st st1" "visit_out_ok g rest st1 r" "\<not> visited st nb"
  shows "visit_out_ok g (nb # rest) st r"
  unfolding visit_out_ok_def
proof (intro conjI impI)
  show "hasCycle st \<Longrightarrow> hasCycle (fst r)" using assms by (simp add: visit_ok_def visit_out_ok_def)
  assume h: "\<not> hasCycle st" "sane g st" "\<forall>nb \<in> set (nb # rest). \<forall>s. recursionStack st s \<longrightarrow> (s, nb) \<in> (edges g)\<^sup>+"
  then have v: "if hasCycle st1 then \<not> acyclic (edges g) else sane g st1 \<and> grows st st1 \<and> black st1 nb"
    using assms(1,3) by (auto simp: visit_ok_def trancl_into_rtrancl)
  show "if hasCycle (fst r) then \<not> acyclic (edges g) else \<not> snd r \<and> sane g (fst r) \<and> grows st (fst r) \<and> (\<forall>nb \<in> set (nb # rest). black (fst r) nb)"
  proof (cases "hasCycle st1")
    case True
    then show ?thesis using v assms(2) by (simp add: visit_out_ok_def)
  next
    case False
    then have m: "sane g st1" "grows st st1" "black st1 nb" using v by auto
    then have "\<forall>nb \<in> set rest. \<forall>s. recursionStack st1 s \<longrightarrow> (s, nb) \<in> (edges g)\<^sup>+" using h(3) by (simp add: grows_def)
    then show ?thesis using assms(2) False m black_grows [OF m(3)] by (auto simp: visit_out_ok_def grows_def)
  qed
qed

lemma visit_correct:
  "visit g fuel i st = Some st' \<Longrightarrow> visit_ok g i st st'"
  "visit_out g fuel ns st = Some r \<Longrightarrow> visit_out_ok g ns st r"
proof (induction g fuel i st and g fuel ns st arbitrary: st' and r rule: visit_visit_out.induct)
  case (2 g fuel i st)
  show ?case
  proof (cases "hasCycle st")
    case False
    show ?thesis
    proof (cases "map_of g i")
      case None
      then have "\<And>y. (i, y) \<notin> edges g" by (simp add: edges_def)
      then have "sane g (exit i (enter i st)) \<and> grows st (exit i (enter i st)) \<and> black (exit i (enter i st)) i" if "sane g st" "\<not> visited st i"
        using leave_node [OF sane_enter [OF that] _ that] by (simp add: grows_def)
      moreover have "st' = exit i (enter i st)" using 2(2) False None by (simp add: visit_unfold del: visit.simps)
      ultimately show ?thesis using False by (simp add: visit_ok_def)
    next
      case (Some n)
      then obtain st2 ret where o: "visit_out g fuel (nout n) (enter i st) = Some (st2, ret)" "st' = (if ret then st2 else exit i st2)"
        using 2(2) False by (auto simp: visit_unfold simp del: visit.simps split: option.splits)
      have "visit_out_ok g (nout n) (enter i st) (st2, ret)" by (rule 2(1) [OF False refl Some, folded enter_def, OF o(1)])
      from visit_step [OF Some o(1) this False] show ?thesis by (simp add: o(2))
    qed
  qed (use 2(2) in \<open>simp add: visit_ok_def\<close>)
next
  case (4 g fuel nb rest st)
  show ?case
  proof (cases "visited st nb")
    case False
    then obtain st1 where v: "visit g fuel nb st = Some st1" "visit_out g fuel rest st1 = Some r" using 4(4) by (auto split: option.splits)
    show ?thesis by (rule visit_out_step [OF 4(1) [OF False v(1)] 4(2) [OF False v] False])
  next
    case True
    show ?thesis
    proof (cases "recursionStack st nb")
      case r: True
      then show ?thesis using 4(4) True by (auto simp: visit_out_ok_def acyclic_def)
    next
      case False
      then have "visit_out g fuel rest st = Some r" using 4(4) True by simp
      then have "visit_out_ok g rest st r" using 4(3) True False by blast
      then show ?thesis using False True by (auto simp: visit_out_ok_def black_def grows_def)
    qed
  qed
qed (auto simp: visit_out_ok_def grows_def)

text \<open>The fuel is enough: every nested call marks one more name.\<close>

definition unseen :: "'v DAG \<Rightarrow> dfs \<Rightarrow> nat" where
  "unseen g st = card {x \<in> set (names g). \<not> visited st x}"

lemma unseen_mono: "(\<And>x. visited st x \<Longrightarrow> visited st' x) \<Longrightarrow> unseen g st' \<le> unseen g st"
  unfolding unseen_def by (rule card_mono) auto

lemma unseen_enter: "i \<in> set (names g) \<Longrightarrow> \<not> visited st i \<Longrightarrow> Suc (unseen g (enter i st)) = unseen g st"
proof -
  assume i: "i \<in> set (names g)" "\<not> visited st i"
  have "{x \<in> set (names g). \<not> visited st x} = insert i {x \<in> set (names g). \<not> visited (enter i st) x}"
    using i by (auto simp: enter_def)
  then show ?thesis by (simp add: unseen_def enter_def)
qed

lemma out_names: "map_of g i = Some n \<Longrightarrow> set (nout n) \<subseteq> set (names g)"
  by (force simp: names_def dest: map_of_SomeD)

definition sees :: "dfs \<Rightarrow> dfs \<Rightarrow> bool" where
  "sees st st' \<longleftrightarrow> (\<forall>x. visited st x \<longrightarrow> visited st' x)"

lemma visit_fuel:
  "i \<in> set (names g) \<Longrightarrow> \<not> visited st i \<Longrightarrow> unseen g st \<le> fuel \<Longrightarrow> \<exists>st'. visit g fuel i st = Some st' \<and> sees st st'"
  "set ns \<subseteq> set (names g) \<Longrightarrow> unseen g st \<le> fuel \<Longrightarrow> \<exists>st' ret. visit_out g fuel ns st = Some (st', ret) \<and> sees st st'"
proof (induction g fuel i st and g fuel ns st rule: visit_visit_out.induct)
  case (1 g i st)
  then show ?case using unseen_enter [of i g st] by simp
next
  case (2 g fuel i st)
  show ?case
  proof (cases "hasCycle st")
    case False
    have e: "unseen g (enter i st) \<le> fuel" using unseen_enter [OF 2(2,3)] 2(4) by simp
    show ?thesis
    proof (cases "map_of g i")
      case None
      then show ?thesis using False by (auto simp: visit_unfold sees_def enter_def exit_def simp del: visit.simps)
    next
      case (Some n)
      obtain st' ret where "visit_out g fuel (nout n) (enter i st) = Some (st', ret)" "sees (enter i st) st'"
        using 2(1) [OF False refl Some, folded enter_def, OF out_names [OF Some] e] by blast
      then show ?thesis using False Some by (auto simp: visit_unfold sees_def enter_def exit_def simp del: visit.simps)
    qed
  qed (simp add: sees_def)
next
  case (4 g fuel nb rest st)
  show ?case
  proof (cases "visited st nb")
    case False
    then obtain st1 where v: "visit g fuel nb st = Some st1" "sees st st1" using 4(1) 4(4,5) by auto
    have "unseen g st1 \<le> fuel" using unseen_mono [of st st1 g] v(2) 4(5) by (simp add: sees_def)
    then obtain st' ret where "visit_out g fuel rest st1 = Some (st', ret)" "sees st1 st'" using 4(2) [OF False v(1)] 4(4) by auto
    then show ?thesis using v False by (auto simp: sees_def)
  next
    case True
    then show ?thesis using 4(3) 4(4,5) by (auto simp: sees_def)
  qed
qed (auto simp: sees_def)

definition checked :: "'v DAG \<Rightarrow> string set \<Rightarrow> bool \<Rightarrow> bool" where
  "checked g X b \<longleftrightarrow> (if b then \<not> acyclic (edges g) else (\<exists>st. sane g st \<and> (\<forall>x \<in> X. black st x)))"

lemma checked_mono: "checked g X b \<Longrightarrow> Y \<subseteq> X \<Longrightarrow> checked g Y b"
  unfolding checked_def by (auto split: if_splits)

lemma visit_all_correct:
  "sane g st \<Longrightarrow> recursionStack st = (\<lambda>_. False) \<Longrightarrow> \<not> hasCycle st \<Longrightarrow> set ids \<subseteq> set (names g) \<Longrightarrow> unseen g st \<le> fuel \<Longrightarrow>
   \<exists>b. visit_all g fuel ids st = Some b \<and> checked g ({x. visited st x} \<union> set ids) b"
proof (induction ids arbitrary: st)
  case Nil
  have "sane g st \<and> (\<forall>x \<in> {x. visited st x}. black st x)" using Nil by (simp add: black_def)
  then show ?case by (simp add: checked_def) blast
next
  case (Cons i ids)
  have ids: "i \<in> set (names g)" "set ids \<subseteq> set (names g)" using Cons.prems(4) by auto
  show ?case
  proof (cases "visited st i")
    case True
    then have "{x. visited st x} \<union> set (i # ids) = {x. visited st x} \<union> set ids" by auto
    then show ?thesis using Cons.IH [OF Cons.prems(1-3) ids(2) Cons.prems(5)] True by simp
  next
    case False
    obtain st1 where v: "visit g fuel i st = Some st1" "sees st st1" using visit_fuel(1) [OF ids(1) False Cons.prems(5)] by blast
    have ok: "if hasCycle st1 then \<not> acyclic (edges g) else sane g st1 \<and> grows st st1 \<and> black st1 i"
      using visit_correct(1) [OF v(1)] Cons.prems(1-3) False by (simp add: visit_ok_def)
    show ?thesis
    proof (cases "hasCycle st1")
      case True
      then show ?thesis using v ok False by (intro exI [of _ True]) (simp add: checked_def)
    next
      case nc: False
      then have s: "sane g st1" "recursionStack st1 = (\<lambda>_. False)" "visited st1 i" using ok Cons.prems(2) by (auto simp: grows_def black_def)
      have "unseen g st1 \<le> fuel" using unseen_mono [of st st1 g] v(2) Cons.prems(5) by (simp add: sees_def)
      from Cons.IH [OF s(1,2) nc ids(2) this] obtain b where b: "visit_all g fuel ids st1 = Some b" "checked g ({x. visited st1 x} \<union> set ids) b" by blast
      have "{x. visited st x} \<union> set (i # ids) \<subseteq> {x. visited st1 x} \<union> set ids" using v(2) s(3) by (auto simp: sees_def)
      from checked_mono [OF b(2) this] show ?thesis using b(1) v(1) nc False by simp
    qed
  qed
qed

lemma edges_key: "(x, y) \<in> edges g \<Longrightarrow> x \<in> set (map fst g)"
  by (force simp: edges_def dest: map_of_SomeD)

lemma detectCycle_correct: "detectCycle g = Some (\<not> acyclic (edges g))"
proof -
  define st where "st = \<lparr>visited = (\<lambda>_. False), recursionStack = (\<lambda>_. False), hasCycle = False\<rparr>"
  have "unseen g st \<le> length (names g)" by (simp add: unseen_def st_def card_length)
  moreover have "sane g st" by (simp add: sane_def black_def st_def)
  moreover have "set (map fst g) \<subseteq> set (names g)" by (auto simp: names_def)
  ultimately obtain b where b: "detectCycle g = Some b" "checked g (set (map fst g)) b"
    using visit_all_correct [of g st "map fst g" "length (names g)"] by (auto simp: detectCycle_def st_def)
  have "acyclic (edges g)" if nb: "\<not> b"
  proof -
    obtain st' where st': "sane g st'" "\<And>x. x \<in> set (map fst g) \<Longrightarrow> black st' x" using b(2) nb by (auto simp: checked_def)
    have "x \<in> set (map fst g)" if "(x, y) \<in> (edges g)\<^sup>+" for x y
      using tranclD [OF that] edges_key by blast
    then show ?thesis using st' unfolding acyclic_def sane_def by blast
  qed
  then have "b \<longleftrightarrow> \<not> acyclic (edges g)" using b(2) by (auto simp: checked_def)
  then show ?thesis using b(1) by simp
qed

section \<open>Well-formed graphs\<close>

definition wf_dag :: "'v DAG \<Rightarrow> bool" where
  "wf_dag g \<longleftrightarrow> distinct (map fst g) \<and>
     (\<forall>i n. map_of g i = Some n \<longrightarrow> distinct (nin n) \<and> distinct (nout n) \<and> set (nout n) \<subseteq> fst ` set g \<and> set (nin n) = {a. (a, i) \<in> edges g})"

lemma wf_edges_key: "wf_dag g \<Longrightarrow> (a, b) \<in> edges g \<Longrightarrow> b \<in> fst ` set g"
  unfolding wf_dag_def edges_def by blast

text \<open>The same graph in another order.\<close>

definition reordered :: "'v DAG \<Rightarrow> 'v DAG \<Rightarrow> bool" where
  "reordered g g' \<longleftrightarrow> distinct (map fst g') \<and> fst ` set g' = fst ` set g \<and>
     (\<forall>i n'. map_of g' i = Some n' \<longrightarrow>
        (\<exists>n. map_of g i = Some n \<and> nvalue n' = nvalue n \<and> mset (nin n') = mset (nin n) \<and> mset (nout n') = mset (nout n)))"

section \<open>The topological sort is right\<close>

text \<open>What is counted while a name is sorted out.\<close>

definition open_deg :: "'v DAG \<Rightarrow> string set \<Rightarrow> string \<Rightarrow> int" where
  "open_deg g R i = int (card {a. (a, i) \<in> edges g \<and> a \<notin> R})"

lemma relax_spec:
  "distinct ns \<Longrightarrow> relax ns (deg, q) = (\<lambda>i. if i \<in> set ns then deg i - 1 else deg i, q @ filter (\<lambda>i. deg i = 1) ns)"
proof (induction ns arbitrary: deg q)
  case (Cons x ns)
  then have "filter (\<lambda>i. (deg(x := deg x - 1)) i = 1) ns = filter (\<lambda>i. deg i = 1) ns" by (intro filter_cong) auto
  then show ?case using Cons by (auto simp: Let_def fun_eq_iff)
qed simp

lemma finite_preds: "finite {a. (a, i) \<in> edges g \<and> P a}"
proof (rule finite_subset)
  show "{a. (a, i) \<in> edges g \<and> P a} \<subseteq> set (map fst g)" using edges_key by blast
qed simp

lemma open_deg_insert:
  assumes "c \<notin> R"
  shows "open_deg g (insert c R) i = (if (c, i) \<in> edges g then open_deg g R i - 1 else open_deg g R i)"
proof (cases "(c, i) \<in> edges g")
  case True
  then have "{a. (a, i) \<in> edges g \<and> a \<notin> R} = insert c {a. (a, i) \<in> edges g \<and> a \<notin> insert c R}" using assms by auto
  then show ?thesis using True finite_preds [of i g "\<lambda>a. a \<notin> insert c R"] by (simp add: open_deg_def)
next
  case False
  then have "{a. (a, i) \<in> edges g \<and> a \<notin> R} = {a. (a, i) \<in> edges g \<and> a \<notin> insert c R}" by auto
  then show ?thesis using False by (simp add: open_deg_def)
qed

lemma open_deg_zero: "open_deg g R i = 0 \<longleftrightarrow> (\<forall>a. (a, i) \<in> edges g \<longrightarrow> a \<in> R)"
  using finite_preds [of i g "\<lambda>a. a \<notin> R"] by (auto simp: open_deg_def)

text \<open>Names in an order where every edge goes forward.\<close>

definition topo :: "'v DAG \<Rightarrow> string list \<Rightarrow> bool" where
  "topo g xs \<longleftrightarrow> distinct xs \<and> (\<forall>ys i zs. xs = ys @ i # zs \<longrightarrow> (\<forall>a. (a, i) \<in> edges g \<longrightarrow> a \<in> set ys))"

lemma topo_snoc: "topo g xs \<Longrightarrow> i \<notin> set xs \<Longrightarrow> (\<And>a. (a, i) \<in> edges g \<Longrightarrow> a \<in> set xs) \<Longrightarrow> topo g (xs @ [i])"
  unfolding topo_def by (auto simp: append_eq_append_conv2 append_eq_Cons_conv Cons_eq_append_conv)

definition kahn_inv :: "'v DAG \<Rightarrow> (string \<Rightarrow> int) \<Rightarrow> string list \<Rightarrow> string list \<Rightarrow> bool" where
  "kahn_inv g deg q res \<longleftrightarrow> topo g res \<and> distinct (res @ q) \<and> set res \<union> set q \<subseteq> fst ` set g \<and>
     deg = open_deg g (set res) \<and> (\<forall>i \<in> fst ` set g. i \<in> set (res @ q) \<longleftrightarrow> open_deg g (set res) i = 0)"

lemma kahn_inv_step:
  assumes wf: "wf_dag g" and inv: "kahn_inv g deg (c # q) res" and n: "map_of g c = Some n" and r: "relax (nout n) (deg, q) = (deg', q')"
  shows "kahn_inv g deg' q' (res @ [c])"
proof -
  have out: "(c, i) \<in> edges g \<longleftrightarrow> i \<in> set (nout n)" for i using n by (simp add: edges_def)
  have d: "distinct (nout n)" "set (nout n) \<subseteq> fst ` set g" using wf n by (auto simp: wf_dag_def)
  have deg: "deg = open_deg g (set res)" and c: "c \<notin> set res" "c \<in> fst ` set g" "open_deg g (set res) c = 0"
    using inv by (auto simp: kahn_inv_def)
  have q': "q' = q @ filter (\<lambda>i. deg i = 1) (nout n)" "deg' = open_deg g (set (res @ [c]))"
    using r relax_spec [OF d(1), of deg q] open_deg_insert [OF c(1), of g] by (auto simp: fun_eq_iff out deg)
  have new: "open_deg g (set (res @ [c])) i = 0 \<longleftrightarrow> open_deg g (set res) i = 0 \<or> i \<in> set (nout n) \<and> deg i = 1" for i
    using open_deg_insert [OF c(1), of g i] open_deg_zero [of g "set res" i] c(1) by (auto simp: out deg)
  have t: "topo g (res @ [c])" using inv c open_deg_zero [of g "set res" c] by (intro topo_snoc) (auto simp: kahn_inv_def)
  have "i \<notin> set (res @ c # q)" if "i \<in> set (nout n)" "deg i = 1" for i
  proof -
    have "i \<in> set (res @ c # q) \<longleftrightarrow> open_deg g (set res) i = 0" using inv d(2) that(1) unfolding kahn_inv_def by blast
    then show ?thesis using that(2) by (simp add: deg)
  qed
  then have "distinct ((res @ [c]) @ q')" using inv d(1) by (auto simp: q' kahn_inv_def)
  moreover have "set (res @ [c]) \<union> set q' \<subseteq> fst ` set g" using inv d(2) by (auto simp: q' kahn_inv_def)
  moreover have "\<forall>i \<in> fst ` set g. i \<in> set ((res @ [c]) @ q') \<longleftrightarrow> open_deg g (set (res @ [c])) i = 0"
    using inv new by (auto simp: kahn_inv_def q'(1))
  ultimately show ?thesis using t q'(2) by (simp add: kahn_inv_def)
qed

lemma kahn_correct:
  assumes wf: "wf_dag g"
  shows "kahn_inv g deg q res \<Longrightarrow> length g \<le> fuel + length res \<Longrightarrow> \<exists>res' deg'. kahn g fuel deg q res = Some res' \<and> kahn_inv g deg' [] res'"
proof (induction fuel arbitrary: deg q res)
  case 0
  have "length (res @ q) \<le> length g"
  proof -
    have "distinct (res @ q)" using 0(1) unfolding kahn_inv_def by blast
    then have "length (res @ q) = card (set (res @ q))" using distinct_card by metis
    also have "\<dots> \<le> card (fst ` set g)" using 0(1) by (intro card_mono) (auto simp: kahn_inv_def)
    also have "\<dots> \<le> length g" by (metis card_length length_map set_map)
    finally show ?thesis .
  qed
  then have "length q = 0" using 0(2) by (simp del: length_0_conv)
  then have "q = []" by simp
  then show ?case using 0(1) by auto
next
  case (Suc fuel)
  show ?case
  proof (cases q)
    case Nil
    then show ?thesis using Suc.prems(1) by auto
  next
    case (Cons c q1)
    then have "c \<in> fst ` set g" using Suc.prems(1) by (simp add: kahn_inv_def)
    then obtain n where n: "map_of g c = Some n" by (metis map_of_eq_None_iff not_None_eq)
    obtain deg1 q2 where r: "relax (nout n) (deg, q1) = (deg1, q2)" by fastforce
    have "kahn_inv g deg1 q2 (res @ [c])" using kahn_inv_step [OF wf _ n r] Suc.prems(1) Cons by blast
    from Suc.IH [OF this] show ?thesis using Suc.prems(2) n r Cons by simp
  qed
qed

lemma acyclic_source:
  assumes "acyclic (edges g)" "M \<noteq> {}" "M \<subseteq> fst ` set g"
  shows "\<exists>i \<in> M. \<forall>a. (a, i) \<in> edges g \<longrightarrow> a \<notin> M"
proof -
  define E where "E = edges g \<inter> M \<times> M"
  have fin: "finite M" using assms(3) finite_subset by blast
  then have "wf E" using assms(1) acyclic_subset [of "edges g" E] by (intro finite_acyclic_wf) (auto simp: E_def intro: finite_subset)
  then obtain i where i: "i \<in> M" "\<forall>a. (a, i) \<in> E \<longrightarrow> a \<notin> M" using assms(2) unfolding wf_eq_minimal by blast
  then have "\<forall>a. (a, i) \<in> edges g \<longrightarrow> a \<notin> M" unfolding E_def by blast
  then show ?thesis using i(1) by blast
qed

lemma TopologicalSort_correct:
  assumes wf: "wf_dag g" and ac: "acyclic (edges g)"
  shows "\<exists>res. TopologicalSort g = Some (Inr res) \<and> mset res = mset (map fst g) \<and> topo g res"
proof -
  define deg where "deg = (\<lambda>i. case map_of g i of None \<Rightarrow> 0 | Some n \<Rightarrow> int (length (nin n)))"
  have deg: "deg = open_deg g {}"
  proof
    fix i
    show "deg i = open_deg g {} i"
    proof (cases "map_of g i")
      case None
      then have "(a, i) \<notin> edges g" for a using wf_edges_key [OF wf] by (auto simp: map_of_eq_None_iff)
      then show ?thesis using None by (simp add: deg_def open_deg_def)
    next
      case (Some n)
      then have "set (nin n) = {a. (a, i) \<in> edges g}" "distinct (nin n)" using wf by (auto simp: wf_dag_def)
      then show ?thesis using Some by (simp add: deg_def open_deg_def distinct_card [symmetric])
    qed
  qed
  have "kahn_inv g deg (filter (\<lambda>i. deg i = 0) (map fst g)) []"
    using wf by (auto simp: kahn_inv_def topo_def deg wf_dag_def)
  from kahn_correct [OF wf this, of "length g"] obtain res deg' where
    k: "kahn g (length g) deg (filter (\<lambda>i. deg i = 0) (map fst g)) [] = Some res" and inv: "kahn_inv g deg' [] res" by auto
  have all: "set res = fst ` set g"
  proof (rule ccontr)
    assume "set res \<noteq> fst ` set g"
    then have "fst ` set g - set res \<noteq> {}" using inv by (auto simp: kahn_inv_def)
    then obtain i where i: "i \<in> fst ` set g - set res" "\<And>a. (a, i) \<in> edges g \<Longrightarrow> a \<notin> fst ` set g - set res"
      using acyclic_source [OF ac, of "fst ` set g - set res"] by auto
    then have "\<forall>a. (a, i) \<in> edges g \<longrightarrow> a \<in> set res" using edges_key by fastforce
    then show False using inv i(1) open_deg_zero [of g "set res" i] unfolding kahn_inv_def by auto
  qed
  have "distinct res" "distinct (map fst g)" using inv wf by (auto simp: kahn_inv_def wf_dag_def)
  then have m: "mset res = mset (map fst g)" using all set_eq_iff_mset_eq_distinct [of res "map fst g"] by simp
  then have "length res = length g" by (metis length_map size_mset)
  then have "TopologicalSort g = Some (Inr res)" using k unfolding TopologicalSort_def deg_def by simp
  then show ?thesis using m inv unfolding kahn_inv_def by blast
qed

section \<open>Adding nodes and edges\<close>

lemma map_of_upd:
  "map_of (upd_out f i g) k = (if k = i then map_option (\<lambda>n. n\<lparr>nout := f (nout n)\<rparr>) (map_of g k) else map_of g k)"
  "map_of (upd_in f i g) k = (if k = i then map_option (\<lambda>n. n\<lparr>nin := f (nin n)\<rparr>) (map_of g k) else map_of g k)"
  by (induction g) (auto simp: upd_out_def upd_in_def)

lemma keys_upd [simp]: "map fst (upd_out f i g) = map fst g" "map fst (upd_in f i g) = map fst g"
  by (auto simp: upd_out_def upd_in_def)

lemma set_keys_upd [simp]: "fst ` set (upd_out f i g) = fst ` set g" "fst ` set (upd_in f i g) = fst ` set g"
  using keys_upd [of f i g] by (metis set_map)+

lemma edges_upd_in: "edges (upd_in f b g) = edges g"
  by (auto simp: edges_def map_of_upd split: if_splits)

lemma edges_link:
  assumes "map_of g a \<noteq> None"
  shows "edges (upd_in f b (upd_out (set_add b) a g)) = insert (a, b) (edges g)"
proof -
  obtain n where n: "map_of g a = Some n" using assms by blast
  have "(x, y) \<in> edges (upd_out (set_add b) a g) \<longleftrightarrow> (x, y) = (a, b) \<or> (x, y) \<in> edges g" for x y
    using n by (cases "x = a") (auto simp: edges_def map_of_upd set_add_def)
  then show ?thesis unfolding edges_upd_in by auto
qed

lemma set_add_simps: "set (set_add x xs) = insert x (set xs)" "distinct xs \<Longrightarrow> distinct (set_add x xs)" "x \<notin> set xs \<Longrightarrow> set_del x (set_add x xs) = xs"
  by (auto simp: set_add_def set_del_def intro: filter_True)

lemma wf_link:
  assumes wf: "wf_dag g" and a: "map_of g a \<noteq> None" and b: "map_of g b \<noteq> None" and ne: "a \<noteq> b"
  shows "wf_dag (upd_in (set_add a) b (upd_out (set_add b) a g))"
  unfolding wf_dag_def
proof (intro conjI allI impI)
  let ?g = "upd_in (set_add a) b (upd_out (set_add b) a g)"
  show "distinct (map fst ?g)" using wf by (simp add: wf_dag_def)
  fix i n assume i: "map_of ?g i = Some n"
  then obtain m where m: "map_of g i = Some m" by (auto simp: map_of_upd split: if_splits)
  have old: "distinct (nin m)" "distinct (nout m)" "set (nout m) \<subseteq> fst ` set g" "set (nin m) = {x. (x, i) \<in> edges g}"
    using wf m unfolding wf_dag_def by blast+
  have n: "nin n = (if i = b then set_add a (nin m) else nin m)" "nout n = (if i = a then set_add b (nout m) else nout m)"
    using i m ne by (auto simp: map_of_upd split: if_splits)
  show "distinct (nin n)" "distinct (nout n)" using old by (simp_all add: n set_add_simps)
  show "set (nout n) \<subseteq> fst ` set ?g" using old b by (auto simp: n set_add_simps map_of_eq_None_iff)
  show "set (nin n) = {x. (x, i) \<in> edges ?g}" unfolding edges_link [OF a] n using old(4) by (auto simp: set_add_simps)
qed

lemma unlink:
  assumes "wf_dag g" "(a, b) \<notin> edges g" "a \<noteq> b"
  shows "upd_in (set_del a) b (upd_out (set_del b) a (upd_in (set_add a) b (upd_out (set_add b) a g))) = g"
proof -
  have key: "(k, n) \<in> set g \<Longrightarrow> map_of g k = Some n" for k n using assms(1) by (simp add: wf_dag_def)
  have i: "(b, n) \<in> set g \<Longrightarrow> a \<notin> set (nin n)" for n using key assms(1,2) unfolding wf_dag_def by blast
  have o: "(a, n) \<in> set g \<Longrightarrow> b \<notin> set (nout n)" for n using key assms(2) unfolding edges_def by blast
  have "(\<lambda>(k, n). (k, if k = b then n\<lparr>nin := set_del a (set_add a (nin n))\<rparr> else if k = a then n\<lparr>nout := set_del b (set_add b (nout n))\<rparr> else n)) x = x"
    if x: "x \<in> set g" for x
  proof -
    obtain k n where "x = (k, n)" by fastforce
    then show ?thesis using x i [of n] o [of n] by (auto simp: set_add_simps)
  qed
  then have "map (\<lambda>(k, n). (k, if k = b then n\<lparr>nin := set_del a (set_add a (nin n))\<rparr> else if k = a then n\<lparr>nout := set_del b (set_add b (nout n))\<rparr> else n)) g = g"
    by (rule map_idI)
  moreover have "upd_in (set_del a) b (upd_out (set_del b) a (upd_in (set_add a) b (upd_out (set_add b) a g))) =
    map (\<lambda>(k, n). (k, if k = b then n\<lparr>nin := set_del a (set_add a (nin n))\<rparr> else if k = a then n\<lparr>nout := set_del b (set_add b (nout n))\<rparr> else n)) g"
    using assms(3) by (auto simp: upd_in_def upd_out_def)
  ultimately show ?thesis by simp
qed

text \<open>The answer and the effect of \<^verbatim>\<open>AddEdge\<close>.\<close>

definition edge_error :: "'v DAG \<Rightarrow> string \<Rightarrow> string \<Rightarrow> dag_error option" where
  "edge_error g a b =
     (if a \<notin> fst ` set g \<or> b \<notin> fst ` set g then Some ErrNodeNotFound
      else if acyclic (insert (a, b) (edges g)) then None else Some ErrCycleDetected)"

lemma AddEdge_correct:
  assumes wf: "wf_dag g" and ac: "acyclic (edges g)"
  shows "\<exists>g'. AddEdge g a b = Some (g', edge_error g a b) \<and> wf_dag g' \<and> acyclic (edges g') \<and>
    (if edge_error g a b = None then edges g' = insert (a, b) (edges g) else g' = g)"
proof (cases "map_of g a = None \<or> map_of g b = None \<or> a = b")
  case True
  then show ?thesis using assms by (auto simp: AddEdge_def edge_error_def map_of_eq_None_iff acyclic_def)
next
  case False
  define g1 where "g1 = upd_in (set_add a) b (upd_out (set_add b) a g)"
  have e: "edges g1 = insert (a, b) (edges g)" unfolding g1_def by (rule edges_link) (use False in simp)
  have err: "edge_error g a b = (if acyclic (edges g1) then None else Some ErrCycleDetected)"
    using False by (simp add: edge_error_def e map_of_eq_None_iff)
  have A: "AddEdge g a b = (if acyclic (edges g1) then Some (g1, None)
      else Some (upd_in (set_del a) b (upd_out (set_del b) a g1), Some ErrCycleDetected))"
    using False detectCycle_correct [of g1] by (simp add: AddEdge_def g1_def [symmetric])
  show ?thesis
  proof (cases "acyclic (edges g1)")
    case True
    then show ?thesis using A err e wf_link [OF wf, of a b] False by (simp add: g1_def)
  next
    case nac: False
    have "(a, b) \<notin> edges g"
    proof
      assume "(a, b) \<in> edges g"
      then have "edges g1 = edges g" unfolding e by (rule insert_absorb)
      then show False using nac ac by simp
    qed
    then have "upd_in (set_del a) b (upd_out (set_del b) a g1) = g" using unlink [OF wf] False unfolding g1_def by blast
    then show ?thesis using A err nac wf ac by simp
  qed
qed

lemma AddNode_correct:
  assumes wf: "wf_dag g"
  shows "wf_dag (AddNode g i v) \<and> edges (AddNode g i v) = edges g"
proof (cases "map_of g i")
  case None
  define g1 where "g1 = AList.update i \<lparr>nvalue = v, nin = [], nout = []\<rparr> g"
  have m: "map_of g1 k = (if k = i then Some \<lparr>nvalue = v, nin = [], nout = []\<rparr> else map_of g k)" for k
    by (simp add: g1_def update_conv')
  have e: "edges g1 = edges g" using None by (auto simp: edges_def m split: if_splits)
  have new: "{a. (a, i) \<in> edges g} = {}" using wf_edges_key [OF wf] None by (auto simp: map_of_eq_None_iff)
  have k: "fst ` set g1 = insert i (fst ` set g)" by (simp add: g1_def dom_update)
  have "wf_dag g1" unfolding wf_dag_def e
  proof (intro conjI allI impI)
    show "distinct (map fst g1)" using wf by (simp add: g1_def wf_dag_def distinct_update)
    fix j n assume j: "map_of g1 j = Some n"
    have "j \<noteq> i \<Longrightarrow> distinct (nin n) \<and> distinct (nout n) \<and> set (nout n) \<subseteq> fst ` set g \<and> set (nin n) = {a. (a, j) \<in> edges g}"
      using wf j unfolding wf_dag_def m by (simp del: map_of_eq_Some_iff)
    then show "distinct (nin n)" "distinct (nout n)" "set (nout n) \<subseteq> fst ` set g1" "set (nin n) = {a. (a, j) \<in> edges g}"
      using j m new k by (cases "j = i"; auto)+
  qed
  then show ?thesis using None e by (simp add: AddNode_def g1_def)
qed (use wf in \<open>simp add: AddNode_def\<close>)

lemma reordered_correct:
  assumes wf: "wf_dag g" and r: "reordered g g'"
  shows "wf_dag g' \<and> edges g' = edges g"
proof -
  have k: "fst ` set g' = fst ` set g" "distinct (map fst g')" using r by (auto simp: reordered_def)
  have m: "map_of g' i = Some n' \<Longrightarrow> \<exists>n. map_of g i = Some n \<and> mset (nin n') = mset (nin n) \<and> mset (nout n') = mset (nout n)" for i n'
    using r unfolding reordered_def by blast
  have sets: "mset xs = mset ys \<Longrightarrow> set xs = set ys \<and> distinct xs = distinct ys" for xs ys :: "string list"
    using mset_eq_setD mset_eq_imp_distinct_iff by blast
  have "map_of g' i = None \<longleftrightarrow> map_of g i = None" for i using k(1) by (simp add: map_of_eq_None_iff)
  then have m': "\<exists>n'. map_of g' i = Some n'" if "map_of g i = Some n" for i n using that by (metis not_None_eq)
  have e: "edges g' = edges g"
  proof (intro set_eqI iffI; clarify)
    fix x y assume "(x, y) \<in> edges g'"
    then obtain n' where n': "map_of g' x = Some n'" "y \<in> set (nout n')" unfolding edges_def by blast
    obtain n where n: "map_of g x = Some n" "mset (nout n') = mset (nout n)" using m [OF n'(1)] by blast
    have "set (nout n') = set (nout n)" using n(2) by (rule mset_eq_setD)
    then show "(x, y) \<in> edges g" using n n' unfolding edges_def by blast
  next
    fix x y assume "(x, y) \<in> edges g"
    then obtain n where n: "map_of g x = Some n" "y \<in> set (nout n)" unfolding edges_def by blast
    then obtain n' where n': "map_of g' x = Some n'" using m' by blast
    then have "mset (nout n') = mset (nout n)" using m [OF n'] n(1) by auto
    then have "set (nout n') = set (nout n)" by (rule mset_eq_setD)
    then show "(x, y) \<in> edges g'" using n n' unfolding edges_def by blast
  qed
  have "wf_dag g'" unfolding wf_dag_def e
  proof (intro conjI allI impI)
    fix i n' assume "map_of g' i = Some n'"
    then obtain n where n: "map_of g i = Some n" "mset (nin n') = mset (nin n)" "mset (nout n') = mset (nout n)" using m by blast
    have w: "distinct (nin n)" "distinct (nout n)" "set (nout n) \<subseteq> fst ` set g" "set (nin n) = {a. (a, i) \<in> edges g}"
      using wf n(1) unfolding wf_dag_def by blast+
    show "distinct (nin n')" "distinct (nout n')" "set (nout n') \<subseteq> fst ` set g'" "set (nin n') = {a. (a, i) \<in> edges g}"
      using w sets [OF n(2)] sets [OF n(3)] k(1) by auto
  qed (use k in auto)
  then show ?thesis using e by blast
qed

section \<open>Graphs in use\<close>

inductive dag_reach :: "'v DAG \<Rightarrow> bool" where
  start: "dag_reach dag_New"
| node: "dag_reach g \<Longrightarrow> dag_reach (AddNode g i v)"
| edge: "dag_reach g \<Longrightarrow> AddEdge g a b = Some (g', err) \<Longrightarrow> dag_reach g'"
| order: "dag_reach g \<Longrightarrow> reordered g g' \<Longrightarrow> dag_reach g'"

lemma dag_reach_ok: "dag_reach g \<Longrightarrow> wf_dag g \<and> acyclic (edges g)"
proof (induction rule: dag_reach.induct)
  case start
  then show ?case by (simp add: dag_New_def wf_dag_def edges_def acyclic_def)
next
  case (node g i v)
  then show ?case using AddNode_correct [of g i v] by simp
next
  case (edge g a b g' err)
  then show ?case using AddEdge_correct [of g a b] by auto
next
  case (order g g')
  then show ?case using reordered_correct [of g g'] by simp
qed

lemma topo_edge:
  assumes "topo g res" "set res = fst ` set g" "wf_dag g" "(a, b) \<in> edges g"
  shows "\<exists>xs ys zs. res = xs @ a # ys @ b # zs"
proof -
  obtain us zs where u: "res = us @ b # zs" using wf_edges_key [OF assms(3,4)] assms(2) split_list by metis
  then have "a \<in> set us" using assms(1,4) unfolding topo_def by blast
  then obtain xs ys where "us = xs @ a # ys" using split_list by metis
  then show ?thesis using u by auto
qed

text \<open>
  C25: The directed acyclic graph.  In every graph made by \<^verbatim>\<open>AddNode\<close> and \<^verbatim>\<open>AddEdge\<close>, with the maps iterated in any order: there is no
  cycle; \<^verbatim>\<open>AddEdge\<close> ends and is refused with \<^verbatim>\<open>ErrNodeNotFound\<close> exactly when an end is missing, with \<^verbatim>\<open>ErrCycleDetected\<close>
  exactly when the edge would close a cycle, and then leaves the graph as it was; otherwise it adds exactly that edge.  \<^verbatim>\<open>TopologicalSort\<close> always succeeds: it lists every
  node once, and the source of every edge before its target.
\<close>

theorem dag_correct:
  assumes "dag_reach g"
  shows "acyclic (edges g) \<and>
    (\<exists>g'. AddEdge g a b = Some (g', edge_error g a b) \<and>
       (if edge_error g a b = None then edges g' = insert (a, b) (edges g) else g' = g)) \<and>
    (\<exists>res. TopologicalSort g = Some (Inr res) \<and> mset res = mset (map fst g) \<and>
       (\<forall>x y. (x, y) \<in> edges g \<longrightarrow> (\<exists>xs ys zs. res = xs @ x # ys @ y # zs)))"
proof -
  have ok: "wf_dag g" "acyclic (edges g)" using dag_reach_ok [OF assms] by auto
  obtain res where r: "TopologicalSort g = Some (Inr res)" "mset res = mset (map fst g)" "topo g res" using TopologicalSort_correct [OF ok] by blast
  have "set res = fst ` set g" using mset_eq_setD [OF r(2)] by simp
  then have "\<forall>x y. (x, y) \<in> edges g \<longrightarrow> (\<exists>xs ys zs. res = xs @ x # ys @ y # zs)" using topo_edge [OF r(3) _ ok(1)] by blast
  moreover have "\<exists>g'. AddEdge g a b = Some (g', edge_error g a b) \<and> (if edge_error g a b = None then edges g' = insert (a, b) (edges g) else g' = g)"
    using AddEdge_correct [OF ok] by blast
  ultimately show ?thesis using ok(2) r(1,2) by blast
qed

theorem dag_correct_witness:
  "\<exists>g res. AddEdge (AddNode (AddNode dag_New ''b'' (1 :: nat)) ''a'' 2) ''a'' ''b'' = Some (g, None) \<and> dag_reach g \<and>
     TopologicalSort g = Some (Inr res) \<and> mset res = {#''a'', ''b''#}"
proof -
  define g0 where "g0 = AddNode (AddNode dag_New ''b'' (1 :: nat)) ''a'' 2"
  define g where "g = [(''b'', \<lparr>nvalue = 1 :: nat, nin = [''a''], nout = []\<rparr>), (''a'', \<lparr>nvalue = 2, nin = [], nout = [''b'']\<rparr>)]"
  have e: "AddEdge g0 ''a'' ''b'' = Some (g, None)"
    by (simp add: g0_def g_def AddEdge_def AddNode_def dag_New_def upd_in_def upd_out_def set_add_def detectCycle_def names_def
        numeral_2_eq_2 numeral_3_eq_3 Let_def)
  have r: "dag_reach g" unfolding g0_def [symmetric] by (rule dag_reach.edge [OF _ e]) (auto simp: g0_def intro: dag_reach.intros)
  obtain res where "TopologicalSort g = Some (Inr res)" "mset res = mset (map fst g)" using dag_correct [OF r] by blast
  then show ?thesis using e r by (auto simp: g0_def g_def)
qed

end
