(* ===== verification/Rate_Limit.thy ===== *)
theory Rate_Limit
  imports Prelude
begin

text \<open>
  \<^verbatim>\<open>pkg/algorithms/ratelimit/slidingwindow/local.go\<close>: the sliding-window log, and \<^verbatim>\<open>pkg/servicemesh/ratelimit\<close>: the limiter per
  key.  The clock readings of a call are arguments, in the order the code reads the clock; instants and durations are nanoseconds.
\<close>

section \<open>The sliding-window log\<close>

record SlidingWindow =
  requests :: "int list"
  sw_limit :: int
  sw_window :: int

text \<open>\<^verbatim>\<open>make\<close> panics for a negative capacity: \<open>None\<close>.\<close>

definition sw_NewLocal :: "int \<Rightarrow> int \<Rightarrow> SlidingWindow option" where
  "sw_NewLocal limit window =
     (if limit < 0 then None else Some \<lparr>requests = [], sw_limit = limit, sw_window = window\<rparr>)"

definition sw_cleanup :: "int \<Rightarrow> SlidingWindow \<Rightarrow> SlidingWindow" where
  "sw_cleanup now sw = (let threshold = now - sw_window sw in sw\<lparr>requests := filter (\<lambda>t. t > threshold) (requests sw)\<rparr>)"

definition sw_AllowN :: "int \<times> int \<Rightarrow> int \<Rightarrow> SlidingWindow \<Rightarrow> SlidingWindow \<times> bool" where
  "sw_AllowN clock n sw =
     (let sw = sw_cleanup (fst clock) sw
      in if int (length (requests sw)) + n \<le> sw_limit sw
         then (let now = snd clock in (sw\<lparr>requests := requests sw @ replicate (nat n) now\<rparr>, True))
         else (sw, False))"

definition sw_Allow :: "int \<times> int \<Rightarrow> SlidingWindow \<Rightarrow> SlidingWindow \<times> bool" where
  "sw_Allow clock sw = sw_AllowN clock 1 sw"

text \<open>\<open>None\<close> is the index panic on an empty log, which a limit of 0 reaches.\<close>

definition sw_Reserve :: "int \<times> int \<Rightarrow> SlidingWindow \<Rightarrow> SlidingWindow \<times> int option" where
  "sw_Reserve clock sw =
     (let sw = sw_cleanup (fst clock) sw
      in if int (length (requests sw)) < sw_limit sw then (sw, Some 0)
         else (sw, case requests sw of [] \<Rightarrow> None | t # _ \<Rightarrow> Some (t + sw_window sw - snd clock)))"

definition sw_Tokens :: "int \<Rightarrow> SlidingWindow \<Rightarrow> SlidingWindow \<times> int" where
  "sw_Tokens now sw = (let sw = sw_cleanup now sw in (sw, sw_limit sw - int (length (requests sw))))"

section \<open>One limiter per key\<close>

record ('k, 'l) KeyedLimiter =
  limiters :: "'k \<rightharpoonup> 'l"
  factory :: 'l

definition NewKeyedLimiter :: "'l \<Rightarrow> ('k, 'l) KeyedLimiter" where
  "NewKeyedLimiter f = \<lparr>limiters = Map.empty, factory = f\<rparr>"

definition getLimiter :: "'k \<Rightarrow> ('k, 'l) KeyedLimiter \<Rightarrow> ('k, 'l) KeyedLimiter \<times> 'l" where
  "getLimiter key kl =
     (case limiters kl key of
        Some limiter \<Rightarrow> (kl, limiter)
      | None \<Rightarrow> (kl\<lparr>limiters := (limiters kl)(key \<mapsto> factory kl)\<rparr>, factory kl))"

text \<open>A call on the limiter of a key; the limiter is shared, so its change shows in the map.\<close>

definition kl_call :: "('l \<Rightarrow> 'l \<times> 'r) \<Rightarrow> 'k \<Rightarrow> ('k, 'l) KeyedLimiter \<Rightarrow> ('k, 'l) KeyedLimiter \<times> 'r" where
  "kl_call f key kl =
     (let (kl, limiter) = getLimiter key kl; (limiter, r) = f limiter
      in (kl\<lparr>limiters := (limiters kl)(key \<mapsto> limiter)\<rparr>, r))"

definition kl_AllowN :: "int \<times> int \<Rightarrow> int \<Rightarrow> 'k \<Rightarrow> ('k, SlidingWindow) KeyedLimiter \<Rightarrow> ('k, SlidingWindow) KeyedLimiter \<times> bool" where
  "kl_AllowN clock n key kl = kl_call (sw_AllowN clock n) key kl"

section \<open>What is admitted\<close>

text \<open>The calls of a run: clock readings and number of units; the answers of one limiter.\<close>

type_synonym sw_calls = "((int \<times> int) \<times> int) list"

fun sw_run :: "sw_calls \<Rightarrow> SlidingWindow \<Rightarrow> SlidingWindow \<times> bool list" where
  "sw_run [] sw = (sw, [])"
| "sw_run ((clock, n) # cs) sw = (let (sw, ok) = sw_AllowN clock n sw; (sw, oks) = sw_run cs sw in (sw, ok # oks))"

fun kl_run :: "('k \<times> (int \<times> int) \<times> int) list \<Rightarrow> ('k, SlidingWindow) KeyedLimiter \<Rightarrow> ('k, SlidingWindow) KeyedLimiter \<times> ('k \<times> bool) list" where
  "kl_run [] kl = (kl, [])"
| "kl_run ((key, clock, n) # cs) kl =
     (let (kl, ok) = kl_AllowN clock n key kl; (kl, oks) = kl_run cs kl in (kl, (key, ok) # oks))"

text \<open>The clock never goes back.\<close>

fun monotone :: "int \<Rightarrow> sw_calls \<Rightarrow> bool" where
  "monotone t [] \<longleftrightarrow> True"
| "monotone t ((clock, n) # cs) \<longleftrightarrow> t \<le> fst clock \<and> fst clock \<le> snd clock \<and> monotone (snd clock) cs"

text \<open>The instants of the units admitted.\<close>

fun admitted :: "sw_calls \<Rightarrow> bool list \<Rightarrow> int list" where
  "admitted ((clock, n) # cs) (ok # oks) = (if ok then replicate (nat n) (snd clock) else []) @ admitted cs oks"
| "admitted _ _ = []"

definition in_window :: "int \<Rightarrow> int \<Rightarrow> int list \<Rightarrow> nat" where
  "in_window window t ts = length (filter (\<lambda>x. t - window < x \<and> x \<le> t) ts)"

text \<open>
  The log after a run: the units admitted so far (\<open>H\<close>) that are younger than some threshold, which is not younger than the window before \<open>now\<close>.
\<close>

definition log_ok :: "int \<Rightarrow> int \<Rightarrow> int \<Rightarrow> int list \<Rightarrow> SlidingWindow \<Rightarrow> bool" where
  "log_ok limit window now H sw \<longleftrightarrow> sw_limit sw = limit \<and> sw_window sw = window \<and> (\<forall>x \<in> set H. x \<le> now) \<and>
     (\<exists>thr \<le> now - window. requests sw = filter (\<lambda>x. x > thr) H) \<and> (\<forall>t. int (in_window window t H) \<le> limit)"

lemma log_cleanup:
  assumes "log_ok limit window now H sw" "now \<le> tc"
  shows "requests (sw_cleanup tc sw) = filter (\<lambda>x. x > tc - window) H" "in_window window tc H = length (filter (\<lambda>x. x > tc - window) H)"
proof -
  obtain thr where "thr \<le> now - window" "requests sw = filter (\<lambda>x. x > thr) H" using assms(1) by (auto simp: log_ok_def)
  then show "requests (sw_cleanup tc sw) = filter (\<lambda>x. x > tc - window) H"
    using assms by (auto simp: sw_cleanup_def log_ok_def Let_def intro!: filter_cong)
  have "filter (\<lambda>x. tc - window < x \<and> x \<le> tc) H = filter (\<lambda>x. x > tc - window) H"
    using assms by (intro filter_cong) (auto simp: log_ok_def)
  then show "in_window window tc H = length (filter (\<lambda>x. x > tc - window) H)" by (simp add: in_window_def)
qed

lemma in_window_Nil [simp]: "in_window w t [] = 0"
  by (simp add: in_window_def)

lemma in_window_append: "in_window w t (xs @ ys) = in_window w t xs + in_window w t ys"
  by (simp add: in_window_def)

lemma in_window_replicate: "in_window w t (replicate k x) = (if t - w < x \<and> x \<le> t then k else 0)"
  by (simp add: in_window_def)

lemma in_window_le: "t' \<le> t \<Longrightarrow> in_window w t xs \<le> length (filter (\<lambda>x. x > t' - w) xs)"
  unfolding in_window_def by (induction xs) auto

lemma AllowN_log:
  assumes ok: "log_ok limit window now H sw" and w: "0 < window" and t: "now \<le> tc" "tc \<le> ts" and r: "sw_AllowN (tc, ts) n sw = (sw', b)"
  shows "b \<longleftrightarrow> int (in_window window tc H) + n \<le> limit"
    "log_ok limit window ts (H @ (if b then replicate (nat n) ts else [])) sw'"
proof -
  note cl = log_cleanup [OF ok t(1)]
  have lw: "sw_limit (sw_cleanup tc sw) = limit" "sw_window (sw_cleanup tc sw) = window" using ok by (auto simp: sw_cleanup_def log_ok_def Let_def)
  show b: "b \<longleftrightarrow> int (in_window window tc H) + n \<le> limit" using r cl lw by (auto simp: sw_AllowN_def Let_def split: if_splits)
  have H: "\<forall>x \<in> set H. x \<le> now" "\<And>t. int (in_window window t H) \<le> limit" using ok by (auto simp: log_ok_def)
  let ?H = "H @ (if b then replicate (nat n) ts else [])"
  have req: "requests sw' = filter (\<lambda>x. x > tc - window) ?H" "sw_limit sw' = limit" "sw_window sw' = window"
    using r cl lw w t by (auto simp: sw_AllowN_def Let_def split: if_splits)
  have "int (in_window window t ?H) \<le> limit" for t
  proof (cases "b \<and> t - window < ts \<and> ts \<le> t")
    case True
    then have "in_window window t H \<le> in_window window tc H" using in_window_le [of tc t window H] cl(2) assms(4) by simp
    then show ?thesis using True b H(2) [of t] by (cases "n \<ge> 0") (auto simp: in_window_append in_window_replicate)
  next
    case False
    then show ?thesis using H(2) [of t] by (auto simp: in_window_append in_window_replicate)
  qed
  moreover have "\<forall>x \<in> set ?H. x \<le> ts" using H(1) t by (auto split: if_splits)
  moreover have "tc - window \<le> ts - window" using t by simp
  ultimately show "log_ok limit window ts ?H sw'" using req unfolding log_ok_def by blast
qed

text \<open>The specification of a limiter: each call is granted exactly when the window before it has room.\<close>

definition exact :: "int \<Rightarrow> int \<Rightarrow> int list \<Rightarrow> sw_calls \<Rightarrow> bool list \<Rightarrow> bool" where
  "exact limit window H cs oks \<longleftrightarrow> length oks = length cs \<and>
     (\<forall>i < length cs. oks ! i \<longleftrightarrow> int (in_window window (fst (fst (cs ! i))) (H @ admitted (take i cs) (take i oks))) + snd (cs ! i) \<le> limit)"

lemma sw_run_correct:
  "log_ok limit window now H sw \<Longrightarrow> 0 < window \<Longrightarrow> monotone now cs \<Longrightarrow> sw_run cs sw = (sw', oks) \<Longrightarrow>
   exact limit window H cs oks \<and> (\<forall>t. int (in_window window t (H @ admitted cs oks)) \<le> limit)"
proof (induction cs arbitrary: now H sw oks)
  case Nil
  then show ?case by (auto simp: exact_def log_ok_def)
next
  case (Cons c cs)
  obtain tc ts n where c: "c = ((tc, ts), n)" by (metis prod.exhaust)
  obtain sw1 b where r: "sw_AllowN (tc, ts) n sw = (sw1, b)" by fastforce
  obtain oks1 where rest: "sw_run cs sw1 = (sw', oks1)" "oks = b # oks1" using Cons.prems(4) by (auto simp: c r split: prod.splits)
  have t: "now \<le> tc" "tc \<le> ts" "monotone ts cs" using Cons.prems(3) by (auto simp: c)
  note a = AllowN_log [OF Cons.prems(1,2) t(1,2) r]
  define H1 where "H1 = H @ (if b then replicate (nat n) ts else [])"
  have IH: "exact limit window H1 cs oks1" "\<forall>t. int (in_window window t (H1 @ admitted cs oks1)) \<le> limit"
    using Cons.IH [OF a(2) Cons.prems(2) t(3) rest(1)] by (simp_all add: H1_def)
  have "oks ! i \<longleftrightarrow> int (in_window window (fst (fst ((c # cs) ! i))) (H @ admitted (take i (c # cs)) (take i oks))) + snd ((c # cs) ! i) \<le> limit"
    if i: "i < length (c # cs)" for i
  proof (cases i)
    case 0
    then show ?thesis using a(1) by (simp add: rest(2) c)
  next
    case (Suc j)
    then have "H @ admitted (take i (c # cs)) (take i oks) = H1 @ admitted (take j cs) (take j oks1)" by (simp add: rest(2) c H1_def)
    then show ?thesis using IH(1) Suc i by (simp add: exact_def rest(2))
  qed
  then have "exact limit window H (c # cs) oks" using IH(1) by (simp add: exact_def rest(2))
  moreover have "H @ admitted (c # cs) oks = H1 @ admitted cs oks1" by (simp add: rest(2) c H1_def)
  ultimately show ?case using IH(2) by simp
qed

section \<open>Keys do not interfere\<close>

definition calls_of :: "'k \<Rightarrow> ('k \<times> 'c) list \<Rightarrow> 'c list" where
  "calls_of k cs = map snd (filter (\<lambda>c. fst c = k) cs)"

definition limiter_of :: "('k, 'l) KeyedLimiter \<Rightarrow> 'k \<Rightarrow> 'l" where
  "limiter_of kl k = (case limiters kl k of None \<Rightarrow> factory kl | Some l \<Rightarrow> l)"

lemma kl_call_limiter:
  assumes "kl_call f key kl = (kl', r)"
  shows "r = snd (f (limiter_of kl key))" "limiter_of kl' k = (if k = key then fst (f (limiter_of kl key)) else limiter_of kl k)"
  using assms by (auto simp: kl_call_def getLimiter_def limiter_of_def Let_def split: option.splits prod.splits)

lemma kl_run_calls_of:
  "kl_run cs kl = (kl', oks) \<Longrightarrow> calls_of k oks = snd (sw_run (calls_of k cs) (limiter_of kl k))"
proof (induction cs arbitrary: kl oks)
  case (Cons c cs)
  obtain key clock n where c: "c = (key, clock, n)" by (metis prod.exhaust)
  obtain kl1 b where r: "kl_call (sw_AllowN clock n) key kl = (kl1, b)" by fastforce
  obtain oks1 where rest: "kl_run cs kl1 = (kl', oks1)" "oks = (key, b) # oks1" using Cons.prems by (auto simp: c r kl_AllowN_def split: prod.splits)
  note l = kl_call_limiter [OF r]
  show ?case using Cons.IH [OF rest(1)] l by (auto simp: rest(2) c calls_of_def split_beta)
qed (simp add: calls_of_def)

lemma monotone_weaken: "monotone t cs \<Longrightarrow> t' \<le> t \<Longrightarrow> monotone t' cs"
  by (cases cs) auto

lemma monotone_calls_of: "monotone t (map snd cs) \<Longrightarrow> monotone t (calls_of k cs)"
proof (induction cs arbitrary: t)
  case (Cons c cs)
  obtain key tc ts n where c: "c = (key, (tc, ts), n)" by (metis prod.exhaust)
  have "monotone ts (calls_of k cs)" "t \<le> tc" "tc \<le> ts" using Cons by (auto simp: c)
  then show ?case using monotone_weaken [of ts "calls_of k cs" t] by (auto simp: c calls_of_def)
qed (simp add: calls_of_def)



end
