(* ===== verification/Payment.thy ===== *)
theory Payment
  imports Prelude
begin

text \<open>
  \<^verbatim>\<open>pkg/commerce/commerce.go\<close> (money in minor units) and \<^verbatim>\<open>pkg/commerce/payment\<close> with its in-memory provider: charge, authorize,
  capture, void and refund.  Amounts are \<open>64 word\<close> read as signed numbers.  The identifier a call draws (a UUID) and its
  instant are arguments; \<open>ended\<close> says that the context has ended.  Strings are ASCII.
\<close>

section \<open>Money\<close>

record Money =
  Amount :: i64
  Currency :: string

definition NewMoney :: "i64 \<Rightarrow> string \<Rightarrow> Money" where
  "NewMoney amount currency = \<lparr>Amount = amount, Currency = map upper_char (trimSpace currency)\<rparr>"

definition money_Zero :: "string \<Rightarrow> Money" where
  "money_Zero currency = NewMoney 0 currency"

definition IsZero :: "Money \<Rightarrow> bool" where
  "IsZero m = (Amount m = 0)"

definition money_Equal :: "Money \<Rightarrow> Money \<Rightarrow> bool" where
  "money_Equal m other = (Amount m = Amount other \<and> equalFold (Currency m) (Currency other))"

definition SameCurrency :: "Money \<Rightarrow> Money \<Rightarrow> bool" where
  "SameCurrency m other = equalFold (Currency m) (Currency other)"

datatype pay_error =
  ErrContext | ErrCurrencyRequired | ErrCurrencyMismatch string string | ErrIdempotencyConflict | ErrDeclined | ErrNotAuthorized |
  ErrNotFound | ErrConflict | ErrInvalidArgument string

definition money_Add :: "Money \<Rightarrow> Money \<Rightarrow> pay_error + Money" where
  "money_Add m other =
     (if Currency m = '''' \<or> Currency other = '''' then Inl ErrCurrencyRequired
      else if \<not> SameCurrency m other then Inl (ErrCurrencyMismatch (Currency m) (Currency other))
      else Inr (NewMoney (Amount m + Amount other) (Currency m)))"

definition money_Sub :: "Money \<Rightarrow> Money \<Rightarrow> pay_error + Money" where
  "money_Sub m other =
     (if Currency m = '''' \<or> Currency other = '''' then Inl ErrCurrencyRequired
      else if \<not> SameCurrency m other then Inl (ErrCurrencyMismatch (Currency m) (Currency other))
      else Inr (NewMoney (Amount m - Amount other) (Currency m)))"

definition Negate :: "Money \<Rightarrow> Money" where
  "Negate m = NewMoney (- Amount m) (Currency m)"

definition money_Validate :: "Money \<Rightarrow> pay_error option" where
  "money_Validate m = (if trimSpace (Currency m) = '''' then Some ErrCurrencyRequired else None)"

section \<open>Transactions\<close>

datatype TransactionStatus = StatusPending | StatusAuthorized | StatusSucceeded | StatusFailed | StatusRefunded | StatusVoided

type_synonym metadata = "(string \<rightharpoonup> string) option"

record ChargeRequest =
  cr_Amount :: Money
  cr_SourceID :: string
  cr_Description :: string
  cr_Metadata :: metadata
  cr_IdempotencyKey :: string

record RefundRequest =
  rr_TransactionID :: string
  rr_Amount :: Money
  rr_Reason :: string

record CaptureRequest =
  cap_TransactionID :: string
  cap_Amount :: Money

record Transaction =
  tx_ID :: string
  tx_Amount :: Money
  tx_Status :: TransactionStatus
  tx_SourceID :: string
  tx_Description :: string
  tx_CreatedAt :: int
  tx_Metadata :: metadata
  tx_IdempotencyKey :: string

record Provider =
  transactions :: "string \<rightharpoonup> Transaction"
  idempotency :: "string \<rightharpoonup> string"

type_synonym pay_result = "pay_error + Transaction"

definition pay_New :: Provider where
  "pay_New = \<lparr>transactions = Map.empty, idempotency = Map.empty\<rparr>"

definition new_tx :: "string \<Rightarrow> int \<Rightarrow> TransactionStatus \<Rightarrow> ChargeRequest \<Rightarrow> Transaction" where
  "new_tx i now status req =
     \<lparr>tx_ID = i, tx_Amount = cr_Amount req, tx_Status = status, tx_SourceID = cr_SourceID req, tx_Description = cr_Description req,
      tx_CreatedAt = now, tx_Metadata = cr_Metadata req, tx_IdempotencyKey = cr_IdempotencyKey req\<rparr>"

definition Charge :: "bool \<Rightarrow> string \<Rightarrow> int \<Rightarrow> ChargeRequest \<Rightarrow> Provider \<Rightarrow> Provider \<times> pay_result" where
  "Charge ended uuid now req p =
     (if ended then (p, Inl ErrContext)
      else case money_Validate (cr_Amount req) of
        Some err \<Rightarrow> (p, Inl err)
      | None \<Rightarrow>
          (let key = cr_IdempotencyKey req; existing = (if key \<noteq> '''' then idempotency p key else None)
           in case existing of
                Some existingID \<Rightarrow>
                  (case transactions p existingID of
                     Some tx \<Rightarrow> if money_Equal (tx_Amount tx) (cr_Amount req) \<and> tx_SourceID tx = cr_SourceID req then (p, Inr tx)
                                else (p, Inl ErrIdempotencyConflict)
                   | None \<Rightarrow> (p, Inl ErrIdempotencyConflict))
              | None \<Rightarrow>
                  if cr_SourceID req = ''fail_card'' then (p, Inl ErrDeclined)
                  else
                    (let tx = new_tx uuid now StatusSucceeded req;
                         p = p\<lparr>transactions := (transactions p)(uuid \<mapsto> tx)\<rparr>;
                         p = (if key \<noteq> '''' then p\<lparr>idempotency := (idempotency p)(key \<mapsto> uuid)\<rparr> else p)
                     in (p, Inr tx))))"

definition pay_Authorize :: "bool \<Rightarrow> string \<Rightarrow> int \<Rightarrow> ChargeRequest \<Rightarrow> Provider \<Rightarrow> Provider \<times> pay_result" where
  "pay_Authorize ended uuid now req p =
     (if ended then (p, Inl ErrContext)
      else case money_Validate (cr_Amount req) of
        Some err \<Rightarrow> (p, Inl err)
      | None \<Rightarrow>
          if cr_SourceID req = ''fail_card'' then (p, Inl ErrDeclined)
          else (let tx = new_tx uuid now StatusAuthorized req in (p\<lparr>transactions := (transactions p)(uuid \<mapsto> tx)\<rparr>, Inr tx)))"

definition Capture :: "bool \<Rightarrow> CaptureRequest \<Rightarrow> Provider \<Rightarrow> Provider \<times> pay_result" where
  "Capture ended req p =
     (if ended then (p, Inl ErrContext)
      else case transactions p (cap_TransactionID req) of
        None \<Rightarrow> (p, Inl ErrNotFound)
      | Some tx \<Rightarrow>
          if tx_Status tx \<noteq> StatusAuthorized then (p, Inl ErrNotAuthorized)
          else
            (let capture = (\<lambda>amt. (let tx = tx\<lparr>tx_Amount := amt, tx_Status := StatusSucceeded\<rparr>
                                   in (p\<lparr>transactions := (transactions p)(cap_TransactionID req \<mapsto> tx)\<rparr>, Inr tx)))
             in if IsZero (cap_Amount req) then capture (tx_Amount tx)
                else if \<not> SameCurrency (cap_Amount req) (tx_Amount tx) then (p, Inl (ErrInvalidArgument ''capture currency mismatch''))
                else if sint (Amount (cap_Amount req)) > sint (Amount (tx_Amount tx))
                then (p, Inl (ErrInvalidArgument ''capture exceeds authorized amount''))
                else capture (cap_Amount req)))"

definition Void :: "bool \<Rightarrow> string \<Rightarrow> Provider \<Rightarrow> Provider \<times> pay_result" where
  "Void ended i p =
     (if ended then (p, Inl ErrContext)
      else case transactions p i of
        None \<Rightarrow> (p, Inl ErrNotFound)
      | Some tx \<Rightarrow>
          if tx_Status tx \<noteq> StatusAuthorized then (p, Inl ErrNotAuthorized)
          else (let tx = tx\<lparr>tx_Status := StatusVoided\<rparr> in (p\<lparr>transactions := (transactions p)(i \<mapsto> tx)\<rparr>, Inr tx)))"

definition Refund :: "bool \<Rightarrow> string \<Rightarrow> int \<Rightarrow> RefundRequest \<Rightarrow> Provider \<Rightarrow> Provider \<times> pay_result" where
  "Refund ended uuid now req p =
     (if ended then (p, Inl ErrContext)
      else case transactions p (rr_TransactionID req) of
        None \<Rightarrow> (p, Inl ErrNotFound)
      | Some tx \<Rightarrow>
          if tx_Status tx = StatusRefunded then (p, Inl ErrConflict)
          else if tx_Status tx \<noteq> StatusSucceeded then (p, Inl (ErrInvalidArgument ''only succeeded transactions can be refunded''))
          else
            (let refundAmt = (if IsZero (rr_Amount req) then tx_Amount tx
                              else if Currency (rr_Amount req) = '''' then (rr_Amount req)\<lparr>Currency := Currency (tx_Amount tx)\<rparr>
                              else rr_Amount req);
                 refundTx = \<lparr>tx_ID = uuid, tx_Amount = refundAmt, tx_Status = StatusRefunded, tx_SourceID = tx_SourceID tx,
                   tx_Description = ''Refund for '' @ tx_ID tx @ '': '' @ rr_Reason req, tx_CreatedAt = now, tx_Metadata = None, tx_IdempotencyKey = ''''\<rparr>;
                 m = (transactions p)(rr_TransactionID req \<mapsto> tx\<lparr>tx_Status := StatusRefunded\<rparr>)
             in (p\<lparr>transactions := m(uuid \<mapsto> refundTx)\<rparr>, Inr refundTx)))"

definition GetTransaction :: "bool \<Rightarrow> string \<Rightarrow> Provider \<Rightarrow> pay_result" where
  "GetTransaction ended i p =
     (if ended then Inl ErrContext else case transactions p i of None \<Rightarrow> Inl ErrNotFound | Some tx \<Rightarrow> Inr tx)"

section \<open>Runs\<close>

datatype pay_op =
    OCharge ChargeRequest string int
  | OAuthorize ChargeRequest string int
  | OCapture CaptureRequest
  | OVoid string
  | ORefund RefundRequest string int

fun pay_step :: "bool \<times> pay_op \<Rightarrow> Provider \<Rightarrow> Provider \<times> pay_result" where
  "pay_step (ended, OCharge req uuid now) p = Charge ended uuid now req p"
| "pay_step (ended, OAuthorize req uuid now) p = pay_Authorize ended uuid now req p"
| "pay_step (ended, OCapture req) p = Capture ended req p"
| "pay_step (ended, OVoid i) p = Void ended i p"
| "pay_step (ended, ORefund req uuid now) p = Refund ended uuid now req p"

fun pay_run :: "(bool \<times> pay_op) list \<Rightarrow> Provider \<Rightarrow> Provider \<times> ((bool \<times> pay_op) \<times> pay_result) list" where
  "pay_run [] p = (p, [])"
| "pay_run (a # as) p = (let (p, r) = pay_step a p; (p, log) = pay_run as p in (p, (a, r) # log))"

fun pay_draws :: "pay_op \<Rightarrow> string list" where
  "pay_draws (OCharge req uuid now) = [uuid]"
| "pay_draws (OAuthorize req uuid now) = [uuid]"
| "pay_draws (ORefund req uuid now) = [uuid]"
| "pay_draws _ = []"

definition all_uuids :: "(bool \<times> pay_op) list \<Rightarrow> string list" where
  "all_uuids as = concat (map (pay_draws \<circ> snd) as)"

section \<open>The life of a transaction\<close>

definition captured :: "Money \<Rightarrow> Money \<Rightarrow> bool" where
  "captured m amt \<longleftrightarrow> amt = m \<or> SameCurrency amt m \<and> sint (Amount amt) \<le> sint (Amount m)"

definition tx_evolves :: "Transaction \<Rightarrow> Transaction \<Rightarrow> bool" where
  "tx_evolves tx tx' \<longleftrightarrow> tx' = tx \<or>
     tx_Status tx = StatusAuthorized \<and> tx' = tx\<lparr>tx_Status := StatusVoided\<rparr> \<or>
     tx_Status tx = StatusAuthorized \<and>
       (\<exists>amt st. captured (tx_Amount tx) amt \<and> st \<in> {StatusSucceeded, StatusRefunded} \<and> tx' = tx\<lparr>tx_Amount := amt, tx_Status := st\<rparr>) \<or>
     tx_Status tx = StatusSucceeded \<and> tx' = tx\<lparr>tx_Status := StatusRefunded\<rparr>"

lemma tx_evolves_refl: "tx_evolves tx tx"
  by (simp add: tx_evolves_def)

lemma tx_evolves_capture:
  "tx_Status tx = StatusAuthorized \<Longrightarrow> captured (tx_Amount tx) amt \<Longrightarrow> tx_evolves tx (tx\<lparr>tx_Amount := amt, tx_Status := StatusSucceeded\<rparr>)"
  unfolding tx_evolves_def by blast

lemma tx_evolves_trans: "tx_evolves a b \<Longrightarrow> tx_evolves b c \<Longrightarrow> tx_evolves a c"
  unfolding tx_evolves_def by (elim disjE conjE exE) (auto intro: exI)

lemma Charge_store:
  "i \<noteq> uuid \<Longrightarrow> transactions (fst (Charge ended uuid now req p)) i = transactions p i"
  by (simp add: Charge_def Let_def split: option.split)

lemma Authorize_store:
  "i \<noteq> uuid \<Longrightarrow> transactions (fst (pay_Authorize ended uuid now req p)) i = transactions p i"
  by (simp add: pay_Authorize_def Let_def split: option.split)

lemma pay_step_evolves:
  assumes t: "transactions p i = Some tx" and i: "i \<notin> set (pay_draws (snd a))"
  shows "\<exists>tx'. transactions (fst (pay_step a p)) i = Some tx' \<and> tx_evolves tx tx'"
proof (cases a)
  case (Pair ended op)
  show ?thesis
  proof (cases op)
    case (OCharge req uuid now)
    then show ?thesis using t i Pair Charge_store tx_evolves_refl by auto
  next
    case (OAuthorize req uuid now)
    then show ?thesis using t i Pair Authorize_store tx_evolves_refl by auto
  next
    case (OCapture req)
    then show ?thesis using t Pair
      by (cases "i = cap_TransactionID req")
        (auto simp: Capture_def captured_def Let_def split: option.split intro: tx_evolves_refl
          tx_evolves_capture [of tx "tx_Amount tx", simplified captured_def, simplified] tx_evolves_capture)
  next
    case (OVoid j)
    then show ?thesis using t Pair by (cases "i = j") (auto simp: Void_def tx_evolves_def Let_def split: option.split)
  next
    case (ORefund req uuid now)
    then show ?thesis using t i Pair
      by (cases "i = rr_TransactionID req") (auto simp: Refund_def tx_evolves_def Let_def split: option.split)
  qed
qed

text \<open>The store: names are drawn, transactions carry their own name, remembered keys lead to paid transactions.\<close>

definition settled :: "Transaction \<Rightarrow> bool" where
  "settled tx \<longleftrightarrow> tx_Status tx \<in> {StatusSucceeded, StatusRefunded}"

definition pay_ok :: "string set \<Rightarrow> Provider \<Rightarrow> bool" where
  "pay_ok D p \<longleftrightarrow> dom (transactions p) \<subseteq> D \<and> (\<forall>i tx. transactions p i = Some tx \<longrightarrow> tx_ID tx = i) \<and>
     (\<forall>k i. idempotency p k = Some i \<longrightarrow> (\<exists>tx. transactions p i = Some tx \<and> settled tx))"

lemma evolves_keeps:
  assumes "tx_evolves tx tx'"
  shows "tx_ID tx' = tx_ID tx" "tx_SourceID tx' = tx_SourceID tx" "settled tx \<Longrightarrow> settled tx' \<and> tx_Amount tx' = tx_Amount tx"
  using assms by (auto simp: tx_evolves_def settled_def)

lemma new_entries:
  assumes "transactions (fst (pay_step a p)) i = Some tx" "i \<in> set (pay_draws (snd a))" "transactions p i = None"
  shows "tx_ID tx = i"
proof -
  obtain ended op where a: "a = (ended, op)" by fastforce
  show ?thesis
  proof (cases op)
    case (OCharge req uuid now)
    then show ?thesis using assms a by (auto simp: Charge_def new_tx_def Let_def split: option.splits if_splits)
  next
    case (OAuthorize req uuid now)
    then show ?thesis using assms a by (auto simp: pay_Authorize_def new_tx_def Let_def split: option.splits if_splits)
  next
    case (ORefund req uuid now)
    then show ?thesis using assms a by (auto simp: Refund_def Let_def split: option.splits if_splits)
  qed (use assms a in auto)
qed

lemma store_dom: "dom (transactions (fst (pay_step a p))) \<subseteq> dom (transactions p) \<union> set (pay_draws (snd a))"
proof -
  obtain ended op where "a = (ended, op)" by fastforce
  then show ?thesis
    by (cases op) (auto simp: Charge_def pay_Authorize_def Capture_def Void_def Refund_def Let_def split: option.splits if_splits)
qed

text \<open>Only a successful charge with a new key changes the remembered keys.\<close>

lemma idem_step:
  "idempotency (fst (pay_step a p)) = idempotency p \<or>
   (\<exists>req uuid now. snd a = OCharge req uuid now \<and> cr_IdempotencyKey req \<noteq> '''' \<and> idempotency p (cr_IdempotencyKey req) = None \<and>
      idempotency (fst (pay_step a p)) = (idempotency p)(cr_IdempotencyKey req \<mapsto> uuid) \<and>
      transactions (fst (pay_step a p)) uuid = Some (new_tx uuid now StatusSucceeded req))"
proof -
  obtain ended op where "a = (ended, op)" by fastforce
  then show ?thesis
    by (cases op) (auto simp: Charge_def pay_Authorize_def Capture_def Void_def Refund_def Let_def split: option.splits if_splits)
qed

lemma pay_ok_step:
  assumes ok: "pay_ok D p" and d: "D \<inter> set (pay_draws (snd a)) = {}"
  shows "pay_ok (D \<union> set (pay_draws (snd a))) (fst (pay_step a p))"
  unfolding pay_ok_def
proof (intro conjI allI impI)
  let ?p = "fst (pay_step a p)"
  have known: "transactions p i = Some tx \<Longrightarrow> i \<notin> set (pay_draws (snd a))" for i tx using ok d by (auto simp: pay_ok_def)
  show "dom (transactions ?p) \<subseteq> D \<union> set (pay_draws (snd a))" using store_dom [of a p] ok by (auto simp: pay_ok_def)
  show "tx_ID tx = i" if "transactions ?p i = Some tx" for i tx
  proof (cases "transactions p i")
    case None
    then show ?thesis using new_entries [OF that _ None] store_dom [of a p] that by blast
  next
    case (Some t0)
    then show ?thesis using pay_step_evolves [OF Some known [OF Some]] that ok evolves_keeps(1) by (fastforce simp: pay_ok_def)
  qed
  have old: "\<exists>tx. transactions ?p i = Some tx \<and> settled tx" if k: "idempotency p k = Some i" for k i
  proof -
    obtain t0 where t0: "transactions p i = Some t0" "settled t0" using ok k unfolding pay_ok_def by blast
    then show ?thesis using pay_step_evolves [OF t0(1) known [OF t0(1)]] evolves_keeps(3) by blast
  qed
  show "\<exists>tx. transactions ?p i = Some tx \<and> settled tx" if "idempotency ?p k = Some i" for k i
    using idem_step [of a p] that old by (auto simp: new_tx_def settled_def split: if_splits)
qed

section \<open>Idempotent charges\<close>

text \<open>The receipts a log has for a key.\<close>

fun receipt :: "string \<Rightarrow> (bool \<times> pay_op) \<times> pay_result \<Rightarrow> Transaction list" where
  "receipt k ((ended, OCharge req uuid now), Inr tx) = (if cr_IdempotencyKey req = k then [tx] else [])"
| "receipt k _ = []"

definition receipts :: "string \<Rightarrow> ((bool \<times> pay_op) \<times> pay_result) list \<Rightarrow> Transaction list" where
  "receipts k log = concat (map (receipt k) log)"

definition paid :: "string \<Rightarrow> Provider \<Rightarrow> Transaction \<Rightarrow> bool" where
  "paid k p tx \<longleftrightarrow> idempotency p k = Some (tx_ID tx) \<and>
     (\<exists>t. transactions p (tx_ID tx) = Some t \<and> settled t \<and> tx_Amount t = tx_Amount tx \<and> tx_SourceID t = tx_SourceID tx)"

lemma paid_step:
  assumes ok: "pay_ok D p" and d: "D \<inter> set (pay_draws (snd a)) = {}" and pd: "paid k p tx"
  shows "paid k (fst (pay_step a p)) tx"
proof -
  obtain t where t: "transactions p (tx_ID tx) = Some t" "settled t" "tx_Amount t = tx_Amount tx" "tx_SourceID t = tx_SourceID tx"
    and k: "idempotency p k = Some (tx_ID tx)" using pd by (auto simp: paid_def)
  have "tx_ID tx \<notin> set (pay_draws (snd a))" using ok d t(1) by (auto simp: pay_ok_def)
  from pay_step_evolves [OF t(1) this] obtain t' where t': "transactions (fst (pay_step a p)) (tx_ID tx) = Some t'" "tx_evolves t t'" by blast
  have "idempotency (fst (pay_step a p)) k = Some (tx_ID tx)" using idem_step [of a p] k by auto
  then show ?thesis using t t' evolves_keeps [OF t'(2)] by (simp add: paid_def)
qed

lemma receipt_paid:
  assumes ok: "pay_ok D p" and k: "k \<noteq> ''''" and st: "pay_step a p = (p', r)" and tx: "tx \<in> set (receipt k (a, r))"
  shows "paid k p' tx" "paid k p tx0 \<Longrightarrow> tx_ID tx = tx_ID tx0 \<and> tx_Amount tx = tx_Amount tx0 \<and> tx_SourceID tx = tx_SourceID tx0"
proof -
  obtain ended req uuid now where a: "a = (ended, OCharge req uuid now)" "cr_IdempotencyKey req = k" "r = Inr tx"
    using tx by (cases "(k, (a, r))" rule: receipt.cases) (auto split: if_splits)
  have c: "Charge ended uuid now req p = (p', Inr tx)" using st a by simp
  show "paid k p' tx"
  proof (cases "idempotency p k")
    case None
    then show ?thesis using c k a(2) by (auto simp: Charge_def paid_def settled_def new_tx_def Let_def split: option.splits if_splits)
  next
    case (Some i)
    then obtain t where t: "transactions p i = Some t" "settled t" "tx_ID t = i" using ok unfolding pay_ok_def by blast
    then show ?thesis using c k a(2) Some by (auto simp: Charge_def paid_def Let_def split: option.splits if_splits)
  qed
  assume "paid k p tx0"
  then obtain t where t: "idempotency p k = Some (tx_ID tx0)" "transactions p (tx_ID tx0) = Some t" "tx_Amount t = tx_Amount tx0" "tx_SourceID t = tx_SourceID tx0"
    by (auto simp: paid_def)
  then have "tx = t" using c k a(2) by (auto simp: Charge_def Let_def split: option.splits if_splits)
  then show "tx_ID tx = tx_ID tx0 \<and> tx_Amount tx = tx_Amount tx0 \<and> tx_SourceID tx = tx_SourceID tx0" using t ok by (auto simp: pay_ok_def)
qed

definition same_payment :: "Transaction \<Rightarrow> Transaction \<Rightarrow> bool" where
  "same_payment a b \<longleftrightarrow> tx_ID a = tx_ID b \<and> tx_Amount a = tx_Amount b \<and> tx_SourceID a = tx_SourceID b"

lemma all_uuids_simps [simp]: "all_uuids [] = []" "all_uuids (a # as) = pay_draws (snd a) @ all_uuids as"
  by (simp_all add: all_uuids_def)

lemma receipts_simps [simp]: "receipts k [] = []" "receipts k (e # log) = receipt k e @ receipts k log"
  by (simp_all add: receipts_def)

lemma receipts_run:
  assumes k: "k \<noteq> ''''"
  shows "pay_ok D p \<Longrightarrow> D \<inter> set (all_uuids as) = {} \<Longrightarrow> distinct (all_uuids as) \<Longrightarrow> pay_run as p = (p', log) \<Longrightarrow>
    (\<forall>tx0. paid k p tx0 \<longrightarrow> (\<forall>x \<in> set (receipts k log). same_payment x tx0)) \<and>
    (\<forall>x \<in> set (receipts k log). \<forall>y \<in> set (receipts k log). same_payment x y)"
proof (induction as arbitrary: D p p' log)
  case (Cons a as)
  obtain p1 r where st: "pay_step a p = (p1, r)" by fastforce
  obtain log1 where rest: "pay_run as p1 = (p', log1)" "log = (a, r) # log1" using Cons.prems(4) by (auto simp: st split: prod.splits)
  have d: "D \<inter> set (pay_draws (snd a)) = {}" "(D \<union> set (pay_draws (snd a))) \<inter> set (all_uuids as) = {}" "distinct (all_uuids as)"
    using Cons.prems(2,3) by auto
  have ok1: "pay_ok (D \<union> set (pay_draws (snd a))) p1" using pay_ok_step [OF Cons.prems(1) d(1)] st by simp
  note IH = Cons.IH [OF ok1 d(2,3) rest(1)]
  have keep: "paid k p tx0 \<Longrightarrow> paid k p1 tx0" for tx0 using paid_step [OF Cons.prems(1) d(1)] st by auto
  note rc = receipt_paid [OF Cons.prems(1) k st]
  have sym: "same_payment x y \<Longrightarrow> same_payment y x" for x y by (simp add: same_payment_def)
  have mem: "x \<in> set (receipts k log) \<longleftrightarrow> x \<in> set (receipt k (a, r)) \<or> x \<in> set (receipts k log1)" for x by (simp add: rest(2))
  have old: "same_payment x tx0" if pd: "paid k p tx0" and x: "x \<in> set (receipts k log)" for x tx0
  proof (cases "x \<in> set (receipt k (a, r))")
    case True
    then show ?thesis using rc(2) [OF True pd] by (simp add: same_payment_def)
  next
    case False
    then show ?thesis using x IH keep [OF pd] mem by blast
  qed
  have here: "x = y" if "x \<in> set (receipt k (a, r))" "y \<in> set (receipt k (a, r))" for x y
    using that by (cases "(k, (a, r))" rule: receipt.cases) (auto split: if_splits)
  have later: "same_payment y x" if "x \<in> set (receipt k (a, r))" "y \<in> set (receipts k log1)" for x y
    using rc(1) [OF that(1)] that(2) IH by blast
  have "same_payment x x" for x by (simp add: same_payment_def)
  then have "same_payment x y" if "x \<in> set (receipts k log)" "y \<in> set (receipts k log)" for x y
    using that(1) that(2) unfolding mem using IH here later sym by blast
  then show ?case using old by blast
qed simp

text \<open>
  C26: Charges are idempotent.  In every run of a new provider with distinct identifiers, whatever is charged, authorized, captured, voided and refunded
  in between, all successful charges with one (non-empty) idempotency key return one and the same transaction, with one amount and one source: the key pays once.
\<close>

theorem payment_idempotent:
  assumes "k \<noteq> ''''" "distinct (all_uuids as)" "pay_run as pay_New = (p, log)"
  shows "\<forall>x \<in> set (receipts k log). \<forall>y \<in> set (receipts k log). tx_ID x = tx_ID y \<and> tx_Amount x = tx_Amount y \<and> tx_SourceID x = tx_SourceID y"
proof -
  have "pay_ok {} pay_New" by (simp add: pay_ok_def pay_New_def)
  from receipts_run [OF assms(1) this Int_empty_left assms(2,3)] show ?thesis unfolding same_payment_def by blast
qed

definition demo_charge :: ChargeRequest where
  "demo_charge = \<lparr>cr_Amount = \<lparr>Amount = 100, Currency = ''USD''\<rparr>, cr_SourceID = ''card'', cr_Description = '''', cr_Metadata = None,
     cr_IdempotencyKey = ''k''\<rparr>"

lemmas pay_eval = Charge_def Refund_def money_Validate_def trimSpace_def is_space_def money_Equal_def equalFold_def
  lower_char_def new_tx_def pay_New_def IsZero_def demo_charge_def Let_def

theorem payment_idempotent_witness:
  "\<exists>p log. pay_run [(False, OCharge demo_charge ''1'' 0), (False, OCharge demo_charge ''2'' 5)] pay_New = (p, log) \<and>
     length (receipts ''k'' log) = 2 \<and> tx_ID (receipts ''k'' log ! 0) = tx_ID (receipts ''k'' log ! 1)"
proof -
  obtain p log where r: "pay_run [(False, OCharge demo_charge ''1'' 0), (False, OCharge demo_charge ''2'' 5)] pay_New = (p, log)" by fastforce
  have l: "length (receipts ''k'' log) = 2" using r by (auto simp: pay_eval)
  have "\<forall>x \<in> set (receipts ''k'' log). \<forall>y \<in> set (receipts ''k'' log). tx_ID x = tx_ID y \<and> tx_Amount x = tx_Amount y \<and> tx_SourceID x = tx_SourceID y"
    by (rule payment_idempotent [OF _ _ r]) auto
  then show ?thesis using r l by auto
qed

section \<open>Money is captured and refunded at most once\<close>

lemma pay_run_ok:
  "pay_ok D p \<Longrightarrow> D \<inter> set (all_uuids as) = {} \<Longrightarrow> distinct (all_uuids as) \<Longrightarrow> pay_run as p = (p', log) \<Longrightarrow> pay_ok (D \<union> set (all_uuids as)) p'"
proof (induction as arbitrary: D p log)
  case (Cons a as)
  obtain p1 r where st: "pay_step a p = (p1, r)" by fastforce
  obtain log1 where rest: "pay_run as p1 = (p', log1)" using Cons.prems(4) by (auto simp: st split: prod.splits)
  have d: "D \<inter> set (pay_draws (snd a)) = {}" "(D \<union> set (pay_draws (snd a))) \<inter> set (all_uuids as) = {}" "distinct (all_uuids as)"
    using Cons.prems(2,3) by auto
  have "pay_ok (D \<union> set (pay_draws (snd a))) p1" using pay_ok_step [OF Cons.prems(1) d(1)] st by simp
  from Cons.IH [OF this d(2,3) rest] show ?case by (simp add: Un_assoc)
qed simp

lemma pay_run_evolves:
  "transactions p i = Some tx \<Longrightarrow> i \<notin> set (all_uuids as) \<Longrightarrow> pay_run as p = (p', log) \<Longrightarrow>
   \<exists>tx'. transactions p' i = Some tx' \<and> tx_evolves tx tx'"
proof (induction as arbitrary: p tx log)
  case Nil
  then show ?case by (simp add: tx_evolves_refl)
next
  case (Cons a as)
  obtain p1 r where st: "pay_step a p = (p1, r)" by fastforce
  obtain log1 where rest: "pay_run as p1 = (p', log1)" using Cons.prems(3) by (auto simp: st split: prod.splits)
  have "i \<notin> set (pay_draws (snd a))" "i \<notin> set (all_uuids as)" using Cons.prems(2) by auto
  then obtain tx1 where t1: "transactions p1 i = Some tx1" "tx_evolves tx tx1" using pay_step_evolves [OF Cons.prems(1)] st by fastforce
  obtain tx2 where "transactions p' i = Some tx2" "tx_evolves tx1 tx2" using Cons.IH [OF t1(1) _ rest] \<open>i \<notin> set (all_uuids as)\<close> by blast
  then show ?case using tx_evolves_trans [OF t1(2)] by blast
qed


definition demo_capture :: CaptureRequest where
  "demo_capture = \<lparr>cap_TransactionID = ''1'', cap_Amount = \<lparr>Amount = 60, Currency = ''usd''\<rparr>\<rparr>"


text \<open>A refund is not bounded by the payment.  A charge of 100 cents can be refunded with a million in another currency; and a refund of one cent closes
  the transaction, so that the rest can never be refunded.
\<close>

lemma payment_over_refund:
  "map snd (snd (pay_run [(False, OCharge demo_charge ''1'' 0),
      (False, ORefund \<lparr>rr_TransactionID = ''1'', rr_Amount = \<lparr>Amount = 100000000, Currency = ''EUR''\<rparr>, rr_Reason = ''''\<rparr> ''2'' 1)] pay_New)) ! 1 =
   Inr \<lparr>tx_ID = ''2'', tx_Amount = \<lparr>Amount = 100000000, Currency = ''EUR''\<rparr>, tx_Status = StatusRefunded, tx_SourceID = ''card'',
     tx_Description = ''Refund for 1: '', tx_CreatedAt = 1, tx_Metadata = None, tx_IdempotencyKey = ''''\<rparr> \<and>
   map snd (snd (pay_run [(False, OCharge demo_charge ''1'' 0),
      (False, ORefund \<lparr>rr_TransactionID = ''1'', rr_Amount = \<lparr>Amount = 1, Currency = ''USD''\<rparr>, rr_Reason = ''''\<rparr> ''2'' 1),
      (False, ORefund \<lparr>rr_TransactionID = ''1'', rr_Amount = \<lparr>Amount = 99, Currency = ''USD''\<rparr>, rr_Reason = ''''\<rparr> ''3'' 2)] pay_New)) ! 2 =
   Inl ErrConflict"
  by (simp add: pay_eval)

end
