(* ===== verification/Connectivity.thy ===== *)
theory Connectivity
  imports Prelude
begin

text \<open>
  Connectivity of an undirected edge set, and the exchange argument for spanning forests.  \<^verbatim>\<open>Union_Find\<close> represents the relation
  \<open>conn\<close>; \<^verbatim>\<open>Kruskal\<close> uses the exchange.  An edge is any type with a function \<open>ends\<close> to its two vertices, so parallel edges and
  self-loops are allowed.
\<close>

section \<open>Connected vertices\<close>

definition conn :: "('v \<times> 'v) set \<Rightarrow> ('v \<times> 'v) set" where
  "conn R = (R \<union> R\<inverse>)\<^sup>*"

lemma conn_refl [simp, intro]: "(u, u) \<in> conn R"
  by (simp add: conn_def)

lemma conn_sym: "(u, v) \<in> conn R \<Longrightarrow> (v, u) \<in> conn R"
  unfolding conn_def by (rule symD [OF sym_rtrancl [OF sym_Un_converse]])

lemma conn_trans: "(u, v) \<in> conn R \<Longrightarrow> (v, w) \<in> conn R \<Longrightarrow> (u, w) \<in> conn R"
  unfolding conn_def by (rule rtrancl_trans)

lemma conn_edge: "(u, v) \<in> R \<Longrightarrow> (u, v) \<in> conn R"
  by (auto simp: conn_def)

lemma conn_mono: "R \<subseteq> S \<Longrightarrow> (u, v) \<in> conn R \<Longrightarrow> (u, v) \<in> conn S"
  unfolding conn_def by (rule subsetD [OF rtrancl_mono]) auto

lemma conn_empty: "(u, v) \<in> conn {} \<longleftrightarrow> u = v"
  by (simp add: conn_def)

lemma conn_least:
  assumes "(u, v) \<in> conn R" and step: "\<And>a b. (a, b) \<in> R \<Longrightarrow> (a, b) \<in> conn S"
  shows "(u, v) \<in> conn S"
  using assms(1) unfolding conn_def [of R]
proof (induction rule: rtrancl_induct)
  case (step v w)
  then have "(v, w) \<in> R \<or> (w, v) \<in> R" by simp
  then have "(v, w) \<in> conn S" by (elim disjE) (rule assms(2), assumption, rule conn_sym, rule assms(2), assumption)
  then show ?case by (rule conn_trans [OF step.IH])
qed simp

lemma conn_insert:
  "(u, v) \<in> conn (insert (a, b) R) \<longleftrightarrow>
     (u, v) \<in> conn R \<or> (u, a) \<in> conn R \<and> (b, v) \<in> conn R \<or> (u, b) \<in> conn R \<and> (a, v) \<in> conn R"
proof
  have "insert (a, b) R \<union> (insert (a, b) R)\<inverse> = insert (a, b) (insert (b, a) (R \<union> R\<inverse>))" by auto
  then have "conn (insert (a, b) R) = (insert (a, b) (insert (b, a) (R \<union> R\<inverse>)))\<^sup>*" unfolding conn_def by simp
  then show "(u, v) \<in> conn (insert (a, b) R) \<Longrightarrow>
     (u, v) \<in> conn R \<or> (u, a) \<in> conn R \<and> (b, v) \<in> conn R \<or> (u, b) \<in> conn R \<and> (a, v) \<in> conn R"
    by (auto simp: rtrancl_insert conn_def [symmetric] intro: conn_trans)
  have m: "(x, y) \<in> conn (insert (a, b) R)" if "(x, y) \<in> conn R" for x y using that by (rule conn_mono [rotated]) auto
  have "(a, b) \<in> conn (insert (a, b) R)" by (rule conn_edge) simp
  then show "(u, v) \<in> conn R \<or> (u, a) \<in> conn R \<and> (b, v) \<in> conn R \<or> (u, b) \<in> conn R \<and> (a, v) \<in> conn R \<Longrightarrow>
     (u, v) \<in> conn (insert (a, b) R)" using m conn_sym conn_trans by metis
qed

lemma conn_absorb:
  assumes "(a, b) \<in> conn R"
  shows "conn (insert (a, b) R) = conn R"
proof -
  have "(u, v) \<in> conn (insert (a, b) R) \<longleftrightarrow> (u, v) \<in> conn R" for u v
    using assms conn_sym conn_trans unfolding conn_insert by metis
  then show ?thesis by auto
qed

section \<open>Forests of edges\<close>

text \<open>An edge set is a forest when no edge joins vertices that the other edges connect.\<close>

definition econn :: "('e \<Rightarrow> 'v \<times> 'v) \<Rightarrow> 'e set \<Rightarrow> ('v \<times> 'v) set" where
  "econn ends M = conn (ends ` M)"

definition forest :: "('e \<Rightarrow> 'v \<times> 'v) \<Rightarrow> 'e set \<Rightarrow> bool" where
  "forest ends M \<longleftrightarrow> (\<forall>e\<in>M. ends e \<notin> econn ends (M - {e}))"

lemma econn_mono: "M \<subseteq> N \<Longrightarrow> p \<in> econn ends M \<Longrightarrow> p \<in> econn ends N"
  unfolding econn_def by (cases p) (metis conn_mono image_mono)

lemma econn_insert:
  "(u, v) \<in> econn ends (insert e M) \<longleftrightarrow> (u, v) \<in> econn ends M \<or>
     (u, fst (ends e)) \<in> econn ends M \<and> (snd (ends e), v) \<in> econn ends M \<or>
     (u, snd (ends e)) \<in> econn ends M \<and> (fst (ends e), v) \<in> econn ends M"
  unfolding econn_def image_insert by (metis conn_insert prod.collapse)

lemmas econn_rules = conn_refl [of _ "ends ` M" for ends M, folded econn_def] conn_sym [of _ _ "ends ` M" for ends M, folded econn_def]
  conn_trans [of _ _ "ends ` M" for ends M, folded econn_def]

lemma econn_edge: "e \<in> M \<Longrightarrow> ends e \<in> econn ends M"
  unfolding econn_def by (cases "ends e") (metis conn_edge imageI)

lemma econn_absorb: "ends e \<in> econn ends M \<Longrightarrow> econn ends (insert e M) = econn ends M"
  unfolding econn_def image_insert by (metis conn_absorb prod.collapse)

lemma forest_bridge: "forest ends M \<Longrightarrow> e \<in> M \<Longrightarrow> ends e \<notin> econn ends (M - {e})"
  by (simp add: forest_def)

text \<open>In a forest, what survives the removal of each edge of a set survives the removal of the set.\<close>

lemma forest_remove:
  assumes "finite B" "B \<subseteq> M" "forest ends M" "\<And>f. f \<in> B \<Longrightarrow> (u, v) \<in> econn ends (M - {f})" "(u, v) \<in> econn ends M"
  shows "(u, v) \<in> econn ends (M - B)"
  using assms(1,2,4)
proof (induction rule: finite_induct)
  case empty
  then show ?case using assms(5) by simp
next
  case (insert g B)
  let ?N = "M - insert g B"
  obtain a b where g: "ends g = (a, b)" by fastforce
  have "M - B = insert g ?N" using insert by auto
  then have c: "(u, v) \<in> econn ends (insert g ?N)" using insert by simp
  have up: "p \<in> econn ends ?N \<Longrightarrow> p \<in> econn ends (M - {g})" for p by (erule econn_mono [rotated]) auto
  have uv: "(u, v) \<in> econn ends (M - {g})" using insert by simp
  have "(a, b) \<notin> econn ends (M - {g})" using forest_bridge [OF assms(3), of g] insert.prems g by auto
  then have "\<not> ((u, a) \<in> econn ends ?N \<and> (b, v) \<in> econn ends ?N \<or> (u, b) \<in> econn ends ?N \<and> (a, v) \<in> econn ends ?N)"
    using uv up econn_rules(2,3) by metis
  then show ?case using c unfolding econn_insert g fst_conv snd_conv by blast
qed

text \<open>An edge whose ends a spanning forest connects, but a part \<open>A\<close> of it does not, replaces some edge outside \<open>A\<close>.\<close>

lemma forest_exchange:
  assumes fin: "finite M" and M: "forest ends M" and A: "A \<subseteq> M" and e: "e \<notin> M" "ends e \<in> econn ends M" "ends e \<notin> econn ends A"
  obtains f where "f \<in> M - A" "forest ends (insert e (M - {f}))" "econn ends (insert e (M - {f})) = econn ends M"
proof -
  obtain u v where uv: "ends e = (u, v)" by fastforce
  have "M - (M - A) = A" using A by auto
  then have "\<exists>f\<in>M - A. (u, v) \<notin> econn ends (M - {f})"
    using forest_remove [of "M - A" M ends u v] fin M e(2,3) uv by auto
  then obtain f where f: "f \<in> M - A" "(u, v) \<notin> econn ends (M - {f})" by blast
  obtain a b where ab: "ends f = (a, b)" by fastforce
  define N where "N = M - {f}"
  have MN: "M = insert f N" using f by (auto simp: N_def)
  have c: "(u, a) \<in> econn ends N \<and> (b, v) \<in> econn ends N \<or> (u, b) \<in> econn ends N \<and> (a, v) \<in> econn ends N"
    using e(2) [unfolded uv MN econn_insert ab fst_conv snd_conv] f(2) [folded N_def] by blast
  have "(u, v) \<in> econn ends (insert e N)" using econn_edge [of e "insert e N" ends] uv by simp
  moreover have "p \<in> econn ends N \<Longrightarrow> p \<in> econn ends (insert e N)" for p by (erule econn_mono [rotated]) auto
  ultimately have "ends f \<in> econn ends (insert e N)" using c ab econn_rules(2,3) by metis
  then have "econn ends (insert e N) = econn ends (insert f (insert e N))" by (simp add: econn_absorb)
  also have "insert f (insert e N) = insert e M" using MN by auto
  finally have span: "econn ends (insert e N) = econn ends M" using e(2) by (simp add: econn_absorb)
  have "ends h \<notin> econn ends (insert e N - {h})" if h: "h \<in> insert e N" for h
  proof (cases "h = e")
    case True
    then have "insert e N - {h} = N" using e(1) by (auto simp: N_def)
    then show ?thesis using True f(2) uv by (simp add: N_def)
  next
    case False
    then have hN: "h \<in> N" "insert e N - {h} = insert e (N - {h})" using h by auto
    obtain c d where cd: "ends h = (c, d)" by fastforce
    have up: "p \<in> econn ends (N - {h}) \<Longrightarrow> p \<in> econn ends N" for p by (erule econn_mono [rotated]) auto
    have "(c, d) \<in> econn ends N" using econn_edge [OF hN(1)] cd by metis
    then have "\<not> ((c, u) \<in> econn ends (N - {h}) \<and> (v, d) \<in> econn ends (N - {h}) \<or> (c, v) \<in> econn ends (N - {h}) \<and> (u, d) \<in> econn ends (N - {h}))"
      using f(2) up econn_rules(2,3) unfolding N_def by metis
    moreover have "(c, d) \<notin> econn ends (N - {h})"
    proof
      assume "(c, d) \<in> econn ends (N - {h})"
      then have "ends h \<in> econn ends (M - {h})" unfolding cd by (rule econn_mono [rotated]) (auto simp: N_def)
      then show False using forest_bridge [OF M, of h] hN(1) by (auto simp: N_def)
    qed
    ultimately show ?thesis using hN(2) cd uv by (simp add: econn_insert)
  qed
  then show ?thesis using that [OF f(1)] span by (simp add: forest_def N_def)
qed

end
