(* ===== verification/Union_Find.thy ===== *)
theory Union_Find
  imports Connectivity
begin

text \<open>
  \<^verbatim>\<open>pkg/datastructures/set/disjoint/unionfind.go\<close>: disjoint sets with path compression and union by rank.  The recursion of
  \<^verbatim>\<open>find\<close> follows parent pointers and is a partial function: \<open>None\<close> is a call that does not return.
\<close>

section \<open>The structure\<close>

record uf_Set =
  uparent :: "string \<rightharpoonup> string"
  urank :: "string \<Rightarrow> int"

definition uf_New :: uf_Set where
  "uf_New = \<lparr>uparent = Map.empty, urank = (\<lambda>_. 0)\<rparr>"

definition MakeSet :: "string \<Rightarrow> uf_Set \<Rightarrow> uf_Set" where
  "MakeSet x s =
     (case uparent s x of
        Some _ \<Rightarrow> s
      | None \<Rightarrow> s\<lparr>uparent := (uparent s)(x \<mapsto> x), urank := (urank s)(x := 0)\<rparr>)"

partial_function (option) uf_find :: "uf_Set \<Rightarrow> string \<Rightarrow> (uf_Set \<times> string) option" where
  "uf_find s x =
     (case uparent s x of
        None \<Rightarrow> Some (s, '''')
      | Some p \<Rightarrow>
          if p \<noteq> x
          then Option.bind (uf_find s p) (\<lambda>(s, r). Some (s\<lparr>uparent := (uparent s)(x \<mapsto> r)\<rparr>, r))
          else Some (s, x))"

definition uf_Find :: "string \<Rightarrow> uf_Set \<Rightarrow> (uf_Set \<times> string) option" where
  "uf_Find x s = uf_find s x"

text \<open>\<^verbatim>\<open>Union\<close> after the two calls of \<^verbatim>\<open>find\<close>.\<close>

definition uf_link :: "uf_Set \<Rightarrow> string \<Rightarrow> string \<Rightarrow> uf_Set" where
  "uf_link s rootX rootY =
     (if rootX = '''' \<or> rootY = '''' \<or> rootX = rootY then s
      else if urank s rootX < urank s rootY then s\<lparr>uparent := (uparent s)(rootX \<mapsto> rootY)\<rparr>
      else if urank s rootX > urank s rootY then s\<lparr>uparent := (uparent s)(rootY \<mapsto> rootX)\<rparr>
      else s\<lparr>uparent := (uparent s)(rootY \<mapsto> rootX), urank := (urank s)(rootX := urank s rootX + 1)\<rparr>)"

definition uf_Union :: "string \<Rightarrow> string \<Rightarrow> uf_Set \<Rightarrow> uf_Set option" where
  "uf_Union x y s =
     (case uf_find s x of
        None \<Rightarrow> None
      | Some (s, rootX) \<Rightarrow> (case uf_find s y of
          None \<Rightarrow> None
        | Some (s, rootY) \<Rightarrow> Some (uf_link s rootX rootY)))"

definition uf_Connected :: "string \<Rightarrow> string \<Rightarrow> uf_Set \<Rightarrow> (uf_Set \<times> bool) option" where
  "uf_Connected x y s =
     (case uf_Find x s of
        None \<Rightarrow> None
      | Some (s, a) \<Rightarrow> (case uf_Find y s of None \<Rightarrow> None | Some (s, b) \<Rightarrow> Some (s, a = b)))"

section \<open>Roots\<close>

text \<open>Ranks grow strictly towards the root and are bounded.\<close>

definition uf_inv :: "uf_Set \<Rightarrow> bool" where
  "uf_inv s \<longleftrightarrow> (\<forall>x p. uparent s x = Some p \<longrightarrow> p \<in> dom (uparent s) \<and> (p \<noteq> x \<longrightarrow> urank s x < urank s p)) \<and>
     (\<exists>b. \<forall>x. urank s x \<le> b)"

inductive root :: "uf_Set \<Rightarrow> string \<Rightarrow> string \<Rightarrow> bool" for s where
  here: "uparent s x = Some x \<Longrightarrow> root s x x"
| up: "uparent s x = Some p \<Longrightarrow> p \<noteq> x \<Longrightarrow> root s p r \<Longrightarrow> root s x r"

inductive_cases rootE: "root s x r"

lemma root_is_root: "root s x r \<Longrightarrow> uparent s r = Some r"
  by (induction rule: root.induct) auto

lemma root_unique: "root s x r \<Longrightarrow> root s x q \<Longrightarrow> r = q"
proof (induction arbitrary: q rule: root.induct)
  case (here x)
  from \<open>root s x q\<close> show ?case
  proof cases
    case here
    then show ?thesis by simp
  next
    case (up p)
    then show ?thesis using here.hyps by simp
  qed
next
  case (up x p r)
  from \<open>root s x q\<close> show ?case
  proof cases
    case here
    then show ?thesis using up.hyps by simp
  next
    case (up p')
    then show ?thesis using up.hyps up.IH by simp
  qed
qed

lemma root_in_dom: "root s x r \<Longrightarrow> x \<in> dom (uparent s)"
  by (induction rule: root.induct) auto

lemma rank_induct [consumes 1, case_names rank]:
  assumes "uf_inv s" and step: "\<And>x. (\<And>y. urank s x < urank s y \<Longrightarrow> P y) \<Longrightarrow> P x"
  shows "P x"
proof -
  obtain b where b: "\<And>x. urank s x \<le> b" using assms(1) by (auto simp: uf_inv_def)
  show ?thesis
  proof (induction "nat (b - urank s x)" arbitrary: x rule: less_induct)
    case less
    have "P y" if "urank s x < urank s y" for y using less [of y] that b [of y] by simp
    then show ?case by (rule step)
  qed
qed

lemma root_exists:
  assumes inv: "uf_inv s"
  shows "x \<in> dom (uparent s) \<Longrightarrow> \<exists>r. root s x r"
  using inv
proof (induction x rule: rank_induct)
  case (rank x)
  then obtain p where p: "uparent s x = Some p" by auto
  show ?case
  proof (cases "p = x")
    case True
    then show ?thesis using p root.here by blast
  next
    case False
    then have "urank s x < urank s p" "p \<in> dom (uparent s)" using p inv by (auto simp: uf_inv_def)
    then show ?thesis using rank.IH p False root.up by blast
  qed
qed

lemma root_rank: "root s x r \<Longrightarrow> uf_inv s \<Longrightarrow> x = r \<or> urank s x < urank s r"
proof (induction rule: root.induct)
  case (up x p r)
  then have "urank s x < urank s p" by (auto simp: uf_inv_def)
  then show ?case using up by auto
qed simp

text \<open>Pointing a name at its root changes no root.\<close>

definition compress :: "string \<Rightarrow> string \<Rightarrow> uf_Set \<Rightarrow> uf_Set" where
  "compress x r s = s\<lparr>uparent := (uparent s)(x \<mapsto> r)\<rparr>"

lemma compress_parent: "uparent (compress x r s) y = (if y = x then Some r else uparent s y)"
  by (simp add: compress_def)

lemma compress_root:
  assumes x: "root s x r"
  shows "root (compress x r s) y q \<longleftrightarrow> root s y q"
proof
  have r: "uparent s r = Some r" using root_is_root [OF x] .
  have rr: "root (compress x r s) r r" using r by (intro root.here) (simp add: compress_parent)
  show "root (compress x r s) y q \<Longrightarrow> root s y q"
  proof (induction rule: root.induct)
    case (here y)
    then show ?case using x by (auto simp: compress_parent intro: root.here split: if_splits)
  next
    case (up y p q)
    show ?case
    proof (cases "y = x")
      case True
      then have "p = r" using up.hyps by (simp add: compress_parent)
      then have "q = r" using up.IH r root_unique root.here by blast
      then show ?thesis using True x by simp
    next
      case False
      then show ?thesis using up by (auto simp: compress_parent intro: root.up)
    qed
  qed
  show "root s y q \<Longrightarrow> root (compress x r s) y q"
  proof (induction rule: root.induct)
    case (here y)
    have "y = x \<Longrightarrow> r = y" using here x root.here root_unique by blast
    then show ?case using here by (cases "y = x") (auto simp: compress_parent intro!: root.here)
  next
    case (up y p q)
    show ?case
    proof (cases "y = x")
      case True
      then have "q = r" using up.hyps x root_unique root.up by blast
      then show ?thesis using True rr root.up [of "compress x r s" y r r] by (cases "r = y") (auto simp: compress_parent)
    next
      case False
      then show ?thesis using up by (auto simp: compress_parent intro: root.up)
    qed
  qed
qed

lemma compress_inv:
  assumes "uf_inv s" "root s x r"
  shows "uf_inv (compress x r s)"
proof -
  have "r \<in> dom (uparent s)" using root_is_root [OF assms(2)] by blast
  moreover have "x \<noteq> r \<Longrightarrow> urank s x < urank s r" using root_rank [OF assms(2,1)] by blast
  ultimately show ?thesis using assms(1) by (auto simp: uf_inv_def compress_def)
qed

text \<open>Two states with the same elements, ranks and roots represent the same partition.\<close>

definition same_sets :: "uf_Set \<Rightarrow> uf_Set \<Rightarrow> bool" where
  "same_sets s s' \<longleftrightarrow> dom (uparent s') = dom (uparent s) \<and> urank s' = urank s \<and> root s' = root s"

lemma same_sets_trans: "same_sets s s' \<Longrightarrow> same_sets s' s'' \<Longrightarrow> same_sets s s''"
  by (simp add: same_sets_def)

lemma compress_same:
  assumes x: "root s x r"
  shows "same_sets s (compress x r s)"
proof -
  have "root (compress x r s) = root s" using compress_root [OF x] by (intro ext) simp
  moreover have "dom (uparent (compress x r s)) = dom (uparent s)"
    using root_in_dom [OF x] by (auto simp: compress_parent split: if_splits)
  ultimately show ?thesis by (simp add: same_sets_def compress_def)
qed

lemma uf_find_correct:
  assumes inv: "uf_inv s"
  shows "x \<in> dom (uparent s) \<Longrightarrow> \<exists>s' r. uf_find s x = Some (s', r) \<and> root s x r \<and> uf_inv s' \<and> same_sets s s'"
  using inv
proof (induction x rule: rank_induct)
  case (rank x)
  then obtain p where p: "uparent s x = Some p" by auto
  show ?case
  proof (cases "p = x")
    case True
    then show ?thesis using p inv by (subst uf_find.simps) (auto simp: same_sets_def intro: root.here)
  next
    case False
    then have "urank s x < urank s p" "p \<in> dom (uparent s)" using p inv by (auto simp: uf_inv_def)
    then obtain s' r where f: "uf_find s p = Some (s', r)" "root s p r" "uf_inv s'" "same_sets s s'"
      using rank.IH by blast
    have x: "root s' x r" using f(2,4) p False root.up by (auto simp: same_sets_def)
    have "uf_find s x = Some (compress x r s', r)" using p False f(1) by (subst uf_find.simps) (simp add: compress_def)
    moreover have "root s x r" using x f(4) by (simp add: same_sets_def)
    ultimately show ?thesis using compress_inv [OF f(3) x] compress_same [OF x] same_sets_trans [OF f(4)] by blast
  qed
qed

lemma uf_find_absent: "uparent s x = None \<Longrightarrow> uf_find s x = Some (s, '''')"
  by (subst uf_find.simps) simp

section \<open>Merging\<close>

text \<open>Hanging one root below another moves the elements of its tree and no others.\<close>

lemma link_root:
  assumes a: "uparent s a = Some a" and b: "uparent s b = Some b" and "a \<noteq> b"
    and s': "uparent s' = (uparent s)(a \<mapsto> b)"
  shows "root s y q \<Longrightarrow> root s' y (if q = a then b else q)"
proof (induction rule: root.induct)
  case (here y)
  have "root s' b b" using b s' \<open>a \<noteq> b\<close> by (intro root.here) simp
  then show ?case using here \<open>a \<noteq> b\<close> s' by (auto intro: root.here root.up)
next
  case (up y p q)
  then have "y \<noteq> a" using a by auto
  then show ?case using up s' root.up [of s' y p] by simp
qed

definition uf_same :: "uf_Set \<Rightarrow> string \<Rightarrow> string \<Rightarrow> bool" where
  "uf_same s x y \<longleftrightarrow> (\<exists>r. root s x r \<and> root s y r)"

lemma uf_same_roots: "root s x r \<Longrightarrow> root s y q \<Longrightarrow> uf_same s x y \<longleftrightarrow> r = q"
  unfolding uf_same_def using root_unique by blast

lemma uf_same_dom: "uf_same s x y \<Longrightarrow> x \<in> dom (uparent s) \<and> y \<in> dom (uparent s)"
  by (auto simp: uf_same_def dest: root_in_dom)

lemma uf_same_sets: "same_sets s s' \<Longrightarrow> uf_same s' = uf_same s"
  by (intro ext) (simp add: uf_same_def same_sets_def)

lemma link_same:
  assumes inv: "uf_inv s" and a: "uparent s a = Some a" and b: "uparent s b = Some b" and "a \<noteq> b"
    and s': "uparent s' = (uparent s)(a \<mapsto> b)"
  shows "uf_same s' u v \<longleftrightarrow> uf_same s u v \<or> uf_same s u a \<and> uf_same s v b \<or> uf_same s u b \<and> uf_same s v a"
proof (cases "u \<in> dom (uparent s) \<and> v \<in> dom (uparent s)")
  case True
  then obtain p q where p: "root s u p" and q: "root s v q" using root_exists [OF inv] by blast
  have "root s a a" "root s b b" using a b root.here by blast+
  then have "uf_same s u a \<longleftrightarrow> p = a" "uf_same s u b \<longleftrightarrow> p = b" "uf_same s v a \<longleftrightarrow> q = a" "uf_same s v b \<longleftrightarrow> q = b"
    "uf_same s u v \<longleftrightarrow> p = q" using p q uf_same_roots by blast+
  moreover have "uf_same s' u v \<longleftrightarrow> (if p = a then b else p) = (if q = a then b else q)"
    using link_root [OF a b \<open>a \<noteq> b\<close> s' p] link_root [OF a b \<open>a \<noteq> b\<close> s' q] uf_same_roots by blast
  ultimately show ?thesis using \<open>a \<noteq> b\<close> by auto
next
  case False
  have "dom (uparent s') = dom (uparent s)" using a s' by auto
  then show ?thesis using False uf_same_dom by blast
qed

lemma link_inv:
  assumes inv: "uf_inv s" and a: "uparent s a = Some a" and b: "uparent s b = Some b" and "a \<noteq> b"
    and s': "uparent s' = (uparent s)(a \<mapsto> b)"
    and rank: "urank s' = urank s \<and> urank s a < urank s b \<or> urank s' = (urank s)(b := urank s b + 1) \<and> urank s a = urank s b"
  shows "uf_inv s'"
proof -
  obtain m where m: "\<And>x. urank s x \<le> m" using inv by (auto simp: uf_inv_def)
  have up: "urank s x \<le> urank s' x" "urank s' x \<le> m + 1" for x using rank m [of x] by auto
  have "p \<in> dom (uparent s') \<and> (p \<noteq> x \<longrightarrow> urank s' x < urank s' p)" if p: "uparent s' x = Some p" for x p
  proof (cases "x = a")
    case True
    then have "p = b" using p s' by simp
    then show ?thesis using True b s' rank \<open>a \<noteq> b\<close> by auto
  next
    case False
    then have x: "uparent s x = Some p" using p s' by simp
    then have "p \<in> dom (uparent s')" "p \<noteq> x \<longrightarrow> urank s x < urank s p" using inv s' by (auto simp: uf_inv_def)
    moreover have "p \<noteq> x \<longrightarrow> x \<noteq> b" using x b by auto
    ultimately show ?thesis using up(1) [of p] rank by (auto simp: fun_upd_apply)
  qed
  then show ?thesis using up(2) by (auto simp: uf_inv_def)
qed

lemma uf_link_cases:
  assumes "uparent s p = Some p" "uparent s q = Some q" "p \<noteq> []" "q \<noteq> []" "p \<noteq> q" "s' = uf_link s p q"
  obtains a b where "uparent s a = Some a" "uparent s b = Some b" "a \<noteq> b" "uparent s' = (uparent s)(a \<mapsto> b)"
    "urank s' = urank s \<and> urank s a < urank s b \<or> urank s' = (urank s)(b := urank s b + 1) \<and> urank s a = urank s b"
    "a = p \<and> b = q \<or> a = q \<and> b = p"
proof (cases "urank s p < urank s q")
  case True
  with assms show ?thesis by (intro that [of p q]) (auto simp: uf_link_def)
next
  case False
  with assms show ?thesis by (intro that [of q p]) (auto simp: uf_link_def)
qed

lemma uf_Union_correct:
  assumes inv: "uf_inv s" and x: "x \<in> dom (uparent s)" and y: "y \<in> dom (uparent s)" and ne: "[] \<notin> dom (uparent s)"
  shows "\<exists>s'. uf_Union x y s = Some s' \<and> uf_inv s' \<and> dom (uparent s') = dom (uparent s) \<and>
    (\<forall>u v. uf_same s' u v \<longleftrightarrow> uf_same s u v \<or> uf_same s u x \<and> uf_same s v y \<or> uf_same s u y \<and> uf_same s v x)"
proof -
  obtain s1 p where 1: "uf_find s x = Some (s1, p)" "root s x p" "uf_inv s1" "same_sets s s1"
    using uf_find_correct [OF inv x] by blast
  have "y \<in> dom (uparent s1)" using y 1(4) by (simp add: same_sets_def)
  then obtain s2 q where 2: "uf_find s1 y = Some (s2, q)" "root s1 y q" "uf_inv s2" "same_sets s1 s2"
    using uf_find_correct [OF 1(3)] by blast
  have s: "same_sets s s2" using same_sets_trans [OF 1(4) 2(4)] .
  have q: "root s y q" using 2(2) 1(4) by (simp add: same_sets_def)
  have pq: "uparent s2 p = Some p" "uparent s2 q = Some q" using 1(2) q s root_is_root by (metis same_sets_def)+
  have d: "dom (uparent s2) = dom (uparent s)" using s by (simp add: same_sets_def)
  then have ne': "p \<noteq> []" "q \<noteq> []" using pq ne by blast+
  have u: "uf_Union x y s = Some (uf_link s2 p q)" using 1(1) 2(1) by (simp add: uf_Union_def)
  have rep: "uf_same s z p \<longleftrightarrow> uf_same s z x" "uf_same s z q \<longleftrightarrow> uf_same s z y" for z
    using 1(2) q root_unique root_is_root root.here unfolding uf_same_def by metis+
  show ?thesis
  proof (cases "p = q")
    case True
    then have l: "uf_link s2 p q = s2" by (simp add: uf_link_def)
    have "uf_same s u x \<and> uf_same s v y \<Longrightarrow> uf_same s u v" "uf_same s u y \<and> uf_same s v x \<Longrightarrow> uf_same s u v" for u v
      using True 1(2) q root_unique unfolding uf_same_def by blast+
    then have "uf_same s2 u v \<longleftrightarrow> uf_same s u v \<or> uf_same s u x \<and> uf_same s v y \<or> uf_same s u y \<and> uf_same s v x" for u v
      unfolding uf_same_sets [OF s] by blast
    then show ?thesis using u [unfolded l] 2(3) d by blast
  next
    case False
    obtain a b where ab: "uparent s2 a = Some a" "uparent s2 b = Some b" "a \<noteq> b"
      "uparent (uf_link s2 p q) = (uparent s2)(a \<mapsto> b)"
      "urank (uf_link s2 p q) = urank s2 \<and> urank s2 a < urank s2 b \<or>
       urank (uf_link s2 p q) = (urank s2)(b := urank s2 b + 1) \<and> urank s2 a = urank s2 b"
      "a = p \<and> b = q \<or> a = q \<and> b = p"
      using uf_link_cases [OF pq ne' False refl] by blast
    have "dom (uparent (uf_link s2 p q)) = dom (uparent s)" using ab(1,4) d by auto
    moreover have "uf_inv (uf_link s2 p q)" by (rule link_inv [OF 2(3) ab(1-5)])
    moreover have "uf_same (uf_link s2 p q) u v \<longleftrightarrow> uf_same s u v \<or> uf_same s u x \<and> uf_same s v y \<or> uf_same s u y \<and> uf_same s v x"
      for u v using link_same [OF 2(3) ab(1-4), of u v] ab(6) rep unfolding uf_same_sets [OF s] by blast
    ultimately show ?thesis using u by blast
  qed
qed

lemma uf_Connected_correct:
  assumes inv: "uf_inv s" and x: "x \<in> dom (uparent s)" and y: "y \<in> dom (uparent s)"
  shows "\<exists>s'. uf_Connected x y s = Some (s', uf_same s x y) \<and> uf_inv s' \<and> same_sets s s'"
proof -
  obtain s1 p where 1: "uf_find s x = Some (s1, p)" "root s x p" "uf_inv s1" "same_sets s s1"
    using uf_find_correct [OF inv x] by blast
  have "y \<in> dom (uparent s1)" using y 1(4) by (simp add: same_sets_def)
  then obtain s2 q where 2: "uf_find s1 y = Some (s2, q)" "root s1 y q" "uf_inv s2" "same_sets s1 s2"
    using uf_find_correct [OF 1(3)] by blast
  have "root s y q" using 2(2) 1(4) by (simp add: same_sets_def)
  then have "uf_same s x y \<longleftrightarrow> p = q" by (rule uf_same_roots [OF 1(2)])
  then show ?thesis using 1(1) 2(1,3) same_sets_trans [OF 1(4) 2(4)] by (simp add: uf_Connected_def uf_Find_def)
qed

section \<open>The relation a state represents\<close>

text \<open>A state represents a set of merged pairs when it holds their elements and two elements have the same root exactly if the
  pairs connect them.\<close>

definition uf_rep :: "uf_Set \<Rightarrow> string set \<Rightarrow> (string \<times> string) set \<Rightarrow> bool" where
  "uf_rep s X R \<longleftrightarrow> uf_inv s \<and> dom (uparent s) = X \<and> (\<forall>x y. uf_same s x y \<longleftrightarrow> x \<in> X \<and> y \<in> X \<and> (x, y) \<in> conn R)"

lemma uf_rep_New: "uf_rep uf_New {} {}"
  using uf_same_dom [of uf_New] by (auto simp: uf_rep_def uf_inv_def uf_New_def)

lemma conn_field: "(u, v) \<in> conn R \<Longrightarrow> R \<subseteq> X \<times> X \<Longrightarrow> u = v \<or> u \<in> X \<and> v \<in> X"
  unfolding conn_def by (induction rule: rtrancl_induct) auto

lemma MakeSet_root:
  assumes "uparent s x = None" "uf_inv s"
  shows "root (MakeSet x s) y q \<longleftrightarrow> root s y q \<or> y = x \<and> q = x"
proof
  have p: "uparent (MakeSet x s) y = (if y = x then Some x else uparent s y)" for y
    using assms(1) by (simp add: MakeSet_def)
  show "root (MakeSet x s) y q \<Longrightarrow> root s y q \<or> y = x \<and> q = x"
  proof (induction rule: root.induct)
    case (up y z q)
    then have y: "uparent s y = Some z" by (auto simp: p split: if_splits)
    then have "z \<noteq> x" using assms by (auto simp: uf_inv_def)
    then show ?case using up y root.up by blast
  qed (auto simp: p intro: root.here split: if_splits)
  have "root s y q \<Longrightarrow> root (MakeSet x s) y q"
  proof (induction rule: root.induct)
    case (up y z q)
    then have "uparent (MakeSet x s) y = Some z" using p [of y] assms(1) by auto
    then show ?case using up root.up by blast
  qed (use p assms(1) in \<open>auto intro: root.here\<close>)
  moreover have "root (MakeSet x s) x x" using p by (intro root.here) simp
  ultimately show "root s y q \<or> y = x \<and> q = x \<Longrightarrow> root (MakeSet x s) y q" by blast
qed

lemma uf_rep_MakeSet:
  assumes s: "uf_rep s X R" and R: "R \<subseteq> X \<times> X"
  shows "uf_rep (MakeSet x s) (insert x X) R"
proof (cases "x \<in> X")
  case True
  then have "uparent s x \<noteq> None" using s by (auto simp: uf_rep_def)
  then have "MakeSet x s = s" by (auto simp: MakeSet_def)
  then show ?thesis using s True by (simp add: insert_absorb)
next
  case False
  have inv: "uf_inv s" and X: "dom (uparent s) = X" using s by (simp_all add: uf_rep_def)
  then have n: "uparent s x = None" using False by auto
  obtain m where "\<And>y. urank s y \<le> m" using inv by (auto simp: uf_inv_def)
  then have b: "\<forall>y. urank (MakeSet x s) y \<le> max 0 m" using n by (auto simp: MakeSet_def le_max_iff_disj)
  have "\<And>y p. uparent s y = Some p \<Longrightarrow> y \<noteq> x \<and> p \<noteq> x" using n inv by (auto simp: uf_inv_def)
  then have "\<forall>y p. uparent (MakeSet x s) y = Some p \<longrightarrow>
      p \<in> dom (uparent (MakeSet x s)) \<and> (p \<noteq> y \<longrightarrow> urank (MakeSet x s) y < urank (MakeSet x s) p)"
    using n inv by (auto simp: uf_inv_def MakeSet_def)
  then have "uf_inv (MakeSet x s)" using b unfolding uf_inv_def by blast
  moreover have "dom (uparent (MakeSet x s)) = insert x X" using n X by (simp add: MakeSet_def)
  moreover have "uf_same (MakeSet x s) y z \<longleftrightarrow> uf_same s y z \<or> y = x \<and> z = x" for y z
  proof -
    have "\<not> root s x r" for r using root_in_dom [of s x r] n by auto
    moreover have "\<not> root s y x" for y using root_is_root [of s y x] n by auto
    ultimately show ?thesis by (auto simp: uf_same_def MakeSet_root [OF n inv])
  qed
  moreover have "(x, y) \<in> conn R \<or> (y, x) \<in> conn R \<Longrightarrow> y = x" for y using conn_field [OF _ R] False by blast
  ultimately show ?thesis using s False by (auto simp: uf_rep_def)
qed

lemma uf_rep_Union:
  assumes s: "uf_rep s X R" and "x \<in> X" "y \<in> X" "[] \<notin> X"
  shows "\<exists>s'. uf_Union x y s = Some s' \<and> uf_rep s' X (insert (x, y) R)"
proof -
  have "\<exists>s'. uf_Union x y s = Some s' \<and> uf_inv s' \<and> dom (uparent s') = dom (uparent s) \<and>
    (\<forall>u v. uf_same s' u v \<longleftrightarrow> uf_same s u v \<or> uf_same s u x \<and> uf_same s v y \<or> uf_same s u y \<and> uf_same s v x)"
    using assms by (intro uf_Union_correct) (auto simp: uf_rep_def)
  then obtain s' where s': "uf_Union x y s = Some s'" "uf_inv s'" "dom (uparent s') = dom (uparent s)"
    and same: "\<And>u v. uf_same s' u v \<longleftrightarrow> uf_same s u v \<or> uf_same s u x \<and> uf_same s v y \<or> uf_same s u y \<and> uf_same s v x" by blast
  have "uf_same s' u v \<longleftrightarrow> u \<in> X \<and> v \<in> X \<and> (u, v) \<in> conn (insert (x, y) R)" for u v
    unfolding same conn_insert using s assms(2,3) conn_sym [of _ _ R] unfolding uf_rep_def by blast
  then show ?thesis using s s' by (auto simp: uf_rep_def)
qed

lemma uf_rep_Connected:
  assumes s: "uf_rep s X R" and "x \<in> X" "y \<in> X"
  shows "\<exists>s'. uf_Connected x y s = Some (s', (x, y) \<in> conn R) \<and> uf_rep s' X R"
proof -
  have "\<exists>s'. uf_Connected x y s = Some (s', uf_same s x y) \<and> uf_inv s' \<and> same_sets s s'"
    using assms by (intro uf_Connected_correct) (auto simp: uf_rep_def)
  then obtain s' where s': "uf_Connected x y s = Some (s', uf_same s x y)" "uf_inv s'" "same_sets s s'" by blast
  moreover have "uf_same s x y \<longleftrightarrow> (x, y) \<in> conn R" using assms by (simp add: uf_rep_def)
  moreover have "uf_rep s' X R" using s s'(2) uf_same_sets [OF s'(3)] s'(3) by (simp add: uf_rep_def same_sets_def)
  ultimately show ?thesis by auto
qed

section \<open>Sequences of calls\<close>

datatype uf_call = CMakeSet string | CUnion string string | CFind string

fun uf_exec :: "uf_call list \<Rightarrow> uf_Set \<Rightarrow> uf_Set option" where
  "uf_exec [] s = Some s"
| "uf_exec (CMakeSet x # cs) s = uf_exec cs (MakeSet x s)"
| "uf_exec (CUnion x y # cs) s = (case uf_Union x y s of None \<Rightarrow> None | Some s' \<Rightarrow> uf_exec cs s')"
| "uf_exec (CFind x # cs) s = (case uf_Find x s of None \<Rightarrow> None | Some (s', _) \<Rightarrow> uf_exec cs s')"

text \<open>The specification: the elements made so far and the pairs united so far.\<close>

fun uf_spec :: "uf_call list \<Rightarrow> string set \<Rightarrow> (string \<times> string) set \<Rightarrow> string set \<times> (string \<times> string) set" where
  "uf_spec [] X R = (X, R)"
| "uf_spec (CMakeSet x # cs) X R = uf_spec cs (insert x X) R"
| "uf_spec (CUnion x y # cs) X R = uf_spec cs X (if x \<in> X \<and> y \<in> X then insert (x, y) R else R)"
| "uf_spec (CFind x # cs) X R = uf_spec cs X R"

lemma uf_rep_find:
  assumes s: "uf_rep s X R"
  shows "\<exists>s' r. uf_find s x = Some (s', r) \<and> uf_rep s' X R \<and> (x \<notin> X \<longrightarrow> r = [])"
proof (cases "x \<in> X")
  case True
  then obtain s' r where "uf_find s x = Some (s', r)" "uf_inv s'" "same_sets s s'"
    using s uf_find_correct [of s x] by (auto simp: uf_rep_def)
  then show ?thesis using s True uf_same_sets [of s s'] by (auto simp: uf_rep_def same_sets_def)
next
  case False
  then have "uparent s x = None" using s by (auto simp: uf_rep_def)
  then show ?thesis using s uf_find_absent [of s x] by auto
qed

lemma uf_rep_Union_absent:
  assumes s: "uf_rep s X R" and "x \<notin> X \<or> y \<notin> X"
  shows "\<exists>s'. uf_Union x y s = Some s' \<and> uf_rep s' X R"
proof -
  obtain s1 p where 1: "uf_find s x = Some (s1, p)" "uf_rep s1 X R" "x \<notin> X \<longrightarrow> p = []" using uf_rep_find [OF s] by blast
  obtain s2 q where 2: "uf_find s1 y = Some (s2, q)" "uf_rep s2 X R" "y \<notin> X \<longrightarrow> q = []" using uf_rep_find [OF 1(2)] by blast
  have "uf_link s2 p q = s2" using assms(2) 1(3) 2(3) by (auto simp: uf_link_def)
  then show ?thesis using 1(1) 2(1,2) by (simp add: uf_Union_def)
qed

lemma uf_exec_rep:
  assumes "uf_rep s X R" "R \<subseteq> X \<times> X" "[] \<notin> X" "CMakeSet [] \<notin> set cs"
  shows "\<exists>s'. uf_exec cs s = Some s' \<and> uf_rep s' (fst (uf_spec cs X R)) (snd (uf_spec cs X R))"
  using assms
proof (induction cs s arbitrary: X R rule: uf_exec.induct)
  case (1 s)
  then show ?case by simp
next
  case (2 x cs s)
  have "uf_rep (MakeSet x s) (insert x X) R" by (rule uf_rep_MakeSet [OF 2(2,3)])
  moreover have "R \<subseteq> insert x X \<times> insert x X" using 2 by auto
  ultimately show ?case using 2 by simp
next
  case (3 x y cs s)
  let ?R = "if x \<in> X \<and> y \<in> X then insert (x, y) R else R"
  obtain s' where s': "uf_Union x y s = Some s'" "uf_rep s' X ?R"
  proof (cases "x \<in> X \<and> y \<in> X")
    case True
    then show ?thesis using uf_rep_Union [OF 3(2), of x y] 3(4) that by auto
  next
    case False
    then show ?thesis using uf_rep_Union_absent [OF 3(2), of x y] that by auto
  qed
  moreover have "?R \<subseteq> X \<times> X" using 3 by auto
  ultimately show ?case using 3(1) [OF s'(1), of X ?R] 3(4,5) by simp
next
  case (4 x cs s)
  obtain s' r where "uf_find s x = Some (s', r)" "uf_rep s' X R" using uf_rep_find [OF 4(2)] by blast
  then show ?case using 4 by (simp add: uf_Find_def)
qed

text \<open>C19: every sequence of \<^verbatim>\<open>MakeSet\<close>, \<^verbatim>\<open>Union\<close> and \<^verbatim>\<open>Find\<close> calls on a new set that makes no element named by
  the empty string returns (the recursion of \<^verbatim>\<open>find\<close> ends on every state so reached, with all its path compression and ranks),
  and \<^verbatim>\<open>Connected\<close> then returns, for two elements made, whether the united pairs connect them.  A \<^verbatim>\<open>Union\<close> with an element
  that was not made changes nothing.\<close>

theorem union_find_correct:
  assumes "CMakeSet [] \<notin> set cs"
  shows "\<exists>s. uf_exec cs uf_New = Some s \<and>
    (\<forall>x y. x \<in> fst (uf_spec cs {} {}) \<and> y \<in> fst (uf_spec cs {} {}) \<longrightarrow>
       (\<exists>s'. uf_Connected x y s = Some (s', (x, y) \<in> conn (snd (uf_spec cs {} {})))))"
  using uf_exec_rep [OF uf_rep_New _ _ assms] uf_rep_Connected by fastforce

theorem union_find_correct_witness:
  "\<exists>s. uf_exec [CMakeSet ''a'', CMakeSet ''b'', CMakeSet ''c'', CUnion ''a'' ''b'', CUnion ''a'' ''z''] uf_New = Some s \<and>
     (\<exists>s'. uf_Connected ''b'' ''a'' s = Some (s', True)) \<and> (\<exists>s'. uf_Connected ''a'' ''c'' s = Some (s', False))"
proof -
  let ?cs = "[CMakeSet ''a'', CMakeSet ''b'', CMakeSet ''c'', CUnion ''a'' ''b'', CUnion ''a'' ''z'']"
  obtain s where s: "uf_exec ?cs uf_New = Some s" and c: "\<And>x y. x \<in> {''a'', ''b'', ''c''} \<Longrightarrow> y \<in> {''a'', ''b'', ''c''} \<Longrightarrow>
      \<exists>s'. uf_Connected x y s = Some (s', (x, y) \<in> conn {(''a'', ''b'')})"
    using union_find_correct [of ?cs] by (auto simp: insert_commute)
  have "(''b'', ''a'') \<in> conn {(''a'', ''b'')}" "(''a'', ''c'') \<notin> conn {(''a'', ''b'')}"
    by (auto simp: conn_insert conn_empty)
  then show ?thesis using s c [of "''b''" "''a''"] c [of "''a''" "''c''"] by simp
qed

text \<open>An element named by the empty string is indistinguishable from an absent one: it is never united with another, and
  any two absent elements count as connected.\<close>

lemma union_find_empty_name:
  "\<exists>s s'. uf_exec [CMakeSet '''', CMakeSet ''a'', CUnion '''' ''a''] uf_New = Some s \<and> uf_Connected '''' ''a'' s = Some (s', False)"
  by (simp add: uf_New_def MakeSet_def uf_Union_def uf_Connected_def uf_Find_def uf_link_def uf_find.simps)

lemma union_find_absent: "uparent s x = None \<Longrightarrow> uparent s y = None \<Longrightarrow> uf_Connected x y s = Some (s, True)"
  by (simp add: uf_Connected_def uf_Find_def uf_find_absent)

end
