(* ===== verification/Kruskal.thy ===== *)
theory Kruskal
  imports Union_Find
begin

text \<open>
  \<^verbatim>\<open>pkg/algorithms/graph/kruskal/kruskal.go\<close>: Kruskal's algorithm over the disjoint sets of \<^verbatim>\<open>Union_Find\<close>.  Weights are elements
  of any ordered group, that is, the additions of \<^verbatim>\<open>float64\<close> are taken as exact and NaN is excluded.  \<^verbatim>\<open>sort.Slice\<close> is not
  stable, so the sorting is an argument of which only the documented result is used.
\<close>

section \<open>The algorithm\<close>

record 'w Edge =
  eU :: string
  eV :: string
  eWeight :: 'w

text \<open>The loop that makes a set of each vertex.\<close>

fun kruskal_make :: "'w Edge list \<Rightarrow> uf_Set \<Rightarrow> uf_Set" where
  "kruskal_make [] ds = ds"
| "kruskal_make (e # es) ds = kruskal_make es (MakeSet (eV e) (MakeSet (eU e) ds))"

text \<open>The main loop; \<open>None\<close> is a call of the disjoint sets that does not return.\<close>

fun kruskal_loop :: "'w::linordered_ab_group_add Edge list \<Rightarrow> uf_Set \<Rightarrow> 'w Edge list \<Rightarrow> 'w \<Rightarrow> ('w Edge list \<times> 'w) option" where
  "kruskal_loop [] ds result totalWeight = Some (result, totalWeight)"
| "kruskal_loop (e # es) ds result totalWeight =
     (case uf_Connected (eU e) (eV e) ds of
        None \<Rightarrow> None
      | Some (ds, connected) \<Rightarrow>
          if connected then kruskal_loop es ds result totalWeight
          else case uf_Union (eU e) (eV e) ds of
            None \<Rightarrow> None
          | Some ds \<Rightarrow> kruskal_loop es ds (result @ [e]) (totalWeight + eWeight e))"

text \<open>\<^verbatim>\<open>MST\<close> also leaves the caller's slice sorted; the model returns it first.\<close>

definition MST :: "('w::linordered_ab_group_add Edge list \<Rightarrow> 'w Edge list) \<Rightarrow> 'w Edge list \<Rightarrow> ('w Edge list \<times> 'w Edge list \<times> 'w) option" where
  "MST sortSlice edges =
     (let edges = sortSlice edges;
          ds = kruskal_make edges uf_New in
      case kruskal_loop edges ds [] 0 of
        None \<Rightarrow> None
      | Some (result, totalWeight) \<Rightarrow> Some (edges, result, totalWeight))"

section \<open>The greedy choice\<close>

definition ends :: "'w Edge \<Rightarrow> string \<times> string" where
  "ends e = (eU e, eV e)"

definition vertices :: "'w Edge list \<Rightarrow> string set" where
  "vertices es = eU ` set es \<union> eV ` set es"

fun greedy :: "'w Edge list \<Rightarrow> 'w Edge list \<Rightarrow> 'w Edge list" where
  "greedy [] F = F"
| "greedy (e # es) F = greedy es (if ends e \<in> econn ends (set F) then F else F @ [e])"

lemma kruskal_make_rep:
  "uf_rep ds X {} \<Longrightarrow> uf_rep (kruskal_make es ds) (X \<union> vertices es) {}"
proof (induction es arbitrary: ds X)
  case (Cons e es)
  have "uf_rep (MakeSet (eV e) (MakeSet (eU e) ds)) (insert (eV e) (insert (eU e) X)) {}"
    by (rule uf_rep_MakeSet [OF uf_rep_MakeSet [OF Cons.prems]]) auto
  from Cons.IH [OF this] show ?case by (simp add: vertices_def Un_assoc insert_commute)
qed (simp add: vertices_def)

text \<open>The loop over the disjoint sets returns, with the edges the greedy choice keeps and the sum of their weights.\<close>

lemma kruskal_loop_greedy:
  assumes "uf_rep ds X (ends ` set F)" "vertices es \<subseteq> X" "[] \<notin> X" "tot = (\<Sum>e\<leftarrow>F. eWeight e)"
  shows "kruskal_loop es ds F tot = Some (greedy es F, \<Sum>e\<leftarrow>greedy es F. eWeight e)"
  using assms
proof (induction es arbitrary: ds F tot)
  case (Cons e es)
  have x: "eU e \<in> X" "eV e \<in> X" using Cons.prems(2) by (auto simp: vertices_def)
  obtain d1 where 1: "uf_Connected (eU e) (eV e) ds = Some (d1, (eU e, eV e) \<in> conn (ends ` set F))" "uf_rep d1 X (ends ` set F)"
    using uf_rep_Connected [OF Cons.prems(1) x] by blast
  obtain d2 where 2: "uf_Union (eU e) (eV e) d1 = Some d2" "uf_rep d2 X (insert (eU e, eV e) (ends ` set F))"
    using uf_rep_Union [OF 1(2) x Cons.prems(3)] by blast
  have v: "vertices es \<subseteq> X" using Cons.prems(2) by (auto simp: vertices_def)
  have "uf_rep d2 X (ends ` set (F @ [e]))" using 2(2) by (simp add: ends_def)
  then show ?case
    using Cons.IH [OF 1(2) v Cons.prems(3,4)] Cons.IH [OF _ v Cons.prems(3), of d2 "F @ [e]" "tot + eWeight e"] 1(1) 2(1) Cons.prems(4)
    by (simp add: econn_def ends_def [of e])
qed simp

section \<open>Minimality\<close>

lemma greedy_set: "set (greedy es F) \<subseteq> set F \<union> set es"
proof (induction es arbitrary: F)
  case (Cons e es)
  show ?case using Cons [of F] Cons [of "F @ [e]"] by auto
qed simp

lemma greedy_span: "econn ends (set (greedy es F)) = econn ends (set F \<union> set es)"
proof (induction es arbitrary: F)
  case (Cons e es)
  show ?case
  proof (cases "ends e \<in> econn ends (set F)")
    case True
    then have "ends e \<in> econn ends (set F \<union> set es)" by (rule econn_mono [rotated]) auto
    then show ?thesis using True Cons by (simp add: econn_absorb)
  next
    case False
    then show ?thesis using Cons [of "F @ [e]"] by simp
  qed
qed simp

lemma forest_insert:
  assumes "forest ends M" "ends e \<notin> econn ends M"
  shows "forest ends (insert e M)"
  unfolding forest_def
proof
  fix h
  assume h: "h \<in> insert e M"
  obtain u v where uv: "ends e = (u, v)" by fastforce
  have e: "e \<notin> M" using assms(2) econn_edge [of e M ends] by blast
  show "ends h \<notin> econn ends (insert e M - {h})"
  proof (cases "h = e")
    case True
    then show ?thesis using assms(2) e by simp
  next
    case False
    then have hM: "h \<in> M" "insert e M - {h} = insert e (M - {h})" using h by auto
    obtain c d where cd: "ends h = (c, d)" by fastforce
    have "(c, d) \<in> econn ends M" using econn_edge [OF hM(1), of ends] cd by simp
    moreover have up: "p \<in> econn ends (M - {h}) \<Longrightarrow> p \<in> econn ends M" for p by (erule econn_mono [rotated]) auto
    moreover have "(u, v) \<notin> econn ends M" using assms(2) uv by simp
    ultimately have "\<not> ((c, u) \<in> econn ends (M - {h}) \<and> (v, d) \<in> econn ends (M - {h}) \<or> (c, v) \<in> econn ends (M - {h}) \<and> (u, d) \<in> econn ends (M - {h}))"
      using econn_rules(2,3) by metis
    moreover have "(c, d) \<notin> econn ends (M - {h})" using forest_bridge [OF assms(1) hM(1)] cd by simp
    ultimately show ?thesis unfolding cd hM(2) econn_insert uv fst_conv snd_conv by blast
  qed
qed

lemma greedy_forest: "forest ends (set F) \<Longrightarrow> distinct F \<Longrightarrow> forest ends (set (greedy es F)) \<and> distinct (greedy es F)"
proof (induction es arbitrary: F)
  case (Cons e es)
  have "ends e \<notin> econn ends (set F) \<Longrightarrow> e \<notin> set F" using econn_edge [of e "set F" ends] by blast
  then show ?case using Cons by (auto simp: forest_insert)
qed simp

text \<open>A spanning forest that contains the edges kept so far is turned, edge by edge, into the greedy one without getting heavier.\<close>

lemma greedy_minimal:
  fixes w :: "'w::linordered_ab_group_add Edge \<Rightarrow> 'w"
  assumes "finite M" "forest ends M" "set F \<subseteq> M" "sorted (map w es)"
    "M - set F \<subseteq> set es" "\<And>e. e \<in> set es \<Longrightarrow> ends e \<in> econn ends M"
  shows "(\<Sum>e\<in>set (greedy es F). w e) \<le> sum w M"
  using assms
proof (induction es arbitrary: F M)
  case Nil
  then have "M = set F" by auto
  then show ?case by simp
next
  case (Cons e es)
  show ?case
  proof (cases "ends e \<in> econn ends (set F)")
    case True
    have "e \<notin> M - set F"
    proof
      assume a: "e \<in> M - set F"
      have "ends e \<in> econn ends (M - {e})" by (rule econn_mono [OF _ True]) (use a Cons.prems(3) in auto)
      then show False using forest_bridge [OF Cons.prems(2), of e] a by blast
    qed
    then have "M - set F \<subseteq> set es" using Cons.prems(5) by auto
    then show ?thesis using True Cons.IH [OF Cons.prems(1-3)] Cons.prems by simp
  next
    case False
    have sorted: "sorted (map w es)" "\<And>f. f \<in> set es \<Longrightarrow> w e \<le> w f" using Cons.prems(4) by auto
    show ?thesis
    proof (cases "e \<in> M")
      case True
      have "set (F @ [e]) \<subseteq> M" "M - set (F @ [e]) \<subseteq> set es" using True Cons.prems(3,5) by auto
      then show ?thesis using False Cons.IH [OF Cons.prems(1,2) _ sorted(1), of "F @ [e]"] Cons.prems(6) by simp
    next
      case eM: False
      have "ends e \<in> econn ends M" using Cons.prems(6) by simp
      then obtain f where f: "f \<in> M - set F" and N: "forest ends (insert e (M - {f}))" "econn ends (insert e (M - {f})) = econn ends M"
        using forest_exchange [OF Cons.prems(1-3) eM _ False] by blast
      have fes: "f \<in> set es" using f Cons.prems(5) eM by auto
      have "set (F @ [e]) \<subseteq> insert e (M - {f})" "insert e (M - {f}) - set (F @ [e]) \<subseteq> set es" using f Cons.prems(3,5) by auto
      then have "(\<Sum>e\<in>set (greedy es (F @ [e])). w e) \<le> sum w (insert e (M - {f}))"
        using Cons.IH [OF _ N(1) _ sorted(1), of "F @ [e]"] Cons.prems(1,6) N(2) by simp
      also have "\<dots> = w e + sum w (M - {f})" using Cons.prems(1) eM by simp
      also have "\<dots> \<le> w f + sum w (M - {f})" using sorted(2) [OF fes] by simp
      also have "\<dots> = sum w M" using f Cons.prems(1) by (simp add: sum.remove [symmetric])
      finally show ?thesis using False by simp
    qed
  qed
qed



end
