(* ===== verification/Astar.thy ===== *)
theory Astar
  imports Min_Heap
begin

text \<open>
  \<^verbatim>\<open>pkg/algorithms/graph/astar/astar.go\<close> and \<^verbatim>\<open>pkg/algorithms/graph/dijkstra/dijkstra.go\<close>: shortest paths over the priority queue of
  \<^verbatim>\<open>Min_Heap\<close>.  Weights are elements of any ordered group (exact additions, no NaN).  The neighbours of a node are a list in the
  order in which the map is iterated.  The loops are partial functions, \<open>None\<close> being a call that does not return: negative cycles
  make the source run forever.
\<close>

section \<open>The algorithms\<close>

type_synonym 'w Graph = "string \<rightharpoonup> (string \<times> 'w) list"

definition nbrs :: "'w Graph \<Rightarrow> string \<Rightarrow> (string \<times> 'w) list" where
  "nbrs g u = (case g u of None \<Rightarrow> [] | Some ns \<Rightarrow> ns)"

record 'w PathResult =
  Distance :: 'w
  Path :: "string list"

record 'w search =
  pq :: "(string, 'w) MinHeap"
  gScore :: "string \<rightharpoonup> 'w"
  previous :: "string \<rightharpoonup> string"

text \<open>Reading a map of numbers: an absent key gives 0.\<close>

definition score :: "(string \<rightharpoonup> 'w) \<Rightarrow> string \<Rightarrow> 'w::zero" where
  "score m x = (case m x of None \<Rightarrow> 0 | Some d \<Rightarrow> d)"

fun astar_relax :: "(string \<Rightarrow> string \<Rightarrow> 'w::linordered_ab_group_add) \<Rightarrow> string \<Rightarrow> string \<Rightarrow> (string \<times> 'w) list \<Rightarrow> 'w search \<Rightarrow> 'w search" where
  "astar_relax h end current [] s = s"
| "astar_relax h end current ((neighbor, weight) # ns) s =
     (let tentativeG = score (gScore s) current + weight in
      astar_relax h end current ns
        (if gScore s neighbor = None \<or> tentativeG < score (gScore s) neighbor
         then s\<lparr>previous := (previous s)(neighbor \<mapsto> current),
                gScore := (gScore s)(neighbor \<mapsto> tentativeG),
                pq := PushItem (pq s) neighbor (tentativeG + h neighbor end)\<rparr>
         else s))"

partial_function (option) astar_path :: "(string \<rightharpoonup> string) \<Rightarrow> string \<Rightarrow> string list \<Rightarrow> string list option" where
  "astar_path prevs cur path =
     (case prevs cur of
        None \<Rightarrow> Some path
      | Some prev \<Rightarrow> astar_path prevs prev (prev # path))"

partial_function (option) astar_loop ::
    "'w::linordered_ab_group_add Graph \<Rightarrow> string \<Rightarrow> (string \<Rightarrow> string \<Rightarrow> 'w) \<Rightarrow> 'w search \<Rightarrow> 'w PathResult option option" where
  "astar_loop g end h s =
     (case PopItem (pq s) of
        None \<Rightarrow> Some None
      | Some (q, current, _) \<Rightarrow>
          if current = end
          then Option.bind (astar_path (previous s) end [end])
                 (\<lambda>path. Some (Some \<lparr>Distance = score (gScore s) end, Path = path\<rparr>))
          else astar_loop g end h (astar_relax h end current (nbrs g current) (s\<lparr>pq := q\<rparr>)))"

definition FindPath :: "'w::linordered_ab_group_add Graph \<Rightarrow> string \<Rightarrow> string \<Rightarrow> (string \<Rightarrow> string \<Rightarrow> 'w) \<Rightarrow> 'w PathResult option option" where
  "FindPath g start end h =
     astar_loop g end h
       \<lparr>pq = PushItem NewMinHeap start (h start end), gScore = Map.empty(start \<mapsto> 0), previous = Map.empty\<rparr>"

text \<open>Dijkstra: the same loop without a heuristic, with a guard against \<^verbatim>\<open>math.MaxFloat64\<close> and its own reconstruction of the path.\<close>

fun dijkstra_relax :: "string \<Rightarrow> (string \<times> 'w::linordered_ab_group_add) list \<Rightarrow> 'w search \<Rightarrow> 'w search" where
  "dijkstra_relax u [] s = s"
| "dijkstra_relax u ((v, weight) # ns) s =
     (let alt = score (gScore s) u + weight in
      dijkstra_relax u ns
        (if gScore s v = None \<or> alt < score (gScore s) v
         then s\<lparr>gScore := (gScore s)(v \<mapsto> alt), previous := (previous s)(v \<mapsto> u), pq := PushItem (pq s) v alt\<rparr>
         else s))"

partial_function (option) dijkstra_path :: "(string \<rightharpoonup> string) \<Rightarrow> string \<Rightarrow> string \<Rightarrow> string list \<Rightarrow> string list option" where
  "dijkstra_path prevs start cur path =
     (if cur = '''' then Some path
      else let path = path @ [cur]; cur = (case prevs cur of None \<Rightarrow> '''' | Some p \<Rightarrow> p) in
           if cur = start then Some (path @ [start]) else dijkstra_path prevs start cur path)"

partial_function (option) dijkstra_loop ::
    "'w::linordered_ab_group_add \<Rightarrow> 'w Graph \<Rightarrow> string \<Rightarrow> string \<Rightarrow> 'w search \<Rightarrow> 'w PathResult option option" where
  "dijkstra_loop maxFloat64 g start end s =
     (case PopItem (pq s) of
        None \<Rightarrow> Some None
      | Some (q, u, _) \<Rightarrow>
          if u = end
          then Option.bind (dijkstra_path (previous s) start end [])
                 (\<lambda>path. Some (Some \<lparr>Distance = score (gScore s) end, Path = rev path\<rparr>))
          else if gScore s u = Some maxFloat64 then dijkstra_loop maxFloat64 g start end (s\<lparr>pq := q\<rparr>)
          else dijkstra_loop maxFloat64 g start end (dijkstra_relax u (nbrs g u) (s\<lparr>pq := q\<rparr>)))"

definition dijkstra_ShortestPath :: "'w::linordered_ab_group_add \<Rightarrow> 'w Graph \<Rightarrow> string \<Rightarrow> string \<Rightarrow> 'w PathResult option option" where
  "dijkstra_ShortestPath maxFloat64 g start end =
     dijkstra_loop maxFloat64 g start end
       \<lparr>pq = PushItem NewMinHeap start 0, gScore = Map.empty(start \<mapsto> 0), previous = Map.empty\<rparr>"

section \<open>Paths\<close>

text \<open>\<open>wpath g u p d v\<close>: the vertices \<open>p\<close> lead from \<open>u\<close> to \<open>v\<close> along edges of total weight \<open>d\<close>.\<close>

inductive wpath :: "'w::linordered_ab_group_add Graph \<Rightarrow> string \<Rightarrow> string list \<Rightarrow> 'w \<Rightarrow> string \<Rightarrow> bool" for g u where
  stay: "wpath g u [u] 0 u"
| extend: "wpath g u p d v \<Longrightarrow> (x, w) \<in> set (nbrs g v) \<Longrightarrow> wpath g u (p @ [x]) (d + w) x"

definition nonneg :: "'w::linordered_ab_group_add Graph \<Rightarrow> bool" where
  "nonneg g \<longleftrightarrow> (\<forall>u v w. (v, w) \<in> set (nbrs g u) \<longrightarrow> 0 \<le> w)"

lemma nbrs_dom: "e \<in> set (nbrs g v) \<Longrightarrow> v \<in> dom g"
  by (cases "g v") (auto simp: nbrs_def)

lemma wpath_nonneg: "wpath g u p d v \<Longrightarrow> nonneg g \<Longrightarrow> 0 \<le> d"
  by (induction rule: wpath.induct) (auto simp: nonneg_def)

lemma wpath_length: "wpath g u p d v \<Longrightarrow> p \<noteq> [] \<and> v \<in> set p"
  by (induction rule: wpath.induct) auto

text \<open>The distances of simple paths are finitely many.\<close>

definition simple_dists :: "'w::linordered_ab_group_add Graph \<Rightarrow> string \<Rightarrow> (string \<times> 'w) set" where
  "simple_dists g u = {(v, d). \<exists>p. wpath g u p d v \<and> distinct p}"

lemma finite_wpaths_upto:
  assumes "finite (dom g)"
  shows "finite {(p, d, v). wpath g u p d v \<and> length p \<le> n}"
proof (induction n)
  case 0
  have e: "{(p, d, v). wpath g u p d v \<and> length p \<le> 0} = {}" by (auto dest: wpath_length)
  show ?case unfolding e by simp
next
  case (Suc n)
  let ?S = "{(p, d, v). wpath g u p d v \<and> length p \<le> n}" and ?E = "\<Union>v\<in>dom g. set (nbrs g v)"
  have "{(p, d, v). wpath g u p d v \<and> length p \<le> Suc n} \<subseteq>
      {([u], 0, u)} \<union> (\<lambda>((p, d, v), (x, w)). (p @ [x], d + w, x)) ` (?S \<times> ?E)" (is "?L \<subseteq> ?R")
  proof
    fix t
    assume "t \<in> ?L"
    then obtain p d v where t: "t = (p, d, v)" and w: "wpath g u p d v" and l: "length p \<le> Suc n" by auto
    from w show "t \<in> ?R"
    proof cases
      case stay
      then show ?thesis using t by simp
    next
      case (extend q e y w)
      have "y \<in> dom g" using extend nbrs_dom by blast
      then have "((q, e, y), (v, w)) \<in> ?S \<times> ?E" using extend l by auto
      then show ?thesis using t extend by (force intro: rev_image_eqI)
    qed
  qed
  moreover have "finite ?E" using assms by auto
  ultimately show ?case using Suc by (meson finite.emptyI finite.insertI finite_SigmaI finite_UnI finite_imageI finite_subset)
qed

lemma finite_simple_dists:
  assumes "finite (dom g)"
  shows "finite (simple_dists g u)"
proof -
  let ?V = "insert u (\<Union>v\<in>dom g. fst ` set (nbrs g v))"
  have V: "wpath g u p d v \<Longrightarrow> set p \<subseteq> ?V" for p d v
  proof (induction rule: wpath.induct)
    case (extend p d v x w)
    have "v \<in> dom g" using extend nbrs_dom by blast
    moreover have "x \<in> fst ` set (nbrs g v)" using extend by force
    ultimately show ?case using extend by auto
  qed simp
  have "finite ?V" using assms by auto
  then have "wpath g u p d v \<Longrightarrow> distinct p \<Longrightarrow> length p \<le> card ?V" for p d v
    using V card_mono [of ?V "set p"] by (simp add: distinct_card)
  then have "simple_dists g u \<subseteq> (\<lambda>(p, d, v). (v, d)) ` {(p, d, v). wpath g u p d v \<and> length p \<le> card ?V}"
    by (force simp: simple_dists_def)
  then show ?thesis using finite_wpaths_upto [OF assms] finite_surj by blast
qed

section \<open>Chains of predecessors\<close>

inductive chain :: "(string \<rightharpoonup> string) \<Rightarrow> string \<Rightarrow> string list \<Rightarrow> string \<Rightarrow> bool" for prevs u where
  chain_start: "prevs u = None \<Longrightarrow> chain prevs u [u] u"
| chain_step: "prevs x = Some y \<Longrightarrow> chain prevs u p y \<Longrightarrow> chain prevs u (p @ [x]) x"

lemma chain_ends: "chain prevs u p x \<Longrightarrow> \<exists>q. p = q @ [x] \<and> (x \<noteq> u \<longrightarrow> q \<noteq> [])"
  by (induction rule: chain.induct) auto

lemma chain_update:
  "chain prevs u p x \<Longrightarrow> v \<notin> set p \<Longrightarrow> chain (prevs(v \<mapsto> y)) u p x"
  by (induction rule: chain.induct) (auto intro: chain.intros)

lemma chain_update_ex:
  assumes "chain prevs u p x" "chain (prevs(v \<mapsto> y)) u q y" "v \<noteq> u"
  shows "\<exists>p'. chain (prevs(v \<mapsto> y)) u p' x"
  using assms(1)
proof (induction rule: chain.induct)
  case chain_start
  then show ?case using assms(3) chain.chain_start [of "prevs(v \<mapsto> y)" u] by (metis fun_upd_other)
next
  case (chain_step x z p)
  show ?case
  proof (cases "x = v")
    case True
    have "chain (prevs(v \<mapsto> y)) u (q @ [v]) v" by (rule chain.chain_step [OF _ assms(2)]) simp
    then show ?thesis unfolding True by blast
  next
    case False
    then show ?thesis using chain_step chain.chain_step [of "prevs(v \<mapsto> y)" x z u] by (metis fun_upd_other)
  qed
qed

lemma astar_path_chain: "chain prevs u p x \<Longrightarrow> astar_path prevs x (x # acc) = Some (p @ acc)"
proof (induction arbitrary: acc rule: chain.induct)
  case chain_start
  then show ?case by (subst astar_path.simps) simp
next
  case (chain_step x y p)
  then show ?case by (subst astar_path.simps) simp
qed

lemma dijkstra_path_chain:
  "chain prevs u p x \<Longrightarrow> [] \<notin> set p \<Longrightarrow> u \<notin> set (tl p) \<Longrightarrow> dijkstra_path prevs u x acc = Some (acc @ rev p)"
proof (induction arbitrary: acc rule: chain.induct)
  case chain_start
  then show ?case by (subst dijkstra_path.simps) (simp add: dijkstra_path.simps [of _ _ "[]"])
next
  case (chain_step x y p)
  obtain q where q: "p = q @ [y]" "y \<noteq> u \<longrightarrow> q \<noteq> []" using chain_ends [OF chain_step(2)] by blast
  show ?case
  proof (cases "y = u")
    case True
    then have "p = [u]" using chain_step.prems(2) q by (cases q) auto
    moreover have "x \<noteq> []" using chain_step.prems(1) by auto
    ultimately show ?thesis using True chain_step.hyps(1) by (subst dijkstra_path.simps) (simp add: Let_def)
  next
    case False
    have "[] \<notin> set p" "u \<notin> set (tl p)" using chain_step.prems q by (auto simp: tl_append split: list.splits)
    then show ?thesis using False chain_step.IH [of "acc @ [x]"] chain_step.hyps(1) chain_step.prems(1)
      by (subst dijkstra_path.simps) (simp add: Let_def)
  qed
qed

section \<open>The invariant of the search\<close>

text \<open>
  Every tentative distance is that of a simple path whose vertices have no larger tentative distance, and the chain of predecessors
  undercuts it.  A vertex is open, with an entry of its current key in the queue, or its edges are relaxed; while the edges of
  \<open>cur\<close> are relaxed, those in \<open>todo\<close> are exempt.
\<close>

definition dist_ok :: "'w::linordered_ab_group_add Graph \<Rightarrow> string \<Rightarrow> 'w search \<Rightarrow> bool" where
  "dist_ok g start s \<longleftrightarrow> gScore s start = Some 0 \<and>
     (\<forall>x d. gScore s x = Some d \<longrightarrow> (\<exists>p. wpath g start p d x \<and> distinct p \<and> (\<forall>y\<in>set p. \<exists>e. gScore s y = Some e \<and> e \<le> d)))"

definition prev_ok :: "'w::linordered_ab_group_add Graph \<Rightarrow> string \<Rightarrow> 'w search \<Rightarrow> bool" where
  "prev_ok g start s \<longleftrightarrow> previous s start = None \<and>
     (\<forall>x d. gScore s x = Some d \<longrightarrow> (\<exists>p. chain (previous s) start p x)) \<and>
     (\<forall>x y. previous s x = Some y \<longrightarrow> (\<exists>d e w. gScore s x = Some d \<and> gScore s y = Some e \<and> (x, w) \<in> set (nbrs g y) \<and> e + w \<le> d))"

lemma dist_okE:
  assumes "dist_ok g start s" "gScore s x = Some d"
  obtains p where "wpath g start p d x" "distinct p" "\<And>y. y \<in> set p \<Longrightarrow> \<exists>e. gScore s y = Some e \<and> e \<le> d"
  using assms unfolding dist_ok_def by blast

lemma prev_okE:
  assumes "prev_ok g start s"
  shows "gScore s x = Some d \<Longrightarrow> \<exists>p. chain (previous s) start p x"
    and "previous s x = Some y \<Longrightarrow> \<exists>d e w. gScore s x = Some d \<and> gScore s y = Some e \<and> (x, w) \<in> set (nbrs g y) \<and> e + w \<le> d"
  using assms unfolding prev_ok_def by blast+

definition queue_ok :: "(string \<Rightarrow> 'w) \<Rightarrow> string \<Rightarrow> 'w::linordered_ab_group_add search \<Rightarrow> bool" where
  "queue_ok h end s \<longleftrightarrow> heap_ok (pq s) \<and>
     (\<forall>x f. (x, f) \<in> set (pairs (pq s)) \<longrightarrow> (\<exists>d. gScore s x = Some d \<and> d + h x \<le> f)) \<and>
     (gScore s end \<noteq> None \<longrightarrow> (\<exists>f. (end, f) \<in> set (pairs (pq s))))"

definition relaxed :: "'w::linordered_ab_group_add search \<Rightarrow> 'w \<Rightarrow> string \<times> 'w \<Rightarrow> bool" where
  "relaxed s d e \<longleftrightarrow> (\<exists>c. gScore s (fst e) = Some c \<and> c \<le> d + snd e)"

definition open_ok :: "'w::linordered_ab_group_add Graph \<Rightarrow> (string \<Rightarrow> 'w) \<Rightarrow> string \<Rightarrow> (string \<times> 'w) list \<Rightarrow> 'w search \<Rightarrow> bool" where
  "open_ok g h cur todo s \<longleftrightarrow> (\<forall>x d. gScore s x = Some d \<longrightarrow> (x, d + h x) \<in> set (pairs (pq s)) \<or>
     (\<forall>e\<in>set (nbrs g x). relaxed s d e \<or> x = cur \<and> e \<in> set todo))"

text \<open>One improvement of a tentative distance.\<close>

definition improve :: "string \<Rightarrow> string \<Rightarrow> 'w::linordered_ab_group_add \<Rightarrow> 'w \<Rightarrow> 'w search \<Rightarrow> 'w search" where
  "improve u v alt f s = s\<lparr>previous := (previous s)(v \<mapsto> u), gScore := (gScore s)(v \<mapsto> alt), pq := PushItem (pq s) v f\<rparr>"

lemma improve_simps [simp]:
  "gScore (improve u v alt f s) = (gScore s)(v \<mapsto> alt)" "previous (improve u v alt f s) = (previous s)(v \<mapsto> u)"
  "pq (improve u v alt f s) = PushItem (pq s) v f"
  by (simp_all add: improve_def)

lemma set_pairs_Push: "heap_ok q \<Longrightarrow> set (pairs (PushItem q v k)) = insert (v, k) (set (pairs q))"
  using PushItem_correct [of q v k] by (metis set_mset_add_mset_insert set_mset_mset)

lemma improve_dist:
  assumes s: "dist_ok g start s" and n: "nonneg g" and u: "gScore s u = Some d" and e: "(v, w) \<in> set (nbrs g u)"
    and less: "\<And>c. gScore s v = Some c \<Longrightarrow> d + w < c"
  shows "v \<noteq> u" "v \<noteq> start" "dist_ok g start (improve u v (d + w) f s)"
proof -
  have w: "0 \<le> w" using n e by (auto simp: nonneg_def)
  obtain p where p: "wpath g start p d u" "distinct p" "\<And>y. y \<in> set p \<Longrightarrow> \<exists>e. gScore s y = Some e \<and> e \<le> d"
    using dist_okE [OF s u] by blast
  have d: "0 \<le> d" using wpath_nonneg [OF p(1) n] .
  have v: "v \<notin> set p" using p(3) [of v] less w by (metis add.right_neutral add_le_cancel_left leD order_trans)
  then show "v \<noteq> u" using wpath_length [OF p(1)] by auto
  show vs: "v \<noteq> start" using s less [of 0] add_nonneg_nonneg [OF d w] by (auto simp: dist_ok_def)
  have "\<exists>q. wpath g start q c x \<and> distinct q \<and> (\<forall>y\<in>set q. \<exists>e. ((gScore s)(v \<mapsto> d + w)) y = Some e \<and> e \<le> c)"
    if x: "((gScore s)(v \<mapsto> d + w)) x = Some c" for x c
  proof (cases "x = v")
    case True
    then have "c = d + w" using x by simp
    moreover have "\<exists>e. gScore s y = Some e \<and> e \<le> d + w" if "y \<in> set p" for y
      using p(3) [OF that] w by (metis add.right_neutral add_left_mono order_trans)
    ultimately show ?thesis using True v p(2) wpath.extend [OF p(1) e] by (intro exI [of _ "p @ [v]"]) auto
  next
    case False
    then obtain q where q: "wpath g start q c x" "distinct q" "\<And>y. y \<in> set q \<Longrightarrow> \<exists>e. gScore s y = Some e \<and> e \<le> c"
      using dist_okE [OF s, of x c] x by auto
    have "d + w \<le> c" if "v \<in> set q" using q(3) [OF that] less by force
    then show ?thesis using q by auto
  qed
  then show "dist_ok g start (improve u v (d + w) f s)" using s vs by (simp add: dist_ok_def)
qed

lemma chain_scores:
  assumes "chain (previous s) start p x" "prev_ok g start s" "nonneg g" "gScore s x = Some d"
  shows "\<forall>y\<in>set p. \<exists>e. gScore s y = Some e \<and> e \<le> d"
  using assms(1,4)
proof (induction arbitrary: d rule: chain.induct)
  case (chain_step x y p)
  obtain d' e w where y: "gScore s x = Some d'" "gScore s y = Some e" "(x, w) \<in> set (nbrs g y)" "e + w \<le> d'"
    using prev_okE(2) [OF assms(2) chain_step.hyps(1)] by blast
  have "0 \<le> w" using assms(3) y(3) by (auto simp: nonneg_def)
  then have "e \<le> d" using y(1,4) chain_step.prems by (metis add.right_neutral add_left_mono option.inject order_trans)
  then show ?case using chain_step.IH [OF y(2)] chain_step.prems by fastforce
qed simp

lemma improve_prev:
  assumes s: "dist_ok g start s" "prev_ok g start s" and n: "nonneg g" and u: "gScore s u = Some d" and e: "(v, w) \<in> set (nbrs g u)"
    and less: "\<And>c. gScore s v = Some c \<Longrightarrow> d + w < c"
  shows "prev_ok g start (improve u v (d + w) f s)"
proof -
  have vs: "v \<noteq> start" "v \<noteq> u" using improve_dist [OF s(1) n u e less] by auto
  have w: "0 \<le> w" using n e by (auto simp: nonneg_def)
  obtain p where p: "chain (previous s) start p u" using prev_okE(1) [OF s(2) u] by blast
  have "v \<notin> set p" using chain_scores [OF p s(2) n u] less w by (metis add.right_neutral add_le_cancel_left leD order_trans)
  then have c: "chain ((previous s)(v \<mapsto> u)) start p u" using chain_update [OF p] by blast
  then have v: "chain ((previous s)(v \<mapsto> u)) start (p @ [v]) v" by (intro chain.chain_step) auto
  have "\<exists>q. chain ((previous s)(v \<mapsto> u)) start q x" if xk: "((gScore s)(v \<mapsto> d + w)) x = Some k" for x k
  proof (cases "x = v")
    case False
    then obtain q where "chain (previous s) start q x" using prev_okE(1) [OF s(2), of x k] xk by auto
    then show ?thesis using chain_update_ex [OF _ c vs(1)] by blast
  qed (use v in blast)
  moreover have "\<exists>d' e w'. ((gScore s)(v \<mapsto> d + w)) x = Some d' \<and> ((gScore s)(v \<mapsto> d + w)) y = Some e \<and> (x, w') \<in> set (nbrs g y) \<and> e + w' \<le> d'"
    if xy: "((previous s)(v \<mapsto> u)) x = Some y" for x y
  proof (cases "x = v")
    case True
    then show ?thesis using xy u e vs by auto
  next
    case False
    then obtain d' e w' where o: "gScore s x = Some d'" "gScore s y = Some e" "(x, w') \<in> set (nbrs g y)" "e + w' \<le> d'"
      using prev_okE(2) [OF s(2), of x y] xy by auto
    have "d + w + w' \<le> d'" if "y = v" using less [of e] o that by (metis add_right_mono less_imp_le order_trans)
    then show ?thesis using o False by auto
  qed
  ultimately show ?thesis using s(2) vs by (simp add: prev_ok_def)
qed

lemma improve_queue:
  assumes "queue_ok h end s" "\<And>c. gScore s v = Some c \<Longrightarrow> alt < c"
  shows "queue_ok h end (improve u v alt (alt + h v) s)"
proof -
  have ok: "heap_ok (pq s)" using assms(1) by (simp add: queue_ok_def)
  have "\<exists>d. ((gScore s)(v \<mapsto> alt)) x = Some d \<and> d + h x \<le> f" if x: "(x, f) \<in> set (pairs (pq s))" for x f
  proof (cases "x = v")
    case True
    obtain d where d: "gScore s x = Some d" "d + h x \<le> f" using assms(1) x unfolding queue_ok_def by blast
    then have "alt + h x \<le> d + h x" using assms(2) True by (simp add: less_imp_le)
    then have "alt + h x \<le> f" using d(2) by (rule order_trans)
    then show ?thesis using True by simp
  next
    case False
    then show ?thesis using assms(1) x by (auto simp: queue_ok_def)
  qed
  then show ?thesis using assms(1) PushItem_correct [OF ok, of v "alt + h v"] by (auto simp: queue_ok_def set_pairs_Push [OF ok])
qed

lemma relaxed_improve: "relaxed s d e \<Longrightarrow> (\<And>c. gScore s v = Some c \<Longrightarrow> alt < c) \<Longrightarrow> relaxed (improve u v alt f s) d e"
  by (force simp: relaxed_def)

lemma improve_open:
  assumes s: "open_ok g h u ((v, w) # todo) s" and ok: "heap_ok (pq s)" and u: "gScore s u = Some d" "v \<noteq> u"
    and less: "\<And>c. gScore s v = Some c \<Longrightarrow> d + w < c"
  shows "open_ok g h u todo (improve u v (d + w) (d + w + h v) s)"
  unfolding open_ok_def
proof (intro allI impI)
  let ?s = "improve u v (d + w) (d + w + h v) s"
  fix x c
  assume x: "gScore ?s x = Some c"
  show "(x, c + h x) \<in> set (pairs (pq ?s)) \<or> (\<forall>e\<in>set (nbrs g x). relaxed ?s c e \<or> x = u \<and> e \<in> set todo)"
  proof (cases "x = v")
    case True
    then show ?thesis using x set_pairs_Push [OF ok] by simp
  next
    case False
    then have c: "gScore s x = Some c" using x by simp
    have "relaxed ?s c e" if "relaxed s c e" for e by (rule relaxed_improve [OF that less])
    moreover have "relaxed ?s c (v, w)" if "x = u" using that u c by (simp add: relaxed_def)
    ultimately have "relaxed ?s c e \<or> x = u \<and> e \<in> set todo" if "relaxed s c e \<or> x = u \<and> e \<in> set ((v, w) # todo)" for e
      using that by (cases e) auto
    then show ?thesis using s c set_pairs_Push [OF ok] unfolding open_ok_def by fastforce
  qed
qed

definition search_ok :: "'w::linordered_ab_group_add Graph \<Rightarrow> (string \<Rightarrow> 'w) \<Rightarrow> string \<Rightarrow> string \<Rightarrow> string \<Rightarrow> (string \<times> 'w) list \<Rightarrow> 'w search \<Rightarrow> bool" where
  "search_ok g h start end u todo s \<longleftrightarrow> dist_ok g start s \<and> prev_ok g start s \<and> queue_ok h end s \<and> open_ok g h u todo s"

text \<open>Termination: the simple-path distances still below the tentative ones.\<close>

definition pending :: "'w::linordered_ab_group_add Graph \<Rightarrow> string \<Rightarrow> 'w search \<Rightarrow> (string \<times> 'w) set" where
  "pending g start s = {(x, d) \<in> simple_dists g start. \<forall>c. gScore s x = Some c \<longrightarrow> d < c}"

lemma improve_pending:
  assumes "dist_ok g start (improve u v alt f s)" "\<And>c. gScore s v = Some c \<Longrightarrow> alt < c"
  shows "pending g start (improve u v alt f s) \<subset> pending g start s"
proof -
  have "(v, alt) \<in> simple_dists g start" using dist_okE [OF assms(1), of v alt] by (auto simp: simple_dists_def)
  then have "(v, alt) \<in> pending g start s - pending g start (improve u v alt f s)" using assms(2) by (auto simp: pending_def)
  moreover have "pending g start (improve u v alt f s) \<subseteq> pending g start s"
    using assms(2) by (auto simp: pending_def split: if_splits dest: order.strict_trans)
  ultimately show ?thesis by blast
qed

lemma astar_relax_improve:
  "astar_relax h end u ((v, w) # ns) s = astar_relax h end u ns
     (if gScore s v = None \<or> score (gScore s) u + w < score (gScore s) v
      then improve u v (score (gScore s) u + w) (score (gScore s) u + w + h v end) s else s)"
  by (simp add: improve_def Let_def)

lemma astar_relax_ok:
  assumes "search_ok g (\<lambda>x. h x end) start end u ns s" "nonneg g" "gScore s u = Some d" "set ns \<subseteq> set (nbrs g u)"
  shows "search_ok g (\<lambda>x. h x end) start end u [] (astar_relax h end u ns s) \<and>
    (astar_relax h end u ns s = s \<or> pending g start (astar_relax h end u ns s) \<subset> pending g start s)"
  using assms
proof (induction ns arbitrary: s)
  case (Cons e ns)
  obtain v w where e: "e = (v, w)" by fastforce
  have vw: "(v, w) \<in> set (nbrs g u)" "set ns \<subseteq> set (nbrs g u)" using Cons.prems(4) e by auto
  note ok = Cons.prems(1) [unfolded search_ok_def e]
  show ?case
  proof (cases "gScore s v = None \<or> d + w < score (gScore s) v")
    case True
    then have less: "\<And>c. gScore s v = Some c \<Longrightarrow> d + w < c" by (auto simp: score_def)
    let ?s = "improve u v (d + w) (d + w + h v end) s"
    have imp: "v \<noteq> u" "dist_ok g start ?s" using improve_dist [OF _ Cons.prems(2,3) vw(1) less] ok by blast+
    have "prev_ok g start ?s" using improve_prev [OF _ _ Cons.prems(2,3) vw(1) less] ok by blast
    moreover have "queue_ok (\<lambda>x. h x end) end ?s" using improve_queue [of "\<lambda>x. h x end" "end" s v "d + w" u] ok less by blast
    moreover have "open_ok g (\<lambda>x. h x end) u ns ?s"
      using improve_open [of g "\<lambda>x. h x end" u v w ns s d] ok Cons.prems(3) imp(1) less by (auto simp: queue_ok_def)
    ultimately have s: "search_ok g (\<lambda>x. h x end) start end u ns ?s" using imp(2) by (simp add: search_ok_def)
    have less': "pending g start ?s \<subset> pending g start s" using improve_pending [OF imp(2)] less by blast
    have r: "astar_relax h end u (e # ns) s = astar_relax h end u ns ?s"
      using True Cons.prems(3) unfolding e astar_relax_improve by (simp add: score_def)
    have "gScore ?s u = Some d" using imp(1) Cons.prems(3) by simp
    from Cons.IH [OF s Cons.prems(2) this vw(2)] show ?thesis unfolding r using less' by auto
  next
    case False
    then have rel: "relaxed s d (v, w)" by (auto simp: relaxed_def score_def not_less split: option.splits)
    have "open_ok g (\<lambda>x. h x end) u ns s" unfolding open_ok_def
    proof (intro allI impI)
      fix x c
      assume x: "gScore s x = Some c"
      have "x = u \<Longrightarrow> c = d" using x Cons.prems(3) by simp
      then show "(x, c + h x end) \<in> set (pairs (pq s)) \<or> (\<forall>e\<in>set (nbrs g x). relaxed s c e \<or> x = u \<and> e \<in> set ns)"
        using ok x rel unfolding open_ok_def by auto
    qed
    then have s: "search_ok g (\<lambda>x. h x end) start end u ns s" using ok by (simp add: search_ok_def)
    have r: "astar_relax h end u (e # ns) s = astar_relax h end u ns s"
      using False Cons.prems(3) unfolding e astar_relax_improve by (auto simp: score_def)
    show ?thesis using Cons.IH [OF s Cons.prems(2,3) vw(2)] unfolding r .
  qed
qed simp

section \<open>The loop\<close>

lemma pop_ok:
  assumes s: "search_ok g h start end x [] s" and pop: "PopItem (pq s) = Some (q, u, f)" "u \<noteq> end"
  shows "search_ok g h start end u (nbrs g u) (s\<lparr>pq := q\<rparr>)" "\<exists>d. gScore s u = Some d"
proof -
  have ok: "heap_ok (pq s)" using s by (simp add: search_ok_def queue_ok_def)
  have q: "heap_ok q" "set (pairs (pq s)) = insert (u, f) (set (pairs q))"
    using PopItem_correct [OF ok pop(1)] by (simp, metis set_mset_add_mset_insert set_mset_mset)
  have "dist_ok g start (s\<lparr>pq := q\<rparr>)" "prev_ok g start (s\<lparr>pq := q\<rparr>)"
    using s by (simp_all add: search_ok_def dist_ok_def prev_ok_def)
  moreover have "queue_ok h end (s\<lparr>pq := q\<rparr>)" using s q pop(2) by (auto simp: search_ok_def queue_ok_def)
  moreover have "open_ok g h u (nbrs g u) (s\<lparr>pq := q\<rparr>)"
    unfolding open_ok_def
  proof (intro allI impI)
    fix y c
    assume "gScore (s\<lparr>pq := q\<rparr>) y = Some c"
    then have "(y, c + h y) \<in> insert (u, f) (set (pairs q)) \<or> (\<forall>e\<in>set (nbrs g y). relaxed s c e)"
      using s q(2) unfolding search_ok_def open_ok_def by auto
    then show "(y, c + h y) \<in> set (pairs (pq (s\<lparr>pq := q\<rparr>))) \<or> (\<forall>e\<in>set (nbrs g y). relaxed (s\<lparr>pq := q\<rparr>) c e \<or> y = u \<and> e \<in> set (nbrs g u))"
      by (auto simp: relaxed_def)
  qed
  ultimately show "search_ok g h start end u (nbrs g u) (s\<lparr>pq := q\<rparr>)" by (simp add: search_ok_def)
  show "\<exists>d. gScore s u = Some d" using s q(2) unfolding search_ok_def queue_ok_def by blast
qed

lemma PopItem_length:
  assumes "heap_ok q" "PopItem q = Some (q', u, f)"
  shows "length q = Suc (length q')"
proof -
  have "mset (pairs q) = add_mset (u, f) (mset (pairs q'))" using PopItem_correct [OF assms] by blast
  from arg_cong [OF this, of size] show ?thesis by simp
qed

text \<open>Induction along the loop: each round shortens the queue or lowers a tentative distance to that of another simple path.\<close>

lemma search_induct [consumes 3, case_names round]:
  assumes s: "search_ok g (\<lambda>x. h x end) start end z [] s" and n: "nonneg g" and fin: "finite (dom g)"
    and round: "\<And>s z. search_ok g (\<lambda>x. h x end) start end z [] s \<Longrightarrow>
      (\<And>q u f. PopItem (pq s) = Some (q, u, f) \<Longrightarrow> u \<noteq> end \<Longrightarrow> P (astar_relax h end u (nbrs g u) (s\<lparr>pq := q\<rparr>))) \<Longrightarrow> P s"
  shows "P s"
  using s
proof (induction "(card (pending g start s), length (pq s))" arbitrary: s z rule: wf_induct_rule [OF wf_lex_prod [OF wf_less wf_less]])
  case (1 s)
  have "P (astar_relax h end u (nbrs g u) (s\<lparr>pq := q\<rparr>))" if pop: "PopItem (pq s) = Some (q, u, f)" "u \<noteq> end" for q u f
  proof -
    let ?s = "s\<lparr>pq := q\<rparr>"
    obtain d where "gScore ?s u = Some d" using pop_ok(2) [OF 1(2) pop] by auto
    then have r: "search_ok g (\<lambda>x. h x end) start end u [] (astar_relax h end u (nbrs g u) ?s) \<and>
        (astar_relax h end u (nbrs g u) ?s = ?s \<or> pending g start (astar_relax h end u (nbrs g u) ?s) \<subset> pending g start ?s)"
      using astar_relax_ok [of g h "end" start u "nbrs g u" ?s d] pop_ok(1) [OF 1(2) pop] n by simp
    have "finite (pending g start s)" using finite_simple_dists [OF fin] by (rule finite_subset [rotated]) (auto simp: pending_def)
    moreover have "pending g start ?s = pending g start s" by (simp add: pending_def)
    moreover have "length q < length (pq s)"
      using PopItem_length [OF _ pop(1)] 1(2) by (simp add: search_ok_def queue_ok_def)
    ultimately show ?thesis using 1(1) [OF _ conjunct1 [OF r]] r by (auto intro: psubset_card_mono)
  qed
  then show ?case using round [OF 1(2)] by blast
qed

section \<open>Optimality\<close>

lemma wpath_snoc_from: "wpath g x [x] 0 x \<and> ((z, w) \<in> set (nbrs g x) \<longrightarrow> wpath g x [x, z] w z)"
  using wpath.stay [of g x] wpath.extend [of g x "[x]" 0 x z w] by simp

text \<open>Along any path from the start, the tentative distance is already no larger, or the path leaves an open vertex.\<close>

lemma open_vertex:
  assumes s: "search_ok g h start end z [] s" and w: "wpath g start p d x"
  shows "(\<exists>c. gScore s x = Some c \<and> c \<le> d) \<or>
    (\<exists>y c q r. gScore s y = Some c \<and> (y, c + h y) \<in> set (pairs (pq s)) \<and> wpath g y q r x \<and> c + r \<le> d)"
  using w
proof (induction rule: wpath.induct)
  case stay
  then show ?case using s by (simp add: search_ok_def dist_ok_def)
next
  case (extend p d v x w)
  show ?case
  proof (cases "\<exists>c. gScore s v = Some c \<and> c \<le> d")
    case True
    then obtain c where c: "gScore s v = Some c" "c \<le> d" by blast
    then have cw: "c + w \<le> d + w" by simp
    consider "(v, c + h v) \<in> set (pairs (pq s))" | "relaxed s c (x, w)"
      using s c(1) extend.hyps(2) unfolding search_ok_def open_ok_def by fastforce
    then show ?thesis
    proof cases
      case 1
      then show ?thesis using c cw wpath_snoc_from extend.hyps(2) by blast
    next
      case 2
      then obtain e where "gScore s x = Some e" "e \<le> c + w" by (auto simp: relaxed_def)
      then show ?thesis using cw order_trans by blast
    qed
  next
    case False
    then obtain y c q r where y: "gScore s y = Some c" "(y, c + h y) \<in> set (pairs (pq s))" "wpath g y q r v" "c + r \<le> d"
      using extend.IH by blast
    have "wpath g y (q @ [x]) (r + w) x" using wpath.extend [OF y(3) extend.hyps(2)] .
    moreover have "c + (r + w) \<le> d + w" using y(4) by (simp add: add.assoc [symmetric])
    ultimately show ?thesis using y(1,2) by blast
  qed
qed

definition admissible :: "'w::linordered_ab_group_add Graph \<Rightarrow> (string \<Rightarrow> 'w) \<Rightarrow> string \<Rightarrow> bool" where
  "admissible g h end \<longleftrightarrow> h end = 0 \<and> (\<forall>x p d. wpath g x p d end \<longrightarrow> h x \<le> d)"

lemma chain_wpath:
  assumes "chain (previous s) start p x" "prev_ok g start s" "gScore s start = Some 0" "gScore s x = Some d"
  shows "\<exists>l. wpath g start p l x \<and> l \<le> d"
  using assms(1,4)
proof (induction arbitrary: d rule: chain.induct)
  case chain_start
  then show ?case using assms(3) wpath.stay by fastforce
next
  case (chain_step x y p)
  obtain e w where y: "gScore s y = Some e" "(x, w) \<in> set (nbrs g y)" "e + w \<le> d"
    using prev_okE(2) [OF assms(2) chain_step.hyps(1)] chain_step.prems by auto
  obtain l where l: "wpath g start p l y" "l \<le> e" using chain_step.IH [OF y(1)] by blast
  have "l + w \<le> d" using l(2) y(3) add_right_mono order_trans by blast
  then show ?case using wpath.extend [OF l(1) y(2)] by blast
qed

lemma popped_optimal:
  assumes s: "search_ok g h start end z [] s" and a: "admissible g h end" and pop: "PopItem (pq s) = Some (q, end, f)"
  shows "\<exists>d p. gScore s end = Some d \<and> chain (previous s) start p end \<and> wpath g start p d end \<and> (\<forall>p' d'. wpath g start p' d' end \<longrightarrow> d \<le> d')"
proof -
  have ok: "heap_ok (pq s)" using s by (simp add: search_ok_def queue_ok_def)
  have q: "(end, f) \<in> set (pairs (pq s))" "\<And>x k. (x, k) \<in> set (pairs (pq s)) \<Longrightarrow> f \<le> k"
    using PopItem_correct [OF ok pop] by (metis set_mset_mset union_single_eq_member, auto)
  then obtain d where d: "gScore s end = Some d" "d + h end \<le> f" using s unfolding search_ok_def queue_ok_def by blast
  have df: "d \<le> f" using d(2) a by (simp add: admissible_def)
  have opt: "d \<le> d'" if w: "wpath g start p' d' end" for p' d'
    using open_vertex [OF s w]
  proof
    assume "\<exists>c. gScore s end = Some c \<and> c \<le> d'"
    then show ?thesis using d(1) by auto
  next
    assume "\<exists>y c q r. gScore s y = Some c \<and> (y, c + h y) \<in> set (pairs (pq s)) \<and> wpath g y q r end \<and> c + r \<le> d'"
    then obtain y c q r where y: "(y, c + h y) \<in> set (pairs (pq s))" "wpath g y q r end" "c + r \<le> d'" by blast
    have "c + h y \<le> c + r" using a y(2) by (auto simp: admissible_def)
    then show ?thesis using df q(2) [OF y(1)] y(3) by (meson order_trans)
  qed
  obtain p where p: "chain (previous s) start p end" using prev_okE(1) [OF _ d(1)] s by (auto simp: search_ok_def)
  obtain l where l: "wpath g start p l end" "l \<le> d" using chain_wpath [of s start p "end" g, OF p _ _ d(1)] s unfolding search_ok_def dist_ok_def by blast
  have "l = d" using opt [OF l(1)] l(2) by simp
  then show ?thesis using d(1) p l(1) opt by blast
qed

lemma empty_unreachable:
  assumes s: "search_ok g h start end z [] s" and pop: "PopItem (pq s) = None"
  shows "\<not> wpath g start p d end"
proof
  assume w: "wpath g start p d end"
  have "pq s = []" using pop by (simp add: PopItem_def Let_def split: if_splits)
  then have e: "set (pairs (pq s)) = {}" by (simp add: pairs_def)
  then have "gScore s end = None" using s unfolding search_ok_def queue_ok_def by auto
  then show False using open_vertex [OF s w] e by auto
qed

text \<open>What a search must return.\<close>

definition shortest :: "'w::linordered_ab_group_add Graph \<Rightarrow> string \<Rightarrow> string \<Rightarrow> 'w PathResult option \<Rightarrow> bool" where
  "shortest g start end r \<longleftrightarrow> (case r of
     None \<Rightarrow> (\<forall>p d. \<not> wpath g start p d end)
   | Some r \<Rightarrow> wpath g start (Path r) (Distance r) end \<and> (\<forall>p d. wpath g start p d end \<longrightarrow> Distance r \<le> d))"

lemma astar_loop_correct:
  assumes s: "search_ok g (\<lambda>x. h x end) start end z [] s" and n: "nonneg g" and fin: "finite (dom g)"
    and a: "admissible g (\<lambda>x. h x end) end"
  shows "\<exists>r. astar_loop g end h s = Some r \<and> shortest g start end r"
  using s n fin
proof (induction s rule: search_induct)
  case (round s z)
  show ?case
  proof (cases "PopItem (pq s)")
    case None
    then show ?thesis using empty_unreachable [OF round(1)] by (subst astar_loop.simps) (simp add: shortest_def)
  next
    case (Some t)
    then obtain q u f where pop: "PopItem (pq s) = Some (q, u, f)" by (metis prod_cases3)
    show ?thesis
    proof (cases "u = end")
      case True
      obtain d p where d: "gScore s end = Some d" "chain (previous s) start p end" "wpath g start p d end"
        "\<forall>p' d'. wpath g start p' d' end \<longrightarrow> d \<le> d'" using popped_optimal [OF round(1) a] pop True by blast
      have "astar_path (previous s) end [end] = Some p" using astar_path_chain [OF d(2), of "[]"] by simp
      then show ?thesis using pop True d(1,3,4) by (subst astar_loop.simps) (simp add: score_def shortest_def)
    next
      case False
      then show ?thesis using round(2) [OF pop False] pop by (subst astar_loop.simps) simp
    qed
  qed
qed

lemma search_start:
  "search_ok g h start end z [] \<lparr>pq = PushItem NewMinHeap start (h start), gScore = Map.empty(start \<mapsto> 0), previous = Map.empty\<rparr>"
proof -
  have ok: "heap_ok (NewMinHeap :: (string, 'a) MinHeap)" by (rule heap_pq.inv_empty)
  have "set (pairs (PushItem NewMinHeap start (h start))) = {(start, h start)}"
    using set_pairs_Push [OF ok] by (simp add: NewMinHeap_def pairs_def)
  moreover have "heap_ok (PushItem NewMinHeap start (h start))" using PushItem_correct [OF ok] by blast
  moreover have "wpath g start [start] 0 start" "chain Map.empty start [start] start" by (auto intro: wpath.stay chain.chain_start)
  ultimately show ?thesis unfolding search_ok_def dist_ok_def prev_ok_def queue_ok_def open_ok_def by (auto split: if_splits)
qed

section \<open>Dijkstra as A* without a heuristic\<close>

lemma dijkstra_relax_astar: "dijkstra_relax u ns s = astar_relax (\<lambda>_ _. 0) end u ns s"
proof (induction ns arbitrary: s)
  case (Cons e ns)
  have c: "s\<lparr>gScore := a, previous := b\<rparr> = s\<lparr>previous := b, gScore := a\<rparr>" for a b by simp
  show ?case using Cons by (cases e) (simp add: Let_def c)
qed simp

lemma chain_tl: "chain prevs u p x \<Longrightarrow> prevs u = None \<Longrightarrow> u \<notin> set (tl p)"
proof (induction rule: chain.induct)
  case (chain_step x y p)
  then have "x \<noteq> u" "p \<noteq> []" using chain_ends by fastforce+
  then show ?case using chain_step by simp
qed simp

text \<open>Graphs on which the source's use of the empty name and of the largest number as marks does no harm.\<close>

definition unmarked :: "'w::linordered_ab_group_add \<Rightarrow> 'w Graph \<Rightarrow> string \<Rightarrow> bool" where
  "unmarked maxFloat64 g start \<longleftrightarrow> start \<noteq> [] \<and> (\<forall>u w. ([], w) \<notin> set (nbrs g u)) \<and>
     (\<forall>p d x. wpath g start p d x \<and> distinct p \<longrightarrow> d < maxFloat64)"

lemma unmarked_path: "wpath g start p d x \<Longrightarrow> unmarked m g start \<Longrightarrow> [] \<notin> set p"
  by (induction rule: wpath.induct) (auto simp: unmarked_def)

lemma dijkstra_loop_astar:
  assumes s: "search_ok g (\<lambda>x. (\<lambda>_ _. 0) x end) start end z [] s" and n: "nonneg g" and fin: "finite (dom g)"
    and m: "unmarked maxFloat64 g start"
  shows "dijkstra_loop maxFloat64 g start end s = astar_loop g end (\<lambda>_ _. 0) s"
  using s n fin
proof (induction s rule: search_induct)
  case (round s z)
  have ok: "dist_ok g start s" "prev_ok g start s" using round(1) by (simp_all add: search_ok_def)
  show ?case
  proof (cases "PopItem (pq s)")
    case None
    then show ?thesis by (simp add: dijkstra_loop.simps [of _ _ _ _ s] astar_loop.simps [of _ _ _ s])
  next
    case (Some t)
    then obtain q u f where pop: "PopItem (pq s) = Some (q, u, f)" by (metis prod_cases3)
    show ?thesis
    proof (cases "u = end")
      case True
      have "admissible g (\<lambda>x. 0) end" using wpath_nonneg n by (auto simp: admissible_def)
      then obtain p l where p: "chain (previous s) start p end" "wpath g start p l end"
        using popped_optimal [of g "\<lambda>x. 0" start "end" z s q f] round(1) pop True by blast
      have "dijkstra_path (previous s) start end [] = Some (rev p)"
        using dijkstra_path_chain [OF p(1) unmarked_path [OF p(2) m] chain_tl [OF p(1)], of "[]"] ok(2) by (simp add: prev_ok_def)
      moreover have "astar_path (previous s) end [end] = Some p" using astar_path_chain [OF p(1), of "[]"] by simp
      ultimately show ?thesis using pop True by (simp add: dijkstra_loop.simps [of _ _ _ _ s] astar_loop.simps [of _ _ _ s])
    next
      case False
      obtain d where d: "gScore s u = Some d" using pop_ok(2) [OF round(1) pop False] by blast
      then have "d \<noteq> maxFloat64" using dist_okE [OF ok(1) d] m unfolding unmarked_def by (metis less_irrefl)
      then show ?thesis using round(2) [OF pop False] pop False d
        by (simp add: dijkstra_loop.simps [of _ _ _ _ s] astar_loop.simps [of _ _ _ s] dijkstra_relax_astar [of _ _ _ "end"])
    qed
  qed
qed

section \<open>Properties\<close>


text \<open>A consistent heuristic is admissible.\<close>

lemma consistent_admissible:
  assumes "h end = 0" "\<And>u v w. (v, w) \<in> set (nbrs g u) \<Longrightarrow> h u \<le> w + h v"
  shows "admissible g h end"
proof -
  have "h x \<le> d + h v" if "wpath g x p d v" for x p d v
    using that
  proof (induction rule: wpath.induct)
    case (extend p d v z w)
    have "d + h v \<le> d + (w + h z)" using assms(2) [OF extend.hyps(2)] by simp
    then show ?case using extend.IH unfolding add.assoc by (rule order_trans [rotated])
  qed simp
  then show ?thesis using assms(1) by (fastforce simp: admissible_def)
qed




text \<open>A vertex with the empty name ends the reconstruction of the path before it reaches the start.\<close>

lemma dijkstra_empty_name: "dijkstra_path [''c'' \<mapsto> '''', '''' \<mapsto> ''a''] ''a'' ''c'' [] = Some [''c'']"
  by (simp add: dijkstra_path.simps)

end
