(* ===== verification/Traversal.thy ===== *)
theory Traversal
  imports Astar
begin

text \<open>
  Breadth-first and depth-first search over adjacency lists: \<^verbatim>\<open>pkg/algorithms/graph/bfs/bfs.go\<close>, \<^verbatim>\<open>pkg/algorithms/graph/dfs/dfs.go\<close> and
  \<^verbatim>\<open>pkg/datastructures/graph/graph.go\<close>.  A visitor is a function on its own state; where the source lets it stop the search it also returns
  a flag.  Searches are partial functions, of which it is shown that they return on every finite graph.
\<close>

section \<open>Adjacency lists\<close>

type_synonym AdjacencyList = "string \<rightharpoonup> string list"

definition adj :: "('v \<rightharpoonup> 'v list) \<Rightarrow> 'v \<Rightarrow> 'v list" where
  "adj g u = (case g u of None \<Rightarrow> [] | Some vs \<Rightarrow> vs)"

definition edges :: "('v \<rightharpoonup> 'v list) \<Rightarrow> ('v \<times> 'v) set" where
  "edges g = {(u, v). v \<in> set (adj g u)}"

lemma adj_dom: "v \<in> set (adj g u) \<Longrightarrow> u \<in> dom g"
  by (cases "g u") (auto simp: adj_def)

lemma edges_iff [simp]: "(u, v) \<in> edges g \<longleftrightarrow> v \<in> set (adj g u)"
  by (simp add: edges_def)

lemma finite_edges: "finite (dom g) \<Longrightarrow> finite (edges g)"
proof -
  assume "finite (dom g)"
  then have "finite (\<Union>u\<in>dom g. Pair u ` set (adj g u))" by blast
  moreover have "edges g \<subseteq> (\<Union>u\<in>dom g. Pair u ` set (adj g u))" using adj_dom by (fastforce simp: edges_def)
  ultimately show ?thesis by (rule finite_subset [rotated])
qed

lemma reach_Range: "R\<^sup>* `` {s} \<subseteq> insert s (Range R)"
proof
  fix v
  assume "v \<in> R\<^sup>* `` {s}"
  then have "(s, v) \<in> R\<^sup>*" by simp
  then show "v \<in> insert s (Range R)" by cases auto
qed

lemma finite_reach: "finite (dom g) \<Longrightarrow> finite ((edges g)\<^sup>* `` {s})"
  by (rule finite_subset [OF reach_Range]) (simp add: finite_edges finite_Range)

section \<open>Breadth-first search\<close>

text \<open>The loop over the neighbours marks those not yet visited and appends them to the queue.\<close>

fun bfs_push :: "'v list \<Rightarrow> ('v \<Rightarrow> bool) \<Rightarrow> 'v list \<Rightarrow> ('v \<Rightarrow> bool) \<times> 'v list" where
  "bfs_push [] visited queue = (visited, queue)"
| "bfs_push (v # vs) visited queue =
     (if \<not> visited v then bfs_push vs (visited(v := True)) (queue @ [v]) else bfs_push vs visited queue)"

partial_function (option) bfs_loop ::
    "AdjacencyList \<Rightarrow> (string \<Rightarrow> 's \<Rightarrow> 's \<times> bool) \<Rightarrow> (string \<Rightarrow> bool) \<Rightarrow> string list \<Rightarrow> 's \<Rightarrow> 's option" where
  "bfs_loop g visit visited queue st =
     (case queue of
        [] \<Rightarrow> Some st
      | u # queue \<Rightarrow>
          (case visit u st of (st, continue) \<Rightarrow>
             if \<not> continue then Some st
             else case bfs_push (adj g u) visited queue of (visited, queue) \<Rightarrow> bfs_loop g visit visited queue st))"

definition bfs_Traverse :: "AdjacencyList \<Rightarrow> string \<Rightarrow> (string \<Rightarrow> 's \<Rightarrow> 's \<times> bool) option \<Rightarrow> 's \<Rightarrow> 's option" where
  "bfs_Traverse g start visit st =
     (case visit of
        None \<Rightarrow> Some st
      | Some visit \<Rightarrow> bfs_loop g visit ((\<lambda>_. False)(start := True)) [start] st)"

definition bfs_Reachable :: "AdjacencyList \<Rightarrow> string \<Rightarrow> string list option" where
  "bfs_Reachable g start = bfs_Traverse g start (Some (\<lambda>node out. (out @ [node], True))) []"

fun bfs_push_parent :: "string \<Rightarrow> string list \<Rightarrow> (string \<Rightarrow> bool) \<Rightarrow> (string \<rightharpoonup> string) \<Rightarrow> string list \<Rightarrow> (string \<Rightarrow> bool) \<times> (string \<rightharpoonup> string) \<times> string list" where
  "bfs_push_parent u [] visited parent queue = (visited, parent, queue)"
| "bfs_push_parent u (v # vs) visited parent queue =
     (if \<not> visited v then bfs_push_parent u vs (visited(v := True)) (parent(v \<mapsto> u)) (queue @ [v])
      else bfs_push_parent u vs visited parent queue)"

text \<open>The search loop of \<^verbatim>\<open>ShortestPath\<close>: whether the end was found, and the parents.\<close>

partial_function (option) bfs_find ::
    "AdjacencyList \<Rightarrow> string \<Rightarrow> (string \<Rightarrow> bool) \<Rightarrow> (string \<rightharpoonup> string) \<Rightarrow> string list \<Rightarrow> (bool \<times> (string \<rightharpoonup> string)) option" where
  "bfs_find g end visited parent queue =
     (case queue of
        [] \<Rightarrow> Some (False, parent)
      | u # queue \<Rightarrow>
          if u = end then Some (True, parent)
          else case bfs_push_parent u (adj g u) visited parent queue of
            (visited, parent, queue) \<Rightarrow> bfs_find g end visited parent queue)"

text \<open>The climb along the parents; the outer \<open>None\<close> is a loop that does not end, the inner one the result nil.\<close>

partial_function (option) bfs_climb :: "(string \<rightharpoonup> string) \<Rightarrow> string \<Rightarrow> string \<Rightarrow> string list \<Rightarrow> string list option option" where
  "bfs_climb parent start cur path =
     (if cur = start then Some (Some path)
      else case parent cur of
        None \<Rightarrow> Some None
      | Some p \<Rightarrow> bfs_climb parent start p (path @ [p]))"

function reverse_loop :: "'a list \<Rightarrow> nat \<Rightarrow> nat \<Rightarrow> 'a list" where
  "reverse_loop path i j = (if i < j then reverse_loop (path[i := path ! j, j := path ! i]) (i + 1) (j - 1) else path)"
  by pat_completeness auto
termination by (relation "measure (\<lambda>(_, i, j). j - i)") auto

declare reverse_loop.simps [simp del]

definition bfs_ShortestPath :: "AdjacencyList \<Rightarrow> string \<Rightarrow> string \<Rightarrow> string list option option" where
  "bfs_ShortestPath g start end =
     (if start = end then Some (Some [start])
      else case bfs_find g end ((\<lambda>_. False)(start := True)) Map.empty [start] of
        None \<Rightarrow> None
      | Some (found, parent) \<Rightarrow>
          if \<not> found then Some None
          else case bfs_climb parent start end [end] of
            None \<Rightarrow> None
          | Some None \<Rightarrow> Some None
          | Some (Some path) \<Rightarrow> Some (Some (reverse_loop path 0 (length path - 1))))"

subsection \<open>Distances\<close>

definition hops :: "('v \<times> 'v) set \<Rightarrow> 'v \<Rightarrow> 'v \<Rightarrow> nat" where
  "hops R s v = (LEAST n. (s, v) \<in> R ^^ n)"

lemma hops_reach: "(s, v) \<in> R\<^sup>* \<Longrightarrow> (s, v) \<in> R ^^ hops R s v"
  unfolding hops_def rtrancl_is_UN_relpow by (auto intro: LeastI)

lemma hops_le: "(s, v) \<in> R ^^ n \<Longrightarrow> hops R s v \<le> n"
  unfolding hops_def by (rule Least_le)

lemma hops_start [simp]: "hops R s s = 0"
  using hops_le [of s s 0 R] by simp

lemma hops_edge: "(s, u) \<in> R\<^sup>* \<Longrightarrow> (u, v) \<in> R \<Longrightarrow> hops R s v \<le> Suc (hops R s u)"
  using hops_reach [of s u R] by (intro hops_le) (auto intro: relcompI)

lemma hops_pred:
  assumes "(s, v) \<in> R\<^sup>*" "hops R s v = Suc n"
  obtains u where "(u, v) \<in> R" "(s, u) \<in> R\<^sup>*" "hops R s u = n"
proof -
  obtain u where u: "(s, u) \<in> R ^^ n" "(u, v) \<in> R" using hops_reach [OF assms(1)] assms(2) by auto
  then have "(s, u) \<in> R\<^sup>*" using relpow_imp_rtrancl by blast
  moreover have "hops R s u = n" using hops_le [OF u(1)] hops_edge [OF \<open>(s, u) \<in> R\<^sup>*\<close> u(2)] assms(2) by simp
  ultimately show ?thesis using that u(2) by blast
qed

subsection \<open>The invariant of the queue\<close>

fun fresh :: "'v list \<Rightarrow> ('v \<Rightarrow> bool) \<Rightarrow> 'v list" where
  "fresh [] visited = []"
| "fresh (v # vs) visited = (if visited v then fresh vs visited else v # fresh vs (visited(v := True)))"

lemma fresh_set: "set (fresh vs visited) = {x \<in> set vs. \<not> visited x}"
  by (induction vs arbitrary: visited) auto

lemma fresh_distinct: "distinct (fresh vs visited)"
  by (induction vs arbitrary: visited) (auto simp: fresh_set)

lemma bfs_push_fresh: "bfs_push vs visited queue = ((\<lambda>x. visited x \<or> x \<in> set vs), queue @ fresh vs visited)"
  by (induction vs arbitrary: visited queue) (auto simp: fun_eq_iff)

lemma bfs_push_parent_fresh:
  "bfs_push_parent u vs visited parent queue =
     ((\<lambda>x. visited x \<or> x \<in> set vs), (\<lambda>x. if x \<in> set (fresh vs visited) then Some u else parent x), queue @ fresh vs visited)"
  by (induction vs arbitrary: visited parent queue) (auto simp: fun_eq_iff fresh_set)

definition bfs_ok :: "('v \<rightharpoonup> 'v list) \<Rightarrow> 'v \<Rightarrow> ('v \<Rightarrow> bool) \<Rightarrow> 'v list \<Rightarrow> bool" where
  "bfs_ok g s V Q \<longleftrightarrow> V s \<and> (\<forall>x. V x \<longrightarrow> (s, x) \<in> (edges g)\<^sup>*) \<and> (\<forall>x\<in>set Q. V x) \<and> distinct Q \<and>
     sorted (map (hops (edges g) s) Q) \<and>
     (\<forall>u. V u \<and> u \<notin> set Q \<longrightarrow> (\<forall>v\<in>set (adj g u). V v)) \<and>
     (Q \<noteq> [] \<longrightarrow> (\<forall>y\<in>set Q. hops (edges g) s y \<le> Suc (hops (edges g) s (hd Q))) \<and>
       (\<forall>y. (s, y) \<in> (edges g)\<^sup>* \<and> hops (edges g) s y \<le> hops (edges g) s (hd Q) \<longrightarrow> V y))"

lemma bfs_ok_start: "bfs_ok g s ((\<lambda>_. False)(s := True)) [s]"
proof -
  have "y = s" if "(s, y) \<in> (edges g)\<^sup>*" "hops (edges g) s y = 0" for y using hops_reach [OF that(1)] that(2) by simp
  then show ?thesis by (auto simp: bfs_ok_def)
qed

lemma bfs_okD:
  assumes "bfs_ok g s V (u # Q)"
  shows "V u" "(s, u) \<in> (edges g)\<^sup>*" "\<And>x. V x \<Longrightarrow> (s, x) \<in> (edges g)\<^sup>*" "\<And>x. x \<in> set Q \<Longrightarrow> V x" "distinct Q" "u \<notin> set Q"
    "sorted (map (hops (edges g) s) Q)" "\<And>x v. V x \<Longrightarrow> x \<noteq> u \<Longrightarrow> x \<notin> set Q \<Longrightarrow> v \<in> set (adj g x) \<Longrightarrow> V v"
    "\<And>y. y \<in> set Q \<Longrightarrow> hops (edges g) s u \<le> hops (edges g) s y \<and> hops (edges g) s y \<le> Suc (hops (edges g) s u)"
    "\<And>y. (s, y) \<in> (edges g)\<^sup>* \<Longrightarrow> hops (edges g) s y \<le> hops (edges g) s u \<Longrightarrow> V y"
proof -
  note ok = assms [unfolded bfs_ok_def]
  show V: "\<And>x. V x \<Longrightarrow> (s, x) \<in> (edges g)\<^sup>*" using ok by blast
  show u: "V u" using ok by simp
  show "(s, u) \<in> (edges g)\<^sup>*" using V [OF u] .
  show "\<And>x. x \<in> set Q \<Longrightarrow> V x" "distinct Q" "u \<notin> set Q" "sorted (map (hops (edges g) s) Q)" using ok by simp_all
  show "\<And>y. y \<in> set Q \<Longrightarrow> hops (edges g) s u \<le> hops (edges g) s y \<and> hops (edges g) s y \<le> Suc (hops (edges g) s u)" using ok by simp
  show "\<And>y. (s, y) \<in> (edges g)\<^sup>* \<Longrightarrow> hops (edges g) s y \<le> hops (edges g) s u \<Longrightarrow> V y" using ok by (metis list.sel(1) list.simps(3))
  show "\<And>x v. V x \<Longrightarrow> x \<noteq> u \<Longrightarrow> x \<notin> set Q \<Longrightarrow> v \<in> set (adj g x) \<Longrightarrow> V v" using ok by (metis set_ConsD)
qed

text \<open>A newly found node is one step further than the node it is found from.\<close>

lemma bfs_fresh_hops:
  assumes ok: "bfs_ok g s V (u # Q)" and v: "v \<in> set (fresh (adj g u) V)"
  shows "(s, v) \<in> (edges g)\<^sup>*" "hops (edges g) s v = Suc (hops (edges g) s u)"
proof -
  have v': "v \<in> set (adj g u)" "\<not> V v" using v by (auto simp: fresh_set)
  note D = bfs_okD [OF ok]
  have e: "(u, v) \<in> edges g" using v' by simp
  show r: "(s, v) \<in> (edges g)\<^sup>*" using D(2) e by (rule rtrancl_into_rtrancl)
  show "hops (edges g) s v = Suc (hops (edges g) s u)" using hops_edge [OF D(2) e] D(10) [OF r] v'(2) by linarith
qed

lemma bfs_ok_step:
  assumes ok: "bfs_ok g s V (u # Q)"
  shows "bfs_ok g s (\<lambda>x. V x \<or> x \<in> set (adj g u)) (Q @ fresh (adj g u) V)"
proof -
  let ?h = "hops (edges g) s" and ?F = "fresh (adj g u) V" and ?V = "\<lambda>x. V x \<or> x \<in> set (adj g u)"
  note D = bfs_okD [OF ok] and F = bfs_fresh_hops [OF ok]
  have reach: "(s, x) \<in> (edges g)\<^sup>*" if "?V x" for x using that D(2,3) rtrancl_into_rtrancl [OF D(2), of x] by auto
  have le: "?h y \<le> Suc (?h u)" "?h u \<le> ?h y" if "y \<in> set (Q @ ?F)" for y using that D(9) F(2) by fastforce+
  have sorted: "sorted (map ?h (Q @ ?F))"
  proof -
    have "sorted (map ?h ?F)" using F(2) by (induction ?F) (auto simp: sorted_iff_nth_mono)
    then show ?thesis using D(7,9) F(2) by (auto simp: sorted_append)
  qed
  have closed: "?V v" if "?V x" "x \<notin> set (Q @ ?F)" "v \<in> set (adj g x)" for x v
  proof (cases "x = u")
    case False
    have "V x" using that(1,2) by (auto simp: fresh_set)
    then show ?thesis using D(8) [OF _ False] that by auto
  qed (use that in simp)
  have near: "?V y" if ne: "Q @ ?F \<noteq> []" and y: "(s, y) \<in> (edges g)\<^sup>*" "?h y \<le> ?h (hd (Q @ ?F))" for y
  proof (cases "?h y \<le> ?h u")
    case True
    then show ?thesis using D(10) y by blast
  next
    case False
    have hd: "hd (Q @ ?F) \<in> set (Q @ ?F)" using ne by (rule hd_in_set)
    then have "?h y = Suc (?h u)" "?h (hd (Q @ ?F)) = Suc (?h u)" using False y(2) le(1) [OF hd] by linarith+
    then obtain z where z: "(z, y) \<in> edges g" "(s, z) \<in> (edges g)\<^sup>*" "?h z = ?h u" using hops_pred [OF y(1)] by metis
    have "V z" using D(10) z by simp
    moreover have "z \<notin> set (Q @ ?F)"
    proof
      assume a: "z \<in> set (Q @ ?F)"
      have "?h (hd (Q @ ?F)) \<le> ?h z" using sorted a by (cases "Q @ ?F") auto
      then show False using z(3) \<open>?h (hd (Q @ ?F)) = Suc (?h u)\<close> by simp
    qed
    ultimately show ?thesis using closed [of z y] z(1) by simp
  qed
  have "\<forall>y\<in>set (Q @ ?F). ?h y \<le> Suc (?h (hd (Q @ ?F)))" if ne: "Q @ ?F \<noteq> []"
    using le(1) le(2) [OF hd_in_set [OF ne]] by (meson Suc_le_mono le_trans)
  moreover have "distinct (Q @ ?F)" using D(4,5) by (auto simp: fresh_distinct fresh_set)
  moreover have "\<forall>x\<in>set (Q @ ?F). ?V x" using D(4) by (auto simp: fresh_set)
  moreover have "?V s" using ok by (simp add: bfs_ok_def)
  ultimately show ?thesis unfolding bfs_ok_def using reach closed near sorted by blast
qed

subsection \<open>The loops\<close>

text \<open>The nodes still to be visited.\<close>

definition bfs_rest :: "('v \<rightharpoonup> 'v list) \<Rightarrow> 'v \<Rightarrow> ('v \<Rightarrow> bool) \<Rightarrow> 'v list \<Rightarrow> 'v set" where
  "bfs_rest g s V Q = {x \<in> (edges g)\<^sup>* `` {s}. \<not> V x \<or> x \<in> set Q}"

lemma bfs_rest_step:
  assumes "bfs_ok g s V (u # Q)"
  shows "bfs_rest g s V (u # Q) = insert u (bfs_rest g s (\<lambda>x. V x \<or> x \<in> set (adj g u)) (Q @ fresh (adj g u) V))"
    "u \<notin> bfs_rest g s (\<lambda>x. V x \<or> x \<in> set (adj g u)) (Q @ fresh (adj g u) V)"
  using bfs_okD(1,2,6) [OF assms] by (auto simp: bfs_rest_def fresh_set)

lemma bfs_induct [consumes 2, case_names empty step]:
  assumes ok: "bfs_ok g s V Q" and fin: "finite (dom g)"
    and empty: "\<And>V. bfs_ok g s V [] \<Longrightarrow> P V []"
    and step: "\<And>V u Q. bfs_ok g s V (u # Q) \<Longrightarrow> P (\<lambda>x. V x \<or> x \<in> set (adj g u)) (Q @ fresh (adj g u) V) \<Longrightarrow> P V (u # Q)"
  shows "P V Q"
  using ok
proof (induction "card (bfs_rest g s V Q)" arbitrary: V Q rule: less_induct)
  case less
  show ?case
  proof (cases Q)
    case Nil
    then show ?thesis using empty less.prems by blast
  next
    case (Cons u Q')
    have "finite (bfs_rest g s V Q)" by (rule finite_subset [OF _ finite_reach [OF fin]]) (auto simp: bfs_rest_def)
    then have "card (bfs_rest g s (\<lambda>x. V x \<or> x \<in> set (adj g u)) (Q' @ fresh (adj g u) V)) < card (bfs_rest g s V Q)"
      using bfs_rest_step [OF less.prems [unfolded Cons]] unfolding Cons by (intro psubset_card_mono) auto
    from less.hyps [OF this bfs_ok_step [OF less.prems [unfolded Cons]]] show ?thesis
      unfolding Cons by (rule step [OF less.prems [unfolded Cons]])
  qed
qed

lemma bfs_empty_all: "(s, x) \<in> (edges g)\<^sup>* \<Longrightarrow> bfs_ok g s V [] \<Longrightarrow> V x"
  by (induction rule: rtrancl_induct) (auto simp: bfs_ok_def)

text \<open>Visiting a list of nodes until the visitor stops.\<close>

fun visit_until :: "(string \<Rightarrow> 's \<Rightarrow> 's \<times> bool) \<Rightarrow> string list \<Rightarrow> 's \<Rightarrow> 's" where
  "visit_until visit [] st = st"
| "visit_until visit (x # xs) st = (case visit x st of (st, continue) \<Rightarrow> if continue then visit_until visit xs st else st)"

definition collect :: "string \<Rightarrow> string list \<Rightarrow> string list \<times> bool" where
  "collect node out = (out @ [node], True)"

lemma bfs_loop_order:
  fixes visit :: "string \<Rightarrow> 's \<Rightarrow> 's \<times> bool"
  assumes "bfs_ok g s V Q" "finite (dom g)"
  shows "\<exists>L. (\<forall>out. bfs_loop g collect V Q out = Some (out @ L)) \<and> (\<forall>st. bfs_loop g visit V Q st = Some (visit_until visit L st)) \<and>
    distinct L \<and> set L = bfs_rest g s V Q \<and> sorted (map (hops (edges g) s) L)"
  using assms
proof (induction rule: bfs_induct)
  case (empty V)
  then have "set [] = bfs_rest g s V []" using bfs_empty_all [of s _ g V] by (auto simp: bfs_rest_def)
  then show ?case by (intro exI [of _ "[]"]) (simp add: bfs_loop.simps [of _ _ _ "[]"])
next
  case (step V u Q)
  let ?V = "\<lambda>x. V x \<or> x \<in> set (adj g u)" and ?Q = "Q @ fresh (adj g u) V"
  obtain L where L: "\<forall>out. bfs_loop g collect ?V ?Q out = Some (out @ L)" "\<forall>st. bfs_loop g visit ?V ?Q st = Some (visit_until visit L st)"
    "distinct L" "set L = bfs_rest g s ?V ?Q" "sorted (map (hops (edges g) s) L)" using step.IH by (elim exE conjE)
  have "bfs_loop g collect V (u # Q) out = Some (out @ u # L)" for out
    by (subst bfs_loop.simps) (simp add: bfs_push_fresh L(1) collect_def [of u])
  moreover have "bfs_loop g visit V (u # Q) st = Some (visit_until visit (u # L) st)" for st
    by (subst bfs_loop.simps) (simp add: bfs_push_fresh L(2) split: prod.splits)
  moreover have "hops (edges g) s u \<le> hops (edges g) s x" if x: "x \<in> set L" for x
  proof (cases "V x \<and> x \<in> set Q")
    case True
    then show ?thesis using bfs_okD(9) [OF step.hyps] by blast
  next
    case False
    then have "\<not> V x" "(s, x) \<in> (edges g)\<^sup>*" using x L(4) bfs_okD(4) [OF step.hyps] by (auto simp: bfs_rest_def fresh_set)
    then show ?thesis using bfs_okD(10) [OF step.hyps] by (meson nle_le)
  qed
  ultimately show ?case using L(3-5) bfs_rest_step [OF step.hyps] by (intro exI [of _ "u # L"]) auto
qed

text \<open>Breadth-first search.  On every finite graph \<^verbatim>\<open>Reachable\<close> returns exactly the nodes reachable from the start, each once, in
  order of their distance from it; and \<^verbatim>\<open>Traverse\<close> with any visitor calls it on these nodes in this order until it returns false.\<close>

lemma bfs_order:
  fixes visit :: "string \<Rightarrow> 's \<Rightarrow> 's \<times> bool"
  assumes "finite (dom g)"
  shows "\<exists>L. bfs_Reachable g start = Some L \<and> set L = (edges g)\<^sup>* `` {start} \<and> distinct L \<and> sorted (map (hops (edges g) start) L) \<and>
    bfs_Traverse g start (Some visit) st = Some (visit_until visit L st)"
proof -
  let ?V = "(\<lambda>_. False)(start := True)"
  obtain L where L: "\<forall>out. bfs_loop g collect ?V [start] out = Some (out @ L)" "\<forall>st. bfs_loop g visit ?V [start] st = Some (visit_until visit L st)"
    "distinct L" "set L = bfs_rest g start ?V [start]" "sorted (map (hops (edges g) start) L)"
    using bfs_loop_order [OF bfs_ok_start assms, of start visit] by (elim exE conjE)
  moreover have "(\<lambda>node out. (out @ [node], True)) = collect" by (simp add: fun_eq_iff collect_def)
  moreover have "bfs_rest g start ?V [start] = (edges g)\<^sup>* `` {start}" by (auto simp: bfs_rest_def)
  ultimately show ?thesis by (intro exI [of _ L]) (simp add: bfs_Reachable_def bfs_Traverse_def)
qed

subsection \<open>Shortest paths\<close>

definition is_path :: "('v \<rightharpoonup> 'v list) \<Rightarrow> 'v \<Rightarrow> 'v \<Rightarrow> 'v list \<Rightarrow> bool" where
  "is_path g s t p \<longleftrightarrow> p \<noteq> [] \<and> hd p = s \<and> last p = t \<and> successively (\<lambda>u v. v \<in> set (adj g u)) p"

lemma is_path_relpow: "is_path g s t p \<Longrightarrow> (s, t) \<in> edges g ^^ (length p - 1)"
proof (induction p arbitrary: s)
  case (Cons x p)
  show ?case
  proof (cases p)
    case Nil
    then show ?thesis using Cons by (auto simp: is_path_def)
  next
    case (Cons y q)
    then have "is_path g y t p" "(s, y) \<in> edges g" using Cons.prems by (auto simp: is_path_def)
    from relpow_Suc_I2 [OF this(2) Cons.IH [OF this(1)]] show ?thesis using Cons by simp
  qed
qed (simp add: is_path_def)

lemma is_path_snoc: "is_path g s y p \<Longrightarrow> x \<in> set (adj g y) \<Longrightarrow> is_path g s x (p @ [x])"
  by (auto simp: is_path_def successively_append_iff)

definition parent_ok :: "('v \<rightharpoonup> 'v list) \<Rightarrow> 'v \<Rightarrow> ('v \<Rightarrow> bool) \<Rightarrow> ('v \<rightharpoonup> 'v) \<Rightarrow> bool" where
  "parent_ok g s V parent \<longleftrightarrow> (\<forall>x. V x \<and> x \<noteq> s \<longrightarrow>
     (\<exists>y. parent x = Some y \<and> V y \<and> x \<in> set (adj g y) \<and> hops (edges g) s x = Suc (hops (edges g) s y)))"

lemma parent_ok_step:
  assumes ok: "bfs_ok g s V (u # Q)" "parent_ok g s V parent"
  shows "parent_ok g s (\<lambda>x. V x \<or> x \<in> set (adj g u)) (\<lambda>x. if x \<in> set (fresh (adj g u) V) then Some u else parent x)"
  unfolding parent_ok_def
proof (intro allI impI)
  fix x
  assume x: "(V x \<or> x \<in> set (adj g u)) \<and> x \<noteq> s"
  show "\<exists>y. (if x \<in> set (fresh (adj g u) V) then Some u else parent x) = Some y \<and> (V y \<or> y \<in> set (adj g u)) \<and> x \<in> set (adj g y) \<and>
      hops (edges g) s x = Suc (hops (edges g) s y)"
  proof (cases "x \<in> set (fresh (adj g u) V)")
    case True
    then show ?thesis using bfs_fresh_hops(2) [OF ok(1) True] bfs_okD(1) [OF ok(1)] by (auto simp: fresh_set)
  next
    case False
    then have "V x" using x by (auto simp: fresh_set)
    then show ?thesis using ok(2) x False unfolding parent_ok_def by auto
  qed
qed

lemma bfs_climb_path:
  assumes "parent_ok g s V parent" "V x"
  shows "\<exists>q. bfs_climb parent s x (acc @ [x]) = Some (Some (acc @ x # q)) \<and> is_path g s x (rev (x # q)) \<and> length q = hops (edges g) s x"
  using assms(2)
proof (induction "hops (edges g) s x" arbitrary: x acc rule: less_induct)
  case less
  show ?case
  proof (cases "x = s")
    case True
    then show ?thesis by (subst bfs_climb.simps) (auto simp: is_path_def)
  next
    case False
    then obtain y where y: "parent x = Some y" "V y" "x \<in> set (adj g y)" "hops (edges g) s x = Suc (hops (edges g) s y)"
      using assms(1) less.prems unfolding parent_ok_def by blast
    obtain q where q: "bfs_climb parent s y ((acc @ [x]) @ [y]) = Some (Some ((acc @ [x]) @ y # q))" "is_path g s y (rev (y # q))"
      "length q = hops (edges g) s y" using less.hyps [OF _ y(2), of "acc @ [x]"] y(4) by auto
    have "is_path g s x (rev (x # y # q))" using is_path_snoc [OF q(2) y(3)] by simp
    then show ?thesis using q(1,3) y(1,4) False by (subst bfs_climb.simps) auto
  qed
qed

lemma reverse_loop_nth:
  "j < length p \<Longrightarrow> length (reverse_loop p i j) = length p \<and>
   (\<forall>k < length p. reverse_loop p i j ! k = (if i \<le> k \<and> k \<le> j then p ! (i + j - k) else p ! k))"
proof (induction p i j rule: reverse_loop.induct)
  case (1 p i j)
  show ?case
  proof (cases "i < j")
    case True
    let ?p = "p[i := p ! j, j := p ! i]"
    have r: "reverse_loop p i j = reverse_loop ?p (i + 1) (j - 1)" using True by (subst reverse_loop.simps) simp
    have "length (reverse_loop ?p (i + 1) (j - 1)) = length p"
      "\<And>k. k < length p \<Longrightarrow> reverse_loop ?p (i + 1) (j - 1) ! k = (if i + 1 \<le> k \<and> k \<le> j - 1 then ?p ! (i + 1 + (j - 1) - k) else ?p ! k)"
      using 1(1) [OF True] 1(2) by simp_all
    moreover have "i + 1 + (j - 1) - k = i + j - k" for k using True by simp
    ultimately show ?thesis unfolding r using True 1(2) by (auto simp: nth_list_update)
  next
    case False
    then have "reverse_loop p i j = p" by (subst reverse_loop.simps) simp
    moreover have "i \<le> k \<and> k \<le> j \<Longrightarrow> i + j - k = k" for k using False by auto
    ultimately show ?thesis by auto
  qed
qed

lemma reverse_loop_rev: "p \<noteq> [] \<Longrightarrow> reverse_loop p 0 (length p - 1) = rev p"
  using reverse_loop_nth [of "length p - 1" p 0] by (intro nth_equalityI) (auto simp: rev_nth)

lemma bfs_find_correct:
  assumes "bfs_ok g s V Q" "finite (dom g)" "parent_ok g s V parent" "V t \<longrightarrow> t \<in> set Q"
  shows "\<exists>parent'. bfs_find g t V parent Q = Some ((s, t) \<in> (edges g)\<^sup>*, parent') \<and>
    ((s, t) \<in> (edges g)\<^sup>* \<longrightarrow> (\<exists>V'. parent_ok g s V' parent' \<and> V' t))"
  using assms
proof (induction arbitrary: parent rule: bfs_induct)
  case (empty V)
  have "(s, t) \<notin> (edges g)\<^sup>*" using empty.prems bfs_empty_all [OF _ empty.hyps] by auto
  then show ?case by (simp add: bfs_find.simps [of _ _ _ _ "[]"])
next
  case (step V u Q)
  show ?case
  proof (cases "u = t")
    case True
    then show ?thesis using bfs_okD(1,2) [OF step.hyps] step.prems(1) by (subst bfs_find.simps) auto
  next
    case False
    let ?V = "\<lambda>x. V x \<or> x \<in> set (adj g u)" and ?Q = "Q @ fresh (adj g u) V"
    have "?V t \<longrightarrow> t \<in> set ?Q" using step.prems(2) False by (auto simp: fresh_set)
    from step.IH [OF parent_ok_step [OF step.hyps step.prems(1)] this] show ?thesis
      using False by (subst bfs_find.simps) (simp add: bfs_push_parent_fresh)
  qed
qed

text \<open>C28: \<^verbatim>\<open>ShortestPath\<close> of the breadth-first search returns on every finite graph: nil exactly when the end is not reachable, and
  otherwise a path from start to end along edges of the graph than which no path is shorter.\<close>

theorem bfs_shortest:
  assumes "finite (dom g)"
  shows "\<exists>r. bfs_ShortestPath g start end = Some r \<and>
    (case r of None \<Rightarrow> (start, end) \<notin> (edges g)\<^sup>*
     | Some p \<Rightarrow> is_path g start end p \<and> (\<forall>q. is_path g start end q \<longrightarrow> length p \<le> length q))"
proof (cases "start = end")
  case True
  then show ?thesis by (auto simp: bfs_ShortestPath_def is_path_def Suc_le_eq)
next
  case False
  let ?V = "(\<lambda>_. False)(start := True)"
  have "parent_ok g start ?V Map.empty" "?V end \<longrightarrow> end \<in> set [start]" by (simp_all add: parent_ok_def)
  from bfs_find_correct [OF bfs_ok_start assms this] obtain parent where
    f: "bfs_find g end ?V Map.empty [start] = Some ((start, end) \<in> (edges g)\<^sup>*, parent)"
      "(start, end) \<in> (edges g)\<^sup>* \<longrightarrow> (\<exists>V'. parent_ok g start V' parent \<and> V' end)" by (elim exE conjE)
  show ?thesis
  proof (cases "(start, end) \<in> (edges g)\<^sup>*")
    case True
    then obtain V' where "parent_ok g start V' parent" "V' end" using f(2) by blast
    from bfs_climb_path [OF this, of "[]"] obtain q where q: "bfs_climb parent start end [end] = Some (Some (end # q))"
      "is_path g start end (rev (end # q))" "length q = hops (edges g) start end" by auto
    have "bfs_ShortestPath g start end = Some (Some (rev (end # q)))"
      using False True f(1) q(1) reverse_loop_rev [of "end # q"] by (simp add: bfs_ShortestPath_def)
    moreover have "length (rev (end # q)) \<le> length p" if p: "is_path g start end p" for p
      using hops_le [OF is_path_relpow [OF p]] q(3) p by (cases p) (auto simp: is_path_def)
    ultimately show ?thesis using q(2) by (intro exI [of _ "Some (rev (end # q))"]) simp
  next
    case f': False
    then show ?thesis using f(1) False by (simp add: bfs_ShortestPath_def)
  qed
qed

theorem bfs_shortest_witness:
  "let g = [''a'' \<mapsto> [''b'', ''c''], ''b'' \<mapsto> [''d''], ''c'' \<mapsto> [''d'', ''a'']]
   in bfs_ShortestPath g ''a'' ''d'' = Some (Some [''a'', ''b'', ''d'']) \<and> (\<forall>q. is_path g ''a'' ''d'' q \<longrightarrow> 3 \<le> length q)"
proof -
  let ?g = "[''a'' \<mapsto> [''b'', ''c''], ''b'' \<mapsto> [''d''], ''c'' \<mapsto> [''d'', ''a'']] :: AdjacencyList"
  have "bfs_ShortestPath ?g ''a'' ''d'' = Some (Some [''a'', ''b'', ''d''])"
    by (simp add: bfs_ShortestPath_def bfs_find.simps bfs_climb.simps reverse_loop.simps adj_def)
  moreover have "finite (dom ?g)" by simp
  ultimately show ?thesis using bfs_shortest [of ?g "''a''" "''d''"] by (simp add: Let_def numeral_3_eq_3)
qed

section \<open>Depth-first search\<close>

text \<open>The stack is a list with its top first; the neighbours are pushed from the last to the first.\<close>

fun dfs_push :: "'v list \<Rightarrow> ('v \<Rightarrow> bool) \<Rightarrow> 'v list \<Rightarrow> 'v list" where
  "dfs_push [] visited stack = stack"
| "dfs_push (v # vs) visited stack = dfs_push vs visited (if \<not> visited v then v # stack else stack)"

partial_function (option) dfs_loop ::
    "AdjacencyList \<Rightarrow> (string \<Rightarrow> 's \<Rightarrow> 's \<times> bool) \<Rightarrow> (string \<Rightarrow> bool) \<Rightarrow> string list \<Rightarrow> 's \<Rightarrow> 's option" where
  "dfs_loop g visit visited stack st =
     (case stack of
        [] \<Rightarrow> Some st
      | u # stack \<Rightarrow>
          if visited u then dfs_loop g visit visited stack st
          else case visit u st of (st, continue) \<Rightarrow>
            let visited = visited(u := True) in
            if \<not> continue then dfs_loop g visit visited stack st
            else dfs_loop g visit visited (dfs_push (rev (adj g u)) visited stack) st)"

definition dfs_Traverse :: "AdjacencyList \<Rightarrow> string \<Rightarrow> (string \<Rightarrow> 's \<Rightarrow> 's \<times> bool) option \<Rightarrow> 's \<Rightarrow> 's option" where
  "dfs_Traverse g start visit st =
     (case visit of
        None \<Rightarrow> Some st
      | Some visit \<Rightarrow> dfs_loop g visit (\<lambda>_. False) [start] st)"

definition dfs_Reachable :: "AdjacencyList \<Rightarrow> string \<Rightarrow> string list option" where
  "dfs_Reachable g start = dfs_Traverse g start (Some (\<lambda>node out. (out @ [node], True))) []"

datatype color = white | gray | black

text \<open>The loop of \<^verbatim>\<open>visit\<close> over the neighbours of a gray node.  A white neighbour is visited in place: it is made gray, its own
  neighbours are gone through, and if they show no cycle it is made black.\<close>

partial_function (option) cycle_visit :: "AdjacencyList \<Rightarrow> (string \<Rightarrow> color) \<Rightarrow> string list \<Rightarrow> ((string \<Rightarrow> color) \<times> bool) option" where
  "cycle_visit g color vs =
     (case vs of
        [] \<Rightarrow> Some (color, False)
      | v # vs \<Rightarrow>
          if color v = gray then Some (color, True)
          else if color v = white
          then Option.bind (cycle_visit g (color(v := gray)) (adj g v))
                 (\<lambda>(color, found). if found then Some (color, True) else cycle_visit g (color(v := black)) vs)
          else cycle_visit g color vs)"

text \<open>The outer loop; the keys of the map come in any order.  A white key is visited, which is the same step as for a white neighbour.\<close>

fun cycle_keys :: "AdjacencyList \<Rightarrow> (string \<Rightarrow> color) \<Rightarrow> string list \<Rightarrow> bool option" where
  "cycle_keys g color [] = Some False"
| "cycle_keys g color (u # us) =
     (if color u = white
      then (case cycle_visit g (color(u := gray)) (adj g u) of
              None \<Rightarrow> None
            | Some (color, found) \<Rightarrow> if found then Some True else cycle_keys g (color(u := black)) us)
      else cycle_keys g color us)"

definition HasCycle :: "AdjacencyList \<Rightarrow> string list \<Rightarrow> bool option" where
  "HasCycle g keys = cycle_keys g (\<lambda>_. white) keys"

subsection \<open>Cycle detection\<close>

text \<open>Black nodes lead to black nodes only and lie on no cycle.\<close>

definition black_ok :: "('v \<rightharpoonup> 'v list) \<Rightarrow> ('v \<Rightarrow> color) \<Rightarrow> bool" where
  "black_ok g c \<longleftrightarrow> (\<forall>b. c b = black \<longrightarrow> (\<forall>v\<in>set (adj g b). c v = black) \<and> (b, b) \<notin> (edges g)\<^sup>+)"

lemma black_out_closed: "(b, x) \<in> (edges g)\<^sup>* \<Longrightarrow> black_ok g c \<Longrightarrow> c b = black \<Longrightarrow> c x = black"
  by (induction rule: rtrancl_induct) (auto simp: black_ok_def)

lemma blacken:
  assumes "black_ok g c" "c u = gray" "\<And>v. v \<in> set (adj g u) \<Longrightarrow> c v = black"
  shows "black_ok g (c(u := black))"
proof -
  have "(u, u) \<notin> (edges g)\<^sup>+"
  proof
    assume "(u, u) \<in> (edges g)\<^sup>+"
    then obtain v where "(u, v) \<in> edges g" "(v, u) \<in> (edges g)\<^sup>*" by (meson tranclD)
    then show False using black_out_closed [OF _ assms(1)] assms(2,3) by force
  qed
  then show ?thesis using assms by (auto simp: black_ok_def)
qed

definition whites :: "('v \<rightharpoonup> 'v list) \<Rightarrow> ('v \<Rightarrow> color) \<Rightarrow> 'v set" where
  "whites g c = {x \<in> dom g \<union> Range (edges g). c x = white}"

lemma finite_whites: "finite (dom g) \<Longrightarrow> finite (whites g c)"
  using finite_edges [of g] by (simp add: whites_def finite_Range)

lemma whites_less: "finite (dom g) \<Longrightarrow> v \<in> whites g c \<Longrightarrow> c' v \<noteq> white \<Longrightarrow> (\<And>x. c' x = white \<Longrightarrow> c x = white) \<Longrightarrow>
    card (whites g c') < card (whites g c)"
  by (intro psubset_card_mono finite_whites) (auto simp: whites_def)

text \<open>What a search of a list of neighbours without a cycle leaves behind.\<close>

definition searched :: "('v \<rightharpoonup> 'v list) \<Rightarrow> ('v \<Rightarrow> color) \<Rightarrow> 'v list \<Rightarrow> ('v \<Rightarrow> color) \<Rightarrow> bool" where
  "searched g c vs c' \<longleftrightarrow> black_ok g c' \<and> (\<forall>v\<in>set vs. c' v = black) \<and> (\<forall>x. c' x = c x \<or> c x = white \<and> c' x = black)"

lemma searched_visit:
  assumes "searched g (c(v := gray)) (adj g v) c'"
  shows "black_ok g (c'(v := black))" "c' v = gray" "\<And>x. x \<noteq> v \<Longrightarrow> c' x = c x \<or> c x = white \<and> c' x = black"
proof -
  show v: "c' v = gray" using assms by (metis color.distinct(1) fun_upd_same searched_def)
  show "black_ok g (c'(v := black))" using assms v by (intro blacken) (auto simp: searched_def)
  show "\<And>x. x \<noteq> v \<Longrightarrow> c' x = c x \<or> c x = white \<and> c' x = black" using assms by (metis fun_upd_other searched_def)
qed

definition paths_to :: "('v \<rightharpoonup> 'v list) \<Rightarrow> ('v \<Rightarrow> color) \<Rightarrow> 'v list \<Rightarrow> bool" where
  "paths_to g c vs \<longleftrightarrow> (\<forall>v\<in>set vs. v \<in> dom g \<union> Range (edges g) \<and> (\<forall>a. c a = gray \<longrightarrow> (a, v) \<in> (edges g)\<^sup>+))"

lemma paths_to_visit:
  assumes "v \<in> dom g \<union> Range (edges g)" "\<And>a. c a = gray \<Longrightarrow> (a, v) \<in> (edges g)\<^sup>+"
  shows "paths_to g (c(v := gray)) (adj g v)"
  unfolding paths_to_def
proof
  fix x
  assume x: "x \<in> set (adj g v)"
  then have e: "(v, x) \<in> edges g" by simp
  then show "x \<in> dom g \<union> Range (edges g) \<and> (\<forall>a. (c(v := gray)) a = gray \<longrightarrow> (a, x) \<in> (edges g)\<^sup>+)"
    using assms(2) trancl_into_trancl [OF _ e] by auto
qed

lemma cycle_visit_correct:
  assumes fin: "finite (dom g)" and "black_ok g c" "paths_to g c vs"
  shows "\<exists>c' found. cycle_visit g c vs = Some (c', found) \<and> (found \<longrightarrow> (\<exists>x. (x, x) \<in> (edges g)\<^sup>+)) \<and> (\<not> found \<longrightarrow> searched g c vs c')"
  using assms(2,3)
proof (induction "(card (whites g c), length vs)" arbitrary: c vs rule: wf_induct_rule [OF wf_lex_prod [OF wf_less wf_less]])
  case (1 c vs)
  note IH = 1(1) and ok = 1(2) and to = 1(3)
  show ?case
  proof (cases vs)
    case Nil
    then show ?thesis using ok by (intro exI [of _ c] exI [of _ False], subst cycle_visit.simps) (simp add: searched_def)
  next
    case (Cons v us)
    have v: "v \<in> dom g \<union> Range (edges g)" "\<And>a. c a = gray \<Longrightarrow> (a, v) \<in> (edges g)\<^sup>+" and us: "paths_to g c us"
      using to unfolding Cons paths_to_def by auto
    consider (g) "c v = gray" | (b) "c v = black" | (w) "c v = white" by (cases "c v") auto
    then show ?thesis
    proof cases
      case g
      then show ?thesis using v(2) [OF g] Cons by (subst cycle_visit.simps) auto
    next
      case b
      obtain c' f where "cycle_visit g c us = Some (c', f)" "f \<longrightarrow> (\<exists>x. (x, x) \<in> (edges g)\<^sup>+)" "\<not> f \<longrightarrow> searched g c us c'"
        using IH [of c us, OF _ ok us] Cons by auto
      moreover have "searched g c us c' \<Longrightarrow> searched g c vs c'" using b unfolding Cons searched_def by (metis set_ConsD color.distinct(3))
      ultimately show ?thesis using b Cons by (subst cycle_visit.simps) auto
    next
      case w
      let ?c = "c(v := gray)"
      have "black_ok g ?c" using ok w unfolding black_ok_def by (metis color.distinct(3,5) fun_upd_apply)
      moreover have less: "card (whites g ?c) < card (whites g c)" using v(1) w fin by (intro whites_less [of g v]) (auto simp: whites_def split: if_splits)
      ultimately obtain c1 f where 1: "cycle_visit g ?c (adj g v) = Some (c1, f)" "f \<longrightarrow> (\<exists>x. (x, x) \<in> (edges g)\<^sup>+)" "\<not> f \<longrightarrow> searched g ?c (adj g v) c1"
        using IH [of ?c "adj g v", OF _ _ paths_to_visit [OF v]] by auto
      show ?thesis
      proof (cases f)
        case True
        then show ?thesis using 1(1,2) w Cons by (subst cycle_visit.simps) auto
      next
        case False
        let ?c1 = "c1(v := black)"
        note s = searched_visit [OF 1(3) [rule_format, OF False]]
        have c1: "?c1 x = c x \<or> c x = white \<and> ?c1 x = black" for x using s(3) [of x] w by auto
        have "card (whites g ?c1) < card (whites g c)"
          using v(1) w fin c1 by (intro whites_less [of g v]) (simp_all add: whites_def, metis color.distinct(3))
        moreover have "paths_to g ?c1 us" using us c1 unfolding paths_to_def by (metis color.distinct(5))
        ultimately obtain c2 f2 where 2: "cycle_visit g ?c1 us = Some (c2, f2)" "f2 \<longrightarrow> (\<exists>x. (x, x) \<in> (edges g)\<^sup>+)" "\<not> f2 \<longrightarrow> searched g ?c1 us c2"
          using IH [of ?c1 us, OF _ s(1)] by auto
        have "searched g c vs c2" if a: "searched g ?c1 us c2"
        proof -
          have "c2 x = ?c1 x \<or> ?c1 x = white \<and> c2 x = black" for x using a unfolding searched_def by blast
          then have "c2 x = c x \<or> c x = white \<and> c2 x = black" "c2 v = black" for x using c1 [of x] by (metis, metis color.distinct(3) fun_upd_same)
          then show ?thesis using a unfolding Cons searched_def by auto
        qed
        then show ?thesis using 1(1) 2 False w Cons by (subst cycle_visit.simps) auto
      qed
    qed
  qed
qed

lemma cycle_keys_correct:
  assumes fin: "finite (dom g)" and "black_ok g c" "\<And>x. c x \<noteq> gray" "set us \<subseteq> dom g" "\<And>x. x \<in> dom g \<Longrightarrow> x \<in> set us \<or> c x = black"
  shows "\<exists>r. cycle_keys g c us = Some r \<and> (r \<longleftrightarrow> (\<exists>x. (x, x) \<in> (edges g)\<^sup>+))"
  using assms(2-)
proof (induction us arbitrary: c)
  case Nil
  have "(x, x) \<notin> (edges g)\<^sup>+" for x
  proof
    assume a: "(x, x) \<in> (edges g)\<^sup>+"
    then have "x \<in> dom g" by (metis adj_dom edges_iff tranclD)
    then show False using a Nil unfolding black_ok_def by auto
  qed
  then show ?case by (intro exI [of _ False]) simp
next
  case (Cons u us)
  show ?case
  proof (cases "c u = white")
    case True
    have "paths_to g (c(u := gray)) (adj g u)" using Cons.prems(2,3) by (intro paths_to_visit) auto
    moreover have "black_ok g (c(u := gray))" using Cons.prems(1) True unfolding black_ok_def by (metis color.distinct(3,5) fun_upd_apply)
    ultimately obtain c1 f where 1: "cycle_visit g (c(u := gray)) (adj g u) = Some (c1, f)" "f \<longrightarrow> (\<exists>x. (x, x) \<in> (edges g)\<^sup>+)"
      "\<not> f \<longrightarrow> searched g (c(u := gray)) (adj g u) c1" using cycle_visit_correct [OF fin] by blast
    show ?thesis
    proof (cases f)
      case True
      then show ?thesis using 1 \<open>c u = white\<close> by auto
    next
      case False
      note s = searched_visit [OF 1(3) [rule_format, OF False]]
      have a: "(c1(u := black)) x \<noteq> gray" for x using s(3) [of x] Cons.prems(2) [of x] by auto
      have b: "x \<in> set us \<or> (c1(u := black)) x = black" if "x \<in> dom g" for x using Cons.prems(4) [OF that] s(3) [of x] by auto
      have "set us \<subseteq> dom g" using Cons.prems(3) by simp
      from Cons.IH [OF s(1) a this b] show ?thesis using 1(1) False True by (simp del: fun_upd_apply)
    qed
  next
    case False
    then have "c u = black" using Cons.prems(2) color.exhaust by blast
    then show ?thesis using Cons.IH [OF Cons.prems(1,2)] Cons.prems(3,4) False by auto
  qed
qed

text \<open>\<^verbatim>\<open>HasCycle\<close> decides the existence of a cycle: on every finite graph, and for every order in which the keys of the map are
  gone through, it returns, and it returns true exactly if some node reaches itself by one or more edges.\<close>

lemma HasCycle_correct:
  assumes "set keys = dom g"
  shows "\<exists>r. HasCycle g keys = Some r \<and> (r \<longleftrightarrow> (\<exists>x. (x, x) \<in> (edges g)\<^sup>+))"
proof -
  have "finite (dom g)" using assms by (metis finite_set)
  then show ?thesis unfolding HasCycle_def using assms by (intro cycle_keys_correct) (auto simp: black_ok_def)
qed

subsection \<open>Reachability\<close>

lemma dfs_push_filter: "dfs_push vs visited stack = rev (filter (\<lambda>v. \<not> visited v) vs) @ stack"
  by (induction vs arbitrary: stack) auto

definition dfs_ok :: "('v \<rightharpoonup> 'v list) \<Rightarrow> 'v \<Rightarrow> ('v \<Rightarrow> bool) \<Rightarrow> 'v list \<Rightarrow> bool" where
  "dfs_ok g s V S \<longleftrightarrow> (V s \<or> s \<in> set S) \<and> (\<forall>x. V x \<or> x \<in> set S \<longrightarrow> (s, x) \<in> (edges g)\<^sup>*) \<and>
     (\<forall>u. V u \<longrightarrow> (\<forall>v\<in>set (adj g u). V v \<or> v \<in> set S))"

lemma dfs_ok_pop: "dfs_ok g s V (u # S) \<Longrightarrow> V u \<Longrightarrow> dfs_ok g s V S"
  unfolding dfs_ok_def by auto

lemma dfs_ok_visit:
  assumes "dfs_ok g s V (u # S)"
  shows "dfs_ok g s (V(u := True)) (dfs_push (rev (adj g u)) (V(u := True)) S)"
proof -
  have "(s, u) \<in> (edges g)\<^sup>*" using assms by (simp add: dfs_ok_def)
  then have "(s, v) \<in> (edges g)\<^sup>*" if "v \<in> set (adj g u)" for v using that rtrancl_into_rtrancl [of s u "edges g" v] by simp
  then show ?thesis using assms by (auto simp: dfs_ok_def dfs_push_filter)
qed

lemma dfs_ok_end: "(s, x) \<in> (edges g)\<^sup>* \<Longrightarrow> dfs_ok g s V [] \<Longrightarrow> V x"
  by (induction rule: rtrancl_induct) (auto simp: dfs_ok_def)

lemma dfs_loop_reach:
  assumes fin: "finite (dom g)" and "dfs_ok g s V S" "distinct out" "\<And>x. x \<in> set out \<longleftrightarrow> V x"
  shows "\<exists>L. dfs_loop g collect V S out = Some L \<and> distinct L \<and> set L = (edges g)\<^sup>* `` {s}"
  using assms(2-)
proof (induction "(card {x \<in> (edges g)\<^sup>* `` {s}. \<not> V x}, length S)" arbitrary: V S out rule: wf_induct_rule [OF wf_lex_prod [OF wf_less wf_less]])
  case (1 V S out)
  note IH = 1(1) and ok = 1(2) and out = 1(3,4)
  show ?case
  proof (cases S)
    case Nil
    have "V x \<longleftrightarrow> (s, x) \<in> (edges g)\<^sup>*" for x using ok dfs_ok_end [of s x g V] unfolding Nil dfs_ok_def by blast
    then have "set out = (edges g)\<^sup>* `` {s}" using out(2) by (intro set_eqI) simp
    then show ?thesis using Nil out by (subst dfs_loop.simps) simp
  next
    case (Cons u S')
    show ?thesis
    proof (cases "V u")
      case True
      then show ?thesis using IH [of V S' out, OF _ dfs_ok_pop [OF ok [unfolded Cons]] out] Cons by (subst dfs_loop.simps) simp
    next
      case False
      let ?V = "V(u := True)" and ?S = "dfs_push (rev (adj g u)) (V(u := True)) S'"
      have u: "(s, u) \<in> (edges g)\<^sup>*" using ok Cons by (simp add: dfs_ok_def)
      have "finite {x \<in> (edges g)\<^sup>* `` {s}. \<not> V x}" using finite_reach [OF fin] by (rule finite_subset [rotated]) auto
      then have "card {x \<in> (edges g)\<^sup>* `` {s}. \<not> ?V x} < card {x \<in> (edges g)\<^sup>* `` {s}. \<not> V x}"
        using u False by (intro psubset_card_mono) auto
      moreover have "distinct (out @ [u])" "\<And>x. x \<in> set (out @ [u]) \<longleftrightarrow> ?V x" using out False by auto
      ultimately show ?thesis using IH [of ?V ?S "out @ [u]", OF _ dfs_ok_visit [OF ok [unfolded Cons]]] Cons False
        by (subst dfs_loop.simps) (simp add: collect_def [of u] Let_def)
    qed
  qed
qed

text \<open>Depth-first search finds the same nodes as breadth-first search, each once.\<close>

lemma dfs_bfs_agree:
  assumes "finite (dom g)"
  shows "\<exists>L M. dfs_Reachable g start = Some L \<and> bfs_Reachable g start = Some M \<and> mset L = mset M"
proof -
  have c: "(\<lambda>node out. (out @ [node], True)) = collect" by (simp add: fun_eq_iff collect_def)
  have "dfs_ok g start (\<lambda>_. False) [start]" by (simp add: dfs_ok_def)
  from dfs_loop_reach [OF assms this, of "[]"] obtain L where L: "dfs_loop g collect (\<lambda>_. False) [start] [] = Some L" "distinct L" "set L = (edges g)\<^sup>* `` {start}"
    by auto
  obtain M where M: "bfs_loop g collect ((\<lambda>_. False)(start := True)) [start] [] = Some M" "distinct M"
    "set M = bfs_rest g start ((\<lambda>_. False)(start := True)) [start]"
    using bfs_loop_order [OF bfs_ok_start assms, of start collect] by (elim exE conjE) simp
  have "set M = set L" using L(3) M(3) by (auto simp: bfs_rest_def)
  then have "mset L = mset M" using L(2) M(2) set_eq_iff_mset_eq_distinct by metis
  then show ?thesis using L(1) M(1) by (simp add: dfs_Reachable_def dfs_Traverse_def bfs_Reachable_def bfs_Traverse_def c)
qed

section \<open>The graph container\<close>

record 'v graph =
  gadj :: "'v \<rightharpoonup> 'v list"

definition graph_New :: "'v graph" where
  "graph_New = \<lparr>gadj = Map.empty\<rparr>"

definition AddVertex :: "'v \<Rightarrow> 'v graph \<Rightarrow> 'v graph" where
  "AddVertex v g = (case gadj g v of Some _ \<Rightarrow> g | None \<Rightarrow> g\<lparr>gadj := (gadj g)(v \<mapsto> [])\<rparr>)"

definition graph_AddEdge :: "'v \<Rightarrow> 'v \<Rightarrow> 'v graph \<Rightarrow> 'v graph" where
  "graph_AddEdge u v g = g\<lparr>gadj := (gadj g)(u \<mapsto> adj (gadj g) u @ [v])\<rparr>"

partial_function (option) graph_bfs_loop :: "('v \<rightharpoonup> 'v list) \<Rightarrow> ('v \<Rightarrow> 's \<Rightarrow> 's) \<Rightarrow> ('v \<Rightarrow> bool) \<Rightarrow> 'v list \<Rightarrow> 's \<Rightarrow> 's option" where
  "graph_bfs_loop g visit visited queue st =
     (case queue of
        [] \<Rightarrow> Some st
      | u # queue \<Rightarrow>
          (case bfs_push (adj g u) visited queue of (visited, queue) \<Rightarrow> graph_bfs_loop g visit visited queue (visit u st)))"

definition graph_BFS :: "'v graph \<Rightarrow> 'v \<Rightarrow> ('v \<Rightarrow> 's \<Rightarrow> 's) \<Rightarrow> 's \<Rightarrow> 's option" where
  "graph_BFS g start visit st = graph_bfs_loop (gadj g) visit ((\<lambda>_. False)(start := True)) [start] st"

text \<open>The recursive closure of \<^verbatim>\<open>DFS\<close>, as its loop over a list of nodes: a node not visited yet is marked, visited, and searched.\<close>

partial_function (option) graph_dfs :: "('v \<rightharpoonup> 'v list) \<Rightarrow> ('v \<Rightarrow> 's \<Rightarrow> 's) \<Rightarrow> ('v \<Rightarrow> bool) \<Rightarrow> 'v list \<Rightarrow> 's \<Rightarrow> (('v \<Rightarrow> bool) \<times> 's) option" where
  "graph_dfs g visit visited vs st =
     (case vs of
        [] \<Rightarrow> Some (visited, st)
      | v # vs \<Rightarrow>
          if \<not> visited v
          then Option.bind (graph_dfs g visit (visited(v := True)) (adj g v) (visit v st))
                 (\<lambda>(visited, st). graph_dfs g visit visited vs st)
          else graph_dfs g visit visited vs st)"

definition graph_DFS :: "'v graph \<Rightarrow> 'v \<Rightarrow> ('v \<Rightarrow> 's \<Rightarrow> 's) \<Rightarrow> 's \<Rightarrow> 's option" where
  "graph_DFS g start visit st =
     (case gadj g start of
        None \<Rightarrow> Some st
      | Some _ \<Rightarrow> map_option snd (graph_dfs (gadj g) visit (\<lambda>_. False) [start] st))"

lemma AddEdge_edges: "edges (gadj (graph_AddEdge u v g)) = insert (u, v) (edges (gadj g))"
  by (auto simp: edges_def graph_AddEdge_def adj_def split: if_splits)

lemma AddVertex_edges: "edges (gadj (AddVertex v g)) = edges (gadj g)" "dom (gadj (AddVertex v g)) = insert v (dom (gadj g))"
  by (auto simp: edges_def AddVertex_def adj_def split: option.splits if_splits)

lemma graph_bfs_loop_order:
  assumes "bfs_ok g s V Q" "finite (dom g)"
  shows "\<exists>L. graph_bfs_loop g visit V Q st = Some (fold visit L st) \<and> distinct L \<and> set L = bfs_rest g s V Q"
  using assms
proof (induction arbitrary: st rule: bfs_induct)
  case (empty V)
  then have "set [] = bfs_rest g s V []" using bfs_empty_all [of s _ g V] by (auto simp: bfs_rest_def)
  then show ?case by (intro exI [of _ "[]"]) (simp add: graph_bfs_loop.simps [of _ _ _ "[]"])
next
  case (step V u Q)
  obtain L where L: "graph_bfs_loop g visit (\<lambda>x. V x \<or> x \<in> set (adj g u)) (Q @ fresh (adj g u) V) (visit u st) = Some (fold visit L (visit u st))"
    "distinct L" "set L = bfs_rest g s (\<lambda>x. V x \<or> x \<in> set (adj g u)) (Q @ fresh (adj g u) V)" using step.IH by blast
  have "graph_bfs_loop g visit V (u # Q) st = Some (fold visit (u # L) st)"
    by (subst graph_bfs_loop.simps) (simp add: bfs_push_fresh L(1))
  then show ?case using L(2,3) bfs_rest_step [OF step.hyps] by (intro exI [of _ "u # L"]) auto
qed

text \<open>What a depth-first search of a list of nodes has visited.\<close>

definition dfs_done :: "('v \<rightharpoonup> 'v list) \<Rightarrow> ('v \<Rightarrow> bool) \<Rightarrow> 'v list \<Rightarrow> ('v \<Rightarrow> bool) \<Rightarrow> 'v list \<Rightarrow> bool" where
  "dfs_done g V vs V' L \<longleftrightarrow> distinct L \<and> (\<forall>x. V' x \<longleftrightarrow> V x \<or> x \<in> set L) \<and> (\<forall>x\<in>set L. \<not> V x) \<and> (\<forall>v\<in>set vs. V' v) \<and>
     (\<forall>u\<in>set L. \<forall>v\<in>set (adj g u). V' v) \<and> (\<forall>x\<in>set L. \<exists>v\<in>set vs. (v, x) \<in> (edges g)\<^sup>*)"

lemma dfs_done_Nil: "dfs_done g V [] V []"
  by (simp add: dfs_done_def)

lemma dfs_done_skip: "V v \<Longrightarrow> dfs_done g V vs V' L \<Longrightarrow> dfs_done g V (v # vs) V' L"
  unfolding dfs_done_def by auto

lemma dfs_done_visit:
  assumes "\<not> V v" "dfs_done g (V(v := True)) (adj g v) V1 L1" "dfs_done g V1 vs V2 L2"
  shows "dfs_done g V (v # vs) V2 (v # L1 @ L2)"
proof -
  have 1: "distinct L1" "\<And>x. V1 x \<longleftrightarrow> x = v \<or> V x \<or> x \<in> set L1" "\<And>x. x \<in> set L1 \<Longrightarrow> x \<noteq> v \<and> \<not> V x" "\<And>x. x \<in> set (adj g v) \<Longrightarrow> V1 x"
    "\<And>u x. u \<in> set L1 \<Longrightarrow> x \<in> set (adj g u) \<Longrightarrow> V1 x" "\<And>x. x \<in> set L1 \<Longrightarrow> \<exists>w\<in>set (adj g v). (w, x) \<in> (edges g)\<^sup>*"
    using assms(2) unfolding dfs_done_def by (auto split: if_splits)
  have 2: "distinct L2" "\<And>x. V2 x \<longleftrightarrow> V1 x \<or> x \<in> set L2" "\<And>x. x \<in> set L2 \<Longrightarrow> \<not> V1 x" "\<And>x. x \<in> set vs \<Longrightarrow> V2 x"
    "\<And>u x. u \<in> set L2 \<Longrightarrow> x \<in> set (adj g u) \<Longrightarrow> V2 x" "\<And>x. x \<in> set L2 \<Longrightarrow> \<exists>w\<in>set vs. (w, x) \<in> (edges g)\<^sup>*"
    using assms(3) unfolding dfs_done_def by auto
  have "(v, x) \<in> (edges g)\<^sup>*" if x: "x \<in> set L1" for x
  proof -
    obtain w where "(v, w) \<in> edges g" "(w, x) \<in> (edges g)\<^sup>*" using 1(6) [OF x] by auto
    then show ?thesis by (rule converse_rtrancl_into_rtrancl)
  qed
  then have "\<forall>x\<in>set (v # L1 @ L2). \<exists>w\<in>set (v # vs). (w, x) \<in> (edges g)\<^sup>*" using 2(6) by auto
  moreover have "\<forall>u\<in>set (v # L1 @ L2). \<forall>x\<in>set (adj g u). V2 x" using 1(4,5) 2(2) 2(5) by (metis Un_iff set_ConsD set_append)
  moreover have "v \<notin> set L2" "set L1 \<inter> set L2 = {}" using 1(2) 2(3) by blast+
  then have "distinct (v # L1 @ L2)" using 1(1,3) 2(1) by auto
  moreover have "\<forall>x. V2 x \<longleftrightarrow> V x \<or> x \<in> set (v # L1 @ L2)" "\<forall>x\<in>set (v # L1 @ L2). \<not> V x" "\<forall>x\<in>set (v # vs). V2 x"
    using 1(2,3) 2(2-4) assms(1) by auto
  ultimately show ?thesis unfolding dfs_done_def by blast
qed

lemma graph_dfs_correct:
  assumes fin: "finite (dom g)"
  shows "set vs \<subseteq> dom g \<union> Range (edges g) \<Longrightarrow> \<exists>V' L. graph_dfs g visit V vs st = Some (V', fold visit L st) \<and> dfs_done g V vs V' L"
proof (induction "(card {x \<in> dom g \<union> Range (edges g). \<not> V x}, length vs)" arbitrary: V vs st rule: wf_induct_rule [OF wf_lex_prod [OF wf_less wf_less]])
  case (1 V vs st)
  note IH = 1(1)
  show ?case
  proof (cases vs)
    case Nil
    then show ?thesis by (intro exI [of _ V] exI [of _ "[]"], subst graph_dfs.simps) (simp add: dfs_done_Nil)
  next
    case (Cons v us)
    have us: "set us \<subseteq> dom g \<union> Range (edges g)" "v \<in> dom g \<union> Range (edges g)" using 1(2) Cons by auto
    show ?thesis
    proof (cases "V v")
      case True
      obtain V' L where "graph_dfs g visit V us st = Some (V', fold visit L st)" "dfs_done g V us V' L" using IH [of V us st, OF _ us(1)] Cons by auto
      then show ?thesis using True Cons dfs_done_skip [of V v g us] by (subst graph_dfs.simps) auto
    next
      case False
      let ?N = "\<lambda>V. {x \<in> dom g \<union> Range (edges g). \<not> V x}"
      have less: "card (?N V') < card (?N V)" if "\<And>x. V x \<or> x = v \<Longrightarrow> V' x" for V'
        using that us(2) False fin finite_edges [OF fin] by (intro psubset_card_mono) (auto simp: finite_Range)
      have "set (adj g v) \<subseteq> dom g \<union> Range (edges g)" by (auto intro!: RangeI [of v] simp: edges_def)
      moreover have "card (?N (V(v := True))) < card (?N V)" by (rule less) auto
      ultimately obtain V1 L1 where 1: "graph_dfs g visit (V(v := True)) (adj g v) (visit v st) = Some (V1, fold visit L1 (visit v st))"
          "dfs_done g (V(v := True)) (adj g v) V1 L1"
        using IH [of "V(v := True)" "adj g v" "visit v st"] by (auto simp del: fun_upd_apply)
      have "V x \<or> x = v \<Longrightarrow> V1 x" for x using 1(2) by (auto simp: dfs_done_def)
      then obtain V2 L2 where 2: "graph_dfs g visit V1 us (fold visit L1 (visit v st)) = Some (V2, fold visit L2 (fold visit L1 (visit v st)))"
          "dfs_done g V1 us V2 L2" using IH [of V1 us "fold visit L1 (visit v st)", OF _ us(1)] less [of V1] by auto
      have "graph_dfs g visit V vs st = Some (V2, fold visit (v # L1 @ L2) st)" using 1(1) 2(1) False Cons by (subst graph_dfs.simps) simp
      then show ?thesis unfolding Cons using dfs_done_visit [OF False 1(2) 2(2)] by blast
    qed
  qed
qed

text \<open>The graph container.  On every finite graph and for a start that is in it, \<^verbatim>\<open>BFS\<close> and \<^verbatim>\<open>DFS\<close> return, and both call the visitor exactly
  once on each node reachable from the start, over the edges that were added, and on no other.\<close>

lemma graph_search_agree:
  assumes "finite (dom (gadj g))" "start \<in> dom (gadj g)"
  shows "\<exists>L M. graph_BFS g start visit st = Some (fold visit L st) \<and> graph_DFS g start visit st = Some (fold visit M st) \<and>
    distinct L \<and> mset L = mset M \<and> set L = (edges (gadj g))\<^sup>* `` {start}"
proof -
  let ?R = "(edges (gadj g))\<^sup>* `` {start}"
  obtain L where L: "graph_BFS g start visit st = Some (fold visit L st)" "distinct L" "set L = bfs_rest (gadj g) start ((\<lambda>_. False)(start := True)) [start]"
    using graph_bfs_loop_order [OF bfs_ok_start assms(1), where visit = visit and st = st] unfolding graph_BFS_def by blast
  obtain V M where M: "graph_dfs (gadj g) visit (\<lambda>_. False) [start] st = Some (V, fold visit M st)" "dfs_done (gadj g) (\<lambda>_. False) [start] V M"
    using graph_dfs_correct [OF assms(1), of "[start]" visit "\<lambda>_. False" st] assms(2) by auto
  have "x \<in> set M" if "(start, x) \<in> (edges (gadj g))\<^sup>*" for x
    using that M(2) by (induction rule: rtrancl_induct) (auto simp: dfs_done_def)
  then have "set M = ?R" "distinct M" using M(2) by (auto simp: dfs_done_def)
  moreover have "set L = ?R" using L(3) by (auto simp: bfs_rest_def)
  ultimately have "set L = ?R" "mset L = mset M" using L(2) set_eq_iff_mset_eq_distinct by metis+
  then show ?thesis using L(1,2) M(1) assms(2) by (intro exI [of _ L] exI [of _ M]) (auto simp: graph_DFS_def)
qed

text \<open>The neighbours of a node are explored from the first to the last.\<close>

lemma dfs_first_neighbour: "dfs_Reachable [''a'' \<mapsto> [''b'', ''c'']] ''a'' = Some [''a'', ''b'', ''c'']"
  by (simp add: dfs_Reachable_def dfs_Traverse_def dfs_loop.simps adj_def)

end
