(* ===== verification/Event_Store.thy ===== *)
theory Event_Store
  imports Prelude
begin

text \<open>
  \<^verbatim>\<open>pkg/enterprise/eventsource\<close>: the in-memory event, snapshot and checkpoint stores (\<^verbatim>\<open>adapters/memory\<close>), the aggregate repository
  (\<^verbatim>\<open>eventsource.go\<close>) and the projection runner (\<^verbatim>\<open>projection.go\<close>).  A context is an optional error to return, times are integers with 0 for
  the zero time, the payload of an event (data and metadata) is of any type, and an aggregate's own state and its event
  function are arguments.
\<close>

section \<open>Stores\<close>

record 'd Event =
  evID :: string
  evAggregateID :: string
  evAggregateType :: string
  evEventType :: string
  evVersion :: int
  evTimestamp :: int
  evData :: 'd

datatype es_error = ECtx | EInvalidArgument | EVersionConflict string int int | EApplyFailed | EUser

record 'd EventStore =
  streams :: "string \<rightharpoonup> 'd Event list"

definition NewEventStore :: "'d EventStore" where
  "NewEventStore = \<lparr>streams = Map.empty\<rparr>"

definition stream :: "'d EventStore \<Rightarrow> string \<Rightarrow> 'd Event list" where
  "stream s a = (case streams s a of None \<Rightarrow> [] | Some es \<Rightarrow> es)"

text \<open>The loop of \<^verbatim>\<open>Append\<close> that stamps the events in place; \<open>now i\<close> is the clock in round \<open>i\<close>.\<close>

fun stamp :: "string \<Rightarrow> int \<Rightarrow> (nat \<Rightarrow> int) \<Rightarrow> nat \<Rightarrow> 'd Event list \<Rightarrow> 'd Event list" where
  "stamp aggregateID currentVersion now i [] = []"
| "stamp aggregateID currentVersion now i (e # es) =
     e\<lparr>evAggregateID := aggregateID, evVersion := currentVersion + int i + 1,
       evTimestamp := (if evTimestamp e = 0 then now i else evTimestamp e)\<rparr>
     # stamp aggregateID currentVersion now (i + 1) es"

text \<open>\<^verbatim>\<open>Append\<close> returns the new store and the caller's slice as it was stamped.\<close>

definition Append :: "es_error option \<Rightarrow> (nat \<Rightarrow> int) \<Rightarrow> string \<Rightarrow> int \<Rightarrow> 'd Event list \<Rightarrow> 'd EventStore \<Rightarrow> es_error + 'd EventStore \<times> 'd Event list" where
  "Append ctx now aggregateID expectedVersion events s =
     (case ctx of
        Some err \<Rightarrow> Inl err
      | None \<Rightarrow>
          if aggregateID = '''' then Inl EInvalidArgument
          else let es = stream s aggregateID; currentVersion = int (length es) in
            if expectedVersion \<ge> 0 \<and> currentVersion \<noteq> expectedVersion
            then Inl (EVersionConflict aggregateID expectedVersion currentVersion)
            else let events = stamp aggregateID currentVersion now 0 events in
              Inr (s\<lparr>streams := (streams s)(aggregateID \<mapsto> es @ events)\<rparr>, events))"

definition es_Load :: "es_error option \<Rightarrow> string \<Rightarrow> 'd EventStore \<Rightarrow> es_error + 'd Event list" where
  "es_Load ctx aggregateID s =
     (case ctx of Some err \<Rightarrow> Inl err
      | None \<Rightarrow> (case streams s aggregateID of None \<Rightarrow> Inr [] | Some es \<Rightarrow> Inr es))"

definition LoadFrom :: "es_error option \<Rightarrow> string \<Rightarrow> int \<Rightarrow> 'd EventStore \<Rightarrow> es_error + 'd Event list" where
  "LoadFrom ctx aggregateID fromVersion s =
     (case ctx of Some err \<Rightarrow> Inl err
      | None \<Rightarrow>
          (case streams s aggregateID of
             None \<Rightarrow> Inr []
           | Some es \<Rightarrow>
               if fromVersion \<le> 1 then Inr es
               else let startIdx = fromVersion - 1 in
                 if startIdx \<ge> int (length es) then Inr [] else Inr (drop (nat startIdx) es)))"

text \<open>\<^verbatim>\<open>LoadAll\<close> ranges over the map of streams: \<open>keys\<close> is the order of this iteration.\<close>

definition LoadAll :: "es_error option \<Rightarrow> string list \<Rightarrow> 'd EventStore \<Rightarrow> es_error + 'd Event list" where
  "LoadAll ctx keys s = (case ctx of Some err \<Rightarrow> Inl err | None \<Rightarrow> Inr (concat (map (stream s) keys)))"

record 'j Snapshot =
  snAggregateID :: string
  snAggregateType :: string
  snVersion :: int
  snTimestamp :: int
  snData :: 'j

type_synonym 'j SnapshotStore = "string \<rightharpoonup> 'j Snapshot"

definition snapshot_Save :: "es_error option \<Rightarrow> 'j Snapshot \<Rightarrow> 'j SnapshotStore \<Rightarrow> es_error + 'j SnapshotStore" where
  "snapshot_Save ctx snapshot s =
     (case ctx of Some err \<Rightarrow> Inl err
      | None \<Rightarrow> if snAggregateID snapshot = '''' then Inl EInvalidArgument else Inr (s(snAggregateID snapshot \<mapsto> snapshot)))"

definition snapshot_Load :: "es_error option \<Rightarrow> string \<Rightarrow> 'j SnapshotStore \<Rightarrow> es_error + 'j Snapshot option" where
  "snapshot_Load ctx aggregateID s = (case ctx of Some err \<Rightarrow> Inl err | None \<Rightarrow> Inr (s aggregateID))"

record Checkpoint =
  cpName :: string
  cpPosition :: int
  cpUpdatedAt :: int

type_synonym CheckpointStore = "string \<rightharpoonup> Checkpoint"

definition checkpoint_Load :: "es_error option \<Rightarrow> string \<Rightarrow> CheckpointStore \<Rightarrow> es_error + Checkpoint" where
  "checkpoint_Load ctx name s =
     (case ctx of Some err \<Rightarrow> Inl err
      | None \<Rightarrow> (case s name of None \<Rightarrow> Inr \<lparr>cpName = name, cpPosition = 0, cpUpdatedAt = 0\<rparr> | Some cp \<Rightarrow> Inr cp))"

definition checkpoint_Save :: "es_error option \<Rightarrow> int \<Rightarrow> Checkpoint \<Rightarrow> CheckpointStore \<Rightarrow> es_error + CheckpointStore" where
  "checkpoint_Save ctx now cp s =
     (case ctx of Some err \<Rightarrow> Inl err
      | None \<Rightarrow>
          if cpName cp = '''' then Inl EInvalidArgument
          else let cp = (if cpUpdatedAt cp = 0 then cp\<lparr>cpUpdatedAt := now\<rparr> else cp) in Inr (s(cpName cp \<mapsto> cp)))"

section \<open>Aggregates and their repository\<close>

record ('s, 'd) Aggregate =
  agID :: string
  agType :: string
  agVersion :: int
  uncommitted :: "'d Event list"
  agState :: 's

definition NewBaseEventSourcedAggregate :: "string \<Rightarrow> string \<Rightarrow> 's \<Rightarrow> ('s, 'd) Aggregate" where
  "NewBaseEventSourcedAggregate i t st = \<lparr>agID = i, agType = t, agVersion = 0, uncommitted = [], agState = st\<rparr>"

text \<open>\<open>None\<close> as data is a failure of \<^verbatim>\<open>json.Marshal\<close>.\<close>

definition RecordEvent :: "int \<Rightarrow> string \<Rightarrow> 'd option \<Rightarrow> ('s, 'd) Aggregate \<Rightarrow> es_error + ('s, 'd) Aggregate" where
  "RecordEvent now eventType data a =
     (case data of
        None \<Rightarrow> Inl EUser
      | Some jsonData \<Rightarrow>
          Inr (a\<lparr>uncommitted := uncommitted a @
            [\<lparr>evID = '''', evAggregateID = agID a, evAggregateType = agType a, evEventType = eventType,
              evVersion = agVersion a + int (length (uncommitted a)) + 1, evTimestamp = now, evData = jsonData\<rparr>]\<rparr>))"

definition repo_Save :: "es_error option \<Rightarrow> (nat \<Rightarrow> int) \<Rightarrow> ('s, 'd) Aggregate \<Rightarrow> 'd EventStore \<Rightarrow> es_error + 'd EventStore \<times> ('s, 'd) Aggregate" where
  "repo_Save ctx now a s =
     (if length (uncommitted a) = 0 then Inr (s, a)
      else case Append ctx now (agID a) (agVersion a) (uncommitted a) s of
        Inl err \<Rightarrow> Inl err
      | Inr (s, events) \<Rightarrow> Inr (s, a\<lparr>agVersion := evVersion (last events), uncommitted := []\<rparr>))"

text \<open>The aggregate is changed in place, so it is returned also with an error.\<close>

fun applyEvents :: "('s \<Rightarrow> 'd Event \<Rightarrow> 's option) \<Rightarrow> 'd Event list \<Rightarrow> ('s, 'd) Aggregate \<Rightarrow> ('s, 'd) Aggregate \<times> es_error option" where
  "applyEvents apply [] a = (a, None)"
| "applyEvents apply (e # es) a =
     (case apply (agState a) e of
        None \<Rightarrow> (a, Some EUser)
      | Some st \<Rightarrow> applyEvents apply es (a\<lparr>agState := st, agVersion := evVersion e\<rparr>))"

definition applyFrom :: "es_error option \<Rightarrow> ('s \<Rightarrow> 'd Event \<Rightarrow> 's option) \<Rightarrow> int \<Rightarrow> 'd EventStore \<Rightarrow> ('s, 'd) Aggregate \<Rightarrow> ('s, 'd) Aggregate \<times> es_error option" where
  "applyFrom ctx apply fromVersion s a =
     (case LoadFrom ctx (agID a) fromVersion s of Inl err \<Rightarrow> (a, Some err) | Inr es \<Rightarrow> applyEvents apply es a)"

text \<open>\<open>snaps\<close> is the snapshot store of the repository if it has one, \<open>restore\<close> the method of a \<^verbatim>\<open>Snapshottable\<close> aggregate.\<close>

definition repo_Load :: "es_error option \<Rightarrow> ('s \<Rightarrow> 'd Event \<Rightarrow> 's option) \<Rightarrow> ('j \<Rightarrow> 's \<Rightarrow> 's option) option \<Rightarrow> 'j SnapshotStore option \<Rightarrow>
    'd EventStore \<Rightarrow> ('s, 'd) Aggregate \<Rightarrow> ('s, 'd) Aggregate \<times> es_error option" where
  "repo_Load ctx apply restore snaps s a =
     (let full = (case es_Load ctx (agID a) s of Inl err \<Rightarrow> (a, Some err) | Inr es \<Rightarrow> applyEvents apply es a) in
      case (restore, snaps) of
        (Some restore, Some snaps) \<Rightarrow>
          (case snapshot_Load ctx (agID a) snaps of
             Inl err \<Rightarrow> (a, Some err)
           | Inr None \<Rightarrow> full
           | Inr (Some snap) \<Rightarrow>
               (case restore (snData snap) (agState a) of
                  None \<Rightarrow> (a, Some EUser)
                | Some st \<Rightarrow>
                    applyFrom ctx apply (snVersion snap + 1) s (a\<lparr>agState := st, agVersion := snVersion snap\<rparr>)))
      | _ \<Rightarrow> full)"

definition SaveSnapshot :: "es_error option \<Rightarrow> int \<Rightarrow> ('s \<Rightarrow> 'j option) \<Rightarrow> ('s, 'd) Aggregate \<Rightarrow> 'j SnapshotStore option \<Rightarrow> es_error + 'j SnapshotStore" where
  "SaveSnapshot ctx now snapshotData a snaps =
     (case snaps of
        None \<Rightarrow> Inl EInvalidArgument
      | Some snaps \<Rightarrow>
          (case snapshotData (agState a) of
             None \<Rightarrow> Inl EUser
           | Some data \<Rightarrow>
               snapshot_Save ctx \<lparr>snAggregateID = agID a, snAggregateType = agType a, snVersion = agVersion a, snTimestamp = now, snData = data\<rparr> snaps))"

section \<open>Projections\<close>

text \<open>A runner is wired to a store, a checkpoint store and a projector that are not nil.\<close>

record ('p, 'd) ProjectionRunner =
  prName :: string
  prBatch :: int
  prTypes :: "string list"
  prProject :: "'d Event \<Rightarrow> 'p \<Rightarrow> 'p \<times> bool"

text \<open>\<open>prProject\<close> returns the projector's new state and whether it succeeded.\<close>

definition shouldProject :: "('p, 'd) ProjectionRunner \<Rightarrow> string \<Rightarrow> bool" where
  "shouldProject r eventType \<longleftrightarrow> (if length (prTypes r) = 0 then True else eventType \<in> set (prTypes r))"

definition NewProjectionRunner :: "string list \<Rightarrow> ('d Event \<Rightarrow> 'p \<Rightarrow> 'p \<times> bool) \<Rightarrow> string \<Rightarrow> int \<Rightarrow> ('p, 'd) ProjectionRunner" where
  "NewProjectionRunner eventTypes project name batch =
     \<lparr>prName = (if name = '''' then (if length eventTypes > 0 then hd eventTypes else ''default'') else name),
      prBatch = (if batch \<le> 0 then 1 else batch), prTypes = eventTypes, prProject = project\<rparr>"

text \<open>The loop of \<^verbatim>\<open>RunOnce\<close> over the events from index \<open>i\<close> on; \<open>ctx (2 * i)\<close> and \<open>ctx (2 * i + 1)\<close> are the context at the check and at the save
  of that round, \<open>now i\<close> is its clock.\<close>

fun run_events :: "(nat \<Rightarrow> es_error option) \<Rightarrow> (nat \<Rightarrow> int) \<Rightarrow> ('p, 'd) ProjectionRunner \<Rightarrow> nat \<Rightarrow> 'd Event list \<Rightarrow> int \<Rightarrow> Checkpoint \<Rightarrow>
    CheckpointStore \<Rightarrow> 'p \<Rightarrow> CheckpointStore \<times> 'p \<times> es_error option" where
  "run_events ctx now r i [] sinceLastSave cp checkpoints p = (checkpoints, p, None)"
| "run_events ctx now r i (ev # evs) sinceLastSave cp checkpoints p =
     (case ctx (2 * i) of
        Some err \<Rightarrow> (checkpoints, p, Some err)
      | None \<Rightarrow>
          (case (if shouldProject r (evEventType ev) then prProject r ev p else (p, True)) of
             (p, ok) \<Rightarrow>
               if \<not> ok then (checkpoints, p, Some EApplyFailed)
               else let cp = \<lparr>cpName = prName r, cpPosition = int i + 1, cpUpdatedAt = now i\<rparr>;
                        sinceLastSave = sinceLastSave + 1 in
                 if sinceLastSave \<ge> prBatch r \<or> evs = []
                 then (case checkpoint_Save (ctx (2 * i + 1)) (now i) cp checkpoints of
                         Inl err \<Rightarrow> (checkpoints, p, Some err)
                       | Inr checkpoints \<Rightarrow> run_events ctx now r (i + 1) evs 0 cp checkpoints p)
                 else run_events ctx now r (i + 1) evs sinceLastSave cp checkpoints p))"

definition RunOnce :: "es_error option \<Rightarrow> (nat \<Rightarrow> es_error option) \<Rightarrow> (nat \<Rightarrow> int) \<Rightarrow> string list \<Rightarrow> ('p, 'd) ProjectionRunner \<Rightarrow> 'd EventStore \<Rightarrow>
    CheckpointStore \<Rightarrow> 'p \<Rightarrow> CheckpointStore \<times> 'p \<times> es_error option" where
  "RunOnce ctx ctxs now keys r s checkpoints p =
     (case ctx of
        Some err \<Rightarrow> (checkpoints, p, Some err)
      | None \<Rightarrow>
          (case checkpoint_Load ctx (prName r) checkpoints of
             Inl err \<Rightarrow> (checkpoints, p, Some err)
           | Inr cp \<Rightarrow>
               (case LoadAll ctx keys s of
                  Inl err \<Rightarrow> (checkpoints, p, Some err)
                | Inr evs \<Rightarrow>
                    let start = (if cpPosition cp < 0 then 0 else cpPosition cp);
                        start = (if start > int (length evs) then 0 else start) in
                    if start \<ge> int (length evs) then (checkpoints, p, None)
                    else run_events ctxs now r (nat start) (drop (nat start) evs) 0 cp checkpoints p)))"

definition ResetCheckpoint :: "es_error option \<Rightarrow> int \<Rightarrow> ('p, 'd) ProjectionRunner \<Rightarrow> CheckpointStore \<Rightarrow> es_error + CheckpointStore" where
  "ResetCheckpoint ctx now r checkpoints = checkpoint_Save ctx now \<lparr>cpName = prName r, cpPosition = 0, cpUpdatedAt = now\<rparr> checkpoints"

section \<open>Linear histories\<close>

lemma stamp_length [simp]: "length (stamp a v now i es) = length es"
  by (induction a v now i es rule: stamp.induct) auto

lemma stamp_versions: "map evVersion (stamp a v now i es) = map (\<lambda>k. v + int i + int k + 1) [0..<length es]"
proof (induction a v now i es rule: stamp.induct)
  case (2 a v now i e es)
  then show ?case by (simp add: upt_conv_Cons map_Suc_upt [symmetric] del: upt_Suc)
qed simp

lemma stamp_ids: "e \<in> set (stamp a v now i es) \<Longrightarrow> evAggregateID e = a"
  by (induction a v now i es rule: stamp.induct) auto

definition payload :: "'d Event \<Rightarrow> string \<times> string \<times> string \<times> 'd" where
  "payload e = (evID e, evAggregateType e, evEventType e, evData e)"

lemma stamp_payload [simp]: "map payload (stamp a v now i es) = map payload es"
  by (induction a v now i es rule: stamp.induct) (auto simp: payload_def)

definition es_ok :: "'d EventStore \<Rightarrow> bool" where
  "es_ok s \<longleftrightarrow> (\<forall>a. map evVersion (stream s a) = map (\<lambda>k. int k + 1) [0..<length (stream s a)] \<and> (\<forall>e\<in>set (stream s a). evAggregateID e = a))"

lemma es_ok_New: "es_ok NewEventStore"
  by (simp add: es_ok_def NewEventStore_def stream_def)

lemma Append_cases:
  assumes "Append ctx now a v es s = Inr (s', es')"
  shows "es' = stamp a (int (length (stream s a))) now 0 es" "\<And>b. stream s' b = (if b = a then stream s a @ es' else stream s b)"
    "v \<ge> 0 \<Longrightarrow> v = int (length (stream s a))" "ctx = None" "a \<noteq> []"
  using assms by (auto simp: Append_def Let_def stream_def split: option.splits if_splits)

lemma Append_succeeds: "a \<noteq> [] \<Longrightarrow> (\<exists>r. Append None now a v es s = Inr r) \<longleftrightarrow> v < 0 \<or> v = int (length (stream s a))"
  by (auto simp: Append_def Let_def)

lemma Append_ok:
  assumes "es_ok s" "Append ctx now a v es s = Inr (s', es')"
  shows "es_ok s'"
proof -
  note A = Append_cases [OF assms(2)]
  have "map (\<lambda>k. int k + 1) [0..<n + m] = map (\<lambda>k. int k + 1) [0..<n] @ map (\<lambda>k. int n + int 0 + int k + 1) [0..<m]" for n m
    by (induction m) auto
  then have "map evVersion (stream s a @ es') = map (\<lambda>k. int k + 1) [0..<length (stream s a @ es')]"
    using assms(1) unfolding A(1) by (simp add: es_ok_def stamp_versions)
  then show ?thesis using assms(1) stamp_ids [of _ a] unfolding es_ok_def A(2) A(1) by auto
qed

text \<open>Sequences of \<^verbatim>\<open>Append\<close> calls, with the success of each.\<close>

record 'd append_call =
  ac_ctx :: "es_error option"
  ac_now :: "nat \<Rightarrow> int"
  ac_id :: string
  ac_expected :: int
  ac_events :: "'d Event list"

fun es_run :: "'d append_call list \<Rightarrow> 'd EventStore \<Rightarrow> 'd EventStore \<times> bool list" where
  "es_run [] s = (s, [])"
| "es_run (c # cs) s =
     (case Append (ac_ctx c) (ac_now c) (ac_id c) (ac_expected c) (ac_events c) s of
        Inl _ \<Rightarrow> (case es_run cs s of (s', oks) \<Rightarrow> (s', False # oks))
      | Inr (s1, _) \<Rightarrow> (case es_run cs s1 of (s', oks) \<Rightarrow> (s', True # oks)))"

definition appended :: "string \<Rightarrow> 'd append_call list \<Rightarrow> bool list \<Rightarrow> (string \<times> string \<times> string \<times> 'd) list" where
  "appended a cs oks = concat (map (\<lambda>(c, ok). if ok \<and> ac_id c = a then map payload (ac_events c) else []) (zip cs oks))"

lemma es_run_cases:
  obtains (refused) e where "Append (ac_ctx c) (ac_now c) (ac_id c) (ac_expected c) (ac_events c) s = Inl e"
      "es_run (c # cs) s = (fst (es_run cs s), False # snd (es_run cs s))"
  | (accepted) s1 es where "Append (ac_ctx c) (ac_now c) (ac_id c) (ac_expected c) (ac_events c) s = Inr (s1, es)"
      "es_run (c # cs) s = (fst (es_run cs s1), True # snd (es_run cs s1))"
proof (cases "Append (ac_ctx c) (ac_now c) (ac_id c) (ac_expected c) (ac_events c) s")
  case (Inl e)
  then show ?thesis using refused by (simp add: split_beta)
next
  case (Inr x)
  then obtain s1 es where "x = (s1, es)" by fastforce
  then show ?thesis using Inr accepted by (simp add: split_beta)
qed

lemma es_run_history:
  "es_ok s \<Longrightarrow> es_ok (fst (es_run cs s)) \<and> length (snd (es_run cs s)) = length cs \<and>
   map payload (stream (fst (es_run cs s)) a) = map payload (stream s a) @ appended a cs (snd (es_run cs s))"
proof (induction cs arbitrary: s)
  case (Cons c cs)
  show ?case
  proof (cases rule: es_run_cases [of c s cs])
    case (refused e)
    then show ?thesis using Cons by (simp add: appended_def)
  next
    case (accepted s1 es)
    note A = Append_cases [OF accepted(1)]
    have "map payload (stream s1 a) = map payload (stream s a) @ (if ac_id c = a then map payload (ac_events c) else [])"
      unfolding A(2) A(1) by auto
    then show ?thesis using Cons.IH [OF Append_ok [OF Cons.prems accepted(1)]] accepted(2) by (simp add: appended_def)
  qed
qed (simp add: appended_def)

lemma es_run_expected:
  "es_ok s \<Longrightarrow> j < length cs \<Longrightarrow> snd (es_run cs s) ! j \<Longrightarrow> ac_expected (cs ! j) \<ge> 0 \<Longrightarrow>
   int (length (stream s (ac_id (cs ! j)))) \<le> ac_expected (cs ! j)"
proof (induction cs arbitrary: s j)
  case (Cons c cs)
  show ?case
  proof (cases rule: es_run_cases [of c s cs])
    case (refused e)
    then show ?thesis using Cons by (cases j) auto
  next
    case (accepted s1 es)
    note A = Append_cases [OF accepted(1)]
    show ?thesis
    proof (cases j)
      case 0
      then show ?thesis using A(3) Cons.prems by auto
    next
      case (Suc k)
      have "length (stream s (ac_id (cs ! k))) \<le> length (stream s1 (ac_id (cs ! k)))" using A(2) by simp
      moreover have "int (length (stream s1 (ac_id (cs ! k)))) \<le> ac_expected (cs ! k)"
        using Cons.IH [OF Append_ok [OF Cons.prems(1) accepted(1)], of k] Cons.prems Suc accepted(2) by simp
      ultimately show ?thesis using Suc by simp
    qed
  qed
qed simp

lemma es_run_exclusive:
  "es_ok s \<Longrightarrow> i < j \<Longrightarrow> j < length cs \<Longrightarrow> snd (es_run cs s) ! i \<Longrightarrow> snd (es_run cs s) ! j \<Longrightarrow> ac_id (cs ! i) = ac_id (cs ! j) \<Longrightarrow>
   ac_expected (cs ! i) = ac_expected (cs ! j) \<Longrightarrow> ac_expected (cs ! i) \<ge> 0 \<Longrightarrow> ac_events (cs ! i) = []"
proof (induction cs arbitrary: s i j)
  case (Cons c cs)
  then obtain k where j: "j = Suc k" by (cases j) auto
  show ?case
  proof (cases rule: es_run_cases [of c s cs])
    case (refused e)
    then show ?thesis using Cons j by (cases i) auto
  next
    case (accepted s1 es)
    note A = Append_cases [OF accepted(1)] and ok = Append_ok [OF Cons.prems(1) accepted(1)]
    show ?thesis
    proof (cases i)
      case 0
      have "int (length (stream s1 (ac_id c))) \<le> ac_expected c" using es_run_expected [OF ok, of k cs] Cons.prems j 0 accepted(2) by simp
      moreover have "ac_expected c = int (length (stream s (ac_id c)))" using A(3) Cons.prems 0 by simp
      ultimately have "es = []" using A(2) [of "ac_id c"] by simp
      then show ?thesis using A(1) 0 by (metis length_0_conv nth_Cons_0 stamp_length)
    next
      case (Suc i')
      then show ?thesis using Cons.IH [OF ok, of i' k] Cons.prems j accepted(2) by simp
    qed
  qed
qed simp

lemma LoadFrom_filter:
  assumes "es_ok s"
  shows "LoadFrom None a v s = Inr (filter (\<lambda>e. v \<le> evVersion e) (stream s a))"
proof -
  let ?es = "stream s a"
  have n: "evVersion (?es ! k) = int k + 1" if "k < length ?es" for k
    using assms that unfolding es_ok_def by (metis (no_types, lifting) add_0 diff_zero length_upt nth_map nth_upt)
  have "filter (\<lambda>e. v \<le> evVersion e) ?es = drop (nat (v - 1)) ?es"
  proof -
    have "filter (\<lambda>e. v \<le> evVersion e) (take (nat (v - 1)) ?es) = []" using n by (auto simp: filter_empty_conv in_set_conv_nth)
    moreover have "filter (\<lambda>e. v \<le> evVersion e) (drop (nat (v - 1)) ?es) = drop (nat (v - 1)) ?es"
      using n by (auto simp: filter_id_conv in_set_conv_nth)
    ultimately show ?thesis by (metis append_Nil append_take_drop_id filter_append)
  qed
  then show ?thesis by (auto simp: LoadFrom_def stream_def Let_def split: option.splits)
qed

text \<open>C16: the event store keeps linear histories.  After any sequence of \<^verbatim>\<open>Append\<close> calls on a new store, the stream of every aggregate
  consists of exactly the events of the successful calls for it, in their order, with the versions 1 to n and its id;
  \<^verbatim>\<open>LoadFrom\<close> returns exactly the events of the given version or later; an \<^verbatim>\<open>Append\<close> with a live context and a non-empty id succeeds exactly when
  the expected version is negative or the current one; and of two calls that expect the same version, after the first has
  appended anything, the second fails.\<close>

theorem event_store_linear:
  "(let (s, oks) = es_run cs NewEventStore in
    map evVersion (stream s a) = map (\<lambda>k. int k + 1) [0..<length (stream s a)] \<and> (\<forall>e\<in>set (stream s a). evAggregateID e = a) \<and>
    map payload (stream s a) = appended a cs oks \<and>
    LoadFrom None a v s = Inr (filter (\<lambda>e. v \<le> evVersion e) (stream s a)) \<and>
    (a \<noteq> [] \<longrightarrow> (\<exists>r. Append None now a v es s = Inr r) = (v < 0 \<or> v = int (length (stream s a)))) \<and>
    (\<forall>i j. i < j \<and> j < length cs \<and> oks ! i \<and> oks ! j \<and> ac_id (cs ! i) = ac_id (cs ! j) \<and> ac_expected (cs ! i) = ac_expected (cs ! j) \<and>
       ac_expected (cs ! i) \<ge> 0 \<longrightarrow> ac_events (cs ! i) = []))"
proof -
  let ?s = "fst (es_run cs NewEventStore)"
  have h: "es_ok ?s" "map payload (stream ?s a) = appended a cs (snd (es_run cs NewEventStore))"
    using es_run_history [OF es_ok_New, of cs a] by (simp_all add: NewEventStore_def stream_def)
  moreover have "map evVersion (stream ?s a) = map (\<lambda>k. int k + 1) [0..<length (stream ?s a)] \<and> (\<forall>e\<in>set (stream ?s a). evAggregateID e = a)"
    using h(1) by (simp add: es_ok_def)
  ultimately show ?thesis
    unfolding split_beta Let_def using LoadFrom_filter [OF h(1)] Append_succeeds [of a now v es ?s] es_run_exclusive [OF es_ok_New, of _ _ cs] by blast
qed

theorem event_store_linear_witness:
  "let e = (\<lambda>t. \<lparr>evID = t, evAggregateID = '''', evAggregateType = ''Order'', evEventType = t, evVersion = 0, evTimestamp = 0, evData = ()\<rparr>);
       call = (\<lambda>v t. \<lparr>ac_ctx = None, ac_now = (\<lambda>_. 7), ac_id = ''o'', ac_expected = v, ac_events = [e t]\<rparr>);
       (s, oks) = es_run [call 0 ''created'', call 0 ''created'', call 1 ''paid''] NewEventStore
   in oks = [True, False, True] \<and> map evVersion (stream s ''o'') = [1, 2] \<and>
      map payload (stream s ''o'') = [(''created'', ''Order'', ''created'', ()), (''paid'', ''Order'', ''paid'', ())]"
proof -
  let ?e = "\<lambda>t. \<lparr>evID = t, evAggregateID = '''', evAggregateType = ''Order'', evEventType = t, evVersion = 0, evTimestamp = 0, evData = ()\<rparr>"
  let ?call = "\<lambda>v t. \<lparr>ac_ctx = None, ac_now = (\<lambda>_. 7), ac_id = ''o'', ac_expected = v, ac_events = [?e t]\<rparr>"
  let ?cs = "[?call 0 ''created'', ?call 0 ''created'', ?call 1 ''paid'']"
  define cs where "cs = ?cs"
  have "snd (es_run cs NewEventStore) = [True, False, True]"
    by (simp add: cs_def Append_def NewEventStore_def stream_def Let_def)
  moreover have "length (stream (fst (es_run cs NewEventStore)) ''o'') = 2"
    by (simp add: cs_def Append_def NewEventStore_def stream_def Let_def)
  moreover have "appended ''o'' cs [True, False, True] = [(''created'', ''Order'', ''created'', ()), (''paid'', ''Order'', ''paid'', ())]"
    by (simp add: cs_def appended_def payload_def)
  ultimately show ?thesis unfolding Let_def cs_def [symmetric]
    using event_store_linear [of cs "''o''" 0 "\<lambda>_. 0" "[]"] by (auto simp: split_beta Let_def upt_rec)
qed

section \<open>Snapshots\<close>

lemma applyEvents_append:
  "applyEvents apply (xs @ ys) a = (case applyEvents apply xs a of (a', None) \<Rightarrow> applyEvents apply ys a' | (a', Some e) \<Rightarrow> (a', Some e))"
  by (induction xs arbitrary: a) (auto split: option.splits)

lemma applyEvents_frame:
  "applyEvents apply es a = (a', None) \<Longrightarrow> a' = a\<lparr>agState := agState a', agVersion := (if es = [] then agVersion a else evVersion (last es))\<rparr>"
proof (induction es arbitrary: a)
  case (Cons e es)
  then obtain st where st: "apply (agState a) e = Some st" "applyEvents apply es (a\<lparr>agState := st, agVersion := evVersion e\<rparr>) = (a', None)"
    by (auto split: option.splits)
  show ?case using Cons.IH [OF st(2)] by (cases es) simp_all
qed simp

lemma es_run_extends: "es_ok s \<Longrightarrow> es_ok (fst (es_run cs s)) \<and> (\<exists>later. stream (fst (es_run cs s)) a = stream s a @ later)"
proof (induction cs arbitrary: s)
  case (Cons c cs)
  show ?case
  proof (cases rule: es_run_cases [of c s cs])
    case (refused e)
    then show ?thesis using Cons by simp
  next
    case (accepted s1 es)
    have "\<exists>x. stream s1 a = stream s a @ x" using Append_cases(2) [OF accepted(1)] by simp
    then show ?thesis using Cons.IH [OF Append_ok [OF Cons.prems accepted(1)]] accepted(2) by auto
  qed
qed simp

lemma es_ok_last: "es_ok s \<Longrightarrow> stream s a \<noteq> [] \<Longrightarrow> evVersion (last (stream s a)) = int (length (stream s a))"
proof -
  assume ok: "es_ok s" and ne: "stream s a \<noteq> []"
  have "last (map evVersion (stream s a)) = last (map (\<lambda>k. int k + 1) [0..<length (stream s a)])" using ok by (simp add: es_ok_def)
  then show ?thesis using ne by (simp add: last_map of_nat_diff Suc_leI)
qed

text \<open>C29: snapshots are transparent.  If an aggregate was loaded from its full history and saved as a snapshot, then after any further \<^verbatim>\<open>Append\<close>
  calls loading through the snapshot (restore, then only the later events) gives the same aggregate and the same error as replaying
  the whole history, provided that restoring what \<^verbatim>\<open>SnapshotData\<close> returned gives back the state.\<close>

theorem snapshot_transparent:
  fixes a :: "('s, 'd) Aggregate" and st0 :: 's
  assumes ok: "es_ok s"
    and load: "repo_Load None apply None (None :: 'j SnapshotStore option) s (NewBaseEventSourcedAggregate i t st0) = (a, None)"
    and save: "SaveSnapshot None now snapshotData a (Some snaps) = Inr snaps'"
    and restore: "\<And>st data old. snapshotData st = Some data \<Longrightarrow> restore (data :: 'j) old = Some st"
  shows "repo_Load None apply (Some restore) (Some snaps') (fst (es_run cs s)) (NewBaseEventSourcedAggregate i t st0) =
    repo_Load None apply None (None :: 'j SnapshotStore option) (fst (es_run cs s)) (NewBaseEventSourcedAggregate i t st0)"
proof -
  let ?a0 = "NewBaseEventSourcedAggregate i t st0 :: ('s, 'd) Aggregate" and ?s = "fst (es_run cs s)"
  obtain later where later: "es_ok ?s" "stream ?s i = stream s i @ later" using es_run_extends [OF ok, of cs i] by blast
  have i: "agID ?a0 = i" by (simp add: NewBaseEventSourcedAggregate_def)
  have full: "repo_Load None apply None (None :: 'j SnapshotStore option) s' ?a0 = applyEvents apply (stream s' i) ?a0" for s'
    by (cases "streams s' i") (simp_all add: repo_Load_def es_Load_def stream_def i)
  have a: "applyEvents apply (stream s i) ?a0 = (a, None)" using load full by simp
  note frame = applyEvents_frame [OF a]
  have v: "agVersion a = int (length (stream s i))" using es_ok_last [OF ok, of i]
    by (subst frame) (simp add: NewBaseEventSourcedAggregate_def)
  have ids: "agID a = i" by (subst frame) (simp add: i)
  obtain data where d: "snapshotData (agState a) = Some data" "snaps' = snaps(i \<mapsto> \<lparr>snAggregateID = i, snAggregateType = agType a,
      snVersion = agVersion a, snTimestamp = now, snData = data\<rparr>)"
    using save ids by (auto simp: SaveSnapshot_def snapshot_Save_def split: option.splits if_splits)
  have "?a0\<lparr>agState := agState a, agVersion := agVersion a\<rparr> = a" by (subst (3) frame) (subst frame, simp)
  moreover have "LoadFrom None i (agVersion a + 1) ?s = Inr later"
    using later(2) v by (auto simp: LoadFrom_def stream_def split: option.splits)
  ultimately have "repo_Load None apply (Some restore) (Some snaps') ?s ?a0 = applyEvents apply later a"
    using restore [OF d(1), of "agState ?a0"] i ids unfolding d(2) by (simp add: repo_Load_def snapshot_Load_def applyFrom_def)
  then show ?thesis unfolding full later(2) applyEvents_append a by simp
qed

theorem snapshot_transparent_witness:
  "let e = (\<lambda>v d. \<lparr>evID = '''', evAggregateID = ''o'', evAggregateType = '''', evEventType = '''', evVersion = v, evTimestamp = 1, evData = d\<rparr>);
       s = \<lparr>streams = [''o'' \<mapsto> [e 1 10, e 2 (5::int)]]\<rparr>;
       call = \<lparr>ac_ctx = None, ac_now = (\<lambda>_. 7), ac_id = ''o'', ac_expected = 2, ac_events = [e 0 3]\<rparr>;
       apply = (\<lambda>st ev. Some (st + evData ev)); a0 = NewBaseEventSourcedAggregate ''o'' '''' (0::int)
   in (\<exists>snaps. SaveSnapshot None 9 Some (fst (repo_Load None apply None (None :: int SnapshotStore option) s a0)) (Some Map.empty) = Inr snaps \<and>
       repo_Load None apply (Some (\<lambda>d _. Some d)) (Some snaps) (fst (es_run [call] s)) a0 =
       repo_Load None apply None (None :: int SnapshotStore option) (fst (es_run [call] s)) a0 \<and>
       agState (fst (repo_Load None apply (Some (\<lambda>d _. Some d)) (Some snaps) (fst (es_run [call] s)) a0)) = 18)"
proof -
  define e where "e = (\<lambda>v d. \<lparr>evID = '''', evAggregateID = ''o'', evAggregateType = '''', evEventType = '''', evVersion = v, evTimestamp = 1, evData = (d::int)\<rparr>)"
  define s where "s = \<lparr>streams = [''o'' \<mapsto> [e 1 10, e 2 5]]\<rparr>"
  define call where "call = \<lparr>ac_ctx = None, ac_now = (\<lambda>_. 7), ac_id = ''o'', ac_expected = 2, ac_events = [e 0 3]\<rparr>"
  let ?apply = "\<lambda>st ev. Some (st + evData ev) :: int option" and ?a0 = "NewBaseEventSourcedAggregate ''o'' '''' (0::int) :: (int, int) Aggregate"
  have ok: "es_ok s" by (simp add: es_ok_def s_def stream_def e_def)
  have load: "repo_Load None ?apply None (None :: int SnapshotStore option) s ?a0 = (?a0\<lparr>agState := 15, agVersion := 2\<rparr>, None)"
    by (simp add: repo_Load_def es_Load_def s_def e_def NewBaseEventSourcedAggregate_def)
  have load2: "agState (fst (repo_Load None ?apply None (None :: int SnapshotStore option) (fst (es_run [call] s)) ?a0)) = 18"
    by (simp add: repo_Load_def es_Load_def s_def e_def call_def NewBaseEventSourcedAggregate_def Append_def stream_def Let_def)
  obtain snaps where sn: "SaveSnapshot None 9 Some (?a0\<lparr>agState := 15, agVersion := 2\<rparr>) (Some Map.empty) = Inr snaps"
    by (simp add: SaveSnapshot_def snapshot_Save_def NewBaseEventSourcedAggregate_def)
  show ?thesis unfolding Let_def e_def [symmetric] s_def [symmetric] call_def [symmetric]
    using snapshot_transparent [OF ok load sn, of "\<lambda>d _. Some d" "[call]"] sn load load2 by auto
qed

section \<open>Projection\<close>

definition position :: "('p, 'd) ProjectionRunner \<Rightarrow> CheckpointStore \<Rightarrow> int" where
  "position r checkpoints = (case checkpoints (prName r) of None \<Rightarrow> 0 | Some cp \<Rightarrow> cpPosition cp)"

text \<open>A projector that keeps a log of the events it has handled and may fail at any of them.\<close>

definition logging :: "('d Event \<Rightarrow> 'd Event list \<Rightarrow> bool) \<Rightarrow> 'd Event \<Rightarrow> 'd Event list \<Rightarrow> 'd Event list \<times> bool" where
  "logging fails ev log = (if fails ev log then (log, False) else (log @ [ev], True))"

definition matching :: "('p, 'd) ProjectionRunner \<Rightarrow> 'd Event list \<Rightarrow> 'd Event list" where
  "matching r evs = filter (\<lambda>e. shouldProject r (evEventType e)) evs"

text \<open>One round of the loop.\<close>

lemma run_events_cases:
  assumes r: "prName r \<noteq> []" "prProject r = logging fails" and run: "run_events ctx now r i (ev # evs) n cp cps log = (cps', log', err)"
  obtains (stop) "cps' = cps" "log' = log \<or> log' = log @ matching r [ev]" "err \<noteq> None"
  | (save) cps1 cp1 where "position r cps1 = int i + 1" "run_events ctx now r (i + 1) evs 0 cp1 cps1 (log @ matching r [ev]) = (cps', log', err)"
  | (skip) n1 cp1 where "evs \<noteq> []" "run_events ctx now r (i + 1) evs n1 cp1 cps (log @ matching r [ev]) = (cps', log', err)"
proof (cases "ctx (2 * i)")
  case (Some e)
  then have "cps' = cps \<and> log' = log \<and> err = Some e" using run by simp
  then show ?thesis by (intro stop) simp_all
next
  case None
  let ?cp = "\<lparr>cpName = prName r, cpPosition = int i + 1, cpUpdatedAt = now i\<rparr>"
  show ?thesis
  proof (cases "shouldProject r (evEventType ev) \<and> fails ev log")
    case True
    then have "cps' = cps \<and> log' = log \<and> err = Some EApplyFailed" using run None r(2) by (simp add: logging_def)
    then show ?thesis by (intro stop) simp_all
  next
    case False
    then have p: "(if shouldProject r (evEventType ev) then prProject r ev log else (log, True)) = (log @ matching r [ev], True)"
      using r(2) by (simp add: logging_def matching_def)
    show ?thesis
    proof (cases "n + 1 \<ge> prBatch r \<or> evs = []")
      case True
      show ?thesis
      proof (cases "checkpoint_Save (ctx (2 * i + 1)) (now i) ?cp cps")
        case (Inl e)
        then have "cps' = cps \<and> log' = log @ matching r [ev] \<and> err = Some e" using run None p True by simp
        then show ?thesis by (intro stop) simp_all
      next
        case (Inr cps1)
        then have "position r cps1 = int i + 1" using r(1) by (auto simp: checkpoint_Save_def position_def Let_def split: option.splits if_splits)
        then show ?thesis using save run None p True Inr by simp
      qed
    next
      case False
      then show ?thesis using skip run None p by simp
    qed
  qed
qed

lemma run_events_log:
  assumes r: "prName r \<noteq> []" "prProject r = logging fails" and "run_events ctx now r i evs n cp cps log = (cps', log', err)"
  shows "\<exists>k \<le> length evs. log' = log @ matching r (take k evs) \<and>
    (position r cps' = position r cps \<or> int i < position r cps' \<and> position r cps' \<le> int (i + k)) \<and>
    (err = None \<longrightarrow> k = length evs \<and> (evs \<noteq> [] \<longrightarrow> position r cps' = int (i + length evs)))"
  using assms(3)
proof (induction evs arbitrary: i n cp cps log)
  case Nil
  then show ?case by (simp add: matching_def)
next
  case (Cons ev evs)
  have m: "matching r (take (Suc k) (ev # evs)) = matching r [ev] @ matching r (take k evs)" for k by (simp add: matching_def)
  show ?case
  proof (rule run_events_cases [OF r Cons.prems], goal_cases)
    case stop: 1
    then show ?thesis
    proof (cases "log' = log")
      case True
      then show ?thesis using stop by (intro exI [of _ 0]) (simp add: matching_def)
    next
      case False
      then show ?thesis using stop by (intro exI [of _ 1]) (auto simp: matching_def)
    qed
  next
    case save: (2 cps1 cp1)
    from Cons.IH [OF save(2)] obtain k where k: "k \<le> length evs" "log' = (log @ matching r [ev]) @ matching r (take k evs)"
      "position r cps' = position r cps1 \<or> int (i + 1) < position r cps' \<and> position r cps' \<le> int (i + 1 + k)"
      "err = None \<longrightarrow> k = length evs \<and> (evs \<noteq> [] \<longrightarrow> position r cps' = int (i + 1 + length evs))" by blast
    then show ?thesis using save(1) m [of k] by (intro exI [of _ "Suc k"]) (cases "evs = []", auto)
  next
    case skip: (3 n1 cp1)
    from Cons.IH [OF skip(2)] obtain k where k: "k \<le> length evs" "log' = (log @ matching r [ev]) @ matching r (take k evs)"
      "position r cps' = position r cps \<or> int (i + 1) < position r cps' \<and> position r cps' \<le> int (i + 1 + k)"
      "err = None \<longrightarrow> k = length evs \<and> (evs \<noteq> [] \<longrightarrow> position r cps' = int (i + 1 + length evs))" by blast
    then show ?thesis using skip(1) m [of k] by (intro exI [of _ "Suc k"]) auto
  qed
qed

lemma RunOnce_log:
  assumes r: "prName r \<noteq> []" "prProject r = logging fails"
    and evs: "LoadAll None keys s = Inr evs" and pos: "0 \<le> position r cps" "position r cps \<le> int (length evs)"
    and run: "RunOnce ctx ctxs now keys r s cps log = (cps', log', err)"
  shows "\<exists>k. log' = log @ matching r (take k (drop (nat (position r cps)) evs)) \<and>
    position r cps \<le> position r cps' \<and> position r cps' \<le> int (length evs) \<and> nat (position r cps') \<le> nat (position r cps) + k \<and>
    (err = None \<longrightarrow> position r cps' = int (length evs))"
proof (cases ctx)
  case (Some e)
  then show ?thesis using run pos by (intro exI [of _ 0]) (auto simp: RunOnce_def matching_def)
next
  case None
  let ?p = "position r cps"
  obtain cp where cp: "checkpoint_Load None (prName r) cps = Inr cp" "cpPosition cp = ?p"
    by (cases "cps (prName r)") (auto simp: checkpoint_Load_def position_def)
  show ?thesis
  proof (cases "?p \<ge> int (length evs)")
    case True
    then show ?thesis using run pos cp evs None by (intro exI [of _ 0]) (auto simp: RunOnce_def matching_def)
  next
    case False
    then have "run_events ctxs now r (nat ?p) (drop (nat ?p) evs) 0 cp cps log = (cps', log', err)"
      using run pos cp evs None by (simp add: RunOnce_def Let_def)
    from run_events_log [OF r this] obtain k where k: "k \<le> length evs - nat ?p" "log' = log @ matching r (take k (drop (nat ?p) evs))"
      "position r cps' = ?p \<or> int (nat ?p) < position r cps' \<and> position r cps' \<le> int (nat ?p + k)"
      "err = None \<longrightarrow> (drop (nat ?p) evs \<noteq> [] \<longrightarrow> position r cps' = int (nat ?p + length (drop (nat ?p) evs)))" by auto
    then show ?thesis using False pos by (intro exI [of _ k]) (auto; linarith)
  qed
qed

text \<open>Appends to one aggregate and attempts of a runner, in any order.\<close>

datatype 'd proj_step =
    PAppend "'d append_call"
  | PRun "es_error option" "nat \<Rightarrow> es_error option" "nat \<Rightarrow> int" "'d Event \<Rightarrow> 'd Event list \<Rightarrow> bool"

fun proj_run :: "string \<Rightarrow> ('d Event list, 'd) ProjectionRunner \<Rightarrow> 'd proj_step list \<Rightarrow> 'd EventStore \<times> CheckpointStore \<times> 'd Event list \<Rightarrow>
    'd EventStore \<times> CheckpointStore \<times> 'd Event list" where
  "proj_run a r [] st = st"
| "proj_run a r (PAppend c # ss) (s, cps, log) = proj_run a r ss (fst (es_run [c\<lparr>ac_id := a\<rparr>] s), cps, log)"
| "proj_run a r (PRun ctx ctxs now fails # ss) (s, cps, log) =
     (case RunOnce ctx ctxs now (if streams s a = None then [] else [a]) (r\<lparr>prProject := logging fails\<rparr>) s cps log of
        (cps, log, _) \<Rightarrow> proj_run a r ss (s, cps, log))"

definition proj_ok :: "string \<Rightarrow> ('p, 'd) ProjectionRunner \<Rightarrow> 'd EventStore \<times> CheckpointStore \<times> 'd Event list \<Rightarrow> bool" where
  "proj_ok a r st \<longleftrightarrow> (case st of (s, cps, log) \<Rightarrow>
     es_ok s \<and> (\<forall>b. b \<noteq> a \<longrightarrow> streams s b = None) \<and> 0 \<le> position r cps \<and> position r cps \<le> int (length (stream s a)) \<and>
     set (matching r (take (nat (position r cps)) (stream s a))) \<subseteq> set log \<and> set log \<subseteq> set (stream s a))"

lemma runner_update [simp]:
  "matching (r\<lparr>prProject := f\<rparr>) = matching r" "position (r\<lparr>prProject := f\<rparr>) = position r"
  by (simp_all add: fun_eq_iff matching_def shouldProject_def position_def)

lemma proj_RunOnce:
  assumes ok: "proj_ok a r (s, cps, log)" and r: "prName r \<noteq> []"
    and run: "RunOnce ctx ctxs now (if streams s a = None then [] else [a]) (r\<lparr>prProject := logging fails\<rparr>) s cps log = (cps', log', err)"
  shows "proj_ok a r (s, cps', log')" "err = None \<Longrightarrow> set (matching r (stream s a)) \<subseteq> set log'"
proof -
  let ?p = "nat (position r cps)" and ?evs = "stream s a"
  have "LoadAll None (if streams s a = None then [] else [a]) s = Inr ?evs" by (auto simp: LoadAll_def stream_def)
  from RunOnce_log [OF _ _ this _ _ run] obtain k where k: "log' = log @ matching r (take k (drop ?p ?evs))"
    "position r cps \<le> position r cps'" "position r cps' \<le> int (length ?evs)" "nat (position r cps') \<le> ?p + k"
    "err = None \<longrightarrow> position r cps' = int (length ?evs)"
    using ok r by (auto simp: proj_ok_def)
  have "set (matching r (take (nat (position r cps')) ?evs)) \<subseteq> set (matching r (take (?p + k) ?evs))"
    using set_take_subset_set_take [OF k(4), of ?evs] by (auto simp: matching_def)
  also have "\<dots> \<subseteq> set log'" using ok unfolding k(1) take_add by (auto simp: proj_ok_def matching_def)
  finally have handled: "set (matching r (take (nat (position r cps')) ?evs)) \<subseteq> set log'" .
  moreover have "set log' \<subseteq> set ?evs" using ok unfolding k(1) by (auto simp: proj_ok_def matching_def dest: in_set_takeD in_set_dropD)
  ultimately show "proj_ok a r (s, cps', log')" using ok k(2,3) by (simp add: proj_ok_def)
  show "err = None \<Longrightarrow> set (matching r ?evs) \<subseteq> set log'" using handled k(5) by simp
qed

lemma proj_run_ok:
  assumes "prName r \<noteq> []" "proj_ok a r st"
  shows "proj_ok a r (proj_run a r ss st)"
  using assms
proof (induction a r ss st rule: proj_run.induct)
  case (2 a r c ss s cps log)
  let ?s = "fst (es_run [c\<lparr>ac_id := a\<rparr>] s)"
  have s: "es_ok s" using 2 by (simp add: proj_ok_def)
  obtain later where l: "es_ok ?s" "stream ?s a = stream s a @ later" using es_run_extends [OF s] by blast
  have "streams ?s b = None" if "b \<noteq> a" for b
    using that 2(3) by (auto simp: proj_ok_def Append_def Let_def split: sum.splits option.splits if_splits)
  then have "proj_ok a r (?s, cps, log)" using 2(3) l by (auto simp: proj_ok_def)
  then show ?case using 2(1,2) by (simp del: es_run.simps)
next
  case (3 a r ctx ctxs now fails ss s cps log)
  then show ?case using proj_RunOnce(1) [OF 3(3,2)] by (auto split: prod.splits)
qed simp

text \<open>C30: projections of one aggregate miss nothing.  Whatever the order of appends and \<^verbatim>\<open>RunOnce\<close> attempts, and wherever the
  projector, the context or the saving of the checkpoint fails, every matching event before the saved position has been
  handled, nothing but events of the stream is handled, and an attempt that returns nil has handled every matching event of the stream.\<close>

theorem projection_complete:
  assumes name: "prName r \<noteq> []"
  shows "case proj_run a r ss (NewEventStore, Map.empty, []) of (s, cps, log) \<Rightarrow>
    set (matching r (take (nat (position r cps)) (stream s a))) \<subseteq> set log \<and> set log \<subseteq> set (stream s a) \<and>
    (\<forall>ctx ctxs now fails cps' log'.
       RunOnce ctx ctxs now (if streams s a = None then [] else [a]) (r\<lparr>prProject := logging fails\<rparr>) s cps log = (cps', log', None) \<longrightarrow>
       set (matching r (stream s a)) \<subseteq> set log')"
proof -
  obtain s cps log where st: "proj_run a r ss (NewEventStore, Map.empty, []) = (s, cps, log)" by (metis prod_cases3)
  have "proj_ok a r (NewEventStore, Map.empty, [])" using es_ok_New by (simp add: proj_ok_def position_def matching_def NewEventStore_def stream_def)
  then have ok: "proj_ok a r (s, cps, log)" using proj_run_ok [OF name] st by metis
  then show ?thesis unfolding st using proj_RunOnce(2) [OF ok name] by (simp add: proj_ok_def)
qed

theorem projection_complete_witness:
  "let r = NewProjectionRunner [''paid''] (logging (\<lambda>_ _. False)) '''' 1;
       e = \<lparr>evID = ''1'', evAggregateID = '''', evAggregateType = '''', evEventType = ''paid'', evVersion = 0, evTimestamp = 3, evData = ()\<rparr>;
       (s, cps, log) = proj_run ''o'' r [PAppend \<lparr>ac_ctx = None, ac_now = (\<lambda>_. 7), ac_id = '''', ac_expected = 0, ac_events = [e]\<rparr>,
         PRun None (\<lambda>_. None) (\<lambda>_. 8) (\<lambda>_ _. True)] (NewEventStore, Map.empty, [])
   in log = [] \<and> (\<exists>log'. snd (RunOnce None (\<lambda>_. None) (\<lambda>_. 9) [''o''] (r\<lparr>prProject := logging (\<lambda>_ _. False)\<rparr>) s cps log) = (log', None) \<and>
        set (matching r (stream s ''o'')) \<subseteq> set log' \<and> matching r (stream s ''o'') \<noteq> [])"
proof -
  define r :: "(unit Event list, unit) ProjectionRunner" where "r = NewProjectionRunner [''paid''] (logging (\<lambda>_ _. False)) '''' 1"
  define e where "e = \<lparr>evID = ''1'', evAggregateID = '''', evAggregateType = '''', evEventType = ''paid'', evVersion = 0, evTimestamp = 3, evData = ()\<rparr>"
  define ss where "ss = [PAppend \<lparr>ac_ctx = None, ac_now = (\<lambda>_. 7), ac_id = '''', ac_expected = 0, ac_events = [e]\<rparr>,
    PRun None (\<lambda>_. None) (\<lambda>_. 8) (\<lambda>_ _. True)]"
  define s where "s = \<lparr>streams = [''o'' \<mapsto> [e\<lparr>evAggregateID := ''o'', evVersion := 1\<rparr>]]\<rparr>"
  have run: "proj_run ''o'' r ss (NewEventStore, Map.empty, []) = (s, Map.empty, [])"
    by (simp add: ss_def s_def e_def r_def NewProjectionRunner_def NewEventStore_def Append_def stream_def Let_def RunOnce_def LoadAll_def
        checkpoint_Load_def shouldProject_def logging_def)
  obtain cps log where once: "RunOnce None (\<lambda>_. None) (\<lambda>_. 9) [''o''] (r\<lparr>prProject := logging (\<lambda>_ _. False)\<rparr>) s Map.empty [] = (cps, log, None)"
    by (simp add: s_def e_def r_def NewProjectionRunner_def stream_def Let_def RunOnce_def LoadAll_def checkpoint_Load_def checkpoint_Save_def
        shouldProject_def logging_def)
  have "prName r \<noteq> []" by (simp add: r_def NewProjectionRunner_def)
  from projection_complete [OF this, of "''o''" ss] have "set (matching r (stream s ''o'')) \<subseteq> set log"
    using once unfolding run by (simp add: s_def)
  moreover have "matching r (stream s ''o'') \<noteq> []" by (simp add: s_def e_def r_def NewProjectionRunner_def stream_def matching_def shouldProject_def)
  ultimately show ?thesis unfolding Let_def e_def [symmetric] r_def [symmetric] ss_def [symmetric] run using once by simp
qed


end
