(* ===== verification/Workflow.thy ===== *)
theory Workflow
  imports Prelude Lru "HOL-Library.Word"
begin

text \<open>
  \<^verbatim>\<open>pkg/workflow/adapters/memory\<close>: the in-memory workflow engine, with the types of \<^verbatim>\<open>pkg/workflow\<close>.  Every critical section of
  the engine's mutex is one definition, and a goroutine started by \<^verbatim>\<open>Start\<close> is a runner that moves from one critical section to
  the next, so a sequence of events is an interleaving of the engine's clients and runners.  What a runner sees of
  its context, its timers and the order in which parallel branches finish comes from an oracle indexed by the position in the
  run; task handlers are functions of what they see of the world (\<open>'w\<close>) and of their input.  Floating-point numbers are of any type
  \<open>'f\<close> with its equality and conversion as arguments, and durations are 64-bit words of nanoseconds.
\<close>

section \<open>Types of the package\<close>

datatype ExecutionStatus = StatusPending | StatusRunning | StatusCompleted | StatusFailed | StatusCancelled | StatusTimedOut

datatype ctx_err = DeadlineExceeded | Canceled

text \<open>An \<^verbatim>\<open>interface{}\<close>: the dynamic types that the engine inspects or builds, and any other value.\<close>

datatype 'f Val =
    VNil
  | VBool bool
  | VFloat 'f
  | VInt "64 word"
  | VInt64 "64 word"
  | VString string
  | VMap "(string \<times> 'f Val) list"
  | VSlice "'f Val list"
  | VOther nat

datatype wf_error =
    ErrWorkflowNotFound
  | ErrExecutionNotFound
  | ErrExecutionAlreadyExists
  | ErrExecutionNotRunning
  | ErrExecutionTimeout
  | UnknownState string
  | StateFailed string
  | UnsupportedType string
  | ChoiceMissingNext string
  | NoChoiceMatched string
  | BranchMissingStart
  | UnknownBranchState string
  | BranchStateFailed string
  | UnsupportedBranchType string
  | CtxError ctx_err
  | HandlerError string

record 'f RetryPolicy =
  ErrorEquals :: "string list"
  IntervalSeconds :: "64 word"
  MaxAttempts :: "64 word"
  BackoffRate :: 'f

record CatchPolicy =
  CatchErrorEquals :: "string list"
  CatchNext :: string
  ResultPath :: string

record 'f ChoiceRule =
  Variable :: string
  StringEquals :: string
  NumericEquals :: "'f option"
  BooleanEquals :: "bool option"
  IsPresent :: "bool option"
  RuleNext :: string

datatype 'f wfState = WfState
    (stName: string) (stType: string) (Resource: string) (Next: string) (End: bool)
    (stRetry: "'f RetryPolicy list") (stCatch: "CatchPolicy list")
    (stTimeoutSeconds: "64 word") (Seconds: "64 word")
    (Choices: "'f ChoiceRule list") (Default: string) (Branches: "'f Branch list")
and 'f Branch = Branch (brStartAt: string) (brStates: "'f wfState list")

record 'f WorkflowDefinition =
  defID :: string
  defName :: string
  defVersion :: string
  States :: "'f wfState list"
  StartAt :: string
  TimeoutSeconds :: "64 word"
  CreatedAt :: int

record 'f Execution =
  exID :: string
  exWorkflowID :: string
  exStatus :: ExecutionStatus
  exInput :: "'f Val"
  exOutput :: "'f Val"
  exError :: "wf_error option"
  CurrentState :: string
  StartedAt :: int
  CompletedAt :: int

record 'f StartOptions =
  opWorkflowID :: string
  opExecutionID :: string
  opInput :: "'f Val"
  opTimeout :: "64 word"
  IdempotencyKey :: string

record ListOptions =
  lsWorkflowID :: string
  lsStatus :: "ExecutionStatus option"
  lsLimit :: int

section \<open>Executing one state\<close>

text \<open>
  What a goroutine observes at one point of its run: the context at the head of a loop, the outcome of a \<^verbatim>\<open>select\<close> between a timer and
  the context (\<open>None\<close> is the timer), the context after an error, the world that a handler sees, and the order in which the
  results of parallel branches arrive.
\<close>

record 'w obs =
  ctx_head :: "ctx_err option"
  ctx_wait :: "ctx_err option"
  ctx_after :: "ctx_err option"
  world :: 'w
  arrival :: "nat list"

type_synonym 'w observer = "nat list \<Rightarrow> 'w obs"

type_synonym ('f, 'w) TaskHandler = "'w \<Rightarrow> 64 word \<Rightarrow> 'f Val \<Rightarrow> 'f Val \<times> wf_error option"

type_synonym ('f, 'w) handler_map = "string \<rightharpoonup> ('f, 'w) TaskHandler option"

record 'f floats =
  feq :: "'f \<Rightarrow> 'f \<Rightarrow> bool"
  of_int64 :: "64 word \<Rightarrow> 'f"

definition execTask :: "'w obs \<Rightarrow> ('f, 'w) handler_map \<Rightarrow> 'f wfState \<Rightarrow> 'f Val \<Rightarrow> 'f Val \<times> wf_error option" where
  "execTask ob handlers st input =
     (case handlers (Resource st) of
        Some (Some h) \<Rightarrow> h (world ob) (stTimeoutSeconds st) input
      | _ \<Rightarrow> (input, None))"

definition execWait :: "'w obs \<Rightarrow> 'f wfState \<Rightarrow> wf_error option" where
  "execWait ob st = (if sint (Seconds st) \<le> 0 then None else map_option CtxError (ctx_wait ob))"

definition TrimPrefix :: "string \<Rightarrow> string \<Rightarrow> string" where
  "TrimPrefix s p = (if take (length p) s = p then drop (length p) s else s)"

definition matchChoice :: "'f floats \<Rightarrow> 'f ChoiceRule \<Rightarrow> 'f Val \<Rightarrow> bool" where
  "matchChoice F rule input =
     (case input of
        VMap m \<Rightarrow>
          let key = TrimPrefix (TrimPrefix (Variable rule) ''$.'') ''.''; val = map_of m key in
          (case IsPresent rule of
             Some b \<Rightarrow> (val \<noteq> None) = b
           | None \<Rightarrow>
               (case val of
                  None \<Rightarrow> False
                | Some v \<Rightarrow>
                    (case BooleanEquals rule of
                       Some b \<Rightarrow> v = VBool b
                     | None \<Rightarrow>
                         (case NumericEquals rule of
                            Some x \<Rightarrow>
                              (case v of VFloat n \<Rightarrow> feq F n x | VInt n \<Rightarrow> feq F (of_int64 F n) x
                               | VInt64 n \<Rightarrow> feq F (of_int64 F n) x | _ \<Rightarrow> False)
                          | None \<Rightarrow> StringEquals rule \<noteq> '''' \<and> v = VString (StringEquals rule)))))
      | _ \<Rightarrow> False)"

fun choose_rule :: "'f floats \<Rightarrow> 'f wfState \<Rightarrow> 'f ChoiceRule list \<Rightarrow> 'f Val \<Rightarrow> string \<times> wf_error option" where
  "choose_rule F st [] input =
     (if Default st \<noteq> '''' then (Default st, None)
      else if Next st \<noteq> '''' then (Next st, None)
      else ('''', Some (NoChoiceMatched (stName st))))"
| "choose_rule F st (rule # rules) input =
     (if matchChoice F rule input
      then if RuleNext rule = '''' then ('''', Some (ChoiceMissingNext (stName st))) else (RuleNext rule, None)
      else choose_rule F st rules input)"

definition execChoice :: "'f floats \<Rightarrow> 'f wfState \<Rightarrow> 'f Val \<Rightarrow> string \<times> wf_error option" where
  "execChoice F st input = choose_rule F st (Choices st) input"

definition states_map :: "'f wfState list \<Rightarrow> string \<rightharpoonup> 'f wfState" where
  "states_map xs = foldl (\<lambda>m s. m(stName s \<mapsto> s)) Map.empty xs"

text \<open>Where the loop goes after a state: \<open>None\<close> ends the run.\<close>

definition next_state :: "'f wfState \<Rightarrow> string \<Rightarrow> string option" where
  "next_state st choiceNext =
     (if equalFold (stType st) ''choice'' then if choiceNext = '''' then None else Some choiceNext
      else if End st \<or> Next st = '''' then None else Some (Next st))"

text \<open>The receive loop of \<^verbatim>\<open>execParallel\<close>: \<open>branch i\<close> is what goroutine \<open>i\<close> sends, if it ever does.\<close>

fun par_collect :: "(nat \<Rightarrow> ('f Val \<times> wf_error option) option) \<Rightarrow> nat list \<Rightarrow> 'f Val list \<Rightarrow> ('f Val \<times> wf_error option) option" where
  "par_collect branch [] outs = Some (VSlice outs, None)"
| "par_collect branch (i # is) outs =
     Option.bind (branch i) (\<lambda>r. case snd r of Some e \<Rightarrow> Some (VNil, Some e) | None \<Rightarrow> par_collect branch is (outs[i := fst r]))"

definition arrivals :: "nat list \<Rightarrow> nat \<Rightarrow> nat list" where
  "arrivals order n = (if distinct order \<and> set order = {..<n} then order else [0..<n])"

definition branch_entry :: "'f Branch \<Rightarrow> (string \<rightharpoonup> 'f wfState) \<Rightarrow> ((string \<rightharpoonup> 'f wfState) \<times> string) option" where
  "branch_entry br parentStates =
     (if brStartAt br = '''' then None
      else Some (if brStates br = [] then parentStates else states_map (brStates br), brStartAt br))"

lemma par_collect_mono [partial_function_mono]:
  "(\<And>i. mono_option (\<lambda>f. G i f)) \<Longrightarrow> mono_option (\<lambda>f. par_collect (\<lambda>i. G i f) is outs)"
proof (induction "is" arbitrary: outs)
  case (Cons i "is")
  have "mono_option (\<lambda>f. case snd r of Some e \<Rightarrow> Some (VNil, Some e) | None \<Rightarrow> par_collect (\<lambda>i. G i f) is (outs[i := fst r]))" for r
    by (cases "snd r") (simp_all add: option.const_mono Cons.IH Cons.prems)
  then show ?case unfolding par_collect.simps by (rule bind_mono [OF Cons.prems])
qed (simp add: option.const_mono)

text \<open>
  The loop of \<^verbatim>\<open>runBranch\<close>; \<open>p\<close> is the position of the branch and \<open>k\<close> the round.  \<open>None\<close> is a loop that never returns.  The call of
  \<^verbatim>\<open>execParallel\<close> stands in place, as the two functions call each other.
\<close>

partial_function (option) branch_loop ::
  "'f floats \<Rightarrow> 'w observer \<Rightarrow> ('f, 'w) handler_map \<Rightarrow> nat list \<Rightarrow> nat \<Rightarrow> (string \<rightharpoonup> 'f wfState) \<Rightarrow> string \<Rightarrow> 'f Val \<Rightarrow>
   ('f Val \<times> wf_error option) option" where
  "branch_loop F ob handlers p k states cur data =
     (case ctx_head (ob (k # p)) of
        Some e \<Rightarrow> Some (VNil, Some (CtxError e))
      | None \<Rightarrow>
          (case states cur of
             None \<Rightarrow> Some (VNil, Some (UnknownBranchState cur))
           | Some st \<Rightarrow>
               Option.bind
                 (let ty = map lower_char (stType st) in
                  if ty = ''task'' \<or> ty = '''' then let (d, err) = execTask (ob (k # p)) handlers st data in Some (d, err, '''')
                  else if ty = ''wait'' then Some (data, execWait (ob (k # p)) st, '''')
                  else if ty = ''choice'' then let (nxt, err) = execChoice F st data in Some (data, err, nxt)
                  else if ty = ''succeed'' \<or> ty = ''pass'' then Some (data, None, '''')
                  else if ty = ''fail'' then Some (data, Some (BranchStateFailed (stName st)), '''')
                  else if ty = ''parallel'' then
                    if Branches st = [] then Some (data, None, '''')
                    else Option.bind
                      (par_collect
                        (\<lambda>i. case branch_entry (Branches st ! i) states of
                                None \<Rightarrow> Some (data, Some BranchMissingStart)
                              | Some (states', start) \<Rightarrow> branch_loop F ob handlers (i # k # p) 0 states' start data)
                        (arrivals (arrival (ob (k # p))) (length (Branches st))) (replicate (length (Branches st)) VNil))
                      (\<lambda>r. Some (fst r, snd r, ''''))
                  else Some (data, Some (UnsupportedBranchType (stType st)), ''''))
                 (\<lambda>(d, err, choiceNext).
                    case err of
                      Some e \<Rightarrow> Some (VNil, Some e)
                    | None \<Rightarrow>
                        (case next_state st choiceNext of
                           None \<Rightarrow> Some (d, None)
                         | Some nxt \<Rightarrow> branch_loop F ob handlers p (k + 1) states nxt d))))"

definition runBranch ::
  "'f floats \<Rightarrow> 'w observer \<Rightarrow> ('f, 'w) handler_map \<Rightarrow> nat list \<Rightarrow> 'f Branch \<Rightarrow> (string \<rightharpoonup> 'f wfState) \<Rightarrow> 'f Val \<Rightarrow>
   ('f Val \<times> wf_error option) option" where
  "runBranch F ob handlers p br parentStates input =
     (case branch_entry br parentStates of
        None \<Rightarrow> Some (input, Some BranchMissingStart)
      | Some (states, start) \<Rightarrow> branch_loop F ob handlers p 0 states start input)"

definition execParallel ::
  "'f floats \<Rightarrow> 'w observer \<Rightarrow> ('f, 'w) handler_map \<Rightarrow> nat list \<Rightarrow> 'f wfState \<Rightarrow> (string \<rightharpoonup> 'f wfState) \<Rightarrow> 'f Val \<Rightarrow>
   ('f Val \<times> wf_error option) option" where
  "execParallel F ob handlers q st parentStates input =
     (if Branches st = [] then Some (input, None)
      else par_collect (\<lambda>i. runBranch F ob handlers (i # q) (Branches st ! i) parentStates input)
             (arrivals (arrival (ob q)) (length (Branches st))) (replicate (length (Branches st)) VNil))"

section \<open>The engine\<close>

datatype 'f runner_pc =
    PEntry
  | PLegacy
  | PCheck string "'f Val"
  | PMark string "'f Val"
  | PExec string "'f Val"
  | PFinish ExecutionStatus "'f Val" "wf_error option"
  | PDone

text \<open>The goroutine of \<^verbatim>\<open>runExecution\<close>: its snapshot of the definition and the handlers, whether it runs under a deadline of its own,
  and the critical section it reaches next.\<close>

record ('f, 'w) runner =
  rDef :: "'f WorkflowDefinition"
  rHandlers :: "('f, 'w) handler_map"
  rOwn :: bool
  rWork :: "64 word"
  rPc :: "'f runner_pc"

text \<open>
  The engine's maps, and the state of the Go runtime that its calls create: the channels made by \<^verbatim>\<open>Wait\<close>, each with its buffered
  execution, and the runner goroutines, one per execution.
\<close>

record ('f, 'w) Engine =
  workflows :: "string \<rightharpoonup> 'f WorkflowDefinition"
  defCache :: "(string, 'f WorkflowDefinition) Cache"
  executions :: "string \<rightharpoonup> 'f Execution"
  signals :: "string \<rightharpoonup> (string \<rightharpoonup> 'f Val)"
  waiters :: "string \<rightharpoonup> nat list"
  handlers :: "('f, 'w) handler_map"
  idempo :: "string \<rightharpoonup> string"
  DefaultTimeout :: "64 word"
  workDuration :: "64 word"
  chans :: "nat \<rightharpoonup> 'f Execution option"
  nextChan :: nat
  runners :: "string \<rightharpoonup> ('f, 'w) runner"

definition newEngine :: "64 word \<Rightarrow> ('f, 'w) Engine" where
  "newEngine timeout = \<lparr>workflows = Map.empty, defCache = lru_New 128, executions = Map.empty, signals = Map.empty,
     waiters = Map.empty, handlers = Map.empty, idempo = Map.empty, DefaultTimeout = timeout, workDuration = 100000000,
     chans = Map.empty, nextChan = 0, runners = Map.empty\<rparr>"

definition NewWithConfig :: "64 word \<Rightarrow> ('f, 'w) Engine" where
  "NewWithConfig timeout = newEngine (if sint timeout \<le> 0 then 3600000000000 else timeout)"

definition RegisterTaskHandler :: "string \<Rightarrow> ('f, 'w) TaskHandler option \<Rightarrow> ('f, 'w) Engine \<Rightarrow> ('f, 'w) Engine" where
  "RegisterTaskHandler resource h e = e\<lparr>handlers := (handlers e)(resource \<mapsto> h)\<rparr>"

definition SetWorkDuration :: "64 word \<Rightarrow> ('f, 'w) Engine \<Rightarrow> ('f, 'w) Engine" where
  "SetWorkDuration d e = e\<lparr>workDuration := d\<rparr>"

text \<open>A send that would block is dropped by the \<^verbatim>\<open>default\<close> case: a channel has room for one execution.\<close>

fun send_all :: "nat list \<Rightarrow> 'f Execution \<Rightarrow> (nat \<rightharpoonup> 'f Execution option) \<Rightarrow> nat \<rightharpoonup> 'f Execution option" where
  "send_all [] x cs = cs"
| "send_all (c # chs) x cs = send_all chs x (if cs c = Some None then cs(c \<mapsto> Some x) else cs)"

definition notifyWaitersLocked :: "'f Execution \<Rightarrow> ('f, 'w) Engine \<Rightarrow> ('f, 'w) Engine" where
  "notifyWaitersLocked x e =
     e\<lparr>chans := send_all (case waiters e (exID x) of None \<Rightarrow> [] | Some chs \<Rightarrow> chs) x (chans e),
       waiters := (waiters e)(exID x := None)\<rparr>"

definition RegisterWorkflow :: "string \<Rightarrow> int \<Rightarrow> 'f WorkflowDefinition \<Rightarrow> ('f, 'w) Engine \<Rightarrow> ('f, 'w) Engine" where
  "RegisterWorkflow uuid now def e =
     (let def = def\<lparr>defID := (if defID def = '''' then uuid else defID def), CreatedAt := now\<rparr>
      in e\<lparr>workflows := (workflows e)(defID def \<mapsto> def), defCache := lru_Set (defCache e) (defID def) def\<rparr>)"

text \<open>
  \<^verbatim>\<open>GetWorkflow\<close> takes two steps of the shared state: a look in the cache, with a read of the map after a miss, and then the write of
  what it read into the cache.
\<close>

definition GetWorkflow_read :: "string \<Rightarrow> ('f, 'w) Engine \<Rightarrow> ('f, 'w) Engine \<times> (wf_error + 'f WorkflowDefinition) \<times> bool" where
  "GetWorkflow_read workflowID e =
     (case lru_Get (defCache e) workflowID of
        (c, Some cached) \<Rightarrow> (e\<lparr>defCache := c\<rparr>, Inr cached, False)
      | (c, None) \<Rightarrow>
          (case workflows e workflowID of
             None \<Rightarrow> (e\<lparr>defCache := c\<rparr>, Inl ErrWorkflowNotFound, False)
           | Some wdef \<Rightarrow> (e\<lparr>defCache := c\<rparr>, Inr wdef, True)))"

definition GetWorkflow_fill :: "string \<Rightarrow> 'f WorkflowDefinition \<Rightarrow> ('f, 'w) Engine \<Rightarrow> ('f, 'w) Engine" where
  "GetWorkflow_fill workflowID wdef e = e\<lparr>defCache := lru_Set (defCache e) workflowID wdef\<rparr>"

definition GetWorkflow :: "string \<Rightarrow> ('f, 'w) Engine \<Rightarrow> ('f, 'w) Engine \<times> (wf_error + 'f WorkflowDefinition)" where
  "GetWorkflow workflowID e =
     (case GetWorkflow_read workflowID e of
        (e', Inr wdef, True) \<Rightarrow> (GetWorkflow_fill workflowID wdef e', Inr wdef)
      | (e', r, _) \<Rightarrow> (e', r))"

text \<open>The effective timeout of an execution, in the wrapping arithmetic of \<^verbatim>\<open>time.Duration\<close>.\<close>

definition exec_timeout :: "64 word \<Rightarrow> 64 word \<Rightarrow> 64 word \<Rightarrow> 64 word" where
  "exec_timeout dflt opt secs =
     (let timeout = (if sint opt \<le> 0 then dflt else opt) in
      if 0 < sint secs
      then let wfTimeout = secs * 1000000000 in if sint timeout \<le> 0 \<or> sint wfTimeout < sint timeout then wfTimeout else timeout
      else timeout)"

definition Start :: "string \<Rightarrow> int \<Rightarrow> 'f StartOptions \<Rightarrow> ('f, 'w) Engine \<Rightarrow> ('f, 'w) Engine \<times> (wf_error + 'f Execution)" where
  "Start uuid now opts e =
     (case workflows e (opWorkflowID opts) of
        None \<Rightarrow> (e, Inl ErrWorkflowNotFound)
      | Some wdef \<Rightarrow>
          (case (if IdempotencyKey opts = '''' then None
                 else Option.bind (idempo e (IdempotencyKey opts)) (executions e)) of
             Some x \<Rightarrow> (e, Inr x)
           | None \<Rightarrow>
               let execID = (if opExecutionID opts = '''' then uuid else opExecutionID opts) in
               if executions e execID \<noteq> None then (e, Inl ErrExecutionAlreadyExists)
               else
                 let x = \<lparr>exID = execID, exWorkflowID = opWorkflowID opts, exStatus = StatusRunning, exInput = opInput opts,
                          exOutput = VNil, exError = None, CurrentState = StartAt wdef, StartedAt = now, CompletedAt = 0\<rparr>;
                     timeout = exec_timeout (DefaultTimeout e) (opTimeout opts) (TimeoutSeconds wdef)
                 in (e\<lparr>executions := (executions e)(execID \<mapsto> x),
                       signals := (signals e)(execID \<mapsto> Map.empty),
                       idempo := (if IdempotencyKey opts = '''' then idempo e else (idempo e)(IdempotencyKey opts \<mapsto> execID)),
                       runners := (runners e)(execID \<mapsto> \<lparr>rDef = wdef, rHandlers = handlers e, rOwn = (0 < sint timeout), rWork = workDuration e, rPc = PEntry\<rparr>)\<rparr>,
                     Inr x)))"

definition terminalFromCtx :: "ctx_err \<Rightarrow> ExecutionStatus" where
  "terminalFromCtx err = (if err = DeadlineExceeded then StatusTimedOut else StatusCancelled)"

definition finish_record :: "ExecutionStatus \<Rightarrow> 'f Val \<Rightarrow> wf_error option \<Rightarrow> int \<Rightarrow> 'f Execution \<Rightarrow> 'f Execution" where
  "finish_record status output err now x =
     x\<lparr>exStatus := status, CompletedAt := now,
       exOutput := (if output \<noteq> VNil then output else if status = StatusCompleted then exInput x else exOutput x),
       exError := (case err of
                     None \<Rightarrow> exError x
                   | Some er \<Rightarrow> if status = StatusTimedOut then Some ErrExecutionTimeout
                               else if status = StatusCancelled then exError x else Some er)\<rparr>"

definition finish :: "string \<Rightarrow> ExecutionStatus \<Rightarrow> 'f Val \<Rightarrow> wf_error option \<Rightarrow> int \<Rightarrow> ('f, 'w) Engine \<Rightarrow> ('f, 'w) Engine" where
  "finish execID status output err now e =
     (case executions e execID of
        None \<Rightarrow> e
      | Some x \<Rightarrow>
          if exStatus x \<noteq> StatusRunning \<and> exStatus x \<noteq> StatusPending then e
          else let x' = finish_record status output err now x
               in notifyWaitersLocked x' (e\<lparr>executions := (executions e)(execID \<mapsto> x')\<rparr>))"

section \<open>The runner goroutine\<close>

text \<open>A context made by \<^verbatim>\<open>context.WithTimeout(context.Background(), d)\<close> is only cancelled by its owner on return: all it can report is its deadline.\<close>

definition own_ctx :: "bool \<Rightarrow> 'w obs \<Rightarrow> 'w obs" where
  "own_ctx own ob =
     (let seen = (if own then map_option (\<lambda>_. DeadlineExceeded) else (\<lambda>err. err))
      in ob\<lparr>ctx_head := seen (ctx_head ob), ctx_wait := seen (ctx_wait ob), ctx_after := seen (ctx_after ob)\<rparr>)"

text \<open>One round of the loop of \<^verbatim>\<open>runExecution\<close> after the mark: where the goroutine goes, if its state returns.\<close>

definition run_next :: "'w obs \<Rightarrow> 'f wfState \<Rightarrow> 'f Val \<times> wf_error option \<times> string \<Rightarrow> 'f runner_pc" where
  "run_next ob st = (\<lambda>(d, err, choiceNext).
     case err of
       Some er \<Rightarrow>
         (case ctx_after ob of
            Some c \<Rightarrow> PFinish (terminalFromCtx c) d (Some (CtxError c))
          | None \<Rightarrow> PFinish StatusFailed d (Some er))
     | None \<Rightarrow>
         (case next_state st choiceNext of
            None \<Rightarrow> PFinish StatusCompleted d None
          | Some nxt \<Rightarrow> PCheck nxt d))"

definition run_state ::
  "'f floats \<Rightarrow> 'w observer \<Rightarrow> ('f, 'w) handler_map \<Rightarrow> (string \<rightharpoonup> 'f wfState) \<Rightarrow> string \<Rightarrow> 'f Val \<Rightarrow> 'f runner_pc option" where
  "run_state F ob hs states cur data =
     (case states cur of
        None \<Rightarrow> Some (PFinish StatusFailed VNil (Some (UnknownState cur)))
      | Some st \<Rightarrow>
          let ty = map lower_char (stType st) in
          if ty = ''fail'' then Some (PFinish StatusFailed data (Some (StateFailed (stName st))))
          else if ty \<notin> set [''task'', '''', ''wait'', ''choice'', ''parallel'', ''succeed'', ''pass'']
          then Some (PFinish StatusFailed data (Some (UnsupportedType (stType st))))
          else
            map_option (run_next (ob []) st)
              (if ty = ''task'' \<or> ty = '''' then let (d, err) = execTask (ob []) hs st data in Some (d, err, '''')
               else if ty = ''wait'' then Some (data, execWait (ob []) st, '''')
               else if ty = ''choice'' then let (nxt, err) = execChoice F st data in Some (data, err, nxt)
               else if ty = ''parallel'' then map_option (\<lambda>(d, err). (d, err, '''')) (execParallel F ob hs [] st states data)
               else Some (data, None, '''')))"

definition exec_input :: "string \<Rightarrow> ('f, 'w) Engine \<Rightarrow> 'f Val" where
  "exec_input execID e = (case executions e execID of None \<Rightarrow> VNil | Some x \<Rightarrow> exInput x)"

text \<open>
  The next critical section of a runner: \<^verbatim>\<open>runExecution\<close>, with \<^verbatim>\<open>simulatePassThrough\<close> for a definition without states.
  A parallel state that never returns leaves the runner where it is.
\<close>

definition runExecution_step :: "'f floats \<Rightarrow> 'w observer \<Rightarrow> int \<Rightarrow> string \<Rightarrow> ('f, 'w) Engine \<Rightarrow> ('f, 'w) Engine" where
  "runExecution_step F ob now execID e =
     (case runners e execID of
        None \<Rightarrow> e
      | Some r \<Rightarrow>
          let ob = (\<lambda>q. own_ctx (rOwn r) (ob q));
              goto = (\<lambda>pc. e\<lparr>runners := (runners e)(execID \<mapsto> r\<lparr>rPc := pc\<rparr>)\<rparr>)
          in case rPc r of
               PEntry \<Rightarrow>
                 if StartAt (rDef r) = '''' \<or> States (rDef r) = [] then goto PLegacy
                 else goto (PCheck (StartAt (rDef r)) (exec_input execID e))
             | PLegacy \<Rightarrow>
                 (case ctx_wait (ob []) of
                    None \<Rightarrow> goto (PFinish StatusCompleted (exec_input execID e) None)
                  | Some err \<Rightarrow> goto (PFinish (terminalFromCtx err) VNil (Some (CtxError err))))
             | PCheck cur data \<Rightarrow>
                 (case ctx_head (ob []) of
                    Some err \<Rightarrow> goto (PFinish (terminalFromCtx err) VNil (Some (CtxError err)))
                  | None \<Rightarrow> goto (PMark cur data))
             | PMark cur data \<Rightarrow>
                 (case executions e execID of
                    None \<Rightarrow> e
                  | Some x \<Rightarrow>
                      if exStatus x \<noteq> StatusRunning then goto PDone
                      else (goto (PExec cur data))\<lparr>executions := (executions e)(execID \<mapsto> x\<lparr>CurrentState := cur\<rparr>)\<rparr>)
             | PExec cur data \<Rightarrow>
                 (case run_state F ob (rHandlers r) (states_map (States (rDef r))) cur data of None \<Rightarrow> e | Some pc \<Rightarrow> goto pc)
             | PFinish status output err \<Rightarrow> finish execID status output err now (goto PDone)
             | PDone \<Rightarrow> e)"

section \<open>The other calls\<close>

definition GetExecution :: "string \<Rightarrow> ('f, 'w) Engine \<Rightarrow> wf_error + 'f Execution" where
  "GetExecution execID e = (case executions e execID of None \<Rightarrow> Inl ErrExecutionNotFound | Some x \<Rightarrow> Inr x)"

text \<open>\<open>ks\<close> is the order in which the range over the map meets the executions.\<close>

definition ListExecutions :: "string list \<Rightarrow> ListOptions \<Rightarrow> ('f, 'w) Engine \<Rightarrow> 'f Execution list \<times> string" where
  "ListExecutions ks opts e =
     (let found = filter (\<lambda>x. (lsWorkflowID opts = '''' \<or> exWorkflowID x = lsWorkflowID opts) \<and>
                              (lsStatus opts = None \<or> Some (exStatus x) = lsStatus opts))
                    (List.map_filter (executions e) ks)
      in if lsLimit opts > 0 \<and> int (length found) > lsLimit opts then (take (nat (lsLimit opts)) found, ''more'') else (found, ''''))"

definition Cancel :: "int \<Rightarrow> string \<Rightarrow> ('f, 'w) Engine \<Rightarrow> ('f, 'w) Engine \<times> wf_error option" where
  "Cancel now execID e =
     (case executions e execID of
        None \<Rightarrow> (e, Some ErrExecutionNotFound)
      | Some x \<Rightarrow>
          if exStatus x \<noteq> StatusRunning then (e, Some ErrExecutionNotRunning)
          else let x' = x\<lparr>exStatus := StatusCancelled, CompletedAt := now\<rparr>
               in (notifyWaitersLocked x' (e\<lparr>executions := (executions e)(execID \<mapsto> x')\<rparr>), None))"

text \<open>\<open>None\<close> is the panic of a write to a nil map.\<close>

definition Signal :: "string \<Rightarrow> string \<Rightarrow> 'f Val \<Rightarrow> ('f, 'w) Engine \<Rightarrow> (('f, 'w) Engine \<times> wf_error option) option" where
  "Signal execID signalName data e =
     (case executions e execID of
        None \<Rightarrow> Some (e, Some ErrExecutionNotFound)
      | Some x \<Rightarrow>
          if exStatus x \<noteq> StatusRunning then Some (e, Some ErrExecutionNotRunning)
          else (case signals e execID of
                  None \<Rightarrow> None
                | Some sigs \<Rightarrow> Some (e\<lparr>signals := (signals e)(execID \<mapsto> sigs(signalName \<mapsto> data))\<rparr>, None)))"

text \<open>\<^verbatim>\<open>Wait\<close> up to its \<^verbatim>\<open>select\<close>: an error, the finished execution, or the channel it blocks on.\<close>

definition Wait_enter :: "string \<Rightarrow> ('f, 'w) Engine \<Rightarrow> ('f, 'w) Engine \<times> (wf_error + ('f Execution + nat))" where
  "Wait_enter execID e =
     (case executions e execID of
        None \<Rightarrow> (e, Inl ErrExecutionNotFound)
      | Some x \<Rightarrow>
          if exStatus x \<noteq> StatusRunning \<and> exStatus x \<noteq> StatusPending then (e, Inr (Inl x))
          else (e\<lparr>chans := (chans e)(nextChan e \<mapsto> None), nextChan := nextChan e + 1,
                  waiters := (waiters e)(execID \<mapsto> (case waiters e execID of None \<Rightarrow> [] | Some chs \<Rightarrow> chs) @ [nextChan e])\<rparr>,
                Inr (Inr (nextChan e))))"

text \<open>The \<^verbatim>\<open>select\<close>: \<open>ctx\<close> is the error of the caller's context when that case is taken; no result means that the call still blocks.\<close>

definition Wait_select :: "ctx_err option \<Rightarrow> nat \<Rightarrow> ('f, 'w) Engine \<Rightarrow> ('f, 'w) Engine \<times> (wf_error + 'f Execution) option" where
  "Wait_select ctx ch e =
     (case ctx of
        Some err \<Rightarrow> (e, Some (Inl (CtxError err)))
      | None \<Rightarrow>
          (case chans e ch of
             Some (Some x) \<Rightarrow> (e\<lparr>chans := (chans e)(ch \<mapsto> None)\<rparr>, Some (Inr x))
           | _ \<Rightarrow> (e, None)))"

section \<open>Runs of the engine\<close>

datatype ('f, 'w) wf_event =
    EvHandler string "('f, 'w) TaskHandler option"
  | EvWork "64 word"
  | EvRegister string int "'f WorkflowDefinition"
  | EvRead string
  | EvFill string "'f WorkflowDefinition"
  | EvStart string int "'f StartOptions"
  | EvRun "'w observer" int string
  | EvCancel int string
  | EvSignal string string "'f Val"
  | EvWait string
  | EvSelect "ctx_err option" nat

fun wf_apply :: "'f floats \<Rightarrow> ('f, 'w) wf_event \<Rightarrow> ('f, 'w) Engine \<Rightarrow> ('f, 'w) Engine option" where
  "wf_apply F (EvHandler resource h) e = Some (RegisterTaskHandler resource h e)"
| "wf_apply F (EvWork d) e = Some (SetWorkDuration d e)"
| "wf_apply F (EvRegister uuid now def) e = Some (RegisterWorkflow uuid now def e)"
| "wf_apply F (EvRead workflowID) e = Some (fst (GetWorkflow_read workflowID e))"
| "wf_apply F (EvFill workflowID wdef) e = Some (GetWorkflow_fill workflowID wdef e)"
| "wf_apply F (EvStart uuid now opts) e = Some (fst (Start uuid now opts e))"
| "wf_apply F (EvRun ob now execID) e = Some (runExecution_step F ob now execID e)"
| "wf_apply F (EvCancel now execID) e = Some (fst (Cancel now execID e))"
| "wf_apply F (EvSignal execID name data) e = map_option fst (Signal execID name data e)"
| "wf_apply F (EvWait execID) e = Some (fst (Wait_enter execID e))"
| "wf_apply F (EvSelect ctx ch) e = Some (fst (Wait_select ctx ch e))"

fun wf_run :: "'f floats \<Rightarrow> ('f, 'w) wf_event list \<Rightarrow> ('f, 'w) Engine \<Rightarrow> ('f, 'w) Engine option" where
  "wf_run F [] e = Some e"
| "wf_run F (ev # evs) e = Option.bind (wf_apply F ev e) (wf_run F evs)"

end
