(* ===== verification/Workflow_Correct.thy ===== *)
theory Workflow_Correct
  imports Workflow
begin

text \<open>
  The invariant of the in-memory workflow engine under every interleaving of its clients and runners, and what follows from it: calls never
  panic, a finished execution never changes, waiters get the final record, an idempotency key starts one execution, and every execution
  ends soon after its deadline.
\<close>

section \<open>The invariant of the engine\<close>

definition terminal :: "ExecutionStatus \<Rightarrow> bool" where
  "terminal s \<longleftrightarrow> s \<noteq> StatusPending \<and> s \<noteq> StatusRunning"

definition record_ok :: "'f Execution \<Rightarrow> bool" where
  "record_ok x \<longleftrightarrow>
     (case exStatus x of
        StatusPending \<Rightarrow> False
      | StatusRunning \<Rightarrow> exError x = None \<and> exOutput x = VNil
      | StatusCompleted \<Rightarrow> exError x = None
      | StatusFailed \<Rightarrow> exError x \<noteq> None
      | StatusCancelled \<Rightarrow> exError x = None
      | StatusTimedOut \<Rightarrow> exError x = Some ErrExecutionTimeout)"

definition pc_ok :: "'f runner_pc \<Rightarrow> bool" where
  "pc_ok pc \<longleftrightarrow>
     (case pc of
        PFinish status output err \<Rightarrow> status = StatusCompleted \<and> err = None \<or> status \<in> {StatusFailed, StatusTimedOut, StatusCancelled} \<and> err \<noteq> None
      | _ \<Rightarrow> True)"

definition exec_ok :: "('f, 'w) Engine \<Rightarrow> bool" where
  "exec_ok e \<longleftrightarrow>
     (\<forall>i x. executions e i = Some x \<longrightarrow>
        exID x = i \<and> record_ok x \<and> signals e i \<noteq> None \<and>
        (\<exists>r. runners e i = Some r \<and> (exStatus x = StatusRunning \<longrightarrow> rPc r \<noteq> PDone)))"

definition runner_ok :: "('f, 'w) Engine \<Rightarrow> bool" where
  "runner_ok e \<longleftrightarrow> (\<forall>i r. runners e i = Some r \<longrightarrow> executions e i \<noteq> None \<and> pc_ok (rPc r))"

definition names_ok :: "('f, 'w) Engine \<Rightarrow> bool" where
  "names_ok e \<longleftrightarrow>
     (\<forall>k i. idempo e k = Some i \<longrightarrow> k \<noteq> '''' \<and> executions e i \<noteq> None) \<and> (\<forall>k d. workflows e k = Some d \<longrightarrow> defID d = k)"

definition waiter_ok :: "('f, 'w) Engine \<Rightarrow> bool" where
  "waiter_ok e \<longleftrightarrow>
     (\<forall>i chs. waiters e i = Some chs \<longrightarrow>
        (\<exists>x. executions e i = Some x \<and> exStatus x = StatusRunning) \<and> (\<forall>c \<in> set chs. c < nextChan e \<and> chans e c \<noteq> None))"

definition wf_ok :: "('f, 'w) Engine \<Rightarrow> bool" where
  "wf_ok e \<longleftrightarrow> exec_ok e \<and> runner_ok e \<and> names_ok e \<and> waiter_ok e \<and> (\<exists>l. lru_rel (defCache e) l)"

lemmas wf_ok_defs = wf_ok_def exec_ok_def runner_ok_def names_ok_def waiter_ok_def

lemma wf_ok_New: "wf_ok (NewWithConfig t)"
  using lru_New_inv by (auto simp: wf_ok_defs NewWithConfig_def newEngine_def)

lemma execution_ok:
  assumes "wf_ok e" "executions e i = Some x"
  shows "exID x = i" "record_ok x" "signals e i \<noteq> None"
    "\<exists>r. runners e i = Some r \<and> (exStatus x = StatusRunning \<longrightarrow> rPc r \<noteq> PDone)"
  using assms by (simp_all add: wf_ok_def exec_ok_def)

lemma runner_pc: "wf_ok e \<Longrightarrow> runners e i = Some r \<Longrightarrow> pc_ok (rPc r)"
  by (simp add: wf_ok_def runner_ok_def)

lemma execution_running: "wf_ok e \<Longrightarrow> executions e i = Some x \<Longrightarrow> \<not> terminal (exStatus x) \<Longrightarrow> exStatus x = StatusRunning"
  using execution_ok(2) [of e i x] by (cases "exStatus x") (auto simp: record_ok_def terminal_def)

lemma send_all_dom: "dom (send_all chs x cs) = dom cs"
  by (induction chs arbitrary: cs) auto

lemma notify_simps [simp]:
  "executions (notifyWaitersLocked x e) = executions e"
  "signals (notifyWaitersLocked x e) = signals e"
  "runners (notifyWaitersLocked x e) = runners e"
  "idempo (notifyWaitersLocked x e) = idempo e"
  "workflows (notifyWaitersLocked x e) = workflows e"
  "defCache (notifyWaitersLocked x e) = defCache e"
  "nextChan (notifyWaitersLocked x e) = nextChan e"
  "waiters (notifyWaitersLocked x e) = (waiters e)(exID x := None)"
  "dom (chans (notifyWaitersLocked x e)) = dom (chans e)"
  by (simp_all add: notifyWaitersLocked_def send_all_dom)

lemma notify_chan: "chans (notifyWaitersLocked x e) c \<noteq> None \<longleftrightarrow> chans e c \<noteq> None"
  using notify_simps(9) [of x e] by (metis domIff)

text \<open>Both ways an execution ends: its record becomes terminal and its waiters are told.\<close>

lemma wf_ok_terminate:
  assumes ok: "wf_ok e" and x: "executions e i = Some x" and x': "terminal (exStatus x')" "record_ok x'" "exID x' = i"
  shows "wf_ok (notifyWaitersLocked x' (e\<lparr>executions := (executions e)(i \<mapsto> x')\<rparr>))"
proof -
  have "exStatus x' \<noteq> StatusRunning" using x'(1) by (simp add: terminal_def)
  then have "exec_ok (notifyWaitersLocked x' (e\<lparr>executions := (executions e)(i \<mapsto> x')\<rparr>))"
    using ok x x' by (auto simp: wf_ok_def exec_ok_def)
  moreover have "runner_ok (notifyWaitersLocked x' (e\<lparr>executions := (executions e)(i \<mapsto> x')\<rparr>))"
    using ok x by (auto simp: wf_ok_def runner_ok_def)
  moreover have "names_ok (notifyWaitersLocked x' (e\<lparr>executions := (executions e)(i \<mapsto> x')\<rparr>))"
    using ok x by (auto simp: wf_ok_def names_ok_def)
  moreover have "waiter_ok (notifyWaitersLocked x' (e\<lparr>executions := (executions e)(i \<mapsto> x')\<rparr>))"
    using ok x' unfolding wf_ok_def waiter_ok_def notify_chan by (auto split: if_splits)
  ultimately show ?thesis using ok by (simp add: wf_ok_def)
qed

lemma wf_ok_goto:
  assumes ok: "wf_ok e" and r: "runners e i = Some r" and pc: "pc_ok pc"
    and done_ok: "\<And>x. pc = PDone \<Longrightarrow> executions e i = Some x \<Longrightarrow> terminal (exStatus x)"
  shows "wf_ok (e\<lparr>runners := (runners e)(i \<mapsto> r\<lparr>rPc := pc\<rparr>)\<rparr>)"
proof -
  have "exec_ok (e\<lparr>runners := (runners e)(i \<mapsto> r\<lparr>rPc := pc\<rparr>)\<rparr>)"
    using ok done_ok by (auto simp: wf_ok_def exec_ok_def terminal_def)
  moreover have "runner_ok (e\<lparr>runners := (runners e)(i \<mapsto> r\<lparr>rPc := pc\<rparr>)\<rparr>)"
    using ok r pc by (auto simp: wf_ok_def runner_ok_def)
  ultimately show ?thesis using ok by (simp add: wf_ok_def names_ok_def waiter_ok_def)
qed

lemma wf_ok_mark:
  assumes ok: "wf_ok e" and x: "executions e i = Some x" and x': "exStatus x' = exStatus x" "record_ok x'" "exID x' = i"
  shows "wf_ok (e\<lparr>executions := (executions e)(i \<mapsto> x')\<rparr>)"
proof -
  have "exec_ok (e\<lparr>executions := (executions e)(i \<mapsto> x')\<rparr>)" using ok x x' by (auto simp: wf_ok_def exec_ok_def)
  moreover have "waiter_ok (e\<lparr>executions := (executions e)(i \<mapsto> x')\<rparr>)" using ok x x' by (fastforce simp: wf_ok_def waiter_ok_def)
  ultimately show ?thesis using ok x by (auto simp: wf_ok_def runner_ok_def names_ok_def)
qed

lemma finish_record_ok:
  "record_ok x \<Longrightarrow> exStatus x = StatusRunning \<Longrightarrow> pc_ok (PFinish status out err) \<Longrightarrow>
   terminal status \<and> record_ok (finish_record status out err now x)"
  by (auto simp: record_ok_def pc_ok_def terminal_def finish_record_def)

lemma finish_record_simps [simp]:
  "exID (finish_record status out err now x) = exID x" "exStatus (finish_record status out err now x) = status"
  by (simp_all add: finish_record_def)

lemma finish_runners: "finish i status out err now (e\<lparr>runners := R\<rparr>) = (finish i status out err now e)\<lparr>runners := R\<rparr>"
  by (simp add: finish_def notifyWaitersLocked_def Let_def split: option.splits)

lemma finish_cases:
  assumes ok: "wf_ok e" and pc: "pc_ok (PFinish status out err)" and x: "executions e i = Some x"
  shows "wf_ok (finish i status out err now e) \<and> runners (finish i status out err now e) = runners e \<and>
         (\<exists>x'. executions (finish i status out err now e) i = Some x' \<and> terminal (exStatus x'))"
proof (cases "terminal (exStatus x)")
  case True
  then show ?thesis using ok x by (auto simp: finish_def terminal_def)
next
  case False
  then have st: "exStatus x = StatusRunning" by (rule execution_running [OF ok x])
  show ?thesis using execution_ok(1,2) [OF ok x]
    finish_record_ok [OF _ st pc, of now] wf_ok_terminate [OF ok x, of "finish_record status out err now x"] x st
    by (simp add: finish_def Let_def)
qed

lemma terminalFromCtx_ok [simp]: "pc_ok (PFinish (terminalFromCtx c) out (Some err))"
  by (simp add: terminalFromCtx_def pc_ok_def)

lemma run_next_ok: "pc_ok (run_next ob st t) \<and> run_next ob st t \<noteq> PDone"
  by (cases t) (auto simp: run_next_def pc_ok_def terminalFromCtx_def split: option.splits)

lemma run_state_ok:
  assumes "run_state F ob hs states cur data = Some pc"
  shows "pc_ok pc \<and> pc \<noteq> PDone"
proof (cases "states cur")
  case None
  then show ?thesis using assms by (auto simp: run_state_def pc_ok_def)
next
  case (Some st)
  from assms consider status err where "pc = PFinish status data (Some err)" "status = StatusFailed" | t where "pc = run_next (ob []) st t"
    unfolding run_state_def Some option.case Let_def by (auto split: if_splits)
  then show ?thesis
  proof cases
    case 1
    then show ?thesis by (simp add: pc_ok_def)
  next
    case 2
    then show ?thesis by (simp add: run_next_ok)
  qed
qed

lemma record_ok_mark [simp]: "record_ok (x\<lparr>CurrentState := c\<rparr>) = record_ok x"
  by (cases "exStatus x") (simp_all add: record_ok_def)

lemma pc_ok_simps [simp]:
  "pc_ok PEntry" "pc_ok PLegacy" "pc_ok (PCheck c d)" "pc_ok (PMark c d)" "pc_ok (PExec c d)" "pc_ok PDone"
  "pc_ok (PFinish StatusCompleted d None)"
  by (simp_all add: pc_ok_def)

lemma swap_fields: "e\<lparr>runners := R, executions := X\<rparr> = e\<lparr>executions := X, runners := R\<rparr>"
  by simp

lemma wf_ok_step:
  assumes ok: "wf_ok e"
  shows "wf_ok (runExecution_step F ob now i e)"
proof (cases "runners e i")
  case None
  then show ?thesis using ok by (simp add: runExecution_step_def)
next
  case r: (Some r)
  then obtain x where x: "executions e i = Some x" using ok by (auto simp: wf_ok_def runner_ok_def)
  have pc: "pc_ok (rPc r)" using ok r by (auto simp: wf_ok_def runner_ok_def)
  note go = wf_ok_goto [OF ok r]
  have move: "wf_ok (e\<lparr>runners := (runners e)(i \<mapsto> r\<lparr>rPc := pc\<rparr>)\<rparr>)" if "pc_ok pc" "pc \<noteq> PDone" for pc
    using go [OF that(1)] that(2) by blast
  show ?thesis
  proof (cases "rPc r")
    case (PMark cur data)
    have "wf_ok (e\<lparr>executions := (executions e)(i \<mapsto> x\<lparr>CurrentState := cur\<rparr>)\<rparr>)"
      by (rule wf_ok_mark [OF ok x]) (simp_all add: execution_ok(1,2) [OF ok x])
    from wf_ok_goto [OF this, of i r "PExec cur data"]
    have "wf_ok ((e\<lparr>runners := (runners e)(i \<mapsto> r\<lparr>rPc := PExec cur data\<rparr>)\<rparr>)\<lparr>executions := (executions e)(i \<mapsto> x\<lparr>CurrentState := cur\<rparr>)\<rparr>)"
      using r by (simp add: swap_fields)
    moreover have "wf_ok (e\<lparr>runners := (runners e)(i \<mapsto> r\<lparr>rPc := PDone\<rparr>)\<rparr>)" if "exStatus x \<noteq> StatusRunning"
      by (rule go) (use that x execution_running [OF ok x] in auto)
    ultimately show ?thesis using r x PMark by (simp add: runExecution_step_def)
  next
    case (PExec cur data)
    show ?thesis
    proof (cases "run_state F (\<lambda>q. own_ctx (rOwn r) (ob q)) (rHandlers r) (states_map (States (rDef r))) cur data")
      case (Some pc)
      then show ?thesis using r PExec go [of pc] run_state_ok [OF Some] by (simp add: runExecution_step_def)
    qed (use r ok PExec in \<open>simp add: runExecution_step_def\<close>)
  next
    case (PFinish status out err)
    note f = finish_cases [OF ok pc [unfolded PFinish] x, of now]
    have "wf_ok ((finish i status out err now e)\<lparr>runners := (runners e)(i \<mapsto> r\<lparr>rPc := PDone\<rparr>)\<rparr>)"
      using wf_ok_goto [of "finish i status out err now e" i r PDone] f r by auto
    then show ?thesis using r PFinish by (simp add: runExecution_step_def finish_runners)
  qed (use r ok in \<open>auto simp: runExecution_step_def Let_def intro!: move split: option.splits\<close>)
qed

lemma Start_cases:
  assumes "Start uuid now opts e = (e', res)"
  obtains (refused) err where "e' = e" "res = Inl err"
  | (known) k i x where "e' = e" "res = Inr x" "k = IdempotencyKey opts" "k \<noteq> ''''" "idempo e k = Some i" "executions e i = Some x"
  | (started) x r where "res = Inr x" "executions e (exID x) = None" "record_ok x" "exStatus x = StatusRunning" "pc_ok (rPc r)" "rPc r \<noteq> PDone"
      "IdempotencyKey opts \<noteq> '''' \<Longrightarrow> Option.bind (idempo e (IdempotencyKey opts)) (executions e) = None"
      "e' = e\<lparr>executions := (executions e)(exID x \<mapsto> x), signals := (signals e)(exID x \<mapsto> Map.empty),
              idempo := (if IdempotencyKey opts = '''' then idempo e else (idempo e)(IdempotencyKey opts \<mapsto> exID x)),
              runners := (runners e)(exID x \<mapsto> r)\<rparr>"
proof (cases "workflows e (opWorkflowID opts)")
  case None
  then show ?thesis using assms refused by (auto simp: Start_def)
next
  case w: (Some w)
  show ?thesis
  proof (cases "if IdempotencyKey opts = '''' then None else Option.bind (idempo e (IdempotencyKey opts)) (executions e)")
    case (Some x)
    then show ?thesis using assms w known by (auto simp: Start_def bind_eq_Some_conv split: if_splits)
  next
    case None
    let ?i = "if opExecutionID opts = '''' then uuid else opExecutionID opts"
    show ?thesis
    proof (cases "executions e ?i")
      case Some
      then show ?thesis using assms w None refused by (auto simp: Start_def Let_def)
    next
      case free: None
      let ?x = "\<lparr>exID = ?i, exWorkflowID = opWorkflowID opts, exStatus = StatusRunning, exInput = opInput opts,
                  exOutput = VNil, exError = None, CurrentState = StartAt w, StartedAt = now, CompletedAt = 0\<rparr>"
      show ?thesis using assms w None free by (intro started [of ?x]) (auto simp: Start_def Let_def record_ok_def split: if_splits)
    qed
  qed
qed

lemma wf_ok_Start: "wf_ok e \<Longrightarrow> wf_ok (fst (Start uuid now opts e))"
proof -
  assume ok: "wf_ok e"
  obtain e' res where s: "Start uuid now opts e = (e', res)" by fastforce
  from s have "wf_ok e'"
  proof (cases rule: Start_cases)
    case (started x r)
    have "exec_ok e'" using ok started by (auto simp: wf_ok_def exec_ok_def)
    moreover have "runner_ok e'" using ok started by (auto simp: wf_ok_def runner_ok_def)
    moreover have "names_ok e'" using ok started by (auto simp: wf_ok_def names_ok_def)
    moreover have "waiter_ok e'" using ok started(2,8) by (fastforce simp: wf_ok_def waiter_ok_def)
    ultimately show ?thesis using ok started by (simp add: wf_ok_def)
  qed (use ok in auto)
  then show ?thesis using s by simp
qed

lemma wf_ok_frame:
  "wf_ok e \<Longrightarrow> wf_ok (e\<lparr>handlers := h\<rparr>)" "wf_ok e \<Longrightarrow> wf_ok (e\<lparr>workDuration := d\<rparr>)"
  "wf_ok e \<Longrightarrow> \<exists>l. lru_rel c l \<Longrightarrow> wf_ok (e\<lparr>defCache := c\<rparr>)"
  by (simp_all add: wf_ok_defs)

lemma cache_Get: "wf_ok e \<Longrightarrow> lru_Get (defCache e) k = (c, res) \<Longrightarrow> (\<exists>l. lru_rel c l) \<and> lru_look c = lru_look (defCache e) \<and> res = lru_look (defCache e) k"
  using lru_cache.get_law [of "defCache e" k c res] by (simp add: wf_ok_def)

lemma cache_Set: "wf_ok e \<Longrightarrow> (\<exists>l. lru_rel (lru_Set (defCache e) k d) l)"
  using lru_cache.put_law [of "defCache e" k d] by (simp add: wf_ok_def)

lemma wf_ok_apply: "wf_ok e \<Longrightarrow> \<exists>e'. wf_apply F ev e = Some e' \<and> wf_ok e'"
proof (cases ev)
  case (EvRegister uuid now def)
  assume ok: "wf_ok e"
  note c = cache_Set [OF ok]
  show ?thesis using ok c EvRegister by (auto simp: RegisterWorkflow_def Let_def wf_ok_defs)
next
  case (EvRead k)
  assume ok: "wf_ok e"
  then show ?thesis using cache_Get [OF ok] EvRead by (auto simp: GetWorkflow_read_def wf_ok_frame split: prod.splits option.splits)
next
  case (EvCancel now i)
  assume ok: "wf_ok e"
  have "wf_ok (fst (Cancel now i e))"
  proof (cases "executions e i")
    case (Some x)
    then show ?thesis using ok wf_ok_terminate [OF ok Some, of "x\<lparr>exStatus := StatusCancelled, CompletedAt := now\<rparr>"] execution_ok(1,2) [OF ok Some]
      by (auto simp: Cancel_def Let_def terminal_def record_ok_def)
  qed (simp add: Cancel_def ok)
  then show ?thesis using EvCancel by simp
next
  case (EvSignal i name data)
  assume ok: "wf_ok e"
  show ?thesis
  proof (cases "executions e i")
    case (Some x)
    obtain sigs where "signals e i = Some sigs" using execution_ok(3) [OF ok Some] by auto
    then show ?thesis using ok Some EvSignal by (auto simp: Signal_def wf_ok_defs)
  qed (simp add: Signal_def ok EvSignal)
next
  case (EvWait i)
  assume ok: "wf_ok e"
  show ?thesis
  proof (cases "executions e i")
    case (Some x)
    show ?thesis
    proof (cases "terminal (exStatus x)")
      case False
      then have st: "exStatus x = StatusRunning" by (rule execution_running [OF ok Some])
      have "waiter_ok (fst (Wait_enter i e))"
        using ok Some st by (cases "waiters e i") (auto simp: Wait_enter_def wf_ok_def waiter_ok_def less_Suc_eq)
      then show ?thesis using ok Some st EvWait by (simp add: Wait_enter_def wf_ok_def exec_ok_def runner_ok_def names_ok_def)
    qed (use ok Some EvWait in \<open>simp add: Wait_enter_def terminal_def\<close>)
  qed (simp add: Wait_enter_def ok EvWait)
next
  case (EvSelect ctx ch)
  assume ok: "wf_ok e"
  then show ?thesis using EvSelect by (auto simp: Wait_select_def wf_ok_defs split: option.splits)
qed (auto simp: RegisterTaskHandler_def SetWorkDuration_def GetWorkflow_fill_def wf_ok_frame wf_ok_Start wf_ok_step cache_Set)

lemma wf_ok_run: "wf_ok e \<Longrightarrow> \<exists>e'. wf_run F evs e = Some e' \<and> wf_ok e'"
proof (induction evs arbitrary: e)
  case (Cons ev evs)
  then show ?case using wf_ok_apply [of e F ev] by (metis Cons.IH bind.bind_lunit wf_run.simps(2))
qed simp

lemma wf_run_append: "wf_run F (evs @ evs') e = Option.bind (wf_run F evs e) (wf_run F evs')"
  by (induction evs arbitrary: e) (auto split: bind_split)

section \<open>Executions\<close>

text \<open>What an event may do to the record of an execution that exists.\<close>

definition later_record :: "'f Execution \<Rightarrow> 'f Execution \<Rightarrow> bool" where
  "later_record x x' \<longleftrightarrow>
     exID x' = exID x \<and> exWorkflowID x' = exWorkflowID x \<and> exInput x' = exInput x \<and> StartedAt x' = StartedAt x \<and>
     (terminal (exStatus x) \<longrightarrow> x' = x)"

lemma later_record_refl [simp]: "later_record x x"
  by (simp add: later_record_def)

lemma later_record_trans: "later_record x y \<Longrightarrow> later_record y z \<Longrightarrow> later_record x z"
  by (auto simp: later_record_def)

lemma finish_later: "executions e i = Some x \<Longrightarrow> \<exists>x'. executions (finish j status out err now e) i = Some x' \<and> later_record x x'"
  by (auto simp: finish_def Let_def later_record_def terminal_def finish_record_def split: option.splits)

lemma wf_apply_later:
  assumes x: "executions e i = Some x" and step: "wf_apply F ev e = Some e'"
  shows "\<exists>x'. executions e' i = Some x' \<and> later_record x x'"
proof (cases ev)
  case (EvStart uuid now opts)
  obtain e1 res where s: "Start uuid now opts e = (e1, res)" by fastforce
  then have "e' = e1" using step EvStart by simp
  from s show ?thesis unfolding \<open>e' = e1\<close> using x by (cases rule: Start_cases) auto
next
  case (EvRun ob now j)
  then have e': "e' = runExecution_step F ob now j e" using step by simp
  show ?thesis
  proof (cases "runners e j")
    case (Some r)
    show ?thesis
    proof (cases "rPc r")
      case (PFinish status out err)
      then show ?thesis using finish_later [OF x] Some e' by (simp add: runExecution_step_def finish_runners)
    qed (use x e' Some in \<open>auto simp: runExecution_step_def Let_def later_record_def terminal_def split: option.splits\<close>)
  qed (use x e' in \<open>simp add: runExecution_step_def\<close>)
next
  case (EvCancel now j)
  then show ?thesis using step x by (auto simp: Cancel_def Let_def later_record_def terminal_def split: option.splits)
qed (use step x in \<open>auto simp: RegisterTaskHandler_def SetWorkDuration_def RegisterWorkflow_def GetWorkflow_read_def GetWorkflow_fill_def Let_def
       Signal_def Wait_enter_def Wait_select_def split: option.splits prod.splits if_splits\<close>)

lemma wf_run_later:
  "executions e i = Some x \<Longrightarrow> wf_run F evs e = Some e' \<Longrightarrow> \<exists>x'. executions e' i = Some x' \<and> later_record x x'"
proof (induction evs arbitrary: e x)
  case (Cons ev evs)
  from Cons.prems(2) obtain e1 where e1: "wf_apply F ev e = Some e1" "wf_run F evs e1 = Some e'" by (auto simp: bind_eq_Some_conv)
  obtain x1 where x1: "executions e1 i = Some x1" "later_record x x1" using wf_apply_later [OF Cons.prems(1) e1(1)] by blast
  then show ?case using Cons.IH [OF x1(1) e1(2)] later_record_trans by blast
qed simp

section \<open>Waiters\<close>

text \<open>Channel \<open>c\<close> belongs to a \<^verbatim>\<open>Wait\<close> on execution \<open>i\<close> that has not received yet.\<close>

definition waits :: "string \<Rightarrow> nat \<Rightarrow> ('f, 'w) Engine \<Rightarrow> bool" where
  "waits i c e \<longleftrightarrow>
     c < nextChan e \<and> (\<forall>j chs. j \<noteq> i \<longrightarrow> waiters e j = Some chs \<longrightarrow> c \<notin> set chs) \<and>
     (\<exists>x. executions e i = Some x \<and>
          (terminal (exStatus x) \<longrightarrow> chans e c = Some (Some x)) \<and>
          (\<not> terminal (exStatus x) \<longrightarrow> chans e c = Some None \<and> (\<exists>chs. waiters e i = Some chs \<and> c \<in> set chs)))"

lemma waits_cong:
  "waits i c e \<Longrightarrow> nextChan e' = nextChan e \<Longrightarrow> waiters e' = waiters e \<Longrightarrow> chans e' c = chans e c \<Longrightarrow> executions e' i = executions e i \<Longrightarrow>
   waits i c e'"
  by (simp add: waits_def)

lemma waits_running:
  "waits i c e \<Longrightarrow> executions e i = Some x \<Longrightarrow> \<not> terminal (exStatus x) \<Longrightarrow>
   chans e c = Some None \<and> (\<exists>chs. waiters e i = Some chs \<and> c \<in> set chs)"
  by (simp add: waits_def)

lemma waits_mark:
  assumes w: "waits i c e" and x: "executions e j = Some x" "\<not> terminal (exStatus x)" "exStatus x' = exStatus x"
    and e': "nextChan e' = nextChan e" "waiters e' = waiters e" "chans e' = chans e" "executions e' = (executions e)(j \<mapsto> x')"
  shows "waits i c e'"
proof (cases "j = i")
  case True
  then show ?thesis using w x e' by (simp add: waits_def)
qed (use w e' in \<open>simp add: waits_cong\<close>)

lemma send_all_out: "c \<notin> set chs \<Longrightarrow> send_all chs x cs c = cs c"
  by (induction chs arbitrary: cs) auto

lemma send_all_full: "cs c = Some (Some y) \<Longrightarrow> send_all chs x cs c = Some (Some y)"
proof (induction chs arbitrary: cs)
  case (Cons a chs)
  then show ?case by (cases "a = c") auto
qed simp

lemma send_all_in: "c \<in> set chs \<Longrightarrow> cs c = Some None \<Longrightarrow> send_all chs x cs c = Some (Some x)"
proof (induction chs arbitrary: cs)
  case (Cons a chs)
  then show ?case by (cases "a = c") (auto simp: send_all_full)
qed simp

lemma waits_terminate:
  assumes w: "waits i c e" and x: "executions e j = Some x" "\<not> terminal (exStatus x)" and x': "terminal (exStatus x')" "exID x' = j"
  shows "waits i c (notifyWaitersLocked x' (e\<lparr>executions := (executions e)(j \<mapsto> x')\<rparr>))"
proof (cases "j = i")
  case True
  obtain chs where "waiters e i = Some chs" "c \<in> set chs" "chans e c = Some None" using waits_running [OF w] x True by blast
  then show ?thesis using w x' True by (simp add: waits_def notifyWaitersLocked_def send_all_in)
next
  case False
  then have "c \<notin> set (case waiters e j of None \<Rightarrow> [] | Some chs \<Rightarrow> chs)" using w by (auto simp: waits_def split: option.splits)
  then have "chans (notifyWaitersLocked x' (e\<lparr>executions := (executions e)(j \<mapsto> x')\<rparr>)) c = chans e c"
    by (simp add: notifyWaitersLocked_def send_all_out x'(2))
  then show ?thesis using w x' False unfolding waits_def by (simp cong: if_cong)
qed

lemma waits_finish:
  assumes "wf_ok e" "waits i c e" "pc_ok (PFinish status out err)"
  shows "waits i c (finish j status out err now e)"
proof (cases "executions e j")
  case (Some x)
  show ?thesis
  proof (cases "terminal (exStatus x)")
    case False
    note st = execution_running [OF assms(1) Some False]
    then show ?thesis
      using waits_terminate [OF assms(2) Some False, of "finish_record status out err now x"] Some execution_ok(1,2) [OF assms(1) Some]
        finish_record_ok [OF _ st assms(3)] by (auto simp: finish_def Let_def)
  qed (use assms Some in \<open>simp add: finish_def terminal_def\<close>)
qed (use assms in \<open>simp add: finish_def\<close>)

lemma waits_apply:
  assumes ok: "wf_ok e" and w: "waits i c e" and ev: "ev \<noteq> EvSelect None c" and step: "wf_apply F ev e = Some e'"
  shows "waits i c e'"
proof (cases ev)
  case (EvStart uuid now opts)
  obtain e1 res where s: "Start uuid now opts e = (e1, res)" by fastforce
  then have "e' = e1" using step EvStart by simp
  from s show ?thesis
  proof (cases rule: Start_cases)
    case (started x r)
    then have "exID x \<noteq> i" using w by (auto simp: waits_def)
    then show ?thesis using started(8) \<open>e' = e1\<close> by (intro waits_cong [OF w]) simp_all
  qed (use w \<open>e' = e1\<close> in auto)
next
  case (EvRun ob now j)
  then have e': "e' = runExecution_step F ob now j e" using step by simp
  show ?thesis
  proof (cases "runners e j")
    case r: (Some r)
    show ?thesis
    proof (cases "rPc r")
      case (PFinish status out err)
      have "pc_ok (PFinish status out err)" using runner_pc [OF ok r] PFinish by simp
      then have "waits i c (finish j status out err now e)" by (rule waits_finish [OF ok w])
      then show ?thesis using e' r PFinish by (simp add: runExecution_step_def finish_runners waits_def)
    next
      case (PMark cur data)
      show ?thesis
      proof (cases "executions e j")
        case (Some x)
        then show ?thesis
          using r e' PMark waits_mark [OF w Some, of "x\<lparr>CurrentState := cur\<rparr>" e'] waits_cong [OF w, of e'] by (simp add: runExecution_step_def terminal_def split: if_splits)
      qed (use w r e' PMark in \<open>simp add: runExecution_step_def\<close>)
    qed (use w e' r in \<open>auto simp: runExecution_step_def Let_def intro: waits_cong [OF w] split: option.splits\<close>)
  qed (use w e' in \<open>simp add: runExecution_step_def\<close>)
next
  case (EvCancel now j)
  show ?thesis
  proof (cases "executions e j")
    case (Some x)
    then show ?thesis
      using waits_terminate [OF w Some, of "x\<lparr>exStatus := StatusCancelled, CompletedAt := now\<rparr>"] execution_ok(1) [OF ok Some] w EvCancel step
      by (auto simp: Cancel_def Let_def terminal_def split: if_splits)
  qed (use w EvCancel step in \<open>simp add: Cancel_def\<close>)
next
  case (EvWait j)
  then show ?thesis using w step ok
    by (auto simp: Wait_enter_def waits_def terminal_def split: option.splits if_splits)
next
  case (EvSelect ctx ch)
  then show ?thesis using w step ev by (auto simp: Wait_select_def waits_def split: option.splits)
qed (use step w in \<open>auto simp: RegisterTaskHandler_def SetWorkDuration_def RegisterWorkflow_def GetWorkflow_read_def GetWorkflow_fill_def Let_def
       Signal_def intro: waits_cong [OF w] split: option.splits prod.splits if_splits\<close>)

lemma waits_run:
  "wf_ok e \<Longrightarrow> waits i c e \<Longrightarrow> EvSelect None c \<notin> set evs \<Longrightarrow> wf_run F evs e = Some e' \<Longrightarrow> waits i c e'"
proof (induction evs arbitrary: e)
  case (Cons ev evs)
  then obtain e1 where e1: "wf_apply F ev e = Some e1" "wf_run F evs e1 = Some e'" by (auto simp: bind_eq_Some_conv)
  have "wf_ok e1" using wf_ok_apply [OF Cons.prems(1), of F ev] e1(1) by simp
  moreover have "waits i c e1" using waits_apply [OF Cons.prems(1,2) _ e1(1)] Cons.prems(3) by auto
  ultimately show ?case using Cons.IH [OF _ _ _ e1(2)] Cons.prems(3) by simp
qed simp

lemma Wait_enter_waits: "wf_ok e \<Longrightarrow> Wait_enter i e = (e', Inr (Inr c)) \<Longrightarrow> waits i c e'"
proof -
  assume ok: "wf_ok e" and w: "Wait_enter i e = (e', Inr (Inr c))"
  then have "c \<notin> set chs" if "waiters e j = Some chs" for j chs
    using that by (auto simp: Wait_enter_def wf_ok_def waiter_ok_def split: option.splits if_splits)
  then show ?thesis using w by (auto simp: Wait_enter_def waits_def terminal_def split: option.splits if_splits)
qed

section \<open>Progress\<close>

text \<open>An observer of a context whose deadline has passed or that was cancelled: it stays so.\<close>

definition expired :: "'w observer \<Rightarrow> bool" where
  "expired ob \<longleftrightarrow> (\<forall>q. ctx_head (ob q) \<noteq> None \<and> ctx_wait (ob q) \<noteq> None \<and> ctx_after (ob q) \<noteq> None)"

fun pc_rank :: "'f runner_pc \<Rightarrow> nat" where
  "pc_rank (PMark cur data) = 4"
| "pc_rank (PExec cur data) = 3"
| "pc_rank PEntry = 3"
| "pc_rank (PCheck cur data) = 2"
| "pc_rank PLegacy = 2"
| "pc_rank (PFinish status out err) = 1"
| "pc_rank PDone = 0"

lemma expired_own: "expired ob \<Longrightarrow> expired (\<lambda>q. own_ctx own (ob q))"
  by (auto simp: expired_def own_ctx_def Let_def)

lemma runBranch_expired: "expired ob \<Longrightarrow> \<exists>r. runBranch F ob hs p br states d = Some r"
proof -
  assume "expired ob"
  then obtain err where "ctx_head (ob [0]) = Some err" "ctx_head (ob (0 # p)) \<noteq> None" by (auto simp: expired_def)
  then show ?thesis by (auto simp: runBranch_def branch_loop.simps split: option.splits)
qed

lemma par_collect_returns: "(\<And>i. \<exists>r. branch i = Some r) \<Longrightarrow> \<exists>r. par_collect branch is outs = Some r"
proof (induction "is" arbitrary: outs)
  case (Cons i "is")
  obtain r where "branch i = Some r" using Cons.prems by blast
  then show ?case using Cons.IH [OF Cons.prems] by (cases "snd r") auto
qed simp

lemma execParallel_expired: "expired ob \<Longrightarrow> \<exists>r. execParallel F ob hs q st states d = Some r"
proof (cases "Branches st = []")
  case False
  assume "expired ob"
  then show ?thesis unfolding execParallel_def if_not_P [OF False] by (intro par_collect_returns runBranch_expired)
qed (simp add: execParallel_def)

lemma run_next_rank: "pc_rank (run_next ob st t) < 3"
  by (cases t) (auto simp: run_next_def split: option.splits)

lemma run_state_expired:
  assumes "expired ob"
  shows "\<exists>pc. run_state F ob hs states cur data = Some pc \<and> pc_rank pc < 3"
proof (cases "states cur")
  case (Some st)
  obtain d err where p: "execParallel F ob hs [] st states data = Some (d, err)"
    using execParallel_expired [OF assms, of F hs "[]" st states data] by fastforce
  obtain d' err' where t: "execTask (ob []) hs st data = (d', err')" by fastforce
  obtain nxt err'' where c: "execChoice F st data = (nxt, err'')" by fastforce
  show ?thesis using Some by (simp add: run_state_def Let_def run_next_rank p t c)
qed (simp add: run_state_def)

lemma step_rank:
  assumes ok: "wf_ok e" and r: "runners e i = Some r" and ob: "expired ob"
  shows "(\<exists>x. executions (runExecution_step F ob now i e) i = Some x \<and> terminal (exStatus x)) \<or>
         (\<exists>r'. runners (runExecution_step F ob now i e) i = Some r' \<and> pc_rank (rPc r') < pc_rank (rPc r))"
proof -
  obtain x where x: "executions e i = Some x" using ok r by (auto simp: wf_ok_def runner_ok_def)
  note ob' = expired_own [OF ob, of "rOwn r"]
  obtain h w where hw: "ctx_head (own_ctx (rOwn r) (ob [])) = Some h" "ctx_wait (own_ctx (rOwn r) (ob [])) = Some w"
    using ob' unfolding expired_def by blast
  show ?thesis
  proof (cases "rPc r")
    case (PExec cur data)
    obtain pc where "run_state F (\<lambda>q. own_ctx (rOwn r) (ob q)) (rHandlers r) (states_map (States (rDef r))) cur data = Some pc" "pc_rank pc < 3"
      using run_state_expired [OF ob'] by blast
    then show ?thesis using r PExec by (simp add: runExecution_step_def)
  next
    case (PFinish status out err)
    then show ?thesis using finish_cases [OF ok _ x] runner_pc [OF ok r] r by (simp add: runExecution_step_def finish_runners)
  next
    case PDone
    then show ?thesis using execution_ok(4) [OF ok x] execution_running [OF ok x] x r by (auto simp: runExecution_step_def)
  next
    case (PMark cur data)
    then show ?thesis using execution_running [OF ok x] x r by (auto simp: runExecution_step_def)
  qed (use r hw in \<open>auto simp: runExecution_step_def\<close>)
qed

lemma runner_kept:
  assumes ok: "wf_ok e" and r: "runners e i = Some r" and step: "wf_apply F ev e = Some e'" and ev: "\<And>ob now. ev \<noteq> EvRun ob now i"
  shows "runners e' i = Some r"
proof (cases ev)
  case (EvStart uuid now opts)
  obtain e1 res where s: "Start uuid now opts e = (e1, res)" by fastforce
  then have e1: "e' = e1" using step EvStart by simp
  have "executions e i \<noteq> None" using ok r by (auto simp: wf_ok_def runner_ok_def)
  from s this show ?thesis unfolding e1 using r by (cases rule: Start_cases) auto
next
  case (EvRun ob now j)
  then have "j \<noteq> i" using ev by auto
  then show ?thesis using r step EvRun
    by (cases "runners e j"; cases "rPc (the (runners e j))")
       (auto simp: runExecution_step_def Let_def finish_def split: option.splits)
next
  case (EvCancel now j)
  then show ?thesis using step r by (auto simp: Cancel_def Let_def split: option.splits)
qed (use step r in \<open>auto simp: RegisterTaskHandler_def SetWorkDuration_def RegisterWorkflow_def GetWorkflow_read_def GetWorkflow_fill_def Let_def
       Signal_def Wait_enter_def Wait_select_def split: option.splits prod.splits if_splits\<close>)

fun runs_of :: "string \<Rightarrow> ('f, 'w) wf_event list \<Rightarrow> 'w observer list" where
  "runs_of i [] = []"
| "runs_of i (EvRun ob now j # evs) = (if j = i then ob # runs_of i evs else runs_of i evs)"
| "runs_of i (ev # evs) = runs_of i evs"

lemma runs_of_Cons: "(\<And>ob now. ev \<noteq> EvRun ob now i) \<Longrightarrow> runs_of i (ev # evs) = runs_of i evs"
  by (cases ev) auto

lemma run_rank:
  "wf_ok e \<Longrightarrow> runners e i = Some r \<Longrightarrow> \<forall>ob \<in> set (runs_of i evs). expired ob \<Longrightarrow> pc_rank (rPc r) \<le> length (runs_of i evs) \<Longrightarrow>
   wf_run F evs e = Some e' \<Longrightarrow> \<exists>x. executions e' i = Some x \<and> terminal (exStatus x)"
proof (induction evs arbitrary: e r)
  case (Cons ev evs)
  obtain e1 where e1: "wf_apply F ev e = Some e1" "wf_run F evs e1 = Some e'" using Cons.prems(5) by (auto simp: bind_eq_Some_conv)
  have ok1: "wf_ok e1" using wf_ok_apply [OF Cons.prems(1), of F ev] e1(1) by simp
  show ?case
  proof (cases "\<exists>ob now. ev = EvRun ob now i")
    case True
    then obtain ob now where ev: "ev = EvRun ob now i" by blast
    then have "e1 = runExecution_step F ob now i e" "expired ob" using e1(1) Cons.prems(3) by simp_all
    with step_rank [OF Cons.prems(1,2), of ob F now]
    consider x where "executions e1 i = Some x" "terminal (exStatus x)" | r' where "runners e1 i = Some r'" "pc_rank (rPc r') < pc_rank (rPc r)" by blast
    then show ?thesis
    proof cases
      case 1
      then show ?thesis using wf_run_later [OF 1(1) e1(2)] by (auto simp: later_record_def)
    next
      case 2
      then show ?thesis using Cons.IH [OF ok1 2(1) _ _ e1(2)] Cons.prems(3,4) ev by simp
    qed
  next
    case False
    then show ?thesis using Cons.IH [OF ok1 runner_kept [OF Cons.prems(1,2) e1(1)] _ _ e1(2)] Cons.prems(3,4) runs_of_Cons [of ev i evs] by metis
  qed
next
  case Nil
  then have "rPc r = PDone" by (cases "rPc r") auto
  moreover obtain x where x: "executions e i = Some x" using Nil.prems(1,2) by (auto simp: wf_ok_def runner_ok_def)
  ultimately have "terminal (exStatus x)"
    using execution_ok(4) [OF Nil.prems(1) x] execution_running [OF Nil.prems(1) x] Nil.prems(2) by auto
  then show ?case using x Nil.prems(5) by simp
qed

section \<open>Idempotent starts\<close>

lemma idempo_apply:
  assumes ok: "wf_ok e" and k: "idempo e k = Some i" and step: "wf_apply F ev e = Some e'"
  shows "idempo e' k = Some i"
proof (cases ev)
  case (EvStart uuid now opts)
  obtain e1 res where s: "Start uuid now opts e = (e1, res)" by fastforce
  then have e1: "e' = e1" using step EvStart by simp
  have "k \<noteq> ''''" "executions e i \<noteq> None" using ok k by (auto simp: wf_ok_def names_ok_def)
  then have "Option.bind (idempo e k) (executions e) \<noteq> None" using k by simp
  from s this show ?thesis unfolding e1 using k by (cases rule: Start_cases) auto
next
  case (EvRun ob now j)
  then show ?thesis using k step
    by (cases "runners e j"; cases "rPc (the (runners e j))")
       (auto simp: runExecution_step_def Let_def finish_def split: option.splits)
next
  case (EvCancel now j)
  then show ?thesis using step k by (auto simp: Cancel_def Let_def split: option.splits)
qed (use step k in \<open>auto simp: RegisterTaskHandler_def SetWorkDuration_def RegisterWorkflow_def GetWorkflow_read_def GetWorkflow_fill_def Let_def
       Signal_def Wait_enter_def Wait_select_def split: option.splits prod.splits if_splits\<close>)

lemma idempo_run: "wf_ok e \<Longrightarrow> idempo e k = Some i \<Longrightarrow> wf_run F evs e = Some e' \<Longrightarrow> idempo e' k = Some i"
proof (induction evs arbitrary: e)
  case (Cons ev evs)
  obtain e1 where e1: "wf_apply F ev e = Some e1" "wf_run F evs e1 = Some e'" using Cons.prems(3) by (auto simp: bind_eq_Some_conv)
  have "wf_ok e1" using wf_ok_apply [OF Cons.prems(1), of F ev] e1(1) by simp
  then show ?case using Cons.IH [OF _ idempo_apply [OF Cons.prems(1,2) e1(1)] e1(2)] by simp
qed simp

section \<open>The definition cache\<close>

text \<open>A caller that is not interrupted gets the definition that was registered last, whatever the cache has evicted.\<close>

definition coherent :: "('f, 'w) Engine \<Rightarrow> bool" where
  "coherent e \<longleftrightarrow> lru_look (defCache e) \<subseteq>\<^sub>m workflows e"

lemma cache_put_le: "\<exists>l. lru_rel c l \<Longrightarrow> lru_look c \<subseteq>\<^sub>m m \<Longrightarrow> lru_look (lru_Set c k v) \<subseteq>\<^sub>m m(k \<mapsto> v)"
  using lru_cache.put_law [of c k v] by (metis map_le_trans map_le_upd)

lemma coherent_Register: "wf_ok e \<Longrightarrow> coherent e \<Longrightarrow> coherent (RegisterWorkflow uuid now def e)"
  by (simp add: coherent_def wf_ok_def RegisterWorkflow_def Let_def cache_put_le del: fun_upd_apply)

lemma GetWorkflow_current:
  assumes ok: "wf_ok e" and c: "coherent e" and g: "GetWorkflow k e = (e', res)"
  shows "coherent e' \<and> res = (case workflows e k of None \<Rightarrow> Inl ErrWorkflowNotFound | Some d \<Rightarrow> Inr d)"
proof -
  obtain l hit where l: "lru_Get (defCache e) k = (l, hit)" by fastforce
  note look = cache_Get [OF ok l]
  show ?thesis
  proof (cases hit)
    case (Some d)
    then have "workflows e k = Some d" using look c by (auto simp: coherent_def map_le_def dom_def)
    then show ?thesis using g l Some look c by (auto simp: GetWorkflow_def GetWorkflow_read_def coherent_def)
  next
    case None
    show ?thesis
    proof (cases "workflows e k")
      case (Some d)
      have "lru_look (lru_Set l k d) \<subseteq>\<^sub>m (workflows e)(k \<mapsto> d)"
        using cache_put_le [of l "workflows e" k d] look c by (simp add: coherent_def del: fun_upd_apply)
      moreover have "(workflows e)(k \<mapsto> d) = workflows e" using Some by (simp add: fun_upd_idem)
      ultimately show ?thesis using g l None Some by (auto simp: GetWorkflow_def GetWorkflow_read_def GetWorkflow_fill_def coherent_def)
    qed (use g l None look c in \<open>auto simp: GetWorkflow_def GetWorkflow_read_def coherent_def\<close>)
  qed
qed

text \<open>
  A registration between the two steps of a \<^verbatim>\<open>GetWorkflow\<close> that missed is lost for the readers: they get the old definition from
  the cache while \<^verbatim>\<open>Start\<close> runs the new one.
\<close>

lemma GetWorkflow_stale:
  assumes ok: "wf_ok e" and g: "GetWorkflow_read k e = (e1, Inr d, True)" and d': "defID d' = k" "k \<noteq> ''''"
  shows "let e3 = GetWorkflow_fill k d (RegisterWorkflow uuid now d' e1)
         in snd (GetWorkflow k e3) = Inr d \<and> workflows e3 k = Some (d'\<lparr>CreatedAt := now\<rparr>)"
proof -
  obtain l where l: "lru_Get (defCache e) k = (l, None)" "e1 = e\<lparr>defCache := l\<rparr>"
    using g by (auto simp: GetWorkflow_read_def split: prod.splits option.splits)
  define c where "c = lru_Set l k (d'\<lparr>CreatedAt := now\<rparr>)"
  have c: "\<exists>m. lru_rel c m" using cache_Get [OF ok l(1)] lru_cache.put_law [of l k] by (auto simp: c_def)
  obtain c2 r where c2: "lru_Get (lru_Set c k d) k = (c2, r)" by fastforce
  have "r = Some d" using lru_cache.put_law [OF c, of k d] lru_cache.get_law [OF _ c2] by simp
  moreover have same: "d'\<lparr>defID := k, CreatedAt := now\<rparr> = d'\<lparr>CreatedAt := now\<rparr>" using d' by (cases d') simp
  ultimately show ?thesis using l(2) c2 d'
    by (simp add: GetWorkflow_def GetWorkflow_read_def GetWorkflow_fill_def RegisterWorkflow_def Let_def same flip: c_def)
qed

section \<open>Parallel states\<close>

lemma par_collect_all:
  "\<forall>i \<in> set is. branch i = Some (f i, None) \<Longrightarrow> par_collect branch is outs = Some (VSlice (foldl (\<lambda>os i. os[i := f i]) outs is), None)"
  by (induction "is" arbitrary: outs) auto

lemma foldl_update_nth:
  "j < length outs \<Longrightarrow> foldl (\<lambda>os i. os[i := f i]) outs is ! j = (if j \<in> set is then f j else outs ! j)"
  by (induction "is" arbitrary: outs) (auto simp: nth_list_update)

lemma foldl_update_all: "set is = {..<n} \<Longrightarrow> length outs = n \<Longrightarrow> foldl (\<lambda>os i. os[i := f i]) outs is = map f [0..<n]"
proof (intro nth_equalityI)
  have len: "length (foldl (\<lambda>os i. os[i := f i]) outs is) = length outs" for outs by (induction "is" arbitrary: outs) auto
  assume s: "set is = {..<n}" "length outs = n"
  show "length (foldl (\<lambda>os i. os[i := f i]) outs is) = length (map f [0..<n])" using s len by simp
  fix j
  assume "j < length (foldl (\<lambda>os i. os[i := f i]) outs is)"
  then show "foldl (\<lambda>os i. os[i := f i]) outs is ! j = map f [0..<n] ! j" using s len by (simp add: foldl_update_nth)
qed

lemma par_collect_error:
  "par_collect branch is outs = Some (d, Some err) \<Longrightarrow> d = VNil \<and> (\<exists>i \<in> set is. \<exists>d'. branch i = Some (d', Some err))"
  by (induction "is" arbitrary: outs) (auto simp: bind_eq_Some_conv split: option.splits)

lemma set_arrivals: "set (arrivals order n) = {..<n}"
  by (auto simp: arrivals_def)

lemma par_collect_success:
  "par_collect branch is outs = Some (d, None) \<Longrightarrow> \<forall>i \<in> set is. \<exists>d'. branch i = Some (d', None)"
  by (induction "is" arbitrary: outs) (auto simp: bind_eq_Some_conv split: option.splits)

section \<open>Timeouts\<close>

text \<open>
  The effective timeout of an execution is positive, so its runner has a deadline of its own, and is the least of the ones that were set, as long as
  the definition's seconds fit a duration; past that the product wraps, and the runner can be left with the context of the caller.
\<close>

lemma sint_seconds:
  fixes secs :: "64 word"
  assumes "0 \<le> sint secs" "sint secs \<le> 9223372036"
  shows "sint (secs * 1000000000) = sint secs * 1000000000"
proof -
  have "sint (secs * 1000000000) = signed_take_bit 63 (sint secs * 1000000000)" by (simp add: sint_word_ariths)
  then show ?thesis using assms by (simp add: signed_take_bit_int_eq_self)
qed

lemma exec_timeout_bounds:
  assumes "0 < sint dflt" "sint secs \<le> 9223372036"
  shows "0 < sint (exec_timeout dflt opt secs) \<and>
         sint (exec_timeout dflt opt secs) = Min ({if sint opt \<le> 0 then sint dflt else sint opt} \<union> (if 0 < sint secs then {sint secs * 1000000000} else {}))"
  using assms sint_seconds [of secs] by (auto simp: exec_timeout_def Let_def min_def)

lemma exec_timeout_overflow: "sint (exec_timeout 3600000000000 0 9223372037) < 0"
  by (simp add: exec_timeout_def Let_def)

section \<open>What the engine guarantees\<close>

text \<open>
  C9: The engine is well-formed under every interleaving of registrations, starts, runner steps, cancels, signals and waits, and none
  of them panics: executions are filed under their own ID, are never pending, carry an error exactly when they failed or timed out, have a
  signal map and a runner that has not stopped while they run; idempotency keys name existing executions, definitions are filed under
  their ID, and only running executions have waiters.
\<close>

theorem workflow_typed: "\<exists>e. wf_run F evs (NewWithConfig t) = Some e \<and> wf_ok e"
  by (rule wf_ok_run [OF wf_ok_New])

text \<open>
  C10: A finished execution never changes: whatever happens afterwards, \<^verbatim>\<open>GetExecution\<close> and \<^verbatim>\<open>Wait\<close> return the record it finished
  with and \<^verbatim>\<open>Cancel\<close> and \<^verbatim>\<open>Signal\<close> are refused, so neither a late handler nor a cancel that races with the end can rewrite it.
\<close>

theorem workflow_final:
  assumes "executions e i = Some x" "terminal (exStatus x)" "wf_run F evs e = Some e'"
  shows "GetExecution i e' = Inr x \<and> Wait_enter i e' = (e', Inr (Inl x)) \<and>
         Cancel now i e' = (e', Some ErrExecutionNotRunning) \<and> Signal i name data e' = Some (e', Some ErrExecutionNotRunning)"
proof -
  obtain x' where "executions e' i = Some x'" "later_record x x'" using wf_run_later [OF assms(1,3)] by blast
  then have "executions e' i = Some x" using assms(2) by (simp add: later_record_def)
  then show ?thesis using assms(2) by (simp add: GetExecution_def Wait_enter_def Cancel_def Signal_def terminal_def)
qed

text \<open>A workflow without states, started under an idempotency key, and its runner under a context that has expired.\<close>

definition wit_floats :: "nat floats" where
  "wit_floats = \<lparr>feq = (=), of_int64 = unat\<rparr>"

definition wit_def :: "nat WorkflowDefinition" where
  "wit_def = \<lparr>defID = ''w'', defName = '''', defVersion = '''', States = [], StartAt = '''', TimeoutSeconds = 0, CreatedAt = 0\<rparr>"

definition wit_opts :: "nat StartOptions" where
  "wit_opts = \<lparr>opWorkflowID = ''w'', opExecutionID = ''x'', opInput = VBool True, opTimeout = 0, IdempotencyKey = ''k''\<rparr>"

definition wit_ob :: "unit observer" where
  "wit_ob q = \<lparr>ctx_head = Some Canceled, ctx_wait = Some Canceled, ctx_after = Some Canceled, world = (), arrival = []\<rparr>"

definition wit_register :: "(nat, unit) Engine" where
  "wit_register = RegisterWorkflow ''u'' 1 wit_def (NewWithConfig 0)"

definition wit_start :: "(nat, unit) Engine" where
  "wit_start = fst (Start ''u'' 2 wit_opts wit_register)"

definition wit_end :: "(nat, unit) Engine" where
  "wit_end = fst (Cancel 3 ''x'' wit_start)"

lemmas wit_defs = wit_def_def wit_opts_def wit_register_def wit_start_def wit_end_def RegisterWorkflow_def NewWithConfig_def newEngine_def
  Start_def Cancel_def Let_def

lemma wit_runs:
  "wf_run F [EvRegister ''u'' 1 wit_def] (NewWithConfig 0) = Some wit_register"
  "wf_run F [EvRegister ''u'' 1 wit_def, EvStart ''u'' 2 wit_opts] (NewWithConfig 0) = Some wit_start"
  "wf_run F [EvCancel 3 ''x''] wit_start = Some wit_end"
  by (simp_all add: wit_register_def wit_start_def wit_end_def)

lemma wit_executions:
  "\<exists>x. executions wit_start ''x'' = Some x \<and> exStatus x = StatusRunning"
  "\<exists>x. executions wit_end ''x'' = Some x \<and> exStatus x = StatusCancelled \<and> exInput x = VBool True"
  by (simp_all add: wit_defs)

theorem workflow_final_witness:
  "\<exists>x. exStatus x = StatusCancelled \<and>
     (\<forall>e'. wf_run wit_floats [EvRun wit_ob 4 ''x'', EvRun wit_ob 5 ''x'', EvRun wit_ob 6 ''x''] wit_end = Some e' \<longrightarrow>
        GetExecution ''x'' e' = Inr x)"
proof -
  obtain x where x: "executions wit_end ''x'' = Some x" "exStatus x = StatusCancelled" using wit_executions(2) by blast
  then have "terminal (exStatus x)" by (simp add: terminal_def)
  then show ?thesis using workflow_final [OF x(1)] x(2) by blast
qed

text \<open>
  C7: No lost wakeup.  A \<^verbatim>\<open>Wait\<close> that blocked on a channel can receive as soon as its execution has finished and not before, whatever else
  happened in between, and what it receives is the final record.
\<close>

theorem workflow_wait:
  assumes "wf_run F evs (NewWithConfig t) = Some e" "Wait_enter i e = (e1, Inr (Inr ch))"
    and "EvSelect None ch \<notin> set evs'" "wf_run F evs' e1 = Some e2"
  shows "\<exists>x. executions e2 i = Some x \<and>
           snd (Wait_select None ch e2) = (if terminal (exStatus x) then Some (Inr x) else None)"
proof -
  have ok: "wf_ok e" using wf_ok_run [OF wf_ok_New, of F evs t] assms(1) by simp
  have "wf_ok e1" using wf_ok_apply [OF ok, of F "EvWait i"] assms(2) by simp
  then have "waits i ch e2" by (rule waits_run [OF _ Wait_enter_waits [OF ok assms(2)] assms(3,4)])
  then show ?thesis by (auto simp: waits_def Wait_select_def)
qed

theorem workflow_wait_witness:
  "\<exists>e1 e2 x ch. Wait_enter ''x'' wit_start = (e1, Inr (Inr ch)) \<and> wf_run wit_floats [EvCancel 3 ''x''] e1 = Some e2 \<and>
     exStatus x = StatusCancelled \<and> snd (Wait_select None ch e2) = Some (Inr x)"
proof -
  obtain e1 ch where w: "Wait_enter ''x'' wit_start = (e1, Inr (Inr ch))" "executions e1 = executions wit_start"
    using wit_executions(1) by (auto simp: Wait_enter_def)
  obtain e2 where e2: "wf_run wit_floats [EvCancel 3 ''x''] e1 = Some e2" by simp
  obtain x where x: "executions e2 ''x'' = Some x" "snd (Wait_select None ch e2) = (if terminal (exStatus x) then Some (Inr x) else None)"
    using workflow_wait [OF wit_runs(2) w(1) _ e2] by auto
  have "exStatus x = StatusCancelled" using e2 x(1) w(2) wit_executions(1) by (auto simp: Cancel_def Let_def)
  then show ?thesis using w e2 x by (auto simp: terminal_def)
qed

text \<open>
  C11: Every execution ends.  From any reachable state, once the context of an execution has expired, four turns of its runner bring it to a
  terminal status, however they interleave with other goroutines, and whatever its states are: loops, waits and parallel
  branches all notice the context.
\<close>

theorem workflow_ends:
  assumes "wf_run F evs (NewWithConfig t) = Some e" "executions e i \<noteq> None"
    and "\<forall>ob \<in> set (runs_of i evs'). expired ob" "4 \<le> length (runs_of i evs')" "wf_run F evs' e = Some e'"
  shows "\<exists>x. executions e' i = Some x \<and> terminal (exStatus x)"
proof -
  have ok: "wf_ok e" using wf_ok_run [OF wf_ok_New, of F evs t] assms(1) by simp
  obtain r where r: "runners e i = Some r" using execution_ok(4) [OF ok] assms(2) by blast
  have "pc_rank (rPc r) \<le> 4" by (cases "rPc r") simp_all
  then show ?thesis using run_rank [OF ok r assms(3) _ assms(5)] assms(4) by simp
qed

theorem workflow_ends_witness:
  "\<exists>e' x. wf_run wit_floats (replicate 4 (EvRun wit_ob 3 ''x'')) wit_start = Some e' \<and> executions e' ''x'' = Some x \<and> terminal (exStatus x)"
proof -
  have ok: "wf_ok wit_start" using wf_ok_run [OF wf_ok_New, of wit_floats _ 0] wit_runs(2) by (metis option.inject)
  obtain e' where e': "wf_run wit_floats (replicate 4 (EvRun wit_ob 3 ''x'')) wit_start = Some e'" using wf_ok_run [OF ok] by blast
  have "executions wit_start ''x'' \<noteq> None" using wit_executions(1) by auto
  then show ?thesis
    using workflow_ends [OF wit_runs(2) _ _ _ e'] e' by (auto simp: numeral_eq_Suc expired_def wit_ob_def)
qed

text \<open>
  C27: Starts are idempotent.  After a start with a key succeeded, every later start with that key, under any registered workflow and however long
  afterwards, changes nothing and returns the same execution.
\<close>

theorem workflow_idempotent:
  assumes "wf_run F evs (NewWithConfig t) = Some e" "Start uuid now opts e = (e1, Inr x)" "IdempotencyKey opts \<noteq> ''''"
    and "wf_run F evs' e1 = Some e2" "IdempotencyKey opts' = IdempotencyKey opts" "workflows e2 (opWorkflowID opts') \<noteq> None"
  shows "\<exists>x'. Start uuid' now' opts' e2 = (e2, Inr x') \<and> later_record x x' \<and> executions e2 (exID x) = Some x'"
proof -
  have ok: "wf_ok e" using wf_ok_run [OF wf_ok_New, of F evs t] assms(1) by simp
  have ok1: "wf_ok e1" using wf_ok_Start [OF ok, of uuid now opts] assms(2) by simp
  from assms(2) have i: "idempo e1 (IdempotencyKey opts) = Some (exID x) \<and> executions e1 (exID x) = Some x"
    by (cases rule: Start_cases) (use assms(3) execution_ok(1) [OF ok] in auto)
  obtain x' where x': "executions e2 (exID x) = Some x'" "later_record x x'" using wf_run_later [OF conjunct2 [OF i] assms(4)] by blast
  have "idempo e2 (IdempotencyKey opts) = Some (exID x)" using idempo_run [OF ok1 conjunct1 [OF i] assms(4)] .
  then show ?thesis using x' assms(3,5,6) by (auto simp: Start_def)
qed

theorem workflow_idempotent_witness:
  "\<exists>x'. Start ''v'' 9 (wit_opts\<lparr>opExecutionID := ''''\<rparr>) wit_end = (wit_end, Inr x') \<and> exID x' = ''x''"
proof -
  obtain x where x: "Start ''u'' 2 wit_opts wit_register = (wit_start, Inr x)" "exID x = ''x''" by (simp add: wit_defs)
  have "workflows wit_end ''w'' \<noteq> None" by (simp add: wit_defs)
  then show ?thesis
    using workflow_idempotent [OF wit_runs(1) x(1) _ wit_runs(3), of "wit_opts\<lparr>opExecutionID := ''''\<rparr>" "''v''" 9] x(2)
    by (auto simp: wit_opts_def later_record_def)
qed

text \<open>A parallel state does not depend on the order in which its branches finish.  It succeeds exactly when every branch does, with the
  outputs in the order of the branches, and otherwise its error is that of one of the branches and its output is nil.
\<close>

lemma parallel_ordered:
  assumes "Branches st \<noteq> []"
  shows "((\<forall>i < length (Branches st). runBranch F ob hs (i # q) (Branches st ! i) states d = Some (f i, None)) \<longrightarrow>
            execParallel F ob hs q st states d = Some (VSlice (map f [0..<length (Branches st)]), None)) \<and>
         (execParallel F ob hs q st states d = Some (v, None) \<longrightarrow>
            (\<forall>i < length (Branches st). \<exists>d'. runBranch F ob hs (i # q) (Branches st ! i) states d = Some (d', None))) \<and>
         (execParallel F ob hs q st states d = Some (v, Some err) \<longrightarrow>
            v = VNil \<and> (\<exists>i < length (Branches st). \<exists>d'. runBranch F ob hs (i # q) (Branches st ! i) states d = Some (d', Some err)))"
proof -
  define n where "n = length (Branches st)"
  define arr where "arr = arrivals (arrival (ob q)) n"
  define branch where "branch = (\<lambda>i. runBranch F ob hs (i # q) (Branches st ! i) states d)"
  have e: "execParallel F ob hs q st states d = par_collect branch arr (replicate n VNil)"
    using assms by (simp add: execParallel_def n_def arr_def branch_def)
  have arr: "set arr = {..<n}" by (simp add: arr_def set_arrivals)
  have "par_collect branch arr (replicate n VNil) = Some (VSlice (map f [0..<n]), None)" if "\<forall>i < n. branch i = Some (f i, None)"
    using par_collect_all [of arr branch f] foldl_update_all [OF arr, of "replicate n VNil" f] that arr by simp
  moreover have "\<forall>i < n. \<exists>d'. branch i = Some (d', None)" if "par_collect branch arr (replicate n VNil) = Some (v, None)"
    using par_collect_success [OF that] arr by simp
  moreover have "v = VNil \<and> (\<exists>i < n. \<exists>d'. branch i = Some (d', Some err))" if "par_collect branch arr (replicate n VNil) = Some (v, Some err)"
    using par_collect_error [OF that] arr by auto
  ultimately show ?thesis unfolding e by (simp add: n_def branch_def)
qed

end
