(* ===== verification/Saga.thy ===== *)
theory Saga
  imports Prelude
begin

text \<open>
  \<^verbatim>\<open>pkg/workflow/saga\<close>: the in-process saga orchestrator (\<^verbatim>\<open>saga.go\<close>), the durable executor with crash resume (\<^verbatim>\<open>durable.go\<close>), its persisted state
  (\<^verbatim>\<open>store.go\<close>) and the in-memory state store.  The actions of a saga are functions that read and change a world of any type, so the
  final world shows which calls were made and in which order.  An error is its text, data are of any type with \<open>None\<close>
  for nil, and the context is read from the world, which moves on by \<open>tick\<close> between two steps of the executor.  Time stamps are
  written and never read by this code, and are left out.
\<close>

section \<open>Sagas\<close>

datatype SagaStatus = SagaPending | SagaRunning | SagaCompleted | SagaCompensating | SagaCompensated | SagaFailed

text \<open>An action takes the timeout of its context (0 for none) and its input, and returns an error or its output.\<close>

type_synonym ('d, 'w) ActionFunc = "int \<Rightarrow> 'd option \<Rightarrow> 'w \<Rightarrow> 'w \<times> (string + 'd option)"

record ('d, 'w) Step =
  stepName :: string
  Action :: "('d, 'w) ActionFunc"
  Compensate :: "('d, 'w) ActionFunc option"
  stepTimeout :: int

record 'd StepResult =
  srName :: string
  srStatus :: SagaStatus
  srOutput :: "'d option"
  srError :: "string option"

record 'd SagaExecution =
  sxID :: string
  sxSagaName :: string
  sxStatus :: SagaStatus
  sxInput :: "'d option"
  sxOutput :: "'d option"
  sxError :: string
  sxSteps :: "'d StepResult list"

record ('d, 'w) Saga =
  sagaName :: string
  steps :: "('d, 'w) Step list"

definition saga_New :: "string \<Rightarrow> ('d, 'w) Saga" where
  "saga_New name = \<lparr>sagaName = name, steps = []\<rparr>"

definition AddStep :: "('d, 'w) Step \<Rightarrow> ('d, 'w) Saga \<Rightarrow> ('d, 'w) Saga" where
  "AddStep step s = s\<lparr>steps := steps s @ [step]\<rparr>"

text \<open>The text of an application error that wraps another one, and of a joined error.\<close>

definition Internal :: "string \<Rightarrow> string \<Rightarrow> string" where
  "Internal msg err = ''[INTERNAL] '' @ msg @ '': '' @ err"

fun Join :: "string list \<Rightarrow> string" where
  "Join [] = ''''"
| "Join [err] = err"
| "Join (err # errs) = err @ [CHR 0x0A] @ Join errs"

text \<open>
  The loop of \<^verbatim>\<open>compensate\<close> over the completed steps from the last to the first: the new world, the step results in that order,
  and the errors.  The results are the objects that the execution holds.
\<close>

fun compensate_loop :: "('d, 'w) Step list \<Rightarrow> 'd StepResult list \<Rightarrow> 'w \<Rightarrow> 'w \<times> 'd StepResult list \<times> string list" where
  "compensate_loop sts [] w = (w, [], [])"
| "compensate_loop sts (sr # srs) w =
     (case find (\<lambda>st. stepName st = srName sr) sts of
        None \<Rightarrow> (let (w, srs', errs) = compensate_loop sts srs w in (w, sr # srs', errs))
      | Some step \<Rightarrow>
          (case Compensate step of
             None \<Rightarrow> (let (w, srs', errs) = compensate_loop sts srs w in (w, sr # srs', errs))
           | Some c \<Rightarrow>
               (case c 0 (srOutput sr) w of
                  (w, Inl err) \<Rightarrow>
                    (let (w, srs', errs) = compensate_loop sts srs w in (w, sr\<lparr>srStatus := SagaFailed, srError := Some err\<rparr> # srs', err # errs))
                | (w, Inr _) \<Rightarrow>
                    (let (w, srs', errs) = compensate_loop sts srs w in (w, sr\<lparr>srStatus := SagaCompensated\<rparr> # srs', errs)))))"

definition saga_compensate :: "('d, 'w) Step list \<Rightarrow> 'd StepResult list \<Rightarrow> 'w \<Rightarrow> 'w \<times> 'd StepResult list \<times> string option" where
  "saga_compensate sts completed w =
     (let (w, srs, errs) = compensate_loop sts (rev completed) w
      in (w, rev srs, if errs = [] then None else Some (Internal ''compensation failed'' (Join errs))))"

fun execute_loop ::
  "('d, 'w) Step list \<Rightarrow> ('d, 'w) Step list \<Rightarrow> 'd option \<Rightarrow> 'd StepResult list \<Rightarrow> 'd SagaExecution \<Rightarrow> 'w \<Rightarrow>
   'w \<times> 'd SagaExecution \<times> string option" where
  "execute_loop sts [] data completed x w = (w, x\<lparr>sxStatus := SagaCompleted, sxOutput := data, sxSteps := completed\<rparr>, None)"
| "execute_loop sts (step # rest) data completed x w =
     (case Action step (if stepTimeout step > 0 then stepTimeout step else 0) data w of
        (w, Inl err) \<Rightarrow>
          (case saga_compensate sts completed w of
             (w, completed, compErr) \<Rightarrow>
               (w, x\<lparr>sxStatus := (if compErr = None then SagaCompensated else SagaFailed),
                     sxError := (case compErr of None \<Rightarrow> err | Some e \<Rightarrow> err @ ''; compensation failed: '' @ e),
                     sxSteps := completed @ [\<lparr>srName = stepName step, srStatus = SagaFailed, srOutput = None, srError = Some err\<rparr>]\<rparr>,
                Some err))
      | (w, Inr output) \<Rightarrow>
          execute_loop sts rest output
            (completed @ [\<lparr>srName = stepName step, srStatus = SagaCompleted, srOutput = output, srError = None\<rparr>]) x w)"

definition saga_Execute :: "string \<Rightarrow> ('d, 'w) Saga \<Rightarrow> 'd option \<Rightarrow> 'w \<Rightarrow> 'w \<times> 'd SagaExecution \<times> string option" where
  "saga_Execute uuid s input w =
     execute_loop (steps s) (steps s) input []
       \<lparr>sxID = uuid, sxSagaName = sagaName s, sxStatus = SagaRunning, sxInput = input, sxOutput = None, sxError = '''', sxSteps = []\<rparr> w"

definition saga_Register :: "('d, 'w) Saga \<Rightarrow> (string \<rightharpoonup> ('d, 'w) Saga) \<Rightarrow> string \<rightharpoonup> ('d, 'w) Saga" where
  "saga_Register s registry = registry(sagaName s \<mapsto> s)"

section \<open>Persisted state\<close>

record 'd PersistedStepResult =
  psName :: string
  psStatus :: SagaStatus
  psOutput :: "'d option"
  psError :: string

record 'd PersistedState =
  ptID :: string
  ptSagaName :: string
  ptStatus :: SagaStatus
  NextStepIndex :: nat
  ptInput :: "'d option"
  CurrentData :: "'d option"
  ptOutput :: "'d option"
  ptError :: string
  ptSteps :: "'d PersistedStepResult list"

definition IsTerminal :: "'d PersistedState \<Rightarrow> bool" where
  "IsTerminal st \<longleftrightarrow> ptStatus st \<in> {SagaCompleted, SagaCompensated, SagaFailed}"

type_synonym 'd items = "string \<rightharpoonup> 'd PersistedState"

text \<open>The in-memory store; \<open>ctx\<close> is the error of the context, if any.\<close>

definition store_Save :: "string option \<Rightarrow> 'd PersistedState \<Rightarrow> 'd items \<Rightarrow> 'd items \<times> string option" where
  "store_Save ctx st its =
     (case ctx of
        Some err \<Rightarrow> (its, Some err)
      | None \<Rightarrow> if ptID st = '''' then (its, Some ''[INVALID_ARGUMENT] saga state id is required'') else (its(ptID st \<mapsto> st), None))"

definition store_Load :: "string option \<Rightarrow> string \<Rightarrow> 'd items \<Rightarrow> string + 'd PersistedState" where
  "store_Load ctx i its =
     (case ctx of
        Some err \<Rightarrow> Inl err
      | None \<Rightarrow> (case its i of None \<Rightarrow> Inl ''[NOT_FOUND] saga execution not found'' | Some st \<Rightarrow> Inr st))"

definition store_Delete :: "string option \<Rightarrow> string \<Rightarrow> 'd items \<Rightarrow> 'd items \<times> string option" where
  "store_Delete ctx i its =
     (case ctx of
        Some err \<Rightarrow> (its, Some err)
      | None \<Rightarrow> if its i = None then (its, Some ''[NOT_FOUND] saga execution not found'') else (its(i := None), None))"

text \<open>\<open>ks\<close> is the order in which the range over the map meets the states.\<close>

definition ListIncomplete :: "string option \<Rightarrow> string list \<Rightarrow> 'd items \<Rightarrow> string + 'd PersistedState list" where
  "ListIncomplete ctx ks its =
     (case ctx of
        Some err \<Rightarrow> Inl err
      | None \<Rightarrow> Inr (filter (\<lambda>st. \<not> IsTerminal st) (List.map_filter its ks)))"

section \<open>The durable executor\<close>

record 'w env =
  ctxErr :: "'w \<Rightarrow> string option"
  tick :: "'w \<Rightarrow> 'w"

text \<open>
  The executor between two effects on the store or the world: at the head of the loop of \<^verbatim>\<open>runFrom\<close>, after an action returned and before
  its result was saved, in the loop of \<^verbatim>\<open>compensateDurable\<close> with that many step results to go, its first error, and the error
  that the caller returns, and at the return.
\<close>

datatype 'd machine =
    MRun "'d PersistedState"
  | MActed "'d PersistedState" string "string + 'd option"
  | MComp "'d PersistedState" nat "string option" "string option"
  | MEnd "'d PersistedState" "string option"

definition stepByName :: "('d, 'w) Step list \<Rightarrow> string \<rightharpoonup> ('d, 'w) Step" where
  "stepByName sts = foldl (\<lambda>m st. m(stepName st \<mapsto> st)) Map.empty sts"

definition runFrom_head :: "'w env \<Rightarrow> ('d, 'w) Step list \<Rightarrow> 'd PersistedState \<Rightarrow> 'd items \<Rightarrow> 'w \<Rightarrow> 'd machine \<times> 'd items \<times> 'w" where
  "runFrom_head E sts st its w =
     (let w = tick E w in
      if NextStepIndex st < length sts then
        (case ctxErr E w of
           Some err \<Rightarrow>
             let st = st\<lparr>ptStatus := SagaRunning\<rparr>; w = tick E w
             in (MEnd st (Some err), fst (store_Save (ctxErr E w) st its), w)
         | None \<Rightarrow>
             let step = sts ! NextStepIndex st in
             (case Action step (if stepTimeout step > 0 then stepTimeout step else 0) (CurrentData st) w of
                (w, res) \<Rightarrow> (MActed st (stepName step) res, its, w)))
      else
        let st = st\<lparr>ptStatus := SagaCompleted, ptOutput := CurrentData st\<rparr> in
        (case store_Save (ctxErr E w) st its of
           (its, None) \<Rightarrow> (MEnd st None, its, w)
         | (its, Some err) \<Rightarrow> (MEnd st (Some (Internal ''failed to persist saga state'' err)), its, w)))"

definition runFrom_acted ::
  "'w env \<Rightarrow> 'd PersistedState \<Rightarrow> string \<Rightarrow> string + 'd option \<Rightarrow> 'd items \<Rightarrow> 'w \<Rightarrow> 'd machine \<times> 'd items \<times> 'w" where
  "runFrom_acted E st name res its w =
     (let w = tick E w in
      case res of
        Inl err \<Rightarrow>
          let st = st\<lparr>ptSteps := ptSteps st @ [\<lparr>psName = name, psStatus = SagaFailed, psOutput = None, psError = err\<rparr>],
                      ptStatus := SagaCompensating, ptError := err\<rparr>
          in (MComp st (length (ptSteps st)) None (Some err), fst (store_Save (ctxErr E w) st its), w)
      | Inr output \<Rightarrow>
          let st = st\<lparr>ptSteps := ptSteps st @ [\<lparr>psName = name, psStatus = SagaCompleted, psOutput = output, psError = ''''\<rparr>],
                      CurrentData := output, NextStepIndex := NextStepIndex st + 1\<rparr>
          in (case store_Save (ctxErr E w) st its of
                (its, None) \<Rightarrow> (MRun st, its, w)
              | (its, Some err) \<Rightarrow> (MEnd st (Some (Internal ''failed to persist saga state'' err)), its, w)))"

definition set_status :: "nat \<Rightarrow> SagaStatus \<Rightarrow> 'd PersistedState \<Rightarrow> 'd PersistedState" where
  "set_status i status st = st\<lparr>ptSteps := (ptSteps st)[i := (ptSteps st ! i)\<lparr>psStatus := status\<rparr>]\<rparr>"

definition compensateDurable_one ::
  "('d, 'w) Step list \<Rightarrow> 'd PersistedState \<Rightarrow> nat \<Rightarrow> string option \<Rightarrow> string option \<Rightarrow> 'd items \<Rightarrow> 'w \<Rightarrow> 'd machine \<times> 'd items \<times> 'w" where
  "compensateDurable_one sts st i firstErr ret its w =
     (let sr = ptSteps st ! i in
      if psStatus sr \<noteq> SagaCompleted then (MComp st i firstErr ret, its, w)
      else
        (case Option.bind (stepByName sts (psName sr)) Compensate of
           None \<Rightarrow> (MComp (set_status i SagaCompensated st) i firstErr ret, its, w)
         | Some c \<Rightarrow>
             (case c 0 (psOutput sr) w of
                (w, Inl err) \<Rightarrow>
                  (MComp (st\<lparr>ptSteps := (ptSteps st)[i := sr\<lparr>psStatus := SagaFailed, psError := err\<rparr>]\<rparr>) i
                     (if firstErr = None then Some err else firstErr) ret, its, w)
              | (w, Inr _) \<Rightarrow> (MComp (set_status i SagaCompensated st) i firstErr ret, its, w))))"

definition compensated_state :: "'d PersistedState \<Rightarrow> string option \<Rightarrow> 'd PersistedState" where
  "compensated_state st firstErr =
     (case firstErr of
        Some err \<Rightarrow>
          st\<lparr>ptStatus := SagaFailed,
             ptError := (if ptError st = '''' then err else ptError st @ ''; compensation failed: '' @ err)\<rparr>
      | None \<Rightarrow> st\<lparr>ptStatus := SagaCompensated\<rparr>)"

fun durable_step :: "'w env \<Rightarrow> ('d, 'w) Step list \<Rightarrow> 'd machine \<times> 'd items \<times> 'w \<Rightarrow> 'd machine \<times> 'd items \<times> 'w" where
  "durable_step E sts (MRun st, its, w) = runFrom_head E sts st its w"
| "durable_step E sts (MActed st name res, its, w) = runFrom_acted E st name res its w"
| "durable_step E sts (MComp st (Suc i) firstErr ret, its, w) = compensateDurable_one sts st i firstErr ret its w"
| "durable_step E sts (MComp st 0 firstErr ret, its, w) =
     (let st = compensated_state st firstErr; w = tick E w
      in (MEnd st (if ret = None then firstErr else ret), fst (store_Save (ctxErr E w) st its), w))"
| "durable_step E sts (MEnd st ret, its, w) = (MEnd st ret, its, w)"

text \<open>Running to the return; \<open>None\<close> would be a run that never returns.\<close>

partial_function (option) durable_run :: "'w env \<Rightarrow> ('d, 'w) Step list \<Rightarrow> 'd machine \<times> 'd items \<times> 'w \<Rightarrow> ('d machine \<times> 'd items \<times> 'w) option" where
  "durable_run E sts c = (case fst c of MEnd st ret \<Rightarrow> Some c | _ \<Rightarrow> durable_run E sts (durable_step E sts c))"

definition new_state :: "string \<Rightarrow> string \<Rightarrow> 'd option \<Rightarrow> 'd PersistedState" where
  "new_state uuid name input = \<lparr>ptID = uuid, ptSagaName = name, ptStatus = SagaRunning, NextStepIndex = 0, ptInput = input, CurrentData = input,
     ptOutput = None, ptError = '''', ptSteps = []\<rparr>"

text \<open>\<^verbatim>\<open>Execute\<close> up to its call of \<^verbatim>\<open>runFrom\<close>.\<close>

definition durable_Execute ::
  "'w env \<Rightarrow> (string \<rightharpoonup> ('d, 'w) Saga) \<Rightarrow> string \<Rightarrow> string \<Rightarrow> 'd option \<Rightarrow> 'd items \<Rightarrow> 'w \<Rightarrow>
   (string + ('d, 'w) Step list \<times> 'd machine) \<times> 'd items \<times> 'w" where
  "durable_Execute E registry uuid name input its w =
     (case registry name of
        None \<Rightarrow> (Inl (''[NOT_FOUND] saga not found: '' @ name), its, w)
      | Some s \<Rightarrow>
          let w = tick E w; st = new_state uuid name input in
          (case store_Save (ctxErr E w) st its of
             (its, Some err) \<Rightarrow> (Inl (Internal ''failed to persist saga state'' err), its, w)
           | (its, None) \<Rightarrow> (Inr (steps s, MRun st), its, w)))"

text \<open>\<^verbatim>\<open>Resume\<close> up to its call of \<^verbatim>\<open>compensateDurable\<close> or \<^verbatim>\<open>runFrom\<close>.\<close>

definition Resume ::
  "'w env \<Rightarrow> (string \<rightharpoonup> ('d, 'w) Saga) \<Rightarrow> string \<Rightarrow> 'd items \<Rightarrow> 'w \<Rightarrow> (string + ('d, 'w) Step list \<times> 'd machine) \<times> 'd items \<times> 'w" where
  "Resume E registry i its w =
     (let w = tick E w in
      case store_Load (ctxErr E w) i its of
        Inl err \<Rightarrow> (Inl err, its, w)
      | Inr st \<Rightarrow>
          if IsTerminal st then (Inr ([], MEnd st None), its, w)
          else
            (case registry (ptSagaName st) of
               None \<Rightarrow> (Inl (''[NOT_FOUND] saga not found: '' @ ptSagaName st), its, w)
             | Some s \<Rightarrow>
                 if ptStatus st = SagaCompensating then (Inr (steps s, MComp st (length (ptSteps st)) None None), its, w)
                 else
                   let st = st\<lparr>ptStatus := SagaRunning\<rparr>; w = tick E w in
                   (case store_Save (ctxErr E w) st its of
                      (its, Some err) \<Rightarrow> (Inl (Internal ''failed to persist saga state'' err), its, w)
                    | (its, None) \<Rightarrow> (Inr (steps s, MRun st), its, w))))"

definition stateToExecution :: "'d PersistedState \<Rightarrow> 'd SagaExecution" where
  "stateToExecution st = \<lparr>sxID = ptID st, sxSagaName = ptSagaName st, sxStatus = ptStatus st, sxInput = ptInput st,
     sxOutput = ptOutput st, sxError = ptError st,
     sxSteps = map (\<lambda>sr. \<lparr>srName = psName sr, srStatus = psStatus sr, srOutput = psOutput sr,
                           srError = (if psError sr = '''' then None else Some (''[INTERNAL] '' @ psError sr))\<rparr>) (ptSteps st)\<rparr>"

text \<open>\<^verbatim>\<open>ResumeAll\<close>: the states collected so far are returned with the first error of a resume that has none.\<close>

fun resume_each ::
  "'w env \<Rightarrow> (string \<rightharpoonup> ('d, 'w) Saga) \<Rightarrow> string list \<Rightarrow> 'd items \<Rightarrow> 'w \<Rightarrow> (('d SagaExecution list \<times> string option) \<times> 'd items \<times> 'w) option" where
  "resume_each E registry [] its w = Some (([], None), its, w)"
| "resume_each E registry (i # is) its w =
     (case Resume E registry i its w of
        (Inl err, its, w) \<Rightarrow> Some (([], Some err), its, w)
      | (Inr (sts, m), its, w) \<Rightarrow>
          Option.bind (durable_run E sts (m, its, w)) (\<lambda>(m, its, w).
            map_option (\<lambda>((out, err), c). (((case m of MEnd st _ \<Rightarrow> [stateToExecution st] | _ \<Rightarrow> []) @ out, err), c))
              (resume_each E registry is its w)))"

definition ResumeAll ::
  "'w env \<Rightarrow> (string \<rightharpoonup> ('d, 'w) Saga) \<Rightarrow> string list \<Rightarrow> 'd items \<Rightarrow> 'w \<Rightarrow> (('d SagaExecution list \<times> string option) \<times> 'd items \<times> 'w) option" where
  "ResumeAll E registry ks its w =
     (let w = tick E w in
      case ListIncomplete (ctxErr E w) ks its of
        Inl err \<Rightarrow> Some (([], Some err), its, w)
      | Inr sts \<Rightarrow> resume_each E registry (map ptID sts) its w)"

section \<open>The executor returns\<close>

lemma run_End [simp]: "durable_run E sts (MEnd st ret, its, w) = Some (MEnd st ret, its, w)"
  by (simp add: durable_run.simps)

lemma run_step: "durable_run E sts (durable_step E sts c) = durable_run E sts c"
proof -
  obtain m its w where c: "c = (m, its, w)" by (cases c)
  show ?thesis unfolding c by (subst (2) durable_run.simps) (cases m; simp)
qed

lemma comp_returns: "\<exists>st' ret' its' w'. durable_run E sts (MComp st i fe ret, its, w) = Some (MEnd st' ret', its', w')"
proof (induction i arbitrary: st fe w)
  case 0
  show ?case by (subst run_step [symmetric]) (simp add: Let_def)
next
  case (Suc i)
  have "\<exists>st' fe' w'. durable_step E sts (MComp st (Suc i) fe ret, its, w) = (MComp st' i fe' ret, its, w')"
    by (auto simp: compensateDurable_one_def Let_def split: option.splits prod.splits sum.splits)
  then show ?case using Suc.IH run_step [of E sts "(MComp st (Suc i) fe ret, its, w)"] by metis
qed

lemma head_cases:
  obtains (ended) st' ret its' w' where "runFrom_head E sts st its w = (MEnd st' ret, its', w')"
  | (acted) name res w' where "runFrom_head E sts st its w = (MActed st name res, its, w')" "NextStepIndex st < length sts"
proof -
  show ?thesis
  proof (cases "NextStepIndex st < length sts")
    case True
    obtain w' res where "Action (sts ! NextStepIndex st) (if stepTimeout (sts ! NextStepIndex st) > 0 then stepTimeout (sts ! NextStepIndex st) else 0)
        (CurrentData st) (tick E w) = (w', res)" by fastforce
    then show ?thesis using True ended acted by (cases "ctxErr E (tick E w)") (simp_all add: runFrom_head_def Let_def)
  next
    case False
    define st' where "st' = st\<lparr>ptStatus := SagaCompleted, ptOutput := CurrentData st\<rparr>"
    obtain its' r where "store_Save (ctxErr E (tick E w)) st' its = (its', r)" by fastforce
    then show ?thesis using False ended by (cases r) (simp_all add: runFrom_head_def Let_def flip: st'_def)
  qed
qed

lemma acted_cases:
  obtains (ended) st' ret its' w' where "runFrom_acted E st name res its w = (MEnd st' ret, its', w')"
  | (failed) st' i ret its' w' where "runFrom_acted E st name res its w = (MComp st' i None ret, its', w')"
  | (advanced) st' its' w' where "runFrom_acted E st name res its w = (MRun st', its', w')" "NextStepIndex st' = NextStepIndex st + 1"
proof -
  show ?thesis
  proof (cases res)
    case (Inl err)
    then show ?thesis using failed by (simp add: runFrom_acted_def Let_def)
  next
    case (Inr out)
    define st' where "st' = st\<lparr>ptSteps := ptSteps st @ [\<lparr>psName = name, psStatus = SagaCompleted, psOutput = out, psError = ''''\<rparr>],
      CurrentData := out, NextStepIndex := NextStepIndex st + 1\<rparr>"
    obtain its' r where s: "store_Save (ctxErr E (tick E w)) st' its = (its', r)" by fastforce
    have n: "NextStepIndex st' = NextStepIndex st + 1" by (simp add: st'_def)
    have "runFrom_acted E st name res its w =
        (case r of None \<Rightarrow> (MRun st', its', tick E w) | Some err \<Rightarrow> (MEnd st' (Some (Internal ''failed to persist saga state'' err)), its', tick E w))"
      unfolding runFrom_acted_def Let_def Inr sum.case st'_def [symmetric] s by (simp split: option.splits)
    then show ?thesis using ended advanced n by (cases r) auto
  qed
qed

lemma run_returns: "\<exists>st' ret' its' w'. durable_run E sts (MRun st, its, w) = Some (MEnd st' ret', its', w')"
proof (induction "length sts - NextStepIndex st" arbitrary: st its w rule: less_induct)
  case less
  show ?case
  proof (cases rule: head_cases [of E sts st its w])
    case (ended st' ret its' w')
    then show ?thesis using run_step [of E sts "(MRun st, its, w)"] by (metis durable_step.simps(1) run_End)
  next
    case (acted name res w')
    have 1: "durable_run E sts (MRun st, its, w) = durable_run E sts (MActed st name res, its, w')"
      using run_step [of E sts "(MRun st, its, w)"] acted(1) by simp
    have 2: "durable_run E sts (MActed st name res, its, w') = durable_run E sts (runFrom_acted E st name res its w')"
      using run_step [of E sts "(MActed st name res, its, w')"] by simp
    show ?thesis
    proof (cases rule: acted_cases [of E st name res its w'])
      case (failed st' i ret its' w'')
      then show ?thesis using 1 2 comp_returns by metis
    next
      case (advanced st' its' w'')
      then show ?thesis using 1 2 less [of st' its' w''] acted(2) by auto
    qed (use 1 2 in simp)
  qed
qed

section \<open>What a saga does\<close>

text \<open>
  The specification: the actions run in order, each on the output of the one before, up to the first failure, and then the completed steps are
  compensated from the last to the first, each with its own output.
\<close>

definition call :: "('d, 'w) Step \<Rightarrow> 'd option \<Rightarrow> 'w \<Rightarrow> 'w \<times> (string + 'd option)" where
  "call step = Action step (if stepTimeout step > 0 then stepTimeout step else 0)"

fun forward :: "('d, 'w) Step list \<Rightarrow> 'd option \<Rightarrow> 'w \<Rightarrow> 'w \<times> (('d, 'w) Step \<times> 'd option) list \<times> 'd option \<times> string option" where
  "forward [] data w = (w, [], data, None)"
| "forward (step # rest) data w =
     (case call step data w of
        (w, Inl err) \<Rightarrow> (w, [], data, Some err)
      | (w, Inr output) \<Rightarrow> (let (w, outs, data, err) = forward rest output w in (w, (step, output) # outs, data, err)))"

fun backward :: "(('d, 'w) Step \<times> 'd option) list \<Rightarrow> 'w \<Rightarrow> 'w \<times> bool" where
  "backward [] w = (w, True)"
| "backward ((step, output) # rest) w =
     (case Compensate step of
        None \<Rightarrow> backward rest w
      | Some c \<Rightarrow>
          (case c 0 output w of (w, res) \<Rightarrow> (case backward rest w of (w, ok) \<Rightarrow> (w, ok \<and> (\<exists>d. res = Inr d)))))"

definition saga_spec :: "('d, 'w) Step list \<Rightarrow> 'd option \<Rightarrow> 'w \<Rightarrow> 'w \<times> SagaStatus \<times> 'd option \<times> string option" where
  "saga_spec sts input w =
     (case forward sts input w of
        (w, outs, data, None) \<Rightarrow> (w, SagaCompleted, data, None)
      | (w, outs, data, Some err) \<Rightarrow>
          (case backward (rev outs) w of (w, ok) \<Rightarrow> (w, if ok then SagaCompensated else SagaFailed, None, Some err)))"

lemma find_step: "distinct (map stepName sts) \<Longrightarrow> s \<in> set sts \<Longrightarrow> find (\<lambda>st. stepName st = stepName s) sts = Some s"
  by (induction sts) (auto simp: image_iff)

definition done_result :: "('d, 'w) Step \<times> 'd option \<Rightarrow> 'd StepResult" where
  "done_result p = \<lparr>srName = stepName (fst p), srStatus = SagaCompleted, srOutput = snd p, srError = None\<rparr>"

lemma done_result_simps [simp]: "srName (done_result (s, out)) = stepName s" "srOutput (done_result (s, out)) = out"
  by (simp_all add: done_result_def)

lemma compensate_backward:
  assumes d: "distinct (map stepName sts)"
  shows "\<forall>p \<in> set ps. fst p \<in> set sts \<Longrightarrow> compensate_loop sts (map done_result ps) w = (w', srs, errs) \<Longrightarrow> backward ps w = (w', errs = [])"
proof (induction ps arbitrary: w w' srs errs)
  case (Cons p ps)
  obtain s out where p: "p = (s, out)" by (cases p)
  have f: "find (\<lambda>st. stepName st = stepName s) sts = Some s" using find_step [OF d] Cons.prems(1) p by simp
  have IH: "compensate_loop sts (map done_result ps) v = (v', srs', errs') \<Longrightarrow> backward ps v = (v', errs' = [])" for v v' srs' errs'
    using Cons.IH Cons.prems(1) by simp
  show ?case using Cons.prems(2) IH
    by (fastforce simp: p f split: option.splits prod.splits sum.splits)
qed simp

lemma execute_forward:
  assumes d: "distinct (map stepName sts)"
  shows "set rest \<subseteq> set sts \<Longrightarrow> \<forall>p \<in> set ps. fst p \<in> set sts \<Longrightarrow> sxOutput x = None \<Longrightarrow> execute_loop sts rest data (map done_result ps) x w = (w', x', err) \<Longrightarrow>
     (case forward rest data w of
        (v, outs, data', None) \<Rightarrow> w' = v \<and> sxStatus x' = SagaCompleted \<and> sxOutput x' = data' \<and> err = None
      | (v, outs, data', Some e) \<Rightarrow>
          (case backward (rev (ps @ outs)) v of
             (v, ok) \<Rightarrow> w' = v \<and> sxStatus x' = (if ok then SagaCompensated else SagaFailed) \<and> sxOutput x' = None \<and> err = Some e))"
proof (induction rest arbitrary: data ps w)
  case (Cons s rest)
  obtain w1 res where c: "call s data w = (w1, res)" by fastforce
  note c' = c [unfolded call_def]
  show ?case
  proof (cases res)
    case (Inl e)
    obtain v srs errs where b: "compensate_loop sts (map done_result (rev ps)) w1 = (v, srs, errs)" by (cases "compensate_loop sts (map done_result (rev ps)) w1")
    have "backward (rev ps) w1 = (v, errs = [])" using compensate_backward [OF d _ b] Cons.prems(2) by simp
    then show ?thesis using Cons.prems c c' Inl b by (auto simp: saga_compensate_def rev_map split: if_splits)
  next
    case (Inr out)
    have "execute_loop sts rest out (map done_result (ps @ [(s, out)])) x w1 = (w', x', err)"
      using Cons.prems(4) c' Inr by (simp add: done_result_def [of "(s, out)"])
    from Cons.IH [OF _ _ Cons.prems(3) this] show ?thesis using Cons.prems(1,2) c Inr
      by (auto split: prod.splits option.splits)
  qed
qed auto

lemma saga_Execute_spec:
  assumes "distinct (map stepName (steps s))" "saga_Execute uuid s input w = (w', x, err)"
  shows "saga_spec (steps s) input w = (w', sxStatus x, sxOutput x, err)"
proof -
  have "execute_loop (steps s) (steps s) input (map done_result [])
     \<lparr>sxID = uuid, sxSagaName = sagaName s, sxStatus = SagaRunning, sxInput = input, sxOutput = None, sxError = '''', sxSteps = []\<rparr> w = (w', x, err)"
    using assms(2) by (simp add: saga_Execute_def)
  from execute_forward [OF assms(1) _ _ _ this] show ?thesis
    by (auto simp: saga_spec_def split: prod.splits option.splits)
qed

definition no_ctx_error :: "'w env \<Rightarrow> bool" where
  "no_ctx_error E \<longleftrightarrow> (\<forall>w. ctxErr E w = None)"

lemma stepByName_other: "k \<notin> stepName ` set sts \<Longrightarrow> foldl (\<lambda>m st. m(stepName st \<mapsto> st)) m sts k = m k"
  by (induction sts arbitrary: m) auto

lemma stepByName_in: "distinct (map stepName sts) \<Longrightarrow> s \<in> set sts \<Longrightarrow> stepByName sts (stepName s) = Some s"
proof -
  have "distinct (map stepName sts) \<Longrightarrow> s \<in> set sts \<Longrightarrow> foldl (\<lambda>m st. m(stepName st \<mapsto> st)) m sts (stepName s) = Some s" for m
    by (induction sts arbitrary: m) (auto simp: stepByName_other)
  then show "distinct (map stepName sts) \<Longrightarrow> s \<in> set sts \<Longrightarrow> ?thesis" by (simp add: stepByName_def)
qed

definition done_persisted :: "('d, 'w) Step \<times> 'd option \<Rightarrow> 'd PersistedStepResult" where
  "done_persisted p = \<lparr>psName = stepName (fst p), psStatus = SagaCompleted, psOutput = snd p, psError = ''''\<rparr>"

lemma done_persisted_simps [simp]:
  "psName (done_persisted (s, out)) = stepName s" "psOutput (done_persisted (s, out)) = out" "psStatus (done_persisted (s, out)) = SagaCompleted"
  by (simp_all add: done_persisted_def)

lemma compensateDurable_backward:
  assumes d: "distinct (map stepName sts)" and E: "\<And>w. tick E w = w"
  shows "\<forall>p \<in> set ps. fst p \<in> set sts \<Longrightarrow> ptSteps st = map done_persisted ps @ tail \<Longrightarrow>
    backward (rev ps) w = (v, ok) \<Longrightarrow>
    \<exists>st' its'. durable_run E sts (MComp st (length ps) fe (Some err), its, w) = Some (MEnd st' (Some err), its', v) \<and>
      ptStatus st' = (if ok \<and> fe = None then SagaCompensated else SagaFailed) \<and> ptOutput st' = ptOutput st"
proof (induction ps arbitrary: st tail w fe ok rule: rev_induct)
  case Nil
  then show ?case by (subst run_step [symmetric]) (auto simp: Let_def E compensated_state_def split: option.splits)
next
  case (snoc p ps)
  obtain s out where p: "p = (s, out)" by (cases p)
  have s: "stepByName sts (stepName s) = Some s" using stepByName_in [OF d] snoc.prems(1) p by simp
  have nth: "ptSteps st ! length ps = done_persisted (s, out)" using snoc.prems(2) p by (simp add: nth_append)
  have step: "durable_run E sts (MComp st (length (ps @ [p])) fe (Some err), its, w) =
      durable_run E sts (compensateDurable_one sts st (length ps) fe (Some err) its w)"
    using run_step [of E sts "(MComp st (length (ps @ [p])) fe (Some err), its, w)"] by simp
  have upd: "(ptSteps st)[length ps := r] = map done_persisted ps @ (r # tail)" for r
    using snoc.prems(2) by (simp add: list_update_append)
  have IH: "\<exists>st' its'. durable_run E sts (MComp (st\<lparr>ptSteps := (ptSteps st)[length ps := r]\<rparr>) (length ps) fe' (Some err), its, u) = Some (MEnd st' (Some err), its', v) \<and>
      ptStatus st' = (if ok' \<and> fe' = None then SagaCompensated else SagaFailed) \<and> ptOutput st' = ptOutput st"
    if "backward (rev ps) u = (v, ok')" for r u ok' fe'
    using snoc.IH [of "st\<lparr>ptSteps := (ptSteps st)[length ps := r]\<rparr>" "r # tail" u ok' fe'] snoc.prems(1) that by (simp add: upd)
  show ?case
  proof (cases "Compensate s")
    case None
    then show ?thesis
      using IH [of w ok _ fe] snoc.prems(3) s p unfolding step
      by (simp add: compensateDurable_one_def nth set_status_def)
  next
    case (Some c)
    obtain w1 res where c: "c 0 out w = (w1, res)" by fastforce
    obtain ok1 where b: "backward (rev ps) w1 = (v, ok1)" "ok = (ok1 \<and> (\<exists>d. res = Inr d))"
      using snoc.prems(3) p Some c by (auto split: prod.splits)
    show ?thesis
    proof (cases res)
      case (Inl e)
      then show ?thesis
        using IH [of w1 ok1 _ "if fe = None then Some e else fe"] s p Some c b unfolding step
        by (cases fe) (simp_all add: compensateDurable_one_def nth)
    next
      case (Inr d')
      then show ?thesis
        using IH [of w1 ok1 _ fe] s p Some c b unfolding step
        by (simp add: compensateDurable_one_def nth set_status_def)
    qed
  qed
qed

lemma runFrom_forward:
  assumes d: "distinct (map stepName sts)" and E: "no_ctx_error E" "\<And>w. tick E w = w"
  shows "sts = map fst ps @ rest \<Longrightarrow> ptSteps st = map done_persisted ps \<Longrightarrow> NextStepIndex st = length ps \<Longrightarrow> ptID st \<noteq> '''' \<Longrightarrow>
     ptOutput st = None \<Longrightarrow> \<exists>st' its' ret v. durable_run E sts (MRun st, its, w) = Some (MEnd st' ret, its', v) \<and>
       (case forward rest (CurrentData st) w of
          (u, outs, data, None) \<Rightarrow> v = u \<and> ptStatus st' = SagaCompleted \<and> ptOutput st' = data \<and> ret = None
        | (u, outs, data, Some err) \<Rightarrow>
            (case backward (rev (ps @ outs)) u of
               (u, ok) \<Rightarrow> v = u \<and> ptStatus st' = (if ok then SagaCompensated else SagaFailed) \<and> ptOutput st' = None \<and> ret = Some err))"
proof (induction rest arbitrary: ps st its w)
  case Nil
  then show ?case
    by (subst run_step [symmetric]) (auto simp: runFrom_head_def Let_def E E(1) [unfolded no_ctx_error_def] store_Save_def)
next
  case (Cons s rest)
  obtain w1 res where c: "call s (CurrentData st) w = (w1, res)" by fastforce
  have head: "durable_run E sts (MRun st, its, w) = durable_run E sts (runFrom_acted E st (stepName s) res its w1)"
    using run_step [of E sts "(MRun st, its, w)"] run_step [of E sts "(MActed st (stepName s) res, its, w1)"] Cons.prems(1,3) c E(1)
    by (simp add: runFrom_head_def Let_def E(2) no_ctx_error_def call_def nth_append)
  have in_sts: "\<forall>p \<in> set ps. fst p \<in> set sts" using Cons.prems(1) by auto
  show ?case
  proof (cases res)
    case (Inl err)
    define st' where "st' = st\<lparr>ptSteps := ptSteps st @ [\<lparr>psName = stepName s, psStatus = SagaFailed, psOutput = None, psError = err\<rparr>],
      ptStatus := SagaCompensating, ptError := err\<rparr>"
    have st': "ptSteps st' = map done_persisted ps @ [\<lparr>psName = stepName s, psStatus = SagaFailed, psOutput = None, psError = err\<rparr>]" "ptOutput st' = None"
      using Cons.prems(2,5) by (simp_all add: st'_def)
    obtain its1 where a: "runFrom_acted E st (stepName s) res its w1 = (MComp st' (Suc (length ps)) None (Some err), its1, w1)"
      using Cons.prems(2) by (simp add: runFrom_acted_def Let_def E(2) Inl st'_def)
    have skip: "durable_run E sts (MComp st' (Suc (length ps)) None (Some err), its1, w1) = durable_run E sts (MComp st' (length ps) None (Some err), its1, w1)"
      using run_step [of E sts "(MComp st' (Suc (length ps)) None (Some err), its1, w1)"] st'(1) by (simp add: compensateDurable_one_def nth_append)
    obtain v ok where b: "backward (rev ps) w1 = (v, ok)" by fastforce
    show ?thesis
      using compensateDurable_backward [OF d E(2) in_sts st'(1) b, of None err its1] st'(2) c Inl b unfolding head a skip by auto
  next
    case (Inr out)
    define st' where "st' = st\<lparr>ptSteps := ptSteps st @ [\<lparr>psName = stepName s, psStatus = SagaCompleted, psOutput = out, psError = ''''\<rparr>],
      CurrentData := out, NextStepIndex := NextStepIndex st + 1\<rparr>"
    have st': "ptSteps st' = map done_persisted (ps @ [(s, out)])" "NextStepIndex st' = length (ps @ [(s, out)])" "ptID st' \<noteq> ''''"
        "ptOutput st' = None" "CurrentData st' = out"
      using Cons.prems(2-5) by (simp_all add: st'_def done_persisted_def [of "(s, out)"])
    obtain its1 where a: "runFrom_acted E st (stepName s) res its w1 = (MRun st', its1, w1)"
      using Cons.prems(4) E(1) by (simp add: runFrom_acted_def Let_def E(2) Inr st'_def no_ctx_error_def store_Save_def)
    have "sts = map fst (ps @ [(s, out)]) @ rest" using Cons.prems(1) by simp
    from Cons.IH [OF this st'(1-4), of its1 w1] show ?thesis using c Inr st'(5) unfolding head a
      by (auto split: prod.splits option.splits)
  qed
qed

lemma durable_spec:
  assumes "distinct (map stepName sts)" "no_ctx_error E" "\<And>w. tick E w = w" "uuid \<noteq> ''''"
  shows "\<exists>st' its' ret v. durable_run E sts (MRun (new_state uuid name input), its, w) = Some (MEnd st' ret, its', v) \<and>
     saga_spec sts input w = (v, ptStatus st', ptOutput st', ret)"
  using runFrom_forward [OF assms(1-3), of "[]" sts "new_state uuid name input" its w] assms(4)
  by (fastforce simp: new_state_def saga_spec_def split: prod.splits option.splits)

section \<open>Crashes\<close>

text \<open>
  A process that runs an execution, or no process after a crash; the store and the world survive a crash.  A resume starts a new process from
  what the store has.
\<close>

inductive durable_reach ::
  "'w env \<Rightarrow> (string \<rightharpoonup> ('d, 'w) Saga) \<Rightarrow> string \<Rightarrow> (('d, 'w) Step list \<times> 'd machine) option \<times> 'd items \<times> 'w \<Rightarrow>
   (('d, 'w) Step list \<times> 'd machine) option \<times> 'd items \<times> 'w \<Rightarrow> bool" for E registry i c0 where
  start: "durable_reach E registry i c0 c0"
| step: "durable_reach E registry i c0 (Some (sts, m), its, w) \<Longrightarrow> durable_step E sts (m, its, w) = (m', its', w') \<Longrightarrow>
    durable_reach E registry i c0 (Some (sts, m'), its', w')"
| crash: "durable_reach E registry i c0 (p, its, w) \<Longrightarrow> durable_reach E registry i c0 (None, its, w)"
| resume: "durable_reach E registry i c0 (None, its, w) \<Longrightarrow> Resume E registry i its w = (Inr p, its', w') \<Longrightarrow>
    durable_reach E registry i c0 (Some p, its', w')"
| refused: "durable_reach E registry i c0 (None, its, w) \<Longrightarrow> Resume E registry i its w = (Inl err, its', w') \<Longrightarrow>
    durable_reach E registry i c0 (None, its', w')"

text \<open>The results of the actions and compensations depend on their input only, whatever they do to the world.\<close>

definition replayable :: "('d, 'w) Step list \<Rightarrow> bool" where
  "replayable sts \<longleftrightarrow>
     (\<forall>s \<in> set sts. (\<forall>t d w w'. snd (Action s t d w) = snd (Action s t d w')) \<and>
        (\<forall>c. Compensate s = Some c \<longrightarrow> (\<forall>t d w w'. snd (c t d w) = snd (c t d w'))))"

fun state_of :: "'d machine \<Rightarrow> 'd PersistedState" where
  "state_of (MRun st) = st"
| "state_of (MActed st name res) = st"
| "state_of (MComp st k fe ret) = st"
| "state_of (MEnd st ret) = st"

fun noret :: "'d machine \<Rightarrow> 'd machine" where
  "noret (MComp st k fe ret) = MComp st k fe None"
| "noret (MEnd st ret) = MEnd st None"
| "noret m = m"

definition m_ok :: "string \<Rightarrow> string \<Rightarrow> 'd machine \<Rightarrow> bool" where
  "m_ok uuid name m \<longleftrightarrow> ptID (state_of m) = uuid \<and> ptSagaName (state_of m) = name \<and>
     (case m of MComp st k fe ret \<Rightarrow> ptStatus st = SagaCompensating | MEnd st ret \<Rightarrow> IsTerminal st | _ \<Rightarrow> ptStatus (state_of m) = SagaRunning)"

lemma m_ok_noret: "noret m = noret m' \<Longrightarrow> m_ok uuid name m = m_ok uuid name m'"
  by (cases m; cases m') (auto simp: m_ok_def)

lemma stepByName_set: "stepByName sts k = Some s \<Longrightarrow> s \<in> set sts"
proof -
  have "foldl (\<lambda>m st. m(stepName st \<mapsto> st)) m sts k = Some s \<Longrightarrow> s \<in> set sts \<or> m k = Some s" for m
  proof (induction sts arbitrary: m)
    case (Cons a sts)
    then show ?case using Cons.IH [of "m(stepName a \<mapsto> a)"] by (auto split: if_splits)
  qed simp
  from this [of Map.empty] show "stepByName sts k = Some s \<Longrightarrow> ?thesis" by (simp add: stepByName_def)
qed

lemma save_ok: "no_ctx_error E \<Longrightarrow> ptID st \<noteq> '''' \<Longrightarrow> store_Save (ctxErr E w) st its = (its(ptID st \<mapsto> st), None)"
  by (simp add: store_Save_def no_ctx_error_def)

lemma replay_step:
  assumes E: "no_ctx_error E" and R: "replayable sts" and u: "uuid \<noteq> ''''" and m: "m_ok uuid name m" "noret m' = noret m"
  shows "noret (fst (durable_step E sts (m', its', w'))) = noret (fst (durable_step E sts (m, its, w)))"
proof (cases m)
  case (MRun st)
  then have m': "m' = MRun st" using m(2) by (cases m') auto
  have "ptID st \<noteq> ''''" using m(1) u MRun by (simp add: m_ok_def)
  show ?thesis
  proof (cases "NextStepIndex st < length sts")
    case True
    let ?s = "sts ! NextStepIndex st"
    have r: "snd (Action ?s t d v) = snd (Action ?s t d v')" for t d v v'
      using R True unfolding replayable_def by (meson nth_mem)
    show ?thesis using E True MRun m' r [of _ _ "tick E w'" "tick E w"]
      by (simp add: runFrom_head_def Let_def no_ctx_error_def split_def)
  next
    case False
    then show ?thesis using E MRun m' \<open>ptID st \<noteq> ''''\<close> by (simp add: runFrom_head_def Let_def save_ok)
  qed
next
  case (MActed st nm res)
  then have m': "m' = MActed st nm res" using m(2) by (cases m') auto
  have "ptID st \<noteq> ''''" using m(1) u MActed by (simp add: m_ok_def)
  then show ?thesis using E MActed m' by (cases res) (simp_all add: runFrom_acted_def Let_def save_ok)
next
  case (MComp st k fe ret)
  then obtain ret' where m': "m' = MComp st k fe ret'" using m(2) by (cases m') auto
  show ?thesis
  proof (cases k)
    case (Suc i)
    show ?thesis
    proof (cases "Option.bind (stepByName sts (psName (ptSteps st ! i))) Compensate")
      case None
      then show ?thesis using MComp m' Suc by (simp add: compensateDurable_one_def Let_def)
    next
      case (Some c)
      then obtain s where "s \<in> set sts" "Compensate s = Some c" using stepByName_set by (auto simp: bind_eq_Some_conv)
      then have r: "snd (c t d v) = snd (c t d v')" for t d v v' using R unfolding replayable_def by blast
      obtain w1 res where "c 0 (psOutput (ptSteps st ! i)) w = (w1, res)" by fastforce
      moreover from this obtain w2 where "c 0 (psOutput (ptSteps st ! i)) w' = (w2, res)" using r by (metis prod.collapse snd_conv)
      ultimately show ?thesis using MComp m' Suc Some by (cases res) (simp_all add: compensateDurable_one_def Let_def)
    qed
  qed (use MComp m' in \<open>simp add: Let_def\<close>)
next
  case (MEnd st ret)
  then obtain ret' where m': "m' = MEnd st ret'" using m(2) by (cases m') auto
  then show ?thesis using MEnd by simp
qed

lemma head_ok:
  assumes "no_ctx_error E" "ptID st \<noteq> ''''"
  shows "runFrom_head E sts st its w =
    (if NextStepIndex st < length sts
     then (MActed st (stepName (sts ! NextStepIndex st)) (snd (call (sts ! NextStepIndex st) (CurrentData st) (tick E w))), its,
           fst (call (sts ! NextStepIndex st) (CurrentData st) (tick E w)))
     else (MEnd (st\<lparr>ptStatus := SagaCompleted, ptOutput := CurrentData st\<rparr>) None,
           its(ptID st \<mapsto> st\<lparr>ptStatus := SagaCompleted, ptOutput := CurrentData st\<rparr>), tick E w))"
  using assms by (simp add: runFrom_head_def Let_def call_def no_ctx_error_def store_Save_def split_def)

lemma m_ok_step:
  assumes E: "no_ctx_error E" and u: "uuid \<noteq> ''''" and m: "m_ok uuid name m"
  shows "m_ok uuid name (fst (durable_step E sts (m, its, w)))"
proof (cases m)
  case (MRun st)
  then have st: "ptID st \<noteq> ''''" using m u by (simp add: m_ok_def)
  then show ?thesis using m MRun E by (simp add: head_ok m_ok_def IsTerminal_def)
next
  case (MActed st nm res)
  then have st: "ptID st \<noteq> ''''" using m u by (simp add: m_ok_def)
  then show ?thesis using m MActed E by (cases res) (auto simp: runFrom_acted_def Let_def save_ok m_ok_def)
next
  case (MComp st k fe ret)
  then show ?thesis using m
    by (cases k) (auto simp: compensateDurable_one_def Let_def m_ok_def set_status_def compensated_state_def IsTerminal_def
      split: option.splits prod.splits sum.splits)
qed (use m in simp)

text \<open>What a step writes is the state from which the machine goes on.\<close>

definition resume_at :: "'d PersistedState \<Rightarrow> 'd machine" where
  "resume_at p =
     (if IsTerminal p then MEnd p None
      else if ptStatus p = SagaCompensating then MComp p (length (ptSteps p)) None None
      else MRun (p\<lparr>ptStatus := SagaRunning\<rparr>))"

lemma same_status: "ptStatus p = s \<Longrightarrow> p\<lparr>ptStatus := s\<rparr> = p"
  by (cases p) simp

lemma step_saves:
  assumes E: "no_ctx_error E" and u: "uuid \<noteq> ''''" and m: "m_ok uuid name m" and step: "durable_step E sts (m, its, w) = (m', its', w')"
  shows "its' = its \<and> (\<forall>st ret. m' = MEnd st ret \<longrightarrow> m = m') \<or> its' = its(uuid \<mapsto> state_of m') \<and> noret (resume_at (state_of m')) = noret m'"
proof (cases m)
  case (MRun st)
  then have st: "ptID st \<noteq> ''''" "ptID st = uuid" using m u by (simp_all add: m_ok_def)
  then show ?thesis using step MRun E by (auto simp: head_ok resume_at_def IsTerminal_def split: if_splits)
next
  case (MActed st nm res)
  then have st: "ptID st \<noteq> ''''" "ptID st = uuid" "ptStatus st = SagaRunning" using m u by (simp_all add: m_ok_def)
  then show ?thesis using step MActed E
    by (cases res) (auto simp: runFrom_acted_def Let_def save_ok resume_at_def IsTerminal_def same_status)
next
  case (MComp st k fe ret)
  then have st: "ptID st \<noteq> ''''" "ptID st = uuid" using m u by (simp_all add: m_ok_def)
  then show ?thesis using step MComp E
    by (cases k) (auto simp: compensateDurable_one_def Let_def save_ok resume_at_def set_status_def compensated_state_def IsTerminal_def
      split: option.splits prod.splits sum.splits if_splits)
qed (use step in simp)

text \<open>The state in which a machine ends, whatever the store and the world are.\<close>

definition goes :: "'w env \<Rightarrow> ('d, 'w) Step list \<Rightarrow> 'd machine \<Rightarrow> 'd PersistedState \<Rightarrow> bool" where
  "goes E sts m stf \<longleftrightarrow> (\<exists>n. \<forall>its w. noret (fst ((durable_step E sts ^^ n) (m, its, w))) = MEnd stf None)"

lemma noret_End: "noret m = MEnd st None \<Longrightarrow> \<exists>ret. m = MEnd st ret"
  by (cases m) auto

lemma End_iter: "(durable_step E sts ^^ n) (MEnd st ret, its, w) = (MEnd st ret, its, w)"
  by (induction n) auto

lemma goes_End: "goes E sts (MEnd st ret) stf \<Longrightarrow> stf = st"
  by (simp add: goes_def End_iter)

lemma run_iter: "durable_run E sts ((durable_step E sts ^^ n) c) = durable_run E sts c"
  by (induction n) (simp_all add: run_step)

lemma run_is_iter:
  assumes "durable_run E sts c = Some c'"
  shows "\<exists>n. (durable_step E sts ^^ n) c = c'"
proof (rule durable_run.raw_induct [OF _ assms, where P = "\<lambda>E sts c c'. \<exists>n. (durable_step E sts ^^ n) c = c'"], goal_cases)
  case (1 f E sts c c')
  show ?case
  proof (cases "\<exists>st ret. fst c = MEnd st ret")
    case True
    then show ?thesis using 1(2) by (intro exI [of _ 0]) auto
  next
    case False
    then have "f E sts (durable_step E sts c) = Some c'" using 1(2) by (auto split: machine.splits)
    then obtain n where "(durable_step E sts ^^ n) (durable_step E sts c) = c'" using 1(1) by blast
    then show ?thesis by (intro exI [of _ "Suc n"]) (simp add: funpow_swap1)
  qed
qed

lemma replay_iter:
  assumes E: "no_ctx_error E" and R: "replayable sts" and u: "uuid \<noteq> ''''" and m: "m_ok uuid name m" "noret m' = noret m"
  shows "noret (fst ((durable_step E sts ^^ n) (m', its', w'))) = noret (fst ((durable_step E sts ^^ n) (m, its, w))) \<and>
         m_ok uuid name (fst ((durable_step E sts ^^ n) (m, its, w)))"
proof (induction n)
  case (Suc n)
  obtain m1 its1 w1 where 1: "(durable_step E sts ^^ n) (m, its, w) = (m1, its1, w1)" by (cases "(durable_step E sts ^^ n) (m, its, w)")
  obtain m2 its2 w2 where 2: "(durable_step E sts ^^ n) (m', its', w') = (m2, its2, w2)" by (cases "(durable_step E sts ^^ n) (m', its', w')")
  have "m_ok uuid name m1" "noret m2 = noret m1" using Suc 1 2 by simp_all
  then show ?case using replay_step [OF E R u, of name m1 m2] m_ok_step [OF E u, of name m1] 1 2 by simp
qed (use m in simp)

lemma goes_any:
  assumes "no_ctx_error E" "replayable sts" "uuid \<noteq> ''''" "m_ok uuid name m" "noret m' = noret m"
    and "noret (fst ((durable_step E sts ^^ n) (m, its, w))) = MEnd stf None"
  shows "goes E sts m' stf"
  using replay_iter [OF assms(1-5), of n _ _ its w] assms(6) unfolding goes_def by auto

lemma goes_step:
  assumes E: "no_ctx_error E" and R: "replayable sts" and u: "uuid \<noteq> ''''" and m: "m_ok uuid name m" and g: "goes E sts m stf"
    and s: "durable_step E sts (m, its, w) = (m', its', w')"
  shows "goes E sts m' stf"
proof -
  obtain n where n: "noret (fst ((durable_step E sts ^^ n) (m, its, w))) = MEnd stf None" using g by (auto simp: goes_def)
  show ?thesis
  proof (cases n)
    case 0
    then obtain ret where "m = MEnd stf ret" using n noret_End by auto
    then show ?thesis using s g by auto
  next
    case (Suc k)
    have "m_ok uuid name m'" using m_ok_step [OF E u m, of sts its w] s by simp
    moreover have "noret (fst ((durable_step E sts ^^ k) (m', its', w'))) = MEnd stf None"
      using n Suc s by (simp add: funpow_swap1)
    ultimately show ?thesis using goes_any [OF E R u] by blast
  qed
qed

lemma goes_run: "goes E sts m stf \<Longrightarrow> \<exists>err its' w'. durable_run E sts (m, its, w) = Some (MEnd stf err, its', w')"
proof -
  assume "goes E sts m stf"
  then obtain n where "noret (fst ((durable_step E sts ^^ n) (m, its, w))) = MEnd stf None" by (auto simp: goes_def)
  then obtain err its' w' where "(durable_step E sts ^^ n) (m, its, w) = (MEnd stf err, its', w')" using noret_End by (metis prod.collapse)
  then show ?thesis by (metis run_End run_iter)
qed

text \<open>The invariant of an execution under crashes: the store always holds a state from which the same end is reached.\<close>

definition crash_inv ::
  "'w env \<Rightarrow> ('d, 'w) Step list \<Rightarrow> string \<Rightarrow> string \<Rightarrow> 'd PersistedState \<Rightarrow> (('d, 'w) Step list \<times> 'd machine) option \<times> 'd items \<times> 'w \<Rightarrow> bool" where
  "crash_inv E sts uuid name stf = (\<lambda>(p, its, w).
     (\<exists>q. its uuid = Some q \<and> m_ok uuid name (resume_at q) \<and> goes E sts (resume_at q) stf) \<and>
     (\<forall>sts' m. p = Some (sts', m) \<longrightarrow>
        m_ok uuid name m \<and> (sts' = sts \<and> goes E sts m stf \<or> (\<exists>ret. m = MEnd stf ret)) \<and> (\<forall>st ret. m = MEnd st ret \<longrightarrow> its uuid = Some st)))"

lemma crash_inv_step:
  assumes E: "no_ctx_error E" and R: "replayable sts" and u: "uuid \<noteq> ''''"
    and inv: "crash_inv E sts uuid name stf (Some (sts', m), its, w)" and s: "durable_step E sts' (m, its, w) = (m', its', w')"
  shows "crash_inv E sts uuid name stf (Some (sts', m'), its', w')"
proof (cases "\<exists>ret. m = MEnd stf ret")
  case True
  then show ?thesis using inv s by auto
next
  case False
  then have m: "sts' = sts" "m_ok uuid name m" "goes E sts m stf" using inv by (auto simp: crash_inv_def)
  have m': "m_ok uuid name m'" "goes E sts m' stf"
    using m_ok_step [OF E u m(2), of sts its w] goes_step [OF E R u m(2,3)] s m(1) by auto
  from step_saves [OF E u m(2) s [unfolded m(1)]] show ?thesis
  proof
    assume "its' = its \<and> (\<forall>st ret. m' = MEnd st ret \<longrightarrow> m = m')"
    then show ?thesis using inv m m' by (auto simp: crash_inv_def)
  next
    assume k: "its' = its(uuid \<mapsto> state_of m') \<and> noret (resume_at (state_of m')) = noret m'"
    obtain n where "noret (fst ((durable_step E sts ^^ n) (m', its, w))) = MEnd stf None" using m'(2) by (auto simp: goes_def)
    then have "goes E sts (resume_at (state_of m')) stf" using goes_any [OF E R u m'(1)] k by blast
    then show ?thesis using k m(1) m' m_ok_noret [of "resume_at (state_of m')" m' uuid name] by (auto simp: crash_inv_def)
  qed
qed

lemma crash_inv_resume:
  assumes E: "no_ctx_error E" and R: "replayable (steps s)" and u: "uuid \<noteq> ''''" and reg: "registry name = Some s"
    and inv: "crash_inv E (steps s) uuid name stf (p, its, w)"
  shows "\<exists>sts' m' its' w'. Resume E registry uuid its w = (Inr (sts', m'), its', w') \<and>
    crash_inv E (steps s) uuid name stf (Some (sts', m'), its', w') \<and> goes E sts' m' stf"
proof -
  obtain q where q: "its uuid = Some q" "m_ok uuid name (resume_at q)" "goes E (steps s) (resume_at q) stf"
    using inv by (auto simp: crash_inv_def)
  have load: "store_Load (ctxErr E (tick E w)) uuid its = Inr q" using E q(1) by (simp add: store_Load_def no_ctx_error_def)
  have names: "ptID q = uuid" "ptSagaName q = name" using q(2) by (auto simp: m_ok_def resume_at_def split: if_splits)
  consider (ended) "IsTerminal q" | (compensating) "\<not> IsTerminal q" "ptStatus q = SagaCompensating"
    | (running) "\<not> IsTerminal q" "ptStatus q \<noteq> SagaCompensating" by blast
  then show ?thesis
  proof cases
    case ended
    then have "q = stf" using goes_End [of E "steps s" q None stf] q(3) by (simp add: resume_at_def)
    moreover have "goes E [] (MEnd stf None) stf" by (simp add: goes_def End_iter)
    ultimately show ?thesis using q ended load by (auto simp: Resume_def Let_def crash_inv_def resume_at_def)
  next
    case compensating
    then show ?thesis using q names reg load by (auto simp: Resume_def Let_def crash_inv_def resume_at_def)
  next
    case running
    let ?q = "q\<lparr>ptStatus := SagaRunning\<rparr>"
    have "resume_at ?q = resume_at q" using running by (simp add: resume_at_def IsTerminal_def)
    moreover have "resume_at q = MRun ?q" using running by (simp add: resume_at_def)
    ultimately show ?thesis using q names reg load running E u
      by (auto simp: Resume_def Let_def crash_inv_def save_ok)
  qed
qed

lemma crash_inv_reach:
  assumes E: "no_ctx_error E" and R: "replayable (steps s)" and u: "uuid \<noteq> ''''" and reg: "registry name = Some s"
  shows "durable_reach E registry uuid c0 c \<Longrightarrow> crash_inv E (steps s) uuid name stf c0 \<Longrightarrow> crash_inv E (steps s) uuid name stf c"
proof (induction rule: durable_reach.induct)
  case (step sts m its w m' its' w')
  note IH = step.IH [OF step.prems]
  show ?case using crash_inv_step [OF E R u IH step.hyps(2)] .
next
  case (crash p its w)
  from crash.IH [OF crash.prems] show ?case unfolding crash_inv_def case_prod_conv by blast
next
  case (resume its w p its' w')
  show ?case using crash_inv_resume [where registry = registry, OF E R u reg resume.IH [OF resume.prems]] resume.hyps(2) by auto
next
  case (refused its w err its' w')
  show ?case using crash_inv_resume [where registry = registry, OF E R u reg refused.IH [OF refused.prems]] refused.hyps(2) by auto
qed

lemma reach_iter:
  "durable_reach E registry i c0 (Some (sts, m), its, w) \<Longrightarrow> (durable_step E sts ^^ n) (m, its, w) = (m', its', w') \<Longrightarrow>
   durable_reach E registry i c0 (Some (sts, m'), its', w')"
proof (induction n arbitrary: m' its' w')
  case (Suc n)
  obtain m1 its1 w1 where 1: "(durable_step E sts ^^ n) (m, its, w) = (m1, its1, w1)" by (cases "(durable_step E sts ^^ n) (m, its, w)")
  then show ?case using durable_reach.step [OF Suc.IH [OF Suc.prems(1) 1]] Suc.prems(2) by simp
qed simp


section \<open>Both executors\<close>

text \<open>
  C15: A saga runs forward and then back.  With distinct step names and a context that stays alive, the in-process and the durable
  executor both run the actions in order, each on the output of the one before, stop at the first failure, compensate the completed steps from the last to
  the first, each with its own output, and report completed, compensated, or failed when a compensation failed: they make the same calls in the same order and
  return the same status, output and error.
\<close>

theorem saga_compensates:
  assumes "distinct (map stepName (steps s))" "registry name = Some s" "no_ctx_error E" "\<And>w. tick E w = w" "uuid \<noteq> ''''"
    and "saga_spec (steps s) input w = (w', status, out, err)"
  shows "(\<exists>x. saga_Execute uuid s input w = (w', x, err) \<and> sxStatus x = status \<and> sxOutput x = out) \<and>
         (\<exists>sts m its1 st its2. durable_Execute E registry uuid name input its w = (Inr (sts, m), its1, w) \<and>
            durable_run E sts (m, its1, w) = Some (MEnd st err, its2, w') \<and> ptStatus st = status \<and> ptOutput st = out)"
proof -
  obtain v x e where x: "saga_Execute uuid s input w = (v, x, e)" by (cases "saga_Execute uuid s input w")
  have start: "durable_Execute E registry uuid name input its w =
      (Inr (steps s, MRun (new_state uuid name input)), its(uuid \<mapsto> new_state uuid name input), w)"
    using assms(2-5) by (simp add: durable_Execute_def Let_def save_ok new_state_def)
  show ?thesis
    using saga_Execute_spec [OF assms(1) x] x durable_spec [OF assms(1,3-5), of name input "its(uuid \<mapsto> new_state uuid name input)" w]
    unfolding start assms(6) by auto
qed

text \<open>Two steps that log their calls; the second one fails once, because the context is cancelled while it runs.\<close>

definition book :: "(nat, string list) Step" where
  "book = \<lparr>stepName = ''book'', Action = (\<lambda>t d w. (w @ [''book''], Inr d)), Compensate = Some (\<lambda>t d w. (w @ [''unbook''], Inr d)), stepTimeout = 0\<rparr>"

definition pay :: "(nat, string list) Step" where
  "pay = \<lparr>stepName = ''pay'',
     Action = (\<lambda>t d w. if ''cancelled'' \<in> set w then (w @ [''pay''], Inr d) else (w @ [''cancelled''], Inl ''context canceled'')),
     Compensate = None, stepTimeout = 0\<rparr>"

definition trip :: "(nat, string list) Saga" where
  "trip = \<lparr>sagaName = ''trip'', steps = [book, pay]\<rparr>"

definition caller_env :: "string list env" where
  "caller_env = \<lparr>ctxErr = (\<lambda>w. if ''cancelled'' \<in> set w then Some ''context canceled'' else None), tick = (\<lambda>w. w)\<rparr>"

definition calm_env :: "string list env" where
  "calm_env = \<lparr>ctxErr = (\<lambda>w. None), tick = (\<lambda>w. w)\<rparr>"

lemmas trip_defs = book_def pay_def trip_def caller_env_def calm_env_def durable_Execute_def new_state_def store_Save_def store_Load_def Resume_def
  runFrom_head_def runFrom_acted_def compensateDurable_one_def compensated_state_def set_status_def stepByName_def IsTerminal_def Let_def

theorem saga_compensates_witness:
  "\<exists>x st its2. saga_Execute ''u'' trip None [] = ([''book'', ''cancelled'', ''unbook''], x, Some ''context canceled'') \<and>
     sxStatus x = SagaCompensated \<and> ptStatus st = SagaCompensated \<and>
     durable_run calm_env (steps trip) (MRun (new_state ''u'' ''trip'' None), [''u'' \<mapsto> new_state ''u'' ''trip'' None], []) =
       Some (MEnd st (Some ''context canceled''), its2, [''book'', ''cancelled'', ''unbook''])"
proof -
  have spec: "saga_spec (steps trip) None [] = ([''book'', ''cancelled'', ''unbook''], SagaCompensated, None, Some ''context canceled'')"
    by (simp add: saga_spec_def trip_def book_def pay_def call_def)
  have d: "distinct (map stepName (steps trip))" "no_ctx_error calm_env" "\<And>w. tick calm_env w = w"
    by (simp_all add: trip_def book_def pay_def calm_env_def no_ctx_error_def)
  show ?thesis
    using saga_compensates [OF d(1) _ d(2,3) _ spec, of "[''trip'' \<mapsto> trip]" "''trip''" "''u''" Map.empty] d
    by (auto simp: durable_Execute_def Let_def save_ok new_state_def)
qed


text \<open>A saga whose second step always fails; its process crashes after the first action, before the result was saved.\<close>

definition refuse :: "(nat, string list) Step" where
  "refuse = \<lparr>stepName = ''refuse'', Action = (\<lambda>t d w. (w @ [''refuse''], Inl ''no seats'')), Compensate = None, stepTimeout = 0\<rparr>"

definition flight :: "(nat, string list) Saga" where
  "flight = \<lparr>sagaName = ''flight'', steps = [book, refuse]\<rparr>"


text \<open>
  Steps with the same name are not told apart: the in-process executor compensates both with the first one, the durable executor with the last one.
\<close>

definition leg :: "string \<Rightarrow> (nat, string list) Step" where
  "leg n = \<lparr>stepName = ''leg'', Action = (\<lambda>t d w. (w @ [n], Inr d)), Compensate = Some (\<lambda>t d w. (w @ [''undo '' @ n], Inr d)), stepTimeout = 0\<rparr>"

lemma saga_same_name:
  "fst (saga_Execute ''u'' \<lparr>sagaName = ''s'', steps = [leg ''1'', leg ''2'', refuse]\<rparr> None []) = [''1'', ''2'', ''refuse'', ''undo 1'', ''undo 1'']"
  "\<exists>st ret its. durable_run calm_env [leg ''1'', leg ''2'', refuse] (MRun (new_state ''u'' ''s'' None), Map.empty, []) =
     Some (MEnd st ret, its, [''1'', ''2'', ''refuse'', ''undo 2'', ''undo 2''])"
proof -
  show "fst (saga_Execute ''u'' \<lparr>sagaName = ''s'', steps = [leg ''1'', leg ''2'', refuse]\<rparr> None []) = [''1'', ''2'', ''refuse'', ''undo 1'', ''undo 1'']"
    by (simp add: saga_Execute_def saga_compensate_def leg_def refuse_def)
  show "\<exists>st ret its. durable_run calm_env [leg ''1'', leg ''2'', refuse] (MRun (new_state ''u'' ''s'' None), Map.empty, []) =
     Some (MEnd st ret, its, [''1'', ''2'', ''refuse'', ''undo 2'', ''undo 2''])"
    by (simp add: trip_defs leg_def refuse_def durable_run.simps numeral_2_eq_2 numeral_3_eq_3)
qed

end
