(* ===== verification/Bplus.thy ===== *)
theory Bplus
  imports Search
begin

text \<open>
  \<^verbatim>\<open>pkg/datastructures/tree/bplus\<close>: the B+ tree of minimum degree 4.  A node is a leaf with keys and values or an inner node with keys and
  children; the links between the leaves are written by \<^verbatim>\<open>splitChild\<close> and never read, and are left out.  \<open>None\<close> is the panic of
  an index out of range.
\<close>

section \<open>The tree\<close>

datatype ('k, 'v) bnode =
    BLeaf "'k list" "'v list"
  | BInner "'k list" "('k, 'v) bnode list"

definition bplus_New :: "('k, 'v) bnode" where
  "bplus_New = BLeaf [] []"

fun nkeys :: "('k, 'v) bnode \<Rightarrow> nat" where
  "nkeys (BLeaf ks vs) = length ks"
| "nkeys (BInner ks cs) = length ks"

text \<open>The loop over the keys of an inner node.\<close>

definition child_index :: "'k::linorder \<Rightarrow> 'k list \<Rightarrow> nat" where
  "child_index key ks = length (takeWhile (\<lambda>k. \<not> key < k) ks)"

function bplus_Search :: "('k::linorder, 'v) bnode \<Rightarrow> 'k \<Rightarrow> 'v option option" where
  "bplus_Search (BInner ks cs) key =
     (let idx = child_index key ks in if idx < length cs then bplus_Search (cs ! idx) key else None)"
| "bplus_Search (BLeaf ks vs) key =
     (let idx = LowerBound ks key in
      if idx < length ks \<and> ks ! idx = key then if idx < length vs then Some (Some (vs ! idx)) else None else Some None)"
  by pat_completeness auto
termination
  by (relation "measure (\<lambda>(t, key). size t)") (auto simp: less_Suc_eq_le intro!: trans_le_add2 size_list_estimation' [OF nth_mem])

text \<open>The two halves of a full node, and the key that goes up: it stays in a leaf and leaves an inner node.\<close>

fun split_node :: "('k, 'v) bnode \<Rightarrow> ('k, 'v) bnode \<times> 'k \<times> ('k, 'v) bnode" where
  "split_node (BLeaf ks vs) = (BLeaf (take 3 ks) (take 3 vs), ks ! 3, BLeaf (drop 3 ks) (drop 3 vs))"
| "split_node (BInner ks cs) = (BInner (take 3 ks) (take 4 cs), ks ! 3, BInner (drop 4 ks) (drop 4 cs))"

definition splitChild :: "'k list \<Rightarrow> ('k, 'v) bnode list \<Rightarrow> nat \<Rightarrow> 'k list \<times> ('k, 'v) bnode list" where
  "splitChild ks cs i =
     (let (l, promotedKey, r) = split_node (cs ! i)
      in (take i ks @ promotedKey # drop i ks, take i cs @ l # r # drop (i + 1) cs))"

definition make_room :: "'k::linorder \<Rightarrow> 'k list \<Rightarrow> ('k, 'v) bnode list \<Rightarrow> nat \<Rightarrow> 'k list \<times> ('k, 'v) bnode list \<times> nat" where
  "make_room key ks cs idx =
     (if nkeys (cs ! idx) = 7
      then let (ks, cs) = splitChild ks cs idx in (ks, cs, if key \<ge> ks ! idx then idx + 1 else idx)
      else (ks, cs, idx))"

lemma size_list_take: "size_list f (take n xs) \<le> size_list f xs"
  by (induction xs arbitrary: n) (auto simp: take_Cons split: nat.splits)

lemma size_list_drop: "size_list f (drop n xs) \<le> size_list f xs"
proof (induction xs arbitrary: n)
  case (Cons x xs)
  then show ?case by (cases n) (auto intro: le_SucI trans_le_add2)
qed simp

lemma size_split: "split_node c = (l, p, r) \<Longrightarrow> size l \<le> size c \<and> size r \<le> size c"
  by (cases c) (auto intro!: add_mono size_list_take size_list_drop)

lemma make_room_size:
  assumes "idx < length cs" "make_room key ks cs idx = (ks', cs', idx')"
  shows "idx' < length cs' \<and> size (cs' ! idx') \<le> size (cs ! idx)"
proof -
  obtain l p r where s: "split_node (cs ! idx) = (l, p, r)" by (cases "split_node (cs ! idx)")
  show ?thesis using assms size_split [OF s]
    by (auto simp: make_room_def splitChild_def s Let_def nth_append min_def split: if_splits)
qed

function insertNonFull :: "('k::linorder, 'v) bnode \<Rightarrow> 'k \<Rightarrow> 'v \<Rightarrow> ('k, 'v) bnode option" where
  "insertNonFull (BLeaf ks vs) key v =
     (let idx = LowerBound ks key
      in Some (BLeaf (take idx ks @ key # drop idx ks) (take idx vs @ v # drop idx vs)))"
| "insertNonFull (BInner ks cs) key v =
     (let idx = child_index key ks in
      if idx < length cs
      then case make_room key ks cs idx of
             (ks, cs, idx) \<Rightarrow> map_option (\<lambda>c. BInner ks (cs[idx := c])) (insertNonFull (cs ! idx) key v)
      else None)"
  by pat_completeness auto
termination
proof (relation "measure (\<lambda>(t, key, v). size t)", simp, clarsimp)
  fix ks :: "'a list" and cs :: "('a, 'b) bnode list" and key :: 'a and ks' cs' idx'
  assume r: "child_index key ks < length cs" "(ks', cs', idx') = make_room key ks cs (child_index key ks)"
  then have "size (cs' ! idx') \<le> size (cs ! child_index key ks)" using make_room_size by metis
  also have "\<dots> \<le> size_list size cs" by (rule size_list_estimation' [OF nth_mem [OF r(1)]]) simp
  finally show "size (cs' ! idx') < Suc (length ks + size_list size cs)" by simp
qed

definition bplus_Insert :: "'k::linorder \<Rightarrow> 'v \<Rightarrow> ('k, 'v) bnode \<Rightarrow> ('k, 'v) bnode option" where
  "bplus_Insert key v root =
     (if nkeys root = 7
      then let (ks, cs) = splitChild [] [root] 0 in insertNonFull (BInner ks cs) key v
      else insertNonFull root key v)"

declare bplus_Search.simps [simp del] insertNonFull.simps [simp del]

section \<open>The invariant\<close>

fun pairs :: "('k, 'v) bnode \<Rightarrow> ('k \<times> 'v) set" where
  "pairs (BLeaf ks vs) = set (zip ks vs)"
| "pairs (BInner ks cs) = (\<Union>c \<in> set cs. pairs c)"

text \<open>The keys that belong to child \<open>i\<close> of a node with the separators \<open>ks\<close>.\<close>

definition gap :: "'k::linorder list \<Rightarrow> nat \<Rightarrow> 'k set" where
  "gap ks i = {k. (\<forall>x \<in> set (take i ks). x \<le> k) \<and> (\<forall>x \<in> set (drop i ks). k < x)}"

text \<open>
  A node of height \<open>h\<close> with keys in \<open>S\<close>: keys ascend, children lie in the gaps between the separators and all have the same height, no
  node has more than seven keys, and every child has at least three.
\<close>

inductive bp_ok :: "nat \<Rightarrow> 'k::linorder set \<Rightarrow> ('k, 'v) bnode \<Rightarrow> bool" where
  leaf: "sorted_wrt (<) ks \<Longrightarrow> length vs = length ks \<Longrightarrow> set ks \<subseteq> S \<Longrightarrow> length ks \<le> 7 \<Longrightarrow> bp_ok 0 S (BLeaf ks vs)"
| inner: "length cs = Suc (length ks) \<Longrightarrow> sorted_wrt (<) ks \<Longrightarrow> set ks \<subseteq> S \<Longrightarrow> 1 \<le> length ks \<Longrightarrow> length ks \<le> 7 \<Longrightarrow>
    (\<And>i. i < length cs \<Longrightarrow> bp_ok h (S \<inter> gap ks i) (cs ! i)) \<Longrightarrow> (\<And>i. i < length cs \<Longrightarrow> 3 \<le> nkeys (cs ! i)) \<Longrightarrow>
    bp_ok (Suc h) S (BInner ks cs)"

inductive_simps bp_ok_Leaf: "bp_ok h S (BLeaf ks vs)"
inductive_simps bp_ok_Inner: "bp_ok h S (BInner ks cs)"

definition inner_ok :: "nat \<Rightarrow> 'k::linorder set \<Rightarrow> 'k list \<Rightarrow> ('k, 'v) bnode list \<Rightarrow> bool" where
  "inner_ok h S ks cs \<longleftrightarrow> length cs = Suc (length ks) \<and> sorted_wrt (<) ks \<and> set ks \<subseteq> S \<and>
     (\<forall>i < length cs. bp_ok h (S \<inter> gap ks i) (cs ! i) \<and> 3 \<le> nkeys (cs ! i))"

lemma bp_ok_inner_ok: "bp_ok (Suc h) S (BInner ks cs) \<longleftrightarrow> inner_ok h S ks cs \<and> 1 \<le> length ks \<and> length ks \<le> 7"
  unfolding bp_ok_Inner inner_ok_def by auto

lemma bp_ok_mono: "bp_ok h S t \<Longrightarrow> S \<subseteq> S' \<Longrightarrow> bp_ok h S' t"
proof (induction arbitrary: S' rule: bp_ok.induct)
  case (leaf ks vs S)
  then show ?case by (auto intro: bp_ok.leaf)
next
  case (inner cs ks S h)
  show ?case by (rule bp_ok.inner) (use inner in blast)+
qed

lemma bp_ok_pairs: "bp_ok h S t \<Longrightarrow> (k, v) \<in> pairs t \<Longrightarrow> k \<in> S"
proof (induction rule: bp_ok.induct)
  case (leaf ks vs S)
  then show ?case by (auto dest: set_zip_leftD)
next
  case (inner cs ks S h)
  then obtain i where "i < length cs" "(k, v) \<in> pairs (cs ! i)" by (auto simp: in_set_conv_nth)
  then show ?case using inner.IH by blast
qed

lemma child_index_le: "child_index k ks \<le> length ks"
  by (simp add: child_index_def length_takeWhile_le)

lemma child_index_gap:
  assumes "sorted_wrt (<) ks"
  shows "k \<in> gap ks (child_index k ks)"
proof -
  have t: "take (child_index k ks) ks = takeWhile (\<lambda>x. \<not> k < x) ks" "drop (child_index k ks) ks = dropWhile (\<lambda>x. \<not> k < x) ks"
    by (simp_all add: child_index_def takeWhile_eq_take [symmetric] dropWhile_eq_drop [symmetric])
  have "k < x" if "x \<in> set (dropWhile (\<lambda>x. \<not> k < x) ks)" for x
  proof (cases "dropWhile (\<lambda>x. \<not> k < x) ks")
    case (Cons y ys)
    have "sorted_wrt (<) (y # ys)" using assms Cons by (metis sorted_wrt_append takeWhile_dropWhile_id)
    moreover have "k < y" using Cons by (metis hd_dropWhile list.discI list.sel(1))
    ultimately show ?thesis using that Cons by auto
  qed (use that in \<open>metis empty_iff list.set(1)\<close>)
  moreover have "x \<le> k" if "x \<in> set (takeWhile (\<lambda>x. \<not> k < x) ks)" for x using set_takeWhileD [OF that] by (simp add: not_less)
  ultimately show ?thesis unfolding gap_def t mem_Collect_eq by blast
qed

lemma gap_disjoint: "i < j \<Longrightarrow> j \<le> length ks \<Longrightarrow> gap ks i \<inter> gap ks j = {}"
proof (rule ccontr)
  assume "i < j" "j \<le> length ks" "gap ks i \<inter> gap ks j \<noteq> {}"
  then obtain k where k: "k \<in> gap ks i" "k \<in> gap ks j" by blast
  have "ks ! i \<in> set (take j ks)" using \<open>i < j\<close> \<open>j \<le> length ks\<close> by (auto simp: in_set_conv_nth intro!: exI [of _ i])
  moreover have "ks ! i \<in> set (drop i ks)" using \<open>i < j\<close> \<open>j \<le> length ks\<close> by (auto simp: in_set_conv_nth intro!: exI [of _ 0])
  ultimately
  show False using k by (force simp: gap_def)
qed

lemma gap_unique: "k \<in> gap ks i \<Longrightarrow> k \<in> gap ks j \<Longrightarrow> i \<le> length ks \<Longrightarrow> j \<le> length ks \<Longrightarrow> i = j"
  using gap_disjoint [of i j ks] gap_disjoint [of j i ks] by (cases i j rule: linorder_cases) auto

section \<open>Search\<close>

lemma inner_pairs:
  assumes "inner_ok h S ks cs" "k \<in> gap ks i" "i < length cs"
  shows "(k, v) \<in> pairs (BInner ks cs) \<longleftrightarrow> (k, v) \<in> pairs (cs ! i)"
proof
  assume "(k, v) \<in> pairs (BInner ks cs)"
  then obtain j where j: "j < length cs" "(k, v) \<in> pairs (cs ! j)" by (auto simp: in_set_conv_nth)
  have "bp_ok h (S \<inter> gap ks j) (cs ! j)" using assms(1) j(1) by (simp add: inner_ok_def)
  then have "k \<in> gap ks j" using bp_ok_pairs [OF _ j(2)] by blast
  then show "(k, v) \<in> pairs (cs ! i)" using gap_unique [OF assms(2)] j assms(1,3) by (force simp: inner_ok_def)
qed (use assms(3) in auto)

lemma LowerBound_leaf:
  assumes "sorted_wrt (<) (ks :: 'k::linorder list)"
  shows "LowerBound ks key \<le> length ks" "\<forall>x \<in> set (take (LowerBound ks key) ks). x < key" "\<forall>x \<in> set (drop (LowerBound ks key) ks). key \<le> x"
proof -
  have s: "sorted ks" using assms by (simp add: strict_sorted_iff)
  note L = LowerBound_correct [OF s, where x = key]
  show "LowerBound ks key \<le> length ks" "\<forall>x \<in> set (take (LowerBound ks key) ks). x < key" "\<forall>x \<in> set (drop (LowerBound ks key) ks). key \<le> x"
    using L by (auto simp: in_set_conv_nth)
qed

lemma Search_leaf:
  assumes "sorted_wrt (<) ks" "length vs = length ks"
  shows "\<exists>r. bplus_Search (BLeaf ks vs) k = Some r \<and> (\<forall>v. r = Some v \<longleftrightarrow> (k, v) \<in> set (zip ks vs))"
proof -
  let ?i = "LowerBound ks k"
  have d: "distinct ks" using assms(1) by (simp add: strict_sorted_iff)
  have ks: "(k, v) \<in> set (zip ks vs) \<longleftrightarrow> ?i < length ks \<and> ks ! ?i = k \<and> v = vs ! ?i" for v
  proof
    assume "(k, v) \<in> set (zip ks vs)"
    then obtain j where j: "j < length ks" "ks ! j = k" "vs ! j = v" using assms(2) by (auto simp: in_set_zip)
    have s: "sorted ks" using assms(1) by (simp add: strict_sorted_iff)
    have "\<not> j < ?i" using LowerBound_correct(1) [OF s, of j k] j by auto
    moreover have "\<not> ?i < j"
    proof
      assume "?i < j"
      then have "ks ! ?i < ks ! j" using assms(1) j(1) by (simp add: sorted_wrt_nth_less)
      moreover have "k \<le> ks ! ?i" using LowerBound_correct(2) [OF s, of k ?i] \<open>?i < j\<close> j(1) by simp
      ultimately show False using j(2) by simp
    qed
    ultimately have "?i = j" by simp
    then show "?i < length ks \<and> ks ! ?i = k \<and> v = vs ! ?i" using j by simp
  qed (use assms(2) in \<open>auto simp: in_set_zip\<close>)
  then show ?thesis using assms(2) by (auto simp: bplus_Search.simps Let_def)
qed

lemma Search_correct: "bp_ok h S t \<Longrightarrow> \<exists>r. bplus_Search t k = Some r \<and> (\<forall>v. r = Some v \<longleftrightarrow> (k, v) \<in> pairs t)"
proof (induction rule: bp_ok.induct)
  case (leaf ks vs S)
  then show ?case using Search_leaf by simp
next
  case (inner cs ks S h)
  have i: "child_index k ks < length cs" using child_index_le [of k ks] inner.hyps(1) by simp
  have ok: "inner_ok h S ks cs" using inner by (simp add: inner_ok_def)
  show ?case
    using inner.IH [OF i] inner_pairs [OF ok child_index_gap [OF inner.hyps(2)] i] i by (simp add: bplus_Search.simps)
qed

section \<open>Insert\<close>

lemma gap_append: "gap (xs @ ys) (length xs) = {k. (\<forall>x \<in> set xs. x \<le> k) \<and> (\<forall>y \<in> set ys. k < y)}"
  by (simp add: gap_def)

lemma gap_split:
  assumes p: "p \<in> gap (xs @ ys) (length xs)"
  shows "gap (xs @ p # ys) (length xs) = gap (xs @ ys) (length xs) \<inter> {..<p}"
    and "gap (xs @ p # ys) (Suc (length xs)) = gap (xs @ ys) (length xs) \<inter> {p..}"
    and "j < length xs \<Longrightarrow> gap (xs @ ys) j \<subseteq> gap (xs @ p # ys) j"
    and "length xs < j \<Longrightarrow> j \<le> length (xs @ ys) \<Longrightarrow> gap (xs @ ys) j \<subseteq> gap (xs @ p # ys) (Suc j)"
proof -
  show "gap (xs @ p # ys) (length xs) = gap (xs @ ys) (length xs) \<inter> {..<p}"
    "gap (xs @ p # ys) (Suc (length xs)) = gap (xs @ ys) (length xs) \<inter> {p..}"
    by (auto simp: gap_def)
  show "gap (xs @ ys) j \<subseteq> gap (xs @ p # ys) j" if j: "j < length xs"
  proof
    fix k
    assume k: "k \<in> gap (xs @ ys) j"
    have "xs ! j \<in> set (drop j xs)" using j by (metis Cons_nth_drop_Suc list.set_intros(1))
    then have "k < xs ! j" "xs ! j \<le> p" using k p j by (auto simp: gap_def)
    then show "k \<in> gap (xs @ p # ys) j" using k j by (auto simp: gap_def)
  qed
  show "gap (xs @ ys) j \<subseteq> gap (xs @ p # ys) (Suc j)" if j: "length xs < j" "j \<le> length (xs @ ys)"
  proof
    fix k
    assume k: "k \<in> gap (xs @ ys) j"
    obtain m where m: "j = length xs + Suc m" using j(1) by (metis add_Suc_right less_iff_Suc_add)
    obtain y ys' where ys: "ys = y # ys'" using j by (cases ys) auto
    have "y \<le> k" "p < y" using k p by (auto simp: gap_def m ys)
    then show "k \<in> gap (xs @ p # ys) (Suc j)" using k by (auto simp: gap_def m ys Suc_diff_le)
  qed
qed

lemma split_node_ok:
  assumes ok: "bp_ok h S c" and n: "nkeys c = 7" and s: "split_node c = (l, p, r)"
  shows "bp_ok h (S \<inter> {..<p}) l \<and> bp_ok h (S \<inter> {p..}) r \<and> p \<in> S \<and> (\<exists>q \<in> S. q < p) \<and>
         pairs c = pairs l \<union> pairs r \<and> 3 \<le> nkeys l \<and> nkeys l < 7 \<and> 3 \<le> nkeys r \<and> nkeys r < 7"
  using ok
proof cases
  case (leaf ks vs)
  have 7: "length ks = 7" "length vs = 7" using n leaf by simp_all
  have l: "l = BLeaf (take 3 ks) (take 3 vs)" "p = ks ! 3" "r = BLeaf (drop 3 ks) (drop 3 vs)" using s leaf by simp_all
  define xs ys where "xs = take 3 ks" and "ys = drop 4 ks"
  have ks: "ks = xs @ p # ys" by (subst id_take_nth_drop [of 3 ks]) (simp_all add: 7 xs_def ys_def l(2))
  have n3: "length xs = 3" "length ys = 3" using 7 by (simp_all add: xs_def ys_def)
  have "drop 3 ks = p # ys" "take 3 ks = xs" by (subst ks, simp add: n3)+
  note xy = this n3
  have so: "sorted_wrt (<) xs" "sorted_wrt (<) (p # ys)" "\<forall>x \<in> set xs. x < p" "set ks = set xs \<union> set (p # ys)"
    using leaf(3) by (auto simp: ks sorted_wrt_append)
  have "zip ks vs = zip (take 3 ks) (take 3 vs) @ zip (drop 3 ks) (drop 3 vs)" by (metis append_take_drop_id drop_zip take_zip)
  then have "pairs c = pairs l \<union> pairs r" using leaf(2) l by simp
  moreover have "bp_ok h (S \<inter> {..<p}) l" "bp_ok h (S \<inter> {p..}) r" using so leaf(1,5) 7 xy by (auto simp: l(1,3) bp_ok_Leaf)
  moreover have "p \<in> S" "hd xs \<in> S" "hd xs < p" using so leaf(5) xy by (cases xs; auto)+
  ultimately show ?thesis using l xy 7 by auto
next
  case (inner cs ks h')
  have 7: "length ks = 7" "length cs = 8" using n inner by simp_all
  have l: "l = BInner (take 3 ks) (take 4 cs)" "p = ks ! 3" "r = BInner (drop 4 ks) (drop 4 cs)" using s inner by simp_all
  define xs ys where "xs = take 3 ks" and "ys = drop 4 ks"
  have ks: "ks = xs @ p # ys" by (subst id_take_nth_drop [of 3 ks]) (simp_all add: 7 xs_def ys_def l(2))
  have xy: "length xs = 3" "length ys = 3" using 7 by (simp_all add: xs_def ys_def)
  have s: "sorted_wrt (<) xs" "sorted_wrt (<) ys" "\<forall>x \<in> set xs. x < p" "\<forall>y \<in> set ys. p < y"
    using inner(4) by (auto simp: ks sorted_wrt_append)
  have kid: "bp_ok h' (S \<inter> gap ks i) (cs ! i) \<and> 3 \<le> nkeys (cs ! i)" if "i < 8" for i using inner(8,9) that 7 by simp
  have gl: "S \<inter> gap ks i \<subseteq> S \<inter> {..<p} \<inter> gap xs i" if "i < 4" for i
    using that xy by (auto simp: ks gap_def split: if_splits)
  have gr: "S \<inter> gap ks (4 + i) \<subseteq> S \<inter> {p..} \<inter> gap ys i" for i
    using xy by (auto simp: ks gap_def)
  have kl: "bp_ok h' (S \<inter> {..<p} \<inter> gap xs i) (cs ! i) \<and> 3 \<le> nkeys (cs ! i)" if "i < 4" for i
    using kid [of i] bp_ok_mono [OF conjunct1 [OF kid] gl [OF that]] that by simp
  have kr: "bp_ok h' (S \<inter> {p..} \<inter> gap ys i) (cs ! (4 + i)) \<and> 3 \<le> nkeys (cs ! (4 + i))" if "i < 4" for i
    using kid [of "4 + i"] bp_ok_mono [OF conjunct1 [OF kid] gr [of i]] that by simp
  have S: "set xs \<subseteq> S" "set ys \<subseteq> S" "p \<in> S" using inner(5) by (simp_all add: ks)
  have "bp_ok h (S \<inter> {..<p}) l"
    unfolding inner(1) l(1) bp_ok_inner_ok inner_ok_def xs_def [symmetric]
    using s(1,3) S(1) 7 xy kl by auto
  moreover have "bp_ok h (S \<inter> {p..}) r"
    unfolding inner(1) l(3) bp_ok_inner_ok inner_ok_def ys_def [symmetric]
    using s(2,4) S(2) 7 xy kr by auto
  moreover have "pairs c = pairs l \<union> pairs r" unfolding inner(2) l by (metis UN_Un append_take_drop_id pairs.simps(2) set_append)
  moreover have "hd xs \<in> S" "hd xs < p" using S(1) s(3) xy by (cases xs; auto)+
  ultimately show ?thesis using 7 S(3) by (auto simp: l)
qed

lemma splitChild_ok:
  assumes ok: "inner_ok h S ks cs" and i: "i < length cs" and full: "nkeys (cs ! i) = 7" and s: "splitChild ks cs i = (ks', cs')"
  shows "inner_ok h S ks' cs' \<and> pairs (BInner ks' cs') = pairs (BInner ks cs) \<and> length ks' = Suc (length ks) \<and>
         gap ks i \<subseteq> gap ks' i \<union> gap ks' (Suc i) \<and> nkeys (cs' ! i) < 7 \<and> nkeys (cs' ! Suc i) < 7 \<and> ks' ! i \<in> S"
proof -
  obtain l p r where lpr: "split_node (cs ! i) = (l, p, r)" by (cases "split_node (cs ! i)")
  define xs ys where "xs = take i ks" and "ys = drop i ks"
  have len: "length cs = Suc (length ks)" using ok by (simp add: inner_ok_def)
  have ks: "ks = xs @ ys" "length xs = i" using i len by (auto simp: xs_def ys_def)
  have ks': "ks' = xs @ p # ys" "cs' = take i cs @ l # r # drop (Suc i) cs" using s by (auto simp: splitChild_def lpr xs_def ys_def)
  have kid: "bp_ok h (S \<inter> gap ks j) (cs ! j) \<and> 3 \<le> nkeys (cs ! j)" if "j < length cs" for j using ok that by (simp add: inner_ok_def)
  note sp = split_node_ok [OF conjunct1 [OF kid [OF i]] full lpr]
  have p: "p \<in> gap (xs @ ys) (length xs)" "p \<in> S" using sp by (simp_all add: ks)
  note g = gap_split [OF p(1), folded ks(1), unfolded ks(2)]
  have "\<exists>q \<in> S \<inter> gap ks i. q < p" using sp by blast
  then obtain q where q: "q \<in> gap (xs @ ys) (length xs)" "q < p" unfolding ks(1) ks(2) by blast
  have "sorted_wrt (<) (xs @ ys)" using ok unfolding inner_ok_def ks(1) by blast
  moreover have "x < p" if "x \<in> set xs" for x using q that unfolding gap_append by force
  moreover have "p < y" if "y \<in> set ys" for y using p(1) that unfolding gap_append by blast
  ultimately have "sorted_wrt (<) ks'" unfolding ks'(1) by (simp add: sorted_wrt_append)
  moreover have "bp_ok h (S \<inter> gap ks' j) (cs' ! j) \<and> 3 \<le> nkeys (cs' ! j)" if j: "j < length cs'" for j
  proof -
    consider "j < i" | "j = i" | "j = Suc i" | m where "j = Suc m" "i < m" "m < length cs"
      using j i by (cases j) (auto simp: ks', linarith)
    then show ?thesis
    proof cases
      case 1
      then have "S \<inter> gap ks j \<subseteq> S \<inter> gap ks' j" using g(3) by (auto simp: ks')
      moreover have "cs' ! j = cs ! j" "j < length cs" using 1 i by (simp_all add: ks' nth_append)
      ultimately show ?thesis using kid [of j] bp_ok_mono by metis
    next
      case 2
      then show ?thesis using sp g(1) i by (simp add: ks' nth_append Int_assoc)
    next
      case 3
      then show ?thesis using sp g(2) i by (simp add: ks' nth_append Int_assoc)
    next
      case (4 m)
      then have "S \<inter> gap ks m \<subseteq> S \<inter> gap ks' j" using g(4) [of m] len by (auto simp: ks')
      moreover have "cs' ! j = cs ! m" using 4 i by (simp add: ks' nth_append)
      ultimately show ?thesis using kid [OF 4(3)] bp_ok_mono by metis
    qed
  qed
  moreover have "set cs = set (take i cs) \<union> {cs ! i} \<union> set (drop (Suc i) cs)" using i by (metis Un_insert_right id_take_nth_drop insert_is_Un list.set(2) set_append sup_assoc sup_bot_right)
  then have "pairs (BInner ks' cs') = pairs (BInner ks cs)" using sp by (auto simp: ks')
  ultimately show ?thesis
    using ok p(2) sp g(1,2) i by (auto simp: inner_ok_def ks ks' nth_append)
qed

lemma leaf_insert:
  assumes s: "sorted_wrt (<) ks" "length vs = length ks" and k: "k \<notin> fst ` set (zip ks vs)"
  defines "i \<equiv> LowerBound ks k"
  shows "sorted_wrt (<) (take i ks @ k # drop i ks) \<and> set (zip (take i ks @ k # drop i ks) (take i vs @ v # drop i vs)) = insert (k, v) (set (zip ks vs))"
proof -
  note L = LowerBound_leaf [OF s(1), of k, folded i_def]
  have notin: "k \<notin> set ks" using k s(2) by (metis image_eqI in_set_impl_in_set_zip1 prod.sel(1))
  have "sorted_wrt (<) (take i ks @ drop i ks)" using s(1) by simp
  moreover have "k < x" if "x \<in> set (drop i ks)" for x using L(3) that notin by (metis in_set_dropD le_neq_trans)
  ultimately have "sorted_wrt (<) (take i ks @ k # drop i ks)" using L(2) unfolding sorted_wrt_append by auto
  moreover have "zip ks vs = zip (take i ks) (take i vs) @ zip (drop i ks) (drop i vs)" by (metis append_take_drop_id drop_zip take_zip)
  ultimately show ?thesis using s(2) L(1) by (auto simp: min_def)
qed

lemma make_room_ok:
  assumes ok: "inner_ok h S ks cs" and k: "k \<in> S" and m: "make_room k ks cs (child_index k ks) = (ks', cs', i)"
  shows "inner_ok h S ks' cs' \<and> pairs (BInner ks' cs') = pairs (BInner ks cs) \<and> length ks \<le> length ks' \<and> length ks' \<le> Suc (length ks) \<and>
         i < length cs' \<and> k \<in> gap ks' i \<and> (nkeys (cs' ! i) < 7 \<or> 7 < nkeys (cs' ! i))"
proof -
  let ?i = "child_index k ks"
  have len: "length cs = Suc (length ks)" and so: "sorted_wrt (<) ks" using ok by (simp_all add: inner_ok_def)
  have i: "?i < length cs" using child_index_le [of k ks] len by simp
  have g: "k \<in> gap ks ?i" by (rule child_index_gap [OF so])
  show ?thesis
  proof (cases "nkeys (cs ! ?i) = 7")
    case True
    obtain ks1 cs1 where s: "splitChild ks cs ?i = (ks1, cs1)" by fastforce
    have e: "ks' = ks1" "cs' = cs1" "i = (if k \<ge> ks1 ! ?i then ?i + 1 else ?i)" using m True s by (auto simp: make_room_def)
    note sp = splitChild_ok [OF ok i True s]
    have len1: "length ks1 = Suc (length ks)" "length cs1 = Suc (length ks1)" using sp by (simp_all add: inner_ok_def)
    have idx: "?i < length ks1" using len1 i len by simp
    have "k \<in> gap ks1 i"
    proof (cases "k \<ge> ks1 ! ?i")
      case True
      then have "k \<notin> gap ks1 ?i" using idx by (auto simp: gap_def Cons_nth_drop_Suc [symmetric])
      then show ?thesis using sp g e True by auto
    next
      case False
      then have "k \<notin> gap ks1 (Suc ?i)" using idx by (auto simp: gap_def take_Suc_conv_app_nth)
      then show ?thesis using sp g e False by auto
    qed
    then show ?thesis using sp e idx len1 by auto
  next
    case False
    then show ?thesis using m ok i g by (auto simp: make_room_def)
  qed
qed

lemma pairs_update:
  assumes "i < length cs" "pairs c = insert x (pairs (cs ! i))"
  shows "(\<Union>d \<in> set (cs[i := c]). pairs d) = insert x (\<Union>d \<in> set cs. pairs d)"
proof -
  have "set cs = set (take i cs) \<union> {cs ! i} \<union> set (drop (Suc i) cs)" "set (cs[i := c]) = set (take i cs) \<union> {c} \<union> set (drop (Suc i) cs)"
    using assms(1) by (subst id_take_nth_drop [of i cs], auto simp: upd_conv_take_nth_drop)+
  then show ?thesis using assms(2) by auto
qed

lemma bp_ok_nkeys: "bp_ok h S t \<Longrightarrow> nkeys t \<le> 7"
  by (cases rule: bp_ok.cases) auto

lemma insertNonFull_ok:
  "bp_ok h S t \<Longrightarrow> nkeys t < 7 \<Longrightarrow> k \<in> S \<Longrightarrow> k \<notin> fst ` pairs t \<Longrightarrow>
   \<exists>t'. insertNonFull t k v = Some t' \<and> bp_ok h S t' \<and> pairs t' = insert (k, v) (pairs t) \<and> nkeys t \<le> nkeys t'"
proof (induction h arbitrary: S t)
  case 0
  then obtain ks vs where t: "t = BLeaf ks vs" "sorted_wrt (<) ks" "length vs = length ks" "set ks \<subseteq> S" by (cases rule: bp_ok.cases) auto
  show ?case using leaf_insert [OF t(2,3), of k v] 0 t
    by (auto simp: insertNonFull.simps Let_def bp_ok_Leaf dest: in_set_takeD in_set_dropD)
next
  case (Suc h)
  from Suc.prems(1) obtain ks cs where t: "t = BInner ks cs" by (cases rule: bp_ok.cases) auto
  have ok: "inner_ok h S ks cs" "1 \<le> length ks" using Suc.prems(1) by (simp_all add: t bp_ok_inner_ok)
  obtain ks' cs' i where m: "make_room k ks cs (child_index k ks) = (ks', cs', i)" by (cases "make_room k ks cs (child_index k ks)")
  note r = make_room_ok [OF ok(1) Suc.prems(3) m]
  have kid: "bp_ok h (S \<inter> gap ks' i) (cs' ! i)" "3 \<le> nkeys (cs' ! i)" using r by (simp_all add: inner_ok_def)
  have "nkeys (cs' ! i) < 7" using r bp_ok_nkeys [OF kid(1)] by simp
  moreover have "pairs (cs' ! i) \<subseteq> pairs t" using r by (auto simp: t)
  then have "k \<notin> fst ` pairs (cs' ! i)" using Suc.prems(4) by blast
  moreover have "k \<in> S \<inter> gap ks' i" using Suc.prems(3) r by blast
  ultimately obtain c where c: "insertNonFull (cs' ! i) k v = Some c" "bp_ok h (S \<inter> gap ks' i) c" "pairs c = insert (k, v) (pairs (cs' ! i))" "nkeys (cs' ! i) \<le> nkeys c"
    using Suc.IH [OF kid(1)] by metis
  have idx: "child_index k ks < length cs" using child_index_le [of k ks] ok(1) by (simp add: inner_ok_def)
  have "inner_ok h S ks' (cs'[i := c])" using r c kid(2) by (auto simp: inner_ok_def nth_list_update)
  moreover have "pairs (BInner ks' (cs'[i := c])) = insert (k, v) (pairs (BInner ks' cs'))"
    using r c(3) by (simp add: pairs_update)
  ultimately show ?case using c(1) m r ok Suc.prems(2) idx by (simp add: t insertNonFull.simps bp_ok_inner_ok)
qed

lemma Insert_ok:
  assumes ok: "bp_ok h UNIV t" and k: "k \<notin> fst ` pairs t"
  shows "\<exists>t' h'. bplus_Insert k v t = Some t' \<and> bp_ok h' UNIV t' \<and> pairs t' = insert (k, v) (pairs t)"
proof (cases "nkeys t = 7")
  case True
  obtain ks cs where s: "splitChild [] [t] 0 = (ks, cs)" by fastforce
  have "inner_ok h UNIV [] [t]" using ok True by (simp add: inner_ok_def gap_def)
  from splitChild_ok [OF this _ _ s] True have r: "inner_ok h UNIV ks cs" "pairs (BInner ks cs) = pairs t" "length ks = 1" by simp_all
  then have "bp_ok (Suc h) UNIV (BInner ks cs)" by (simp add: bp_ok_inner_ok)
  from insertNonFull_ok [OF this, of k v] show ?thesis using k r True s by (auto simp: bplus_Insert_def)
next
  case False
  then show ?thesis using insertNonFull_ok [OF ok, of k v] bp_ok_nkeys [OF ok] k by (fastforce simp: bplus_Insert_def)
qed

text \<open>A tree of height \<open>h\<close> has at least \<open>6 \<cdot> 4 ^ (h - 1)\<close> keys, so the height is logarithmic.\<close>

lemma finite_pairs: "finite (pairs t)"
  by (induction t) auto

lemma card_children:
  assumes ok: "inner_ok h S ks cs" and n: "\<And>i. i < length cs \<Longrightarrow> n \<le> card (pairs (cs ! i))"
  shows "length cs * n \<le> card (pairs (BInner ks cs))"
proof -
  have "pairs (BInner ks cs) = (\<Union>i < length cs. pairs (cs ! i))" by (auto simp: set_conv_nth)
  moreover have "pairs (cs ! i) \<inter> pairs (cs ! j) = {}" if "i < length cs" "j < length cs" "i \<noteq> j" for i j
  proof -
    have "fst x \<in> gap ks i" if "x \<in> pairs (cs ! i)" "i < length cs" for x i
      using ok bp_ok_pairs [of h "S \<inter> gap ks i" "cs ! i" "fst x" "snd x"] that by (auto simp: inner_ok_def)
    then show ?thesis using that gap_unique [of _ ks i j] ok by (fastforce simp: inner_ok_def)
  qed
  ultimately have "card (pairs (BInner ks cs)) = (\<Sum>i < length cs. card (pairs (cs ! i)))"
    using card_UN_disjoint [of "{..<length cs}" "\<lambda>i. pairs (cs ! i)"] by (simp add: finite_pairs)
  then show ?thesis using sum_mono [of "{..<length cs}" "\<lambda>_. n" "\<lambda>i. card (pairs (cs ! i))"] n by simp
qed

lemma height_bound: "bp_ok h S t \<Longrightarrow> 3 \<le> nkeys t \<Longrightarrow> 3 * 4 ^ h \<le> card (pairs t)"
proof (induction h arbitrary: S t)
  case 0
  then obtain ks vs where t: "t = BLeaf ks vs" "sorted_wrt (<) ks" "length vs = length ks" by (cases rule: bp_ok.cases) auto
  then have "distinct (zip ks vs)" by (simp add: strict_sorted_iff distinct_zipI1)
  then show ?case using 0 t by (simp add: distinct_card)
next
  case (Suc h)
  from Suc.prems(1) obtain ks cs where t: "t = BInner ks cs" by (cases rule: bp_ok.cases) auto
  have ok: "inner_ok h S ks cs" using Suc.prems(1) by (simp add: t bp_ok_inner_ok)
  have "length cs * (3 * 4 ^ h) \<le> card (pairs t)"
    unfolding t by (rule card_children [OF ok], rule Suc.IH) (use ok in \<open>auto simp: inner_ok_def\<close>)
  moreover have "4 \<le> length cs" using Suc.prems(2) ok by (simp add: t inner_ok_def)
  then have "4 * (3 * 4 ^ h) \<le> length cs * (3 * 4 ^ h)" by (rule mult_le_mono1)
  ultimately have "4 * (3 * 4 ^ h) \<le> card (pairs t)" by (metis order.trans)
  then show ?case by simp
qed

fun insert_all :: "('k::linorder \<times> 'v) list \<Rightarrow> ('k, 'v) bnode \<Rightarrow> ('k, 'v) bnode option" where
  "insert_all [] t = Some t"
| "insert_all ((k, v) # kvs) t = Option.bind (bplus_Insert k v t) (insert_all kvs)"

lemma insert_all_ok:
  "bp_ok h UNIV t \<Longrightarrow> distinct (map fst kvs) \<Longrightarrow> fst ` set kvs \<inter> fst ` pairs t = {} \<Longrightarrow>
   \<exists>t' h'. insert_all kvs t = Some t' \<and> bp_ok h' UNIV t' \<and> pairs t' = set kvs \<union> pairs t"
proof (induction kvs arbitrary: t h)
  case (Cons kv kvs)
  obtain k v where kv: "kv = (k, v)" by (cases kv)
  have "k \<notin> fst ` pairs t" using Cons.prems(3) kv by auto
  then obtain t1 h1 where t1: "bplus_Insert k v t = Some t1" "bp_ok h1 UNIV t1" "pairs t1 = insert (k, v) (pairs t)"
    using Insert_ok [OF Cons.prems(1)] by blast
  have "fst ` set kvs \<inter> fst ` pairs t1 = {}" using Cons.prems(2,3) kv t1(3) by auto
  from Cons.IH [OF t1(2) _ this] show ?case using Cons.prems(2) kv t1 by auto
qed auto

text \<open>
  C23: The B+ tree is a map for distinct keys.  After any sequence of \<^verbatim>\<open>Insert\<close>s of pairwise different keys, through all node splits and
  without an index out of range, \<^verbatim>\<open>Search\<close> finds exactly the inserted keys with their values; all leaves have the same depth, every node has at most seven keys
  and every node but the root at least three, and the height is logarithmic in the number of keys.
\<close>

theorem bplus_correct:
  assumes "distinct (map fst kvs)"
  shows "\<exists>t h. insert_all kvs bplus_New = Some t \<and> bp_ok h UNIV t \<and> (\<forall>k. bplus_Search t k = Some (map_of kvs k)) \<and>
           (0 < h \<longrightarrow> 6 * 4 ^ (h - 1) \<le> length kvs)"
proof -
  have "bp_ok 0 UNIV bplus_New" by (simp add: bplus_New_def bp_ok_Leaf)
  from insert_all_ok [OF this assms] obtain t h where t: "insert_all kvs bplus_New = Some t" "bp_ok h UNIV t" "pairs t = set kvs"
    by (auto simp: bplus_New_def)
  have "bplus_Search t k = Some (map_of kvs k)" for k
  proof -
    obtain r where r: "bplus_Search t k = Some r" "\<forall>v. r = Some v \<longleftrightarrow> (k, v) \<in> set kvs" using Search_correct [OF t(2), of k] t(3) by auto
    have "r = map_of kvs k" using r(2) assms by (metis map_of_SomeD map_of_is_SomeI not_None_eq)
    then show ?thesis using r(1) by simp
  qed
  moreover have "6 * 4 ^ (h - 1) \<le> length kvs" if h: "0 < h"
  proof -
    obtain g where g: "h = Suc g" using h by (cases h) auto
    from t(2) obtain ks cs where i: "t = BInner ks cs" by (cases rule: bp_ok.cases) (auto simp: g)
    have ok: "inner_ok g UNIV ks cs" "2 \<le> length cs" using t(2) by (auto simp: i g bp_ok_inner_ok inner_ok_def)
    have "length cs * (3 * 4 ^ g) \<le> card (pairs t)"
      unfolding i by (rule card_children [OF ok(1)], rule height_bound) (use ok(1) in \<open>auto simp: inner_ok_def\<close>)
    moreover have "card (pairs t) \<le> length kvs" using t(3) by (simp add: card_length)
    moreover have "2 * (3 * 4 ^ g) \<le> length cs * (3 * 4 ^ g)" using ok(2) by (rule mult_le_mono1)
    ultimately have "2 * (3 * 4 ^ g) \<le> length kvs" by (metis order.trans)
    then show ?thesis by (simp add: g)
  qed
  ultimately show ?thesis using t by blast
qed

theorem bplus_correct_witness:
  "\<exists>t h. insert_all (map (\<lambda>i. (i, i * i)) [0..<9]) bplus_New = Some t \<and> bp_ok h UNIV t \<and> bplus_Search t 8 = Some (Some (64::nat))"
  using bplus_correct [of "map (\<lambda>i. (i, i * i)) [0..<9::nat]"] by (fastforce simp: comp_def upt_rec numeral_eq_Suc)

text \<open>
  Inserting a key again can bring back its old value.  \<^verbatim>\<open>Insert\<close> adds a second entry in front of the first one; when a split separates
  them, \<^verbatim>\<open>Search\<close> follows the separator to the right half and returns the older value.
\<close>

lemma bplus_stale:
  "Option.bind (insert_all (map (Pair (1::nat)) [1, 2, 3, 4, 5, 6, 7 :: nat] @ [(2, 0)]) bplus_New) (\<lambda>t. bplus_Search t 1) = Some (Some 4)"
  by code_simp

end
