(* ===== verification/Job_Scheduler.thy ===== *)
theory Job_Scheduler
  imports Prelude
begin

text \<open>
  \<^verbatim>\<open>pkg/concurrency/distlock/adapters/memory\<close> and the job scheduler over it, \<^verbatim>\<open>pkg/workflow/scheduler\<close>.  Times and durations are integers of
  nanoseconds, 0 for the zero time.  The goroutines that \<^verbatim>\<open>tick\<close> starts move from one critical section to the next, so a sequence of events is an
  interleaving of them with the clients.  Several schedulers, the nodes, share one lock adapter.  The value that a new lock takes from the clock, the
  identifiers and the answers of the cron library are arguments; the clock is read once in each critical section.
\<close>

section \<open>The lock\<close>

record lockEntry =
  entryValue :: string
  expiresAt :: int

record Lock =
  lockKey :: string
  lockValue :: string
  lockTTL :: int
  held :: bool

type_synonym Adapter = "string \<rightharpoonup> lockEntry"

definition NewLock :: "string \<Rightarrow> string \<Rightarrow> int \<Rightarrow> Lock" where
  "NewLock nowString key ttl = \<lparr>lockKey = key, lockValue = nowString, lockTTL = ttl, held = False\<rparr>"

definition lock_Acquire :: "int \<Rightarrow> Lock \<Rightarrow> Adapter \<Rightarrow> bool \<times> Lock \<times> Adapter" where
  "lock_Acquire now l a =
     (if \<exists>entry. a (lockKey l) = Some entry \<and> expiresAt entry > now then (False, l, a)
      else (True, l\<lparr>held := True\<rparr>, a(lockKey l \<mapsto> \<lparr>entryValue = lockValue l, expiresAt = now + lockTTL l\<rparr>)))"

definition lock_Release :: "Lock \<Rightarrow> Adapter \<Rightarrow> Lock \<times> Adapter" where
  "lock_Release l a =
     (case a (lockKey l) of
        Some entry \<Rightarrow> if entryValue entry = lockValue l then (l\<lparr>held := False\<rparr>, a(lockKey l := None)) else (l, a)
      | None \<Rightarrow> (l, a))"

definition lock_Extend :: "int \<Rightarrow> int \<Rightarrow> Lock \<Rightarrow> Adapter \<Rightarrow> Lock \<times> Adapter" where
  "lock_Extend now ttl l a =
     (case a (lockKey l) of
        Some entry \<Rightarrow>
          if entryValue entry = lockValue l then (l, a(lockKey l \<mapsto> entry\<lparr>expiresAt := now + ttl\<rparr>)) else (l\<lparr>held := False\<rparr>, a)
      | None \<Rightarrow> (l\<lparr>held := False\<rparr>, a))"

lemma Extend_excludes:
  assumes "lock_Acquire t l a = (True, k, b)" "lock_Extend now ttl k b = (k', b')" "lockKey m = lockKey l" "now' < now + ttl"
  shows "\<not> fst (lock_Acquire now' m b')"
  using assms by (auto simp: lock_Acquire_def lock_Extend_def split: if_splits)

lemma Extend_other:
  assumes "a (lockKey l) = Some entry" "entryValue entry \<noteq> lockValue l"
  shows "lock_Extend now ttl l a = (l\<lparr>held := False\<rparr>, a)" "lock_Release l a = (l, a)"
  using assms by (simp_all add: lock_Extend_def lock_Release_def)

section \<open>The scheduler\<close>

text \<open>\<open>JobNone\<close> is the empty status of a job that has not run.\<close>

datatype JobStatus = JobNone | JobPending | JobRunning | JobCompleted | JobFailed | JobSkipped

record Job =
  jobID :: string
  jobName :: string
  jobSchedule :: string
  NextRun :: int
  LastRun :: int
  LastStatus :: JobStatus
  jobTimeout :: int
  Enabled :: bool
  jobCreatedAt :: int

record JobExecution =
  jxID :: string
  jxJobID :: string
  jxStatus :: JobStatus
  jxError :: string
  jxStartedAt :: int
  jxCompletedAt :: int

record Scheduler =
  hasLocker :: bool
  jobs :: "string \<rightharpoonup> Job"
  jobHandlers :: "string set"
  jobExecutions :: "string \<rightharpoonup> JobExecution list"

definition hour :: int where
  "hour = 3600000000000"

definition sched_New :: "bool \<Rightarrow> Scheduler" where
  "sched_New l = \<lparr>hasLocker = l, jobs = Map.empty, jobHandlers = {}, jobExecutions = Map.empty\<rparr>"

text \<open>\<open>cron schedule from\<close> is the next time of the cron library, 0 if there is none, or nothing for a schedule that it rejects.\<close>

definition nextRunTime :: "(string \<Rightarrow> int \<Rightarrow> int option) \<Rightarrow> string \<Rightarrow> int \<Rightarrow> int option" where
  "nextRunTime cron schedule from =
     (if schedule = '''' then None
      else if schedule = ''once'' then Some 0
      else case cron schedule from of None \<Rightarrow> None | Some t \<Rightarrow> if t = 0 then None else Some t)"

definition new_job :: "string \<Rightarrow> int \<Rightarrow> string \<Rightarrow> string \<Rightarrow> int \<Rightarrow> Job" where
  "new_job uuid now name schedule nextRun =
     \<lparr>jobID = uuid, jobName = name, jobSchedule = schedule, NextRun = nextRun, LastRun = 0, LastStatus = JobNone, jobTimeout = hour,
      Enabled = True, jobCreatedAt = now\<rparr>"

text \<open>\<open>handler\<close> says whether a handler was given.  The copies that are written to a store are left out, here and below.\<close>

definition Schedule :: "(string \<Rightarrow> int \<Rightarrow> int option) \<Rightarrow> string \<Rightarrow> int \<Rightarrow> string \<Rightarrow> string \<Rightarrow> bool \<Rightarrow> Scheduler \<Rightarrow> Scheduler \<times> bool" where
  "Schedule cron uuid now name schedule handler s =
     (if name = '''' then (s, False)
      else if \<not> handler then (s, False)
      else case nextRunTime cron schedule now of
             None \<Rightarrow> (s, False)
           | Some nextRun \<Rightarrow>
               (s\<lparr>jobs := (jobs s)(name \<mapsto> new_job uuid now name schedule nextRun), jobHandlers := insert name (jobHandlers s)\<rparr>, True))"

definition ScheduleOnce :: "string \<Rightarrow> int \<Rightarrow> string \<Rightarrow> int \<Rightarrow> bool \<Rightarrow> Scheduler \<Rightarrow> Scheduler \<times> bool" where
  "ScheduleOnce uuid now name runAt handler s =
     (if name = '''' then (s, False)
      else if \<not> handler then (s, False)
      else (s\<lparr>jobs := (jobs s)(name \<mapsto> new_job uuid now name ''once'' runAt), jobHandlers := insert name (jobHandlers s)\<rparr>, True))"

text \<open>The names of the due jobs, for which \<^verbatim>\<open>tick\<close> starts goroutines; \<open>ks\<close> is the order in which the range over the map meets the jobs.\<close>

definition sched_tick :: "string list \<Rightarrow> int \<Rightarrow> Scheduler \<Rightarrow> string list" where
  "sched_tick ks now s =
     map jobName (filter (\<lambda>job. Enabled job \<and> NextRun job \<noteq> 0 \<and> \<not> NextRun job > now) (List.map_filter (jobs s) ks))"

definition EnableJob :: "string \<Rightarrow> Scheduler \<Rightarrow> Scheduler \<times> bool" where
  "EnableJob name s =
     (case jobs s name of None \<Rightarrow> (s, False) | Some job \<Rightarrow> (s\<lparr>jobs := (jobs s)(name \<mapsto> job\<lparr>Enabled := True\<rparr>)\<rparr>, True))"

definition DisableJob :: "string \<Rightarrow> Scheduler \<Rightarrow> Scheduler \<times> bool" where
  "DisableJob name s =
     (case jobs s name of None \<Rightarrow> (s, False) | Some job \<Rightarrow> (s\<lparr>jobs := (jobs s)(name \<mapsto> job\<lparr>Enabled := False\<rparr>)\<rparr>, True))"

text \<open>
  A call of \<^verbatim>\<open>executeJob\<close>, or of \<^verbatim>\<open>RunNow\<close> when the flag is set: before it reads the job, before it takes the lock, while its handler runs,
  before the deferred release, and after its return.
\<close>

datatype job_run =
    GReady bool string
  | GRead bool string Job
  | GRunning bool string "Lock option" JobExecution
  | GDone "Lock option"
  | GGone

definition executeJob_read :: "bool \<Rightarrow> string \<Rightarrow> Scheduler \<Rightarrow> job_run" where
  "executeJob_read manual name s =
     (case jobs s name of
        None \<Rightarrow> GGone
      | Some job \<Rightarrow> if name \<notin> jobHandlers s then GGone else GRead manual name job)"

definition executeJob_lock :: "bool \<Rightarrow> string \<Rightarrow> string \<Rightarrow> int \<Rightarrow> bool \<Rightarrow> string \<Rightarrow> Job \<Rightarrow> Adapter \<Rightarrow> job_run \<times> Adapter" where
  "executeJob_lock locker nowString uuid now manual name job a =
     (let exec = \<lparr>jxID = uuid, jxJobID = jobID job, jxStatus = JobRunning, jxError = '''', jxStartedAt = now, jxCompletedAt = 0\<rparr> in
      if locker
      then let ttl = (if jobTimeout job \<le> 0 then 30000000000 else jobTimeout job);
               (acquired, l, a') = lock_Acquire now (NewLock nowString (''workflow:scheduler:'' @ name) ttl) a
           in if \<not> acquired then (GGone, a') else (GRunning manual name (Some l) exec, a')
      else (GRunning manual name None exec, a))"

definition job_outcome :: "string option \<Rightarrow> int \<Rightarrow> JobExecution \<Rightarrow> JobExecution" where
  "job_outcome err now exec =
     (case err of
        Some e \<Rightarrow> exec\<lparr>jxCompletedAt := now, jxStatus := JobFailed, jxError := e\<rparr>
      | None \<Rightarrow> exec\<lparr>jxCompletedAt := now, jxStatus := JobCompleted\<rparr>)"

definition add_execution :: "string \<Rightarrow> JobExecution \<Rightarrow> Scheduler \<Rightarrow> Scheduler" where
  "add_execution name exec s =
     s\<lparr>jobExecutions := (jobExecutions s)(name \<mapsto> (case jobExecutions s name of None \<Rightarrow> [] | Some xs \<Rightarrow> xs) @ [exec])\<rparr>"

definition executeJob_end :: "(string \<Rightarrow> int \<Rightarrow> int option) \<Rightarrow> string option \<Rightarrow> int \<Rightarrow> string \<Rightarrow> JobExecution \<Rightarrow> Scheduler \<Rightarrow> Scheduler" where
  "executeJob_end cron err now name exec s =
     (case jobs s name of
        None \<Rightarrow> s
      | Some job \<Rightarrow>
          let exec = job_outcome err now exec;
              job = job\<lparr>LastRun := jxStartedAt exec, LastStatus := jxStatus exec\<rparr>;
              job = (if jobSchedule job \<noteq> ''once''
                     then case nextRunTime cron (jobSchedule job) now of Some nxt \<Rightarrow> job\<lparr>NextRun := nxt\<rparr> | None \<Rightarrow> job
                     else job\<lparr>Enabled := False\<rparr>)
          in add_execution name exec (s\<lparr>jobs := (jobs s)(name \<mapsto> job)\<rparr>))"

definition RunNow_end :: "string option \<Rightarrow> int \<Rightarrow> string \<Rightarrow> JobExecution \<Rightarrow> Scheduler \<Rightarrow> Scheduler" where
  "RunNow_end err now name exec s =
     (let exec = job_outcome err now exec in
      add_execution name exec
        (case jobs s name of
           None \<Rightarrow> s
         | Some job \<Rightarrow> s\<lparr>jobs := (jobs s)(name \<mapsto> job\<lparr>LastRun := jxStartedAt exec, LastStatus := jxStatus exec\<rparr>)\<rparr>))"

section \<open>Nodes that share a locker\<close>

record Cluster =
  nodes :: "Scheduler list"
  locks :: Adapter
  gor :: "(nat \<times> job_run) list"

definition cluster_New :: "nat \<Rightarrow> bool \<Rightarrow> Cluster" where
  "cluster_New n locker = \<lparr>nodes = replicate n (sched_New locker), locks = Map.empty, gor = []\<rparr>"

datatype sched_event =
    SvSchedule nat string string string bool
  | SvOnce nat string string int bool
  | SvEnable nat string
  | SvDisable nat string
  | SvTick nat "string list"
  | SvRunNow nat string
  | SvRead nat
  | SvLock nat string string
  | SvEnd nat "string option"
  | SvRelease nat

definition on_node :: "nat \<Rightarrow> (Scheduler \<Rightarrow> Scheduler) \<Rightarrow> Cluster \<Rightarrow> Cluster" where
  "on_node i f c = (if i < length (nodes c) then c\<lparr>nodes := (nodes c)[i := f (nodes c ! i)]\<rparr> else c)"

text \<open>The next critical section of call \<open>g\<close>; an event that does not fit where the call stands changes nothing.\<close>

fun call_step :: "(string \<Rightarrow> int \<Rightarrow> int option) \<Rightarrow> int \<Rightarrow> sched_event \<Rightarrow> nat \<Rightarrow> job_run \<Rightarrow> Cluster \<Rightarrow> job_run \<times> Cluster" where
  "call_step cron now (SvRead g) i (GReady manual name) c = (executeJob_read manual name (nodes c ! i), c)"
| "call_step cron now (SvLock g nowString uuid) i (GRead manual name job) c =
     (let (r, a) = executeJob_lock (hasLocker (nodes c ! i)) nowString uuid now manual name job (locks c) in (r, c\<lparr>locks := a\<rparr>))"
| "call_step cron now (SvEnd g err) i (GRunning manual name l exec) c =
     (GDone l, on_node i (if manual then RunNow_end err now name exec else executeJob_end cron err now name exec) c)"
| "call_step cron now (SvRelease g) i (GDone l) c =
     (GGone, case l of None \<Rightarrow> c | Some k \<Rightarrow> c\<lparr>locks := snd (lock_Release k (locks c))\<rparr>)"
| "call_step cron now ev i r c = (r, c)"

definition at_call :: "(string \<Rightarrow> int \<Rightarrow> int option) \<Rightarrow> int \<Rightarrow> sched_event \<Rightarrow> nat \<Rightarrow> Cluster \<Rightarrow> Cluster" where
  "at_call cron now ev g c =
     (if g < length (gor c)
      then let (i, r) = gor c ! g; (r', c') = call_step cron now ev i r c in c'\<lparr>gor := (gor c')[g := (i, r')]\<rparr>
      else c)"

definition spawn :: "nat \<Rightarrow> bool \<Rightarrow> string list \<Rightarrow> Cluster \<Rightarrow> Cluster" where
  "spawn i manual names c = (if i < length (nodes c) then c\<lparr>gor := gor c @ map (\<lambda>name. (i, GReady manual name)) names\<rparr> else c)"

fun sched_apply :: "(string \<Rightarrow> int \<Rightarrow> int option) \<Rightarrow> int \<Rightarrow> sched_event \<Rightarrow> Cluster \<Rightarrow> Cluster" where
  "sched_apply cron now (SvSchedule i uuid name schedule handler) c = on_node i (\<lambda>s. fst (Schedule cron uuid now name schedule handler s)) c"
| "sched_apply cron now (SvOnce i uuid name runAt handler) c = on_node i (\<lambda>s. fst (ScheduleOnce uuid now name runAt handler s)) c"
| "sched_apply cron now (SvEnable i name) c = on_node i (\<lambda>s. fst (EnableJob name s)) c"
| "sched_apply cron now (SvDisable i name) c = on_node i (\<lambda>s. fst (DisableJob name s)) c"
| "sched_apply cron now (SvTick i ks) c = spawn i False (sched_tick ks now (nodes c ! i)) c"
| "sched_apply cron now (SvRunNow i name) c = spawn i True [name] c"
| "sched_apply cron now (SvRead g) c = at_call cron now (SvRead g) g c"
| "sched_apply cron now (SvLock g nowString uuid) c = at_call cron now (SvLock g nowString uuid) g c"
| "sched_apply cron now (SvEnd g err) c = at_call cron now (SvEnd g err) g c"
| "sched_apply cron now (SvRelease g) c = at_call cron now (SvRelease g) g c"

text \<open>Events with the times at which they happen.\<close>

fun sched_run :: "(string \<Rightarrow> int \<Rightarrow> int option) \<Rightarrow> (int \<times> sched_event) list \<Rightarrow> Cluster \<Rightarrow> Cluster" where
  "sched_run cron [] c = c"
| "sched_run cron ((now, ev) # evs) c = sched_run cron evs (sched_apply cron now ev c)"

section \<open>What the lock gives\<close>

text \<open>The lock that a call has acquired and not yet released.\<close>

fun run_lock :: "job_run \<Rightarrow> Lock option" where
  "run_lock (GRunning manual name l exec) = l"
| "run_lock (GDone l) = l"
| "run_lock r = None"

text \<open>A call stands well at time \<open>T\<close>: while it runs for less than an hour, the adapter has its entry.\<close>

fun call_ok :: "int \<Rightarrow> Adapter \<Rightarrow> job_run \<Rightarrow> bool" where
  "call_ok T a (GRead manual name job) \<longleftrightarrow> jobTimeout job = hour"
| "call_ok T a (GRunning manual name None exec) \<longleftrightarrow> False"
| "call_ok T a (GRunning manual name (Some l) exec) \<longleftrightarrow>
     lockKey l = ''workflow:scheduler:'' @ name \<and>
     (T < jxStartedAt exec + hour \<longrightarrow> a (lockKey l) = Some \<lparr>entryValue = lockValue l, expiresAt = jxStartedAt exec + hour\<rparr>)"
| "call_ok T a r \<longleftrightarrow> True"

definition node_ok :: "Scheduler \<Rightarrow> bool" where
  "node_ok s \<longleftrightarrow> hasLocker s \<and> (\<forall>name job. jobs s name = Some job \<longrightarrow> jobTimeout job = hour)"

definition cluster_inv :: "int \<Rightarrow> string set \<Rightarrow> Cluster \<Rightarrow> bool" where
  "cluster_inv T used c \<longleftrightarrow>
     (\<forall>s \<in> set (nodes c). node_ok s) \<and>
     (\<forall>g < length (gor c). fst (gor c ! g) < length (nodes c) \<and> call_ok T (locks c) (snd (gor c ! g)) \<and>
        (\<forall>l. run_lock (snd (gor c ! g)) = Some l \<longrightarrow> lockValue l \<in> used)) \<and>
     (\<forall>g < length (gor c). \<forall>h < length (gor c). \<forall>k l. g \<noteq> h \<longrightarrow> run_lock (snd (gor c ! g)) = Some k \<longrightarrow>
        run_lock (snd (gor c ! h)) = Some l \<longrightarrow> lockValue k \<noteq> lockValue l)"

fun lock_value :: "sched_event \<Rightarrow> string list" where
  "lock_value (SvLock g nowString uuid) = [nowString]"
| "lock_value ev = []"

lemma call_ok_later: "call_ok T a r \<Longrightarrow> T \<le> T' \<Longrightarrow> call_ok T' a r"
  by (cases "(T, a, r)" rule: call_ok.cases) auto

lemma cluster_inv_later: "cluster_inv T used c \<Longrightarrow> T \<le> T' \<Longrightarrow> cluster_inv T' used c"
  unfolding cluster_inv_def using call_ok_later by blast

lemma cluster_inv_New: "cluster_inv T {} (cluster_New n True)"
  by (auto simp: cluster_inv_def cluster_New_def node_ok_def sched_New_def)

lemma node_ok_steps:
  assumes "node_ok s"
  shows "node_ok (fst (Schedule cron uuid now name schedule handler s))" "node_ok (fst (ScheduleOnce uuid now name runAt handler s))"
    "node_ok (fst (EnableJob name s))" "node_ok (fst (DisableJob name s))" "node_ok (executeJob_end cron err now name exec s)"
    "node_ok (RunNow_end err now name exec s)"
  using assms
  by (auto simp: node_ok_def Schedule_def ScheduleOnce_def EnableJob_def DisableJob_def executeJob_end_def RunNow_end_def add_execution_def
      new_job_def Let_def split: option.splits if_splits)

lemma cluster_inv_on_node:
  assumes "cluster_inv T used c" "\<And>s. node_ok s \<Longrightarrow> node_ok (f s)"
  shows "cluster_inv T used (on_node i f c)"
proof (cases "i < length (nodes c)")
  case True
  have "\<forall>s \<in> set ((nodes c)[i := f (nodes c ! i)]). node_ok s"
    using assms(1) assms(2) [of "nodes c ! i"] True by (auto simp: cluster_inv_def dest: set_update_subset_insert [THEN subsetD])
  then show ?thesis
    using assms(1) True by (simp add: cluster_inv_def on_node_def)
qed (use assms(1) in \<open>simp add: on_node_def\<close>)

lemma cluster_inv_spawn:
  assumes "cluster_inv T used c"
  shows "cluster_inv T used (spawn i manual names c)"
proof (cases "i < length (nodes c)")
  case True
  let ?gs = "gor c @ map (\<lambda>name. (i, GReady manual name)) names"
  have new: "?gs ! h = (i, GReady manual (names ! (h - length (gor c))))" if "h < length ?gs" "\<not> h < length (gor c)" for h
    using that by (simp add: nth_append)
  have "fst (?gs ! h) < length (nodes c) \<and> call_ok T (locks c) (snd (?gs ! h)) \<and>
      (\<forall>l. run_lock (snd (?gs ! h)) = Some l \<longrightarrow> lockValue l \<in> used)" if "h < length ?gs" for h
    using assms new [OF that] True unfolding cluster_inv_def by (cases "h < length (gor c)") (simp_all add: nth_append)
  moreover have old: "h < length (gor c) \<and> run_lock (snd (gor c ! h)) = Some l"
    if "h < length ?gs" "run_lock (snd (?gs ! h)) = Some l" for h l
    using new [OF that(1)] that by (cases "h < length (gor c)") (simp_all add: nth_append)
  have "lockValue k \<noteq> lockValue l"
    if "g < length ?gs" "h < length ?gs" "g \<noteq> h" "run_lock (snd (?gs ! g)) = Some k" "run_lock (snd (?gs ! h)) = Some l" for g h k l
    using assms old [OF that(1,4)] old [OF that(2,5)] that(3) unfolding cluster_inv_def by blast
  ultimately show ?thesis
    using assms True unfolding cluster_inv_def spawn_def by simp
qed (use assms in \<open>simp add: spawn_def\<close>)

text \<open>A call moves on: the others keep their entries, and a lock that it has acquired has a value not seen before.\<close>

lemma cluster_inv_update:
  assumes inv: "cluster_inv T used c" and g: "g < length (gor c)" "gor c ! g = (i, r)" and used: "used \<subseteq> used'"
    and ok: "call_ok T a r'"
    and others: "\<And>h. h < length (gor c) \<Longrightarrow> h \<noteq> g \<Longrightarrow> call_ok T a (snd (gor c ! h))"
    and lock: "\<And>l. run_lock r' = Some l \<Longrightarrow> run_lock r = Some l \<or> lockValue l \<in> used' - used"
  shows "cluster_inv T used' (c\<lparr>locks := a, gor := (gor c)[g := (i, r')]\<rparr>)"
proof -
  have old: "lockValue l \<in> used" if "h < length (gor c)" "run_lock (snd (gor c ! h)) = Some l" for h l
    using inv that unfolding cluster_inv_def by blast
  have diff: "lockValue k \<noteq> lockValue l"
    if "run_lock r' = Some k" "h < length (gor c)" "h \<noteq> g" "run_lock (snd (gor c ! h)) = Some l" for h k l
    using lock [OF that(1)] old [OF that(2,4)] inv g that unfolding cluster_inv_def by (metis DiffD2 snd_conv)
  have "lockValue l \<in> used'" if "run_lock r' = Some l" for l
    using lock [OF that] old [OF g(1)] g(2) used by auto
  moreover have "i < length (nodes c)"
    using inv g unfolding cluster_inv_def by (metis fst_conv)
  ultimately have call: "fst ((gor c)[g := (i, r')] ! h) < length (nodes c) \<and> call_ok T a (snd ((gor c)[g := (i, r')] ! h)) \<and>
      (\<forall>l. run_lock (snd ((gor c)[g := (i, r')] ! h)) = Some l \<longrightarrow> lockValue l \<in> used')" if "h < length (gor c)" for h
    using inv ok others [OF that] old [OF that] used that unfolding cluster_inv_def by (cases "h = g") auto
  have "lockValue k \<noteq> lockValue l"
    if "f < length (gor c)" "h < length (gor c)" "f \<noteq> h" "run_lock (snd ((gor c)[g := (i, r')] ! f)) = Some k"
      "run_lock (snd ((gor c)[g := (i, r')] ! h)) = Some l" for f h k l
  proof -
    consider "f = g" | "h = g" | "f \<noteq> g" "h \<noteq> g"
      by blast
    then show ?thesis
    proof cases
      case 1
      then show ?thesis using diff [of k h l] that by simp
    next
      case 2
      then show ?thesis using diff [of l f k] that by simp
    next
      case 3
      then have "run_lock (snd (gor c ! f)) = Some k" "run_lock (snd (gor c ! h)) = Some l"
        using that by simp_all
      then show ?thesis using inv that(1-3) unfolding cluster_inv_def by blast
    qed
  qed
  then show ?thesis
    using inv call unfolding cluster_inv_def by simp
qed

lemma gor_on_node [simp]: "gor (on_node i f c) = gor c" "locks (on_node i f c) = locks c"
  by (simp_all add: on_node_def)

lemma on_node_locks [simp]: "(on_node i f c)\<lparr>locks := locks c, gor := gs\<rparr> = (on_node i f c)\<lparr>gor := gs\<rparr>"
  by (simp add: on_node_def)

lemma cluster_inv_call: "cluster_inv T used c \<Longrightarrow> h < length (gor c) \<Longrightarrow> call_ok T (locks c) (snd (gor c ! h))"
  by (simp add: cluster_inv_def)

lemma cluster_inv_used: "cluster_inv T used c \<Longrightarrow> used \<subseteq> used' \<Longrightarrow> cluster_inv T used' c"
  unfolding cluster_inv_def by blast

lemma Acquire_keeps:
  assumes "call_ok now a r" "lock_Acquire now l a = (ok, l', a')"
  shows "call_ok now a' r"
  using assms by (cases "(now, a, r)" rule: call_ok.cases) (auto simp: lock_Acquire_def split: if_splits)

lemma Release_keeps:
  assumes "call_ok T a r" "\<And>l. run_lock r = Some l \<Longrightarrow> lockValue k \<noteq> lockValue l"
  shows "call_ok T (snd (lock_Release k a)) r"
  using assms by (cases "(T, a, r)" rule: call_ok.cases) (auto simp: lock_Release_def split: option.splits)

lemma executeJob_lock_ok:
  assumes "jobTimeout job = hour" "executeJob_lock True nowString uuid now manual name job a = (r, a')"
  shows "call_ok now a' r" "run_lock r = Some l \<Longrightarrow> lockValue l = nowString"
  using assms by (auto simp: executeJob_lock_def lock_Acquire_def NewLock_def Let_def hour_def split: if_splits)

lemma executeJob_lock_keeps:
  assumes "call_ok now a q" "executeJob_lock locker nowString uuid now manual name job a = (r, a')"
  shows "call_ok now a' q"
  using assms Acquire_keeps [OF assms(1)] by (auto simp: executeJob_lock_def Let_def split: if_splits prod.splits)

lemma executeJob_read_ok: "node_ok s \<Longrightarrow> call_ok T a (executeJob_read manual name s) \<and> run_lock (executeJob_read manual name s) = None"
  by (auto simp: executeJob_read_def node_ok_def split: option.splits)

lemma cluster_inv_at_call:
  assumes inv: "cluster_inv now used c" and fresh: "set (lock_value ev) \<inter> used = {}"
  shows "cluster_inv now (used \<union> set (lock_value ev)) (at_call cron now ev g c)"
proof (cases "g < length (gor c)")
  case g: True
  obtain i r where r: "gor c ! g = (i, r)"
    by fastforce
  have i: "node_ok (nodes c ! i)"
    using inv g r unfolding cluster_inv_def by (metis fst_conv nth_mem)
  have calls: "call_ok now (locks c) (snd (gor c ! h))" if "h < length (gor c)" for h
    using cluster_inv_call [OF inv that] .
  note upd = cluster_inv_update [OF inv g r]
  have same: "c\<lparr>gor := (gor c)[g := (i, r)]\<rparr> = c"
    using r by (metis (no_types) Cluster.surjective Cluster.update_convs(3) list_update_id)
  show ?thesis
  proof (cases "(cron, now, ev, i, r, c)" rule: call_step.cases)
    case (1 cron' now' g' i' manual name c')
    then show ?thesis
      using upd [of used "locks c" "executeJob_read manual name (nodes c ! i)"] executeJob_read_ok [OF i] calls g r
      by (simp add: at_call_def)
  next
    case (2 cron' now' g' nowString uuid i' manual name job c')
    obtain q a where q: "executeJob_lock True nowString uuid now manual name job (locks c) = (q, a)"
      by fastforce
    have "jobTimeout job = hour"
      using calls [OF g] r 2 by simp
    note ok = executeJob_lock_ok [OF this q]
    have "hasLocker (nodes c ! i)"
      using i by (simp add: node_ok_def)
    then show ?thesis
      using upd [of "insert nowString used" a q, OF _ ok(1) executeJob_lock_keeps [OF calls q]] ok(2) fresh g r q 2
      by (auto simp: at_call_def)
  next
    case (3 cron' now' g' err i' manual name l exec c')
    let ?f = "if manual then RunNow_end err now name exec else executeJob_end cron err now name exec"
    have "cluster_inv now used (on_node i ?f c)"
      by (rule cluster_inv_on_node [OF inv]) (simp add: node_ok_steps)
    from cluster_inv_update [OF this, of g i r used "locks c" "GDone l"] show ?thesis
      using calls g r 3 by (cases manual) (simp_all add: at_call_def)
  next
    case (4 cron' now' g' i' l c')
    show ?thesis
    proof (cases l)
      case None
      then show ?thesis
        using upd [of used "locks c" GGone] calls g r 4 by (simp add: at_call_def)
    next
      case (Some k)
      have "lockValue k \<noteq> lockValue l'" if "h < length (gor c)" "h \<noteq> g" "run_lock (snd (gor c ! h)) = Some l'" for h l'
        using inv g r 4 Some that unfolding cluster_inv_def by (metis Pair_inject run_lock.simps(2) snd_conv)
      then have "call_ok now (snd (lock_Release k (locks c))) (snd (gor c ! h))" if "h < length (gor c)" "h \<noteq> g" for h
        using Release_keeps [OF calls] that by blast
      then show ?thesis
        using upd [of used "snd (lock_Release k (locks c))" GGone] g r 4 Some by (simp add: at_call_def)
    qed
  qed (use g r same cluster_inv_used [OF inv] in \<open>auto simp: at_call_def\<close>)
qed (use cluster_inv_used [OF inv] in \<open>auto simp: at_call_def\<close>)

lemma cluster_inv_step:
  assumes "cluster_inv now used c" "set (lock_value ev) \<inter> used = {}"
  shows "cluster_inv now (used \<union> set (lock_value ev)) (sched_apply cron now ev c)"
  using assms cluster_inv_at_call [OF assms]
  by (cases ev) (simp_all add: cluster_inv_on_node cluster_inv_spawn node_ok_steps)

lemma cluster_inv_run:
  assumes "cluster_inv T0 used c" "sorted (map fst evs)" "\<And>e. e \<in> set evs \<Longrightarrow> T0 \<le> fst e \<and> fst e \<le> T" "T0 \<le> T"
    "distinct (concat (map (lock_value \<circ> snd) evs))" "set (concat (map (lock_value \<circ> snd) evs)) \<inter> used = {}"
  shows "\<exists>used'. cluster_inv T used' (sched_run cron evs c)"
  using assms
proof (induction evs arbitrary: T0 used c)
  case Nil
  then show ?case
    using cluster_inv_later [OF Nil.prems(1,4)] by auto
next
  case (Cons e evs)
  obtain now ev where e: "e = (now, ev)"
    by fastforce
  have "cluster_inv now used c"
    using cluster_inv_later [OF Cons.prems(1)] Cons.prems(3) [of e] e by simp
  then have "cluster_inv now (used \<union> set (lock_value ev)) (sched_apply cron now ev c)"
    using cluster_inv_step Cons.prems(6) e by (simp add: Int_Un_distrib2)
  from Cons.IH [OF this] show ?case
    using Cons.prems(2-) Cons.prems(3) [of e] e by (simp add: Int_Un_distrib Int_Un_distrib2 Int_commute)
qed

text \<open>The calls of a one-time job for time 5, the second of them read when the first is over.\<close>

definition twice :: "(int \<times> sched_event) list \<Rightarrow> (int \<times> sched_event) list" where
  "twice ticks = ticks @
     [(11, SvRead 0), (12, SvLock 0 ''a'' ''x0''), (70, SvEnd 0 None), (71, SvRelease 0),
      (72, SvRead 1), (73, SvLock 1 ''b'' ''x1''), (80, SvEnd 1 None), (81, SvRelease 1)]"

lemmas sched_eval = twice_def cluster_New_def sched_New_def on_node_def spawn_def at_call_def sched_tick_def ScheduleOnce_def new_job_def
  executeJob_read_def executeJob_lock_def executeJob_end_def add_execution_def job_outcome_def NewLock_def lock_Acquire_def lock_Release_def
  map_filter_simps hour_def Let_def numeral_2_eq_2

text \<open>A scheduled call, and a call by \<^verbatim>\<open>RunNow\<close> that takes the lock when it expires.\<close>

definition overlap :: "(int \<times> sched_event) list" where
  "overlap =
     [(0, SvOnce 0 ''j0'' ''job'' 5 True), (10, SvTick 0 [''job'']), (11, SvRunNow 0 ''job''), (11, SvRead 0), (11, SvRead 1),
      (12, SvLock 0 ''a'' ''x0''), (12 + hour, SvLock 1 ''b'' ''x1'')]"

definition started :: "string \<Rightarrow> int \<Rightarrow> JobExecution" where
  "started uuid now = \<lparr>jxID = uuid, jxJobID = ''j0'', jxStatus = JobRunning, jxError = '''', jxStartedAt = now, jxCompletedAt = 0\<rparr>"

lemma overlap_calls:
  "\<exists>l l'. gor (sched_run cron overlap (cluster_New 1 True)) =
     [(0, GRunning False ''job'' (Some l) (started ''x0'' 12)), (0, GRunning True ''job'' (Some l') (started ''x1'' (12 + hour)))]"
  by (simp add: sched_eval overlap_def started_def)



text \<open>
  C36: The lock does not make a due job run once.  Two nodes share a locker and have a one-time job for time 5; both tick at time 10.  The call of the
  second node reads its job after the first node has run the handler and released the lock, and runs it again: no call looks again whether the job is
  due.  With one node and a second tick while the first call runs, the one-time job runs twice on that node.
\<close>

theorem scheduler_repeats:
  "(\<exists>evs c. sorted (map fst evs) \<and> distinct (concat (map (lock_value \<circ> snd) evs)) \<and> sched_run cron evs (cluster_New 2 True) = c \<and>
      map_option (map jxStatus) (jobExecutions (nodes c ! 0) ''job'') = Some [JobCompleted] \<and>
      map_option (map jxStatus) (jobExecutions (nodes c ! 1) ''job'') = Some [JobCompleted]) \<and>
   (\<exists>evs c. sorted (map fst evs) \<and> distinct (concat (map (lock_value \<circ> snd) evs)) \<and> sched_run cron evs (cluster_New 1 True) = c \<and>
      map_option (map jxStatus) (jobExecutions (nodes c ! 0) ''job'') = Some [JobCompleted, JobCompleted] \<and>
      map_option jobSchedule (jobs (nodes c ! 0) ''job'') = Some ''once'')"
  (is "?nodes \<and> ?node")
proof
  show ?nodes
    by (rule exI [of _ "twice [(0, SvOnce 0 ''j0'' ''job'' 5 True), (0, SvOnce 1 ''j1'' ''job'' 5 True), (10, SvTick 0 [''job'']), (10, SvTick 1 [''job''])]"])
      (simp add: sched_eval)
  show ?node
    by (rule exI [of _ "twice [(0, SvOnce 0 ''j0'' ''job'' 5 True), (10, SvTick 0 [''job'']), (11, SvTick 0 [''job''])]"])
      (simp add: sched_eval)
qed

end
